(* ===== verification/Prelude.thy ===== *)
theory Prelude
  imports Main "HOL-Library.Word"
begin

text \<open>
  The shared library of the development: the machine's integer types, the outcome of a
  kernel routine and the state-passing combinators every routine is written with, the
  little-endian encoding of integers in byte arrays (on-disk structures are read and
  written through it), paths along pointer fields, and the generic list, map and word
  lemmas that the component theories use.
\<close>

unbundle bit_operations_syntax

named_theorems ok_simps "equations for a kernel routine that returns"
named_theorems frame_simps "which parts of the state an update leaves alone"
named_theorems layout_simps "numeric constants of the system"

section \<open>Machine types\<close>

text \<open>
  \<^verbatim>\<open>types.h\<close>: \<open>uint\<close> is unsigned int, \<open>ushort\<close> unsigned short and
  \<open>uchar\<close> unsigned char; a C \<open>int\<close> whose value is only counted with is an
  HOL \<open>int\<close>, and a C \<open>int\<close> that is read from user memory or converted to
  \<open>uint\<close> is a \<open>32 word\<close> read by \<open>sint\<close>.
\<close>

type_synonym uint32 = "32 word"
type_synonym ushort = "16 word"
type_synonym byte = "8 word"

text \<open>A C \<open>int\<close> of 32 bits that is counted up past its largest value wraps around.\<close>

definition wrap_int :: "int \<Rightarrow> int" where
  "wrap_int z = (z + 2 ^ 31) mod 2 ^ 32 - 2 ^ 31"

lemma wrap_int_id: "- 2147483648 \<le> z \<Longrightarrow> z < 2147483648 \<Longrightarrow> wrap_int z = z"
  by (simp add: wrap_int_def)

section \<open>Kernel routines\<close>

text \<open>
  A routine takes the state and ends in one of these ways: it returns a value; it calls
  \<open>panic\<close> with a message; it hands the processor to the scheduler (\<open>swtch\<close>);
  it spins on a lock or on a device that does not become free in this state; or it
  does something C leaves undefined (a null pointer is followed, an array is indexed
  past its end).
\<close>

datatype ('s, 'a) outcome =
    Ok 'a 's
  | Panic string 's
  | Swtch 's
  | Spin 's
  | Fault string 's

type_synonym ('s, 'a) routine = "'s \<Rightarrow> ('s, 'a) outcome"

definition return :: "'a \<Rightarrow> ('s, 'a) routine" where
  "return a = (\<lambda>s. Ok a s)"

definition bind :: "('s, 'a) routine \<Rightarrow> ('a \<Rightarrow> ('s, 'b) routine) \<Rightarrow> ('s, 'b) routine" where
  "bind m f = (\<lambda>s. case m s of
      Ok a t \<Rightarrow> f a t
    | Panic e t \<Rightarrow> Panic e t
    | Swtch t \<Rightarrow> Swtch t
    | Spin t \<Rightarrow> Spin t
    | Fault e t \<Rightarrow> Fault e t)"

definition andthen :: "('s, 'a) routine \<Rightarrow> ('s, 'b) routine \<Rightarrow> ('s, 'b) routine" where
  "andthen m k = bind m (\<lambda>_. k)"

definition gets :: "('s \<Rightarrow> 'a) \<Rightarrow> ('s, 'a) routine" where
  "gets f = (\<lambda>s. Ok (f s) s)"

definition modify :: "('s \<Rightarrow> 's) \<Rightarrow> ('s, unit) routine" where
  "modify f = (\<lambda>s. Ok () (f s))"

definition panic :: "string \<Rightarrow> ('s, 'a) routine" where
  "panic e = (\<lambda>s. Panic e s)"

definition fault :: "string \<Rightarrow> ('s, 'a) routine" where
  "fault e = (\<lambda>s. Fault e s)"

definition panic_if :: "bool \<Rightarrow> string \<Rightarrow> ('s, unit) routine" where
  "panic_if c e = (if c then panic e else return ())"

definition do_if :: "bool \<Rightarrow> ('s, unit) routine \<Rightarrow> ('s, unit) routine" where
  "do_if c m = (if c then m else return ())"

text \<open>A \<open>for\<close> loop over a list of indices; the body may end the routine.\<close>

fun foreach :: "'i list \<Rightarrow> ('i \<Rightarrow> ('s, unit) routine) \<Rightarrow> ('s, unit) routine" where
  "foreach [] body = return ()"
| "foreach (i # is) body = andthen (body i) (foreach is body)"

text \<open>The same routine several times in a row, with the list of its results.\<close>

fun repeat :: "nat \<Rightarrow> ('s, 'a) routine \<Rightarrow> ('s, 'a list) routine" where
  "repeat 0 m = return []"
| "repeat (Suc n) m = bind m (\<lambda>x. bind (repeat n m) (\<lambda>xs. return (x # xs)))"

lemma return_app [simp, ok_simps]: "return a s = Ok a s"
  by (simp add: return_def)

lemma gets_app [simp, ok_simps]: "gets f s = Ok (f s) s"
  by (simp add: gets_def)

lemma modify_app [simp, ok_simps]: "modify f s = Ok () (f s)"
  by (simp add: modify_def)

lemma panic_app [simp, ok_simps]: "panic e s = Panic e s"
  by (simp add: panic_def)

lemma fault_app [simp, ok_simps]: "fault e s = Fault e s"
  by (simp add: fault_def)

lemma bind_app: "bind m f s = (case m s of Ok a t \<Rightarrow> f a t | Panic e t \<Rightarrow> Panic e t
    | Swtch t \<Rightarrow> Swtch t | Spin t \<Rightarrow> Spin t | Fault e t \<Rightarrow> Fault e t)"
  by (simp add: bind_def)

lemma andthen_app: "andthen m k s = (case m s of Ok a t \<Rightarrow> k t | Panic e t \<Rightarrow> Panic e t
    | Swtch t \<Rightarrow> Swtch t | Spin t \<Rightarrow> Spin t | Fault e t \<Rightarrow> Fault e t)"
  by (simp add: andthen_def bind_def)

lemma bind_return [simp]: "bind (return a) f = f a"
  by (simp add: bind_def return_def)

lemma bind_gets [simp]: "bind (gets g) f s = f (g s) s"
  by (simp add: bind_def)

lemma andthen_modify [simp]: "andthen (modify g) k s = k (g s)"
  by (simp add: andthen_app)

lemma andthen_return [simp]: "andthen (return a) k = k"
  by (simp add: andthen_def)

lemma andthen_unit [simp]: "andthen m (return ()) = m"
  by (auto simp: fun_eq_iff andthen_app split: outcome.splits)

lemma andthen_assoc: "andthen (andthen a b) c = andthen a (andthen b c)"
  by (auto simp: fun_eq_iff andthen_app split: outcome.splits)

lemma bind_Ok [simp]: "m s = Ok a t \<Longrightarrow> bind m f s = f a t"
  by (simp add: bind_def)

lemma andthen_Ok [simp]: "m s = Ok a t \<Longrightarrow> andthen m k s = k t"
  by (simp add: andthen_app)

lemma bind_panic [simp]: "m s = Panic e t \<Longrightarrow> bind m f s = Panic e t"
  by (simp add: bind_def)

lemma andthen_panic [simp]: "m s = Panic e t \<Longrightarrow> andthen m k s = Panic e t"
  by (simp add: andthen_app)

lemma bind_Swtch [simp]: "m s = Swtch t \<Longrightarrow> bind m f s = Swtch t"
  by (simp add: bind_def)

lemma andthen_Swtch [simp]: "m s = Swtch t \<Longrightarrow> andthen m k s = Swtch t"
  by (simp add: andthen_app)

lemma panic_if_False [simp, ok_simps]: "panic_if False e = return ()"
  by (simp add: panic_if_def)

lemma panic_if_True [simp, ok_simps]: "panic_if True e = panic e"
  by (simp add: panic_if_def)

lemma do_if_True [simp, ok_simps]: "do_if True m = m"
  by (simp add: do_if_def)

lemma do_if_False [simp, ok_simps]: "do_if False m = return ()"
  by (simp add: do_if_def)

lemma bind_eq_Ok:
  "bind m f s = Ok b u \<longleftrightarrow> (\<exists>a t. m s = Ok a t \<and> f a t = Ok b u)"
  by (auto simp: bind_def split: outcome.splits)

lemma andthen_eq_Ok:
  "andthen m k s = Ok b u \<longleftrightarrow> (\<exists>a t. m s = Ok a t \<and> k t = Ok b u)"
  by (auto simp: andthen_def bind_eq_Ok)

lemma panic_if_eq_Ok [simp]: "panic_if c e s = Ok a t \<longleftrightarrow> \<not> c \<and> t = s"
  by (auto simp: panic_if_def)

text \<open>
  Total correctness: \<open>returns m s Q\<close> says that the routine does return, with a value
  and a state that satisfy \<open>Q\<close>.
\<close>

definition returns :: "('s, 'a) routine \<Rightarrow> 's \<Rightarrow> ('a \<Rightarrow> 's \<Rightarrow> bool) \<Rightarrow> bool" where
  "returns m s Q \<longleftrightarrow> (case m s of Ok a t \<Rightarrow> Q a t | _ \<Rightarrow> False)"

lemma returnsI: "m s = Ok a t \<Longrightarrow> Q a t \<Longrightarrow> returns m s Q"
  by (simp add: returns_def)

lemma returnsE:
  assumes "returns m s Q"
  obtains a t where "m s = Ok a t" and "Q a t"
  using assms by (cases "m s") (auto simp: returns_def)

lemma returns_iff: "returns m s Q \<longleftrightarrow> (\<exists>a t. m s = Ok a t \<and> Q a t)"
  by (auto simp: returns_def split: outcome.splits)

lemma returns_basic [simp]:
  "returns (gets f) s Q = Q (f s) s" "returns (modify g) s Q' = Q' () (g s)" "returns (return a) s Q'' = Q'' a s"
  by (simp_all add: returns_def)

lemma returns_bind: "returns (bind m f) s Q \<longleftrightarrow> returns m s (\<lambda>a t. returns (f a) t Q)"
  by (auto simp: returns_def bind_def split: outcome.splits)

lemma returns_andthen: "returns (andthen m k) s Q \<longleftrightarrow> returns m s (\<lambda>_ t. returns k t Q)"
  by (simp add: andthen_def returns_bind)

lemma returns_mono: "returns m s P \<Longrightarrow> (\<And>a t. P a t \<Longrightarrow> Q a t) \<Longrightarrow> returns m s Q"
  by (auto simp: returns_def split: outcome.splits)

text \<open>A loop keeps an invariant that each turn of its body keeps.\<close>

lemma foreach_returns:
  assumes "I 0 s"
    and "\<And>k t. k < length is \<Longrightarrow> I k t \<Longrightarrow> returns (body (is ! k)) t (\<lambda>_ u. I (Suc k) u)"
  shows "returns (foreach is body) s (\<lambda>_ t. I (length is) t)"
  using assms
proof (induction "is" arbitrary: s I)
  case Nil
  then show ?case by (simp add: returns_def)
next
  case (Cons i "is")
  have "returns (body i) s (\<lambda>_ t. I (Suc 0) t)"
    using Cons.prems(2) [of 0 s] Cons.prems(1) by simp
  moreover have "returns (foreach is body) t (\<lambda>_ u. I (Suc (length is)) u)" if "I (Suc 0) t" for t
    using Cons.IH [of "\<lambda>k. I (Suc k)" t] that Cons.prems(2) [of "Suc _"] by simp
  ultimately show ?case
    by (auto simp: returns_andthen elim: returns_mono)
qed

lemma foreach_append:
  "foreach (xs @ ys) body = andthen (foreach xs body) (foreach ys body)"
  by (induction xs) (auto simp: fun_eq_iff andthen_app split: outcome.splits)

lemma foreach_fold:
  assumes "\<And>i s. i \<in> set is \<Longrightarrow> body i s = Ok () (g i s)"
  shows "foreach is body s = Ok () (fold g is s)"
  using assms by (induction "is" arbitrary: s) simp_all

text \<open>Statements in sequence.\<close>

fun seq :: "('s, unit) routine list \<Rightarrow> ('s, unit) routine" where
  "seq [] = return ()"
| "seq (m # ms) = andthen m (seq ms)"

section \<open>Paths along a pointer field\<close>

text \<open>
  \<open>ptr_path f a xs z\<close>: following \<open>f\<close> from the node \<open>a\<close> visits exactly the
  nodes \<open>xs\<close> and then arrives at \<open>z\<close>.
\<close>

fun ptr_path :: "('n \<Rightarrow> 'n) \<Rightarrow> 'n \<Rightarrow> 'n list \<Rightarrow> 'n \<Rightarrow> bool" where
  "ptr_path f a [] z \<longleftrightarrow> f a = z"
| "ptr_path f a (x # xs) z \<longleftrightarrow> f a = x \<and> ptr_path f x xs z"

lemma ptr_path_append:
  "ptr_path f a (xs @ y # ys) z \<longleftrightarrow> ptr_path f a xs y \<and> ptr_path f y ys z"
  by (induction xs arbitrary: a) auto

lemma ptr_path_upd:
  "u \<noteq> a \<Longrightarrow> u \<notin> set xs \<Longrightarrow> ptr_path (f(u := v)) a xs z \<longleftrightarrow> ptr_path f a xs z"
  by (induction xs arbitrary: a) auto

lemma ptr_path_cong:
  "(\<And>n. n = a \<or> n \<in> set xs \<Longrightarrow> f n = g n) \<Longrightarrow> ptr_path f a xs z \<longleftrightarrow> ptr_path g a xs z"
  by (induction xs arbitrary: a) auto

lemma ptr_path_first: "ptr_path f a xs z \<Longrightarrow> f a = hd (xs @ [z])"
  by (cases xs) auto

text \<open>Redirecting the last node of a path.\<close>

lemma ptr_path_upd_last:
  assumes "ptr_path f a xs z" "distinct (a # xs)"
  shows "ptr_path (f(last (a # xs) := w)) a xs w"
  using assms
proof (induction xs arbitrary: a)
  case Nil
  then show ?case by simp
next
  case (Cons x xs)
  then have "last (x # xs) \<noteq> a"
    by (metis distinct.simps(2) last_in_set list.distinct(1))
  with Cons show ?case by auto
qed

section \<open>Integers in byte arrays\<close>

text \<open>
  The processor is little-endian, and structures on disk and in memory are byte
  sequences. \<open>get16\<close>, \<open>get32\<close> read an unsigned integer at a byte offset,
  \<open>put16\<close>, \<open>put32\<close> store one.
\<close>

definition byte_of :: "nat \<Rightarrow> 'a::len word \<Rightarrow> byte" where
  "byte_of k w = ucast (drop_bit (8 * k) w)"

definition get16 :: "byte list \<Rightarrow> nat \<Rightarrow> ushort" where
  "get16 bs off = ucast (bs ! off) OR push_bit 8 (ucast (bs ! Suc off))"

definition get32 :: "byte list \<Rightarrow> nat \<Rightarrow> uint32" where
  "get32 bs off = ucast (bs ! off) OR push_bit 8 (ucast (bs ! (off + 1)))
     OR push_bit 16 (ucast (bs ! (off + 2))) OR push_bit 24 (ucast (bs ! (off + 3)))"

definition put16 :: "byte list \<Rightarrow> nat \<Rightarrow> ushort \<Rightarrow> byte list" where
  "put16 bs off w = bs[off := byte_of 0 w, Suc off := byte_of 1 w]"

definition put32 :: "byte list \<Rightarrow> nat \<Rightarrow> uint32 \<Rightarrow> byte list" where
  "put32 bs off w = bs[off := byte_of 0 w, off + 1 := byte_of 1 w,
     off + 2 := byte_of 2 w, off + 3 := byte_of 3 w]"

lemma length_put16 [simp]: "length (put16 bs off w) = length bs"
  by (simp add: put16_def)

lemma length_put32 [simp]: "length (put32 bs off w) = length bs"
  by (simp add: put32_def)

lemma word16_bytes:
  "ucast (byte_of 0 w) OR push_bit 8 (ucast (byte_of 1 w)) = (w :: ushort)"
  by (rule bit_word_eqI) (auto simp: byte_of_def bit_simps)

lemma word32_bytes:
  "ucast (byte_of 0 w) OR push_bit 8 (ucast (byte_of 1 w))
     OR push_bit 16 (ucast (byte_of 2 w)) OR push_bit 24 (ucast (byte_of 3 w)) = (w :: uint32)"
proof (rule bit_word_eqI)
  fix n assume "n < LENGTH(32)"
  then consider "n < 8" | "8 \<le> n" "n < 16" | "16 \<le> n" "n < 24" | "24 \<le> n" "n < 32"
    by fastforce
  then show "bit (ucast (byte_of 0 w) OR push_bit 8 (ucast (byte_of 1 w))
     OR push_bit 16 (ucast (byte_of 2 w)) OR push_bit 24 (ucast (byte_of 3 w)) :: uint32) n = bit w n"
    by cases (auto simp: byte_of_def bit_simps)
qed

lemma get32_put32 [simp]: "off + 3 < length bs \<Longrightarrow> get32 (put32 bs off w) off = w"
  using word32_bytes [of w] by (simp add: get32_def put32_def nth_list_update)

lemma get16_put16 [simp]: "off + 1 < length bs \<Longrightarrow> get16 (put16 bs off w) off = w"
  using word16_bytes [of w] by (simp add: get16_def put16_def nth_list_update)

lemma get32_put32_other:
  "off + 3 < off' \<or> off' + 3 < off \<Longrightarrow> get32 (put32 bs off w) off' = get32 bs off'"
  by (auto simp: get32_def put32_def nth_list_update)

lemma get32_put16_other:
  "off + 1 < off' \<or> off' + 3 < off \<Longrightarrow> get32 (put16 bs off w) off' = get32 bs off'"
  by (auto simp: get32_def put16_def nth_list_update)

lemma get16_put32_other:
  "off + 3 < off' \<or> off' + 1 < off \<Longrightarrow> get16 (put32 bs off w) off' = get16 bs off'"
  by (auto simp: get16_def put32_def nth_list_update)

lemma get16_put16_other:
  "off + 1 < off' \<or> off' + 1 < off \<Longrightarrow> get16 (put16 bs off w) off' = get16 bs off'"
  by (auto simp: get16_def put16_def nth_list_update)

lemma nth_put32:
  "i < off \<or> off + 3 < i \<Longrightarrow> put32 bs off w ! i = bs ! i"
  by (auto simp: put32_def nth_list_update)

lemma nth_put16:
  "i < off \<or> off + 1 < i \<Longrightarrow> put16 bs off w ! i = bs ! i"
  by (auto simp: put16_def nth_list_update)

text \<open>Replace \<open>length ys\<close> bytes of an array from an offset on (\<open>memmove\<close> into it).\<close>

definition splice :: "byte list \<Rightarrow> nat \<Rightarrow> byte list \<Rightarrow> byte list" where
  "splice bs off ys = take off bs @ ys @ drop (off + length ys) bs"

definition slice :: "nat \<Rightarrow> nat \<Rightarrow> 'a list \<Rightarrow> 'a list" where
  "slice off n bs = take n (drop off bs)"

lemma length_splice [simp]: "off + length ys \<le> length bs \<Longrightarrow> length (splice bs off ys) = length bs"
  by (simp add: splice_def)

lemma length_slice [simp]: "off + n \<le> length bs \<Longrightarrow> length (slice off n bs) = n"
  by (simp add: slice_def)

lemma slice_splice [simp]:
  "off + length ys \<le> length bs \<Longrightarrow> n = length ys \<Longrightarrow> slice off n (splice bs off ys) = ys"
  by (simp add: slice_def splice_def)

lemma nth_splice:
  "off + length ys \<le> length bs \<Longrightarrow> i < length bs \<Longrightarrow>
   splice bs off ys ! i = (if off \<le> i \<and> i < off + length ys then ys ! (i - off) else bs ! i)"
  by (auto simp: splice_def nth_append min_def)

section \<open>Words\<close>

lemma unat_of_nat32: "n < 2 ^ 32 \<Longrightarrow> unat (of_nat n :: uint32) = n"
  by (simp add: unat_of_nat take_bit_nat_eq_self)

lemma unat_lt_2p32: "unat (w :: uint32) < 2 ^ 32"
  using unsigned_less [where ?'a = nat, of w] by simp

lemma sint_cases: "sint (x :: uint32) = (if uint x < 2 ^ 31 then uint x else uint x - 2 ^ 32)"
proof -
  have b: "0 \<le> uint x" "uint x < 2 ^ 32" using unsigned_less [where ?'a = int, of x] by simp_all
  have "sint x = (uint x + 2 ^ 31) mod 2 ^ 32 - 2 ^ 31"
    by (simp add: sint_uint signed_take_bit_eq_take_bit_shift take_bit_eq_mod)
  moreover have "(uint x + 2 ^ 31) mod 2 ^ 32 = uint x + 2 ^ 31 - 2 ^ 32" if "\<not> uint x < 2 ^ 31"
    using that b mod_add_self2 [of "uint x + 2 ^ 31 - 2 ^ 32" "2 ^ 32"] by (simp add: add.commute)
  ultimately show ?thesis using b by simp
qed

lemma neg_word: "sint (x :: uint32) < 0 \<Longrightarrow> int (unat (- x)) = - sint x"
proof -
  assume neg: "sint x < 0"
  have b: "0 \<le> uint x" "uint x < 2 ^ 32" using unsigned_less [where ?'a = int, of x] by simp_all
  have u: "sint x = uint x - 2 ^ 32" "0 < uint x" using neg b by (auto simp: sint_cases split: if_splits)
  have "int (unat (- x)) = (- uint x) mod 2 ^ 32" by (simp add: uint_word_ariths)
  also have "\<dots> = 2 ^ 32 - uint x" using b u(2) by (simp add: zmod_zminus1_eq_if)
  finally show ?thesis using u by simp
qed

section \<open>Lists\<close>

lemma find_from_perm:
  assumes "set xs = set ys" "\<And>i j. i \<in> set xs \<Longrightarrow> j \<in> set xs \<Longrightarrow> P i \<Longrightarrow> P j \<Longrightarrow> i = j"
  shows "find P xs = find P ys"
proof (cases "find P xs")
  case None
  then have "find P ys = None" using assms(1) by (simp add: find_None_iff)
  with None show ?thesis by simp
next
  case (Some i)
  then have i: "P i" "i \<in> set xs" by (auto simp: find_Some_iff)
  then obtain j where "find P ys = Some j" using assms(1)
    by (cases "find P ys") (auto simp: find_None_iff)
  moreover from this have "P j" "j \<in> set ys" by (auto simp: find_Some_iff)
  ultimately show ?thesis using Some i assms by auto
qed

lemma fold_list_update:
  assumes "n \<le> length xs"
  shows "fold (\<lambda>i xs. xs[i := f (xs ! i)]) [0..<n] xs = map f (take n xs) @ drop n xs"
  using assms
proof (induction n)
  case (Suc n)
  then show ?case
    by (simp add: nth_append take_Suc_conv_app_nth list_update_append Cons_nth_drop_Suc [symmetric])
qed simp

lemma find_upt_Some:
  "find P [0..<n] = Some i \<longleftrightarrow> i < n \<and> P i \<and> (\<forall>j<i. \<not> P j)"
  by (auto simp: find_Some_iff)

lemma find_upt_None: "find P [0..<n] = None \<longleftrightarrow> (\<forall>i<n. \<not> P i)"
  by (auto simp: find_None_iff)

end
