(* ===== verification/Mmu.thy ===== *)
theory Mmu
  imports Prelude
begin

text \<open>
  The constants of \<^verbatim>\<open>param.h\<close>, \<^verbatim>\<open>fs.h\<close> and \<^verbatim>\<open>memlayout.h\<close>, and the
  macros of \<^verbatim>\<open>mmu.h\<close>: page rounding, the three-part structure of a virtual
  address, page-table entries, segment descriptors and gate descriptors. Each macro is
  the C expression on 32-bit words; the lemmas say what the expressions compute.
\<close>

unbundle bit_operations_syntax

section \<open>Sizes\<close>

definition NPROC :: nat where "NPROC = 64"
definition KSTACKSIZE :: uint32 where "KSTACKSIZE = 4096"
definition NCPU :: nat where "NCPU = 8"
definition NOFILE :: nat where "NOFILE = 16"
definition NFILE :: nat where "NFILE = 100"
definition NINODE :: nat where "NINODE = 50"
definition NDEV :: nat where "NDEV = 10"
definition ROOTDEV :: uint32 where "ROOTDEV = 1"
definition MAXARG :: nat where "MAXARG = 32"
definition MAXOPBLOCKS :: int where "MAXOPBLOCKS = 10"
definition LOGSIZE :: int where "LOGSIZE = MAXOPBLOCKS * 3"
definition NBUF :: nat where "NBUF = nat (MAXOPBLOCKS * 3)"
definition FSSIZE :: int where "FSSIZE = 1000"

definition ROOTINO :: uint32 where "ROOTINO = 1"
definition BSIZE :: nat where "BSIZE = 512"
definition NDIRECT :: nat where "NDIRECT = 12"
definition NINDIRECT :: nat where "NINDIRECT = BSIZE div 4"
definition MAXFILE :: nat where "MAXFILE = NDIRECT + NINDIRECT"
definition DIRSIZ :: nat where "DIRSIZ = 14"
definition dinode_size :: nat where "dinode_size = 64"
definition dirent_size :: nat where "dirent_size = 16"
definition IPB :: nat where "IPB = BSIZE div dinode_size"
definition BPB :: nat where "BPB = BSIZE * 8"

declare NPROC_def [layout_simps] KSTACKSIZE_def [layout_simps] NCPU_def [layout_simps]
  NOFILE_def [layout_simps] NFILE_def [layout_simps] NINODE_def [layout_simps]
  NDEV_def [layout_simps] ROOTDEV_def [layout_simps] MAXARG_def [layout_simps]
  MAXOPBLOCKS_def [layout_simps] LOGSIZE_def [layout_simps] NBUF_def [layout_simps]
  FSSIZE_def [layout_simps] ROOTINO_def [layout_simps] BSIZE_def [layout_simps]
  NDIRECT_def [layout_simps] NINDIRECT_def [layout_simps] MAXFILE_def [layout_simps]
  DIRSIZ_def [layout_simps] dinode_size_def [layout_simps] dirent_size_def [layout_simps]
  IPB_def [layout_simps] BPB_def [layout_simps]

definition EXTMEM :: uint32 where "EXTMEM = 0x100000"
definition PHYSTOP :: uint32 where "PHYSTOP = 0xE000000"
definition DEVSPACE :: uint32 where "DEVSPACE = 0xFE000000"
definition KERNBASE :: uint32 where "KERNBASE = 0x80000000"
definition KERNLINK :: uint32 where "KERNLINK = KERNBASE + EXTMEM"

definition v2p :: "uint32 \<Rightarrow> uint32" where "v2p a = a - KERNBASE"
definition p2v :: "uint32 \<Rightarrow> uint32" where "p2v a = a + KERNBASE"

declare EXTMEM_def [layout_simps] PHYSTOP_def [layout_simps] DEVSPACE_def [layout_simps]
  KERNBASE_def [layout_simps] KERNLINK_def [layout_simps]

lemma v2p_p2v [simp]: "v2p (p2v a) = a"
  by (simp add: v2p_def p2v_def)

lemma p2v_v2p [simp]: "p2v (v2p a) = a"
  by (simp add: v2p_def p2v_def)

section \<open>Pages and virtual addresses\<close>

definition PGSIZE :: uint32 where "PGSIZE = 4096"
definition PTXSHIFT :: nat where "PTXSHIFT = 12"
definition PDXSHIFT :: nat where "PDXSHIFT = 22"
definition NPDENTRIES :: nat where "NPDENTRIES = 1024"
definition NPTENTRIES :: nat where "NPTENTRIES = 1024"

declare PGSIZE_def [layout_simps] PTXSHIFT_def [layout_simps] PDXSHIFT_def [layout_simps]
  NPDENTRIES_def [layout_simps] NPTENTRIES_def [layout_simps]

definition PDX :: "uint32 \<Rightarrow> uint32" where
  "PDX va = drop_bit PDXSHIFT va AND 0x3FF"

definition PTX :: "uint32 \<Rightarrow> uint32" where
  "PTX va = drop_bit PTXSHIFT va AND 0x3FF"

definition PGADDR :: "uint32 \<Rightarrow> uint32 \<Rightarrow> uint32 \<Rightarrow> uint32" where
  "PGADDR d t off = (push_bit PDXSHIFT d OR push_bit PTXSHIFT t OR off)"

definition PGROUNDUP :: "uint32 \<Rightarrow> uint32" where
  "PGROUNDUP sz = (sz + PGSIZE - 1) AND NOT (PGSIZE - 1)"

definition PGROUNDDOWN :: "uint32 \<Rightarrow> uint32" where
  "PGROUNDDOWN a = a AND NOT (PGSIZE - 1)"

definition PTE_P :: uint32 where "PTE_P = 0x001"
definition PTE_W :: uint32 where "PTE_W = 0x002"
definition PTE_U :: uint32 where "PTE_U = 0x004"

definition PTE_ADDR :: "uint32 \<Rightarrow> uint32" where
  "PTE_ADDR pte = pte AND NOT 0xFFF"

definition PTE_FLAGS :: "uint32 \<Rightarrow> uint32" where
  "PTE_FLAGS pte = pte AND 0xFFF"

declare PTE_P_def [layout_simps] PTE_W_def [layout_simps] PTE_U_def [layout_simps]

lemma mask12: "(0xFFF :: uint32) = mask 12"
  by (simp add: mask_eq_exp_minus_1)

lemma mask10: "(0x3FF :: uint32) = mask 10"
  by (simp add: mask_eq_exp_minus_1)

lemma PGROUNDDOWN_eq: "PGROUNDDOWN a = a AND NOT (mask 12)"
  by (simp add: PGROUNDDOWN_def PGSIZE_def mask_eq_exp_minus_1)

lemma unat_and_mask: "unat ((a :: uint32) AND mask n) = unat a mod 2 ^ n"
  by (simp add: unsigned_and_eq flip: take_bit_eq_mask take_bit_eq_mod unsigned_take_bit_eq)

lemma word_and_not_mask: "(a :: uint32) AND NOT (mask n) = a - (a AND mask n)"
proof -
  have "(a AND NOT (mask n)) + (a AND mask n) = (a AND NOT (mask n)) OR (a AND mask n)"
    by (rule disjunctive_add_eq_or) (auto simp: bit_eq_iff bit_simps)
  also have "\<dots> = a"
    by (rule bit_word_eqI) (auto simp: bit_simps)
  finally show ?thesis by (simp add: eq_diff_eq)
qed

lemma unat_PGROUNDDOWN: "unat (PGROUNDDOWN a) = unat a div 4096 * 4096"
proof -
  have le: "a AND mask 12 \<le> a" by (simp add: word_and_le2)
  have "unat (PGROUNDDOWN a) = unat a - unat (a AND mask 12)"
    by (simp add: PGROUNDDOWN_eq word_and_not_mask unat_sub [OF le])
  then show ?thesis
    by (simp add: unat_and_mask minus_mod_eq_div_mult)
qed

lemma unat_PGROUNDUP:
  assumes "unat a \<le> 2 ^ 32 - 4096"
  shows "unat (PGROUNDUP a) = (unat a + 4095) div 4096 * 4096"
proof -
  have "PGROUNDUP a = PGROUNDDOWN (a + 4095)"
    by (simp add: PGROUNDUP_def PGROUNDDOWN_def PGSIZE_def add.commute)
  moreover have "unat (a + 4095) = unat a + 4095"
    using assms by (simp add: unat_word_ariths)
  ultimately show ?thesis by (simp add: unat_PGROUNDDOWN)
qed

lemma no_high_bits:
  assumes "unat (w :: 'a::len word) < 2 ^ k" "k \<le> n"
  shows "\<not> bit w n"
proof -
  have "unat w < 2 ^ n" using assms by (meson less_le_trans one_le_numeral power_increasing)
  then have "\<not> bit (unat w) n" by (simp add: bit_iff_odd)
  then show ?thesis by (auto simp: bit_unsigned_iff dest: bit_imp_possible_bit)
qed

lemma bit_bound: "unat (w :: 'a::len word) < 2 ^ k \<Longrightarrow> bit w n \<Longrightarrow> n < k"
  using no_high_bits [of w k n] by force

lemma PDX_PGADDR:
  assumes "d < 1024" "t < 1024" "off < 4096"
  shows "PDX (PGADDR d t off) = d" and "PTX (PGADDR d t off) = t"
  and "PGADDR d t off AND 0xFFF = off"
proof -
  have bd: "\<not> bit d n" if "n \<ge> 10" for n
    using no_high_bits [of d 10 n] assms that by (simp add: word_less_nat_alt)
  have bt: "\<not> bit t n" if "n \<ge> 10" for n
    using no_high_bits [of t 10 n] assms that by (simp add: word_less_nat_alt)
  have bo: "\<not> bit off n" if "n \<ge> 12" for n
    using no_high_bits [of off 12 n] assms that by (simp add: word_less_nat_alt)
  have bd': "n < 10" if "bit d n" for n using bd that by (meson not_le)
  have bt': "n < 10" if "bit t n" for n using bt that by (meson not_le)
  have bo': "n < 12" if "bit off n" for n using bo that by (meson not_le)
  show "PDX (PGADDR d t off) = d" unfolding PDX_def PGADDR_def mask10
    by (rule bit_word_eqI) (auto simp: bit_simps layout_simps bd bt bo dest: bd' bt' bo')
  show "PTX (PGADDR d t off) = t" unfolding PTX_def PGADDR_def mask10
    by (rule bit_word_eqI) (auto simp: bit_simps layout_simps bd bt bo dest: bd' bt' bo')
  show "PGADDR d t off AND 0xFFF = off" unfolding PGADDR_def mask12
    by (rule bit_word_eqI) (auto simp: bit_simps layout_simps bd bt bo dest: bd' bt' bo')
qed

lemma PGADDR_split: "PGADDR (PDX va) (PTX va) (va AND 0xFFF) = va"
  unfolding PGADDR_def PDX_def PTX_def mask10 mask12
proof (rule bit_word_eqI)
  fix n assume "n < LENGTH(32)"
  then consider "n < 12" | "12 \<le> n" "n < 22" | "22 \<le> n" "n < 32" by fastforce
  then show "bit (push_bit PDXSHIFT (drop_bit PDXSHIFT va AND mask 10) OR
          push_bit PTXSHIFT (drop_bit PTXSHIFT va AND mask 10) OR va AND mask 12) n = bit va n"
    by cases (auto simp: bit_simps layout_simps)
qed
lemma PTE_split: "PTE_ADDR pte OR PTE_FLAGS pte = pte" "PTE_ADDR pte AND PTE_FLAGS pte = 0"
  unfolding PTE_ADDR_def PTE_FLAGS_def mask12
  by (rule bit_word_eqI; auto simp: bit_simps)+
lemma PTE_ADDR_or:
  assumes "pa AND 0xFFF = 0" "fl < 4096"
  shows "PTE_ADDR (pa OR fl) = pa" and "PTE_FLAGS (pa OR fl) = fl"
proof -
  have bo: "\<not> bit fl n" if "n \<ge> 12" for n
    using no_high_bits [of fl 12 n] assms that by (simp add: word_less_nat_alt)
  have bo': "n < 12" if "bit fl n" for n using bo that by (meson not_le)
  have bp: "\<not> bit pa n" if "n < 12" for n 
     using arg_cong[OF assms(1), where f="\<lambda>w. bit w n"] that unfolding mask12 by (auto simp: bit_simps)
  show "PTE_ADDR (pa OR fl) = pa" unfolding PTE_ADDR_def mask12
    by (rule bit_word_eqI) (use bo bp in \<open>auto simp: bit_simps dest: bo'\<close>)
  show "PTE_FLAGS (pa OR fl) = fl" unfolding PTE_FLAGS_def mask12
    by (rule bit_word_eqI) (use bo bp in \<open>auto simp: bit_simps dest: bo'\<close>)
qed

section \<open>Segment and gate descriptors\<close>

record segdesc =
  lim_15_0 :: "16 word"
  base_15_0 :: "16 word"
  base_23_16 :: "8 word"
  seg_type :: "4 word"
  seg_s :: "1 word"
  seg_dpl :: "2 word"
  seg_p :: "1 word"
  lim_19_16 :: "4 word"
  seg_avl :: "1 word"
  seg_rsv1 :: "1 word"
  seg_db :: "1 word"
  seg_g :: "1 word"
  base_31_24 :: "8 word"

definition SEG :: "uint32 \<Rightarrow> uint32 \<Rightarrow> uint32 \<Rightarrow> uint32 \<Rightarrow> segdesc" where
  "SEG ty base lim dpl =
    \<lparr>lim_15_0 = ucast (drop_bit 12 lim AND 0xffff), base_15_0 = ucast (base AND 0xffff),
     base_23_16 = ucast (drop_bit 16 base AND 0xff), seg_type = ucast ty, seg_s = 1,
     seg_dpl = ucast dpl, seg_p = 1, lim_19_16 = ucast (drop_bit 28 lim), seg_avl = 0,
     seg_rsv1 = 0, seg_db = 1, seg_g = 1, base_31_24 = ucast (drop_bit 24 base)\<rparr>"

definition SEG16 :: "uint32 \<Rightarrow> uint32 \<Rightarrow> uint32 \<Rightarrow> uint32 \<Rightarrow> segdesc" where
  "SEG16 ty base lim dpl =
    \<lparr>lim_15_0 = ucast (lim AND 0xffff), base_15_0 = ucast (base AND 0xffff),
     base_23_16 = ucast (drop_bit 16 base AND 0xff), seg_type = ucast ty, seg_s = 1,
     seg_dpl = ucast dpl, seg_p = 1, lim_19_16 = ucast (drop_bit 16 lim), seg_avl = 0,
     seg_rsv1 = 0, seg_db = 1, seg_g = 0, base_31_24 = ucast (drop_bit 24 base)\<rparr>"

text \<open>How the processor reads a descriptor: the base in three parts, and the limit in
  bytes or, with the granularity bit, in 4096-byte units.\<close>

definition seg_base :: "segdesc \<Rightarrow> uint32" where
  "seg_base d = ucast (base_15_0 d) OR push_bit 16 (ucast (base_23_16 d))
     OR push_bit 24 (ucast (base_31_24 d))"

definition seg_limit :: "segdesc \<Rightarrow> uint32" where
  "seg_limit d = (let l = ucast (lim_15_0 d) OR push_bit 16 (ucast (lim_19_16 d)) in
     if seg_g d = 1 then push_bit 12 l OR 0xFFF else l)"

lemma seg_base_fields:
  "ucast (ucast (base AND 0xffff) :: 16 word) OR push_bit 16 (ucast (ucast (drop_bit 16 base AND 0xff) :: 8 word))
     OR push_bit 24 (ucast (ucast (drop_bit 24 base) :: 8 word)) = (base :: uint32)" (is "?l = _")
proof (rule bit_word_eqI)
  have m: "(0xffff :: uint32) = mask 16" "(0xff :: uint32) = mask 8" by (simp_all add: mask_eq_exp_minus_1)
  fix n assume "n < LENGTH(32)"
  then consider "n < 16" | "16 \<le> n" "n < 24" | "24 \<le> n" "n < 32" by fastforce
  then show "bit ?l n = bit base n"
    unfolding m by cases (auto simp: bit_simps)
qed

lemma seg_base_SEG [simp]: "seg_base (SEG ty base lim dpl) = base" "seg_base (SEG16 ty base lim dpl) = base"
  using seg_base_fields [of base] by (simp_all add: seg_base_def SEG_def SEG16_def)

lemma seg_limit_SEG [simp]: "seg_limit (SEG ty base lim dpl) = lim OR 0xFFF"
proof -
  have m: "(0xffff :: uint32) = mask 16" by (simp add: mask_eq_exp_minus_1)
  have "(push_bit 12 (ucast (ucast (drop_bit 12 lim AND 0xffff) :: 16 word) OR
      push_bit 16 (ucast (ucast (drop_bit 28 lim) :: 4 word))) OR 0xFFF :: uint32) = lim OR 0xFFF"
    (is "?l = ?r")
  proof (rule bit_word_eqI)
    fix n assume "n < LENGTH(32)"
    then consider "n < 12" | "12 \<le> n" "n < 28" | "28 \<le> n" "n < 32" by fastforce
    then show "bit ?l n = bit ?r n"
      unfolding m mask12 by cases (auto simp: bit_simps)
  qed
  then show ?thesis by (simp add: seg_limit_def SEG_def)
qed

lemma seg_limit_SEG16:
  assumes "lim < 0x100000"
  shows "seg_limit (SEG16 ty base lim dpl) = lim"
proof -
  have m: "(0xffff :: uint32) = mask 16" by (simp add: mask_eq_exp_minus_1)
  have hi: "n < 20" if "bit lim n" for n
    using bit_bound [of lim 20 n] that assms by (simp add: word_less_nat_alt)
  have "(ucast (ucast (lim AND 0xffff) :: 16 word) OR
      push_bit 16 (ucast (ucast (drop_bit 16 lim) :: 4 word)) :: uint32) = lim" (is "?l = _")
  proof (rule bit_word_eqI)
    fix n assume "n < LENGTH(32)"
    then consider "n < 16" | "16 \<le> n" by fastforce
    then show "bit ?l n = bit lim n"
      unfolding m by cases (auto simp: bit_simps dest: hi)
  qed
  then show ?thesis by (simp add: seg_limit_def SEG16_def)
qed

record gatedesc =
  off_15_0 :: "16 word"
  gate_cs :: "16 word"
  gate_args :: "5 word"
  gate_rsv1 :: "3 word"
  gate_type :: "4 word"
  gate_s :: "1 word"
  gate_dpl :: "2 word"
  gate_p :: "1 word"
  off_31_16 :: "16 word"

definition STS_IG32 :: "4 word" where "STS_IG32 = 0xE"
definition STS_TG32 :: "4 word" where "STS_TG32 = 0xF"

definition SETGATE :: "bool \<Rightarrow> uint32 \<Rightarrow> uint32 \<Rightarrow> uint32 \<Rightarrow> gatedesc" where
  "SETGATE istrap sel off d =
    \<lparr>off_15_0 = ucast (off AND 0xffff), gate_cs = ucast sel, gate_args = 0, gate_rsv1 = 0,
     gate_type = (if istrap then STS_TG32 else STS_IG32), gate_s = 0, gate_dpl = ucast d,
     gate_p = 1, off_31_16 = ucast (drop_bit 16 off)\<rparr>"

definition gate_off :: "gatedesc \<Rightarrow> uint32" where
  "gate_off g = ucast (off_15_0 g) OR push_bit 16 (ucast (off_31_16 g))"

lemma gate_off_SETGATE [simp]: "gate_off (SETGATE istrap sel off d) = off"
proof -
  have m: "(0xffff :: uint32) = mask 16" by (simp add: mask_eq_exp_minus_1)
  show ?thesis
    unfolding gate_off_def SETGATE_def
  proof (simp, unfold m, rule bit_word_eqI)
    fix n assume "n < LENGTH(32)"
    then consider "n < 16" | "16 \<le> n" "n < 32" by fastforce
    then show "bit (ucast (ucast (off AND mask 16) :: 16 word) OR
             push_bit 16 (ucast (ucast (drop_bit 16 off) :: 16 word)) :: uint32) n = bit off n"
      by cases (auto simp: bit_simps)
  qed
qed

end
