(* ===== verification/Kernel_State.thy ===== *)
theory Kernel_State
  imports Mmu
begin

text \<open>
  The data of the kernel: one record per struct of the headers (\<^verbatim>\<open>proc.h\<close>,
  \<^verbatim>\<open>spinlock.h\<close>, \<^verbatim>\<open>buf.h\<close>, \<^verbatim>\<open>fs.h\<close>, \<^verbatim>\<open>file.h\<close>, \<^verbatim>\<open>x86.h\<close>)
  and one record \<open>kernel\<close> of the kernel's global variables.

  A pointer to an element of a static table (\<open>ptable.proc\<close>, \<open>bcache.buf\<close>,
  \<open>icache.inode\<close>, \<open>ftable.file\<close>, \<open>cpus\<close>) is the element's index, with
  \<open>None\<close> for the null pointer where the code tests for it. A flag word of which the
  code only tests and sets named bits (\<open>B_BUSY\<close>, \<open>I_VALID\<close>, ...) is one boolean
  per bit. An \<open>int\<close> used as a truth value is a \<open>bool\<close>.
\<close>

section \<open>Locks and sleep channels\<close>

text \<open>The spin locks of the kernel; a pipe's lock lives in the pipe's page.\<close>

datatype lockid =
    L_ptable | L_kmem | L_bcache | L_ide | L_log | L_icache | L_ftable
  | L_cons | L_input | L_ticks | L_pipe uint32

record spinlock =
  locked :: uint32
  lk_name :: string
  lk_cpu :: "nat option"

text \<open>The addresses processes sleep on.\<close>

datatype chan =
    Ch_log | Ch_ticks | Ch_input | Ch_buf nat | Ch_inode nat | Ch_proc nat
  | Ch_nread uint32 | Ch_nwrite uint32

section \<open>Processes and processors\<close>

record swcontext =
  ctx_edi :: uint32
  ctx_esi :: uint32
  ctx_ebx :: uint32
  ctx_ebp :: uint32
  ctx_eip :: uint32

record trapframe =
  tf_edi :: uint32
  tf_esi :: uint32
  tf_ebp :: uint32
  tf_oesp :: uint32
  tf_ebx :: uint32
  tf_edx :: uint32
  tf_ecx :: uint32
  tf_eax :: uint32
  tf_gs :: ushort
  tf_fs :: ushort
  tf_es :: ushort
  tf_ds :: ushort
  tf_trapno :: uint32
  tf_err :: uint32
  tf_eip :: uint32
  tf_cs :: ushort
  tf_eflags :: uint32
  tf_esp :: uint32
  tf_ss :: ushort

definition zero_trapframe :: trapframe where
  "zero_trapframe = \<lparr>tf_edi = 0, tf_esi = 0, tf_ebp = 0, tf_oesp = 0, tf_ebx = 0, tf_edx = 0,
     tf_ecx = 0, tf_eax = 0, tf_gs = 0, tf_fs = 0, tf_es = 0, tf_ds = 0, tf_trapno = 0, tf_err = 0,
     tf_eip = 0, tf_cs = 0, tf_eflags = 0, tf_esp = 0, tf_ss = 0\<rparr>"

definition zero_context :: swcontext where
  "zero_context = \<lparr>ctx_edi = 0, ctx_esi = 0, ctx_ebx = 0, ctx_ebp = 0, ctx_eip = 0\<rparr>"

datatype procstate = UNUSED | EMBRYO | SLEEPING | RUNNABLE | RUNNING | ZOMBIE

text \<open>
  \<open>struct proc\<close>. The trap frame and the saved context live on the process's kernel
  stack; the record has both the pointers (\<open>p_tf_ptr\<close>, \<open>p_context_ptr\<close>) and what
  they point at (\<open>p_tf\<close>, \<open>p_context\<close>).
\<close>

record proc =
  p_sz :: uint32
  p_pgdir :: uint32
  p_kstack :: uint32
  p_state :: procstate
  p_pid :: int
  p_parent :: "nat option"
  p_tf_ptr :: uint32
  p_tf :: trapframe
  p_context_ptr :: uint32
  p_context :: swcontext
  p_chan :: "chan option"
  p_killed :: bool
  p_ofile :: "nat option list"
  p_cwd :: "nat option"
  p_name :: "byte list"

record cpu =
  c_ncli :: int
  c_intena :: bool
  c_if :: bool
  c_proc :: "nat option"
  c_gdt :: "nat \<Rightarrow> segdesc"
  c_ts_ss0 :: ushort
  c_ts_esp0 :: uint32
  c_tr :: ushort
  c_cr3 :: uint32
  c_apicid :: byte
  c_started :: bool

section \<open>Disk blocks, inodes, files and pipes\<close>

record buf =
  b_busy :: bool
  b_valid :: bool
  b_dirty :: bool
  b_dev :: uint32
  b_blockno :: uint32
  b_prev :: nat
  b_next :: nat
  b_qnext :: "nat option"
  b_data :: "byte list"

record superblock =
  sb_size :: uint32
  sb_nblocks :: uint32
  sb_ninodes :: uint32
  sb_nlog :: uint32
  sb_logstart :: uint32
  sb_inodestart :: uint32
  sb_bmapstart :: uint32

record inode =
  i_dev :: uint32
  i_inum :: uint32
  i_ref :: int
  i_busy :: bool
  i_valid :: bool
  i_type :: ushort
  i_major :: ushort
  i_minor :: ushort
  i_nlink :: ushort
  i_size :: uint32
  i_addrs :: "uint32 list"

datatype ftype = FD_NONE | FD_PIPE | FD_INODE

record filestruct =
  f_type :: ftype
  f_ref :: int
  f_readable :: bool
  f_writable :: bool
  f_pipe :: uint32
  f_ip :: nat
  f_off :: uint32

record pipe =
  pi_data :: "byte list"
  pi_nread :: uint32
  pi_nwrite :: uint32
  pi_readopen :: bool
  pi_writeopen :: bool

record console =
  in_buf :: "byte list"
  in_r :: uint32
  in_w :: uint32
  in_e :: uint32
  con_locking :: bool
  con_panicked :: bool
  crt_index :: byte
  crt_reg :: "byte \<Rightarrow> byte"
  crt :: "ushort list"
  kbd_shift :: uint32

section \<open>The kernel's global state\<close>

text \<open>
  What the assembly sources and the linker provide: the symbols \<open>end\<close> and \<open>data\<close> of
  the loaded kernel, the addresses of the assembly routines \<open>trapret\<close>, \<open>forkret\<close>
  and of the 256 interrupt vectors, the address of the array \<open>cpus\<close>, and the program
  of the first process.
\<close>

record image =
  im_data :: uint32
  im_trapret :: uint32
  im_forkret :: uint32
  im_vectors :: "nat \<Rightarrow> uint32"
  im_cpus :: uint32
  im_initcode :: "byte list"

text \<open>
  Writes of the device drivers: to an i/o port, of a block of words to a port, and to a
  memory-mapped register of an interrupt controller.
\<close>

datatype io = Outb ushort byte | Outsl ushort "byte list" | Lapicw nat uint32 | Ioapicw nat uint32

text \<open>
  \<open>cpuid\<close> is the processor that executes. \<open>mem\<close> is memory by kernel virtual
  address, \<open>k_end\<close> the linker's symbol \<open>end\<close>. The disk is \<open>disk\<close>, one byte
  sequence per block; \<open>dwrites\<close> lists the block writes that have reached it, oldest
  first, which is what a crash can cut short. \<open>ios\<close> lists the writes of the device
  drivers, oldest first; \<open>ins\<close> holds what the devices will answer to the next reads of
  i/o ports.
\<close>

record kernel =
  cpuid :: nat
  cpus :: "nat \<Rightarrow> cpu"
  locks :: "lockid \<Rightarrow> spinlock"
  mem :: "uint32 \<Rightarrow> byte"
  k_end :: uint32
  k_image :: image
  use_lock :: bool
  freelist :: uint32
  procs :: "proc list"
  nextpid :: int
  initproc :: "nat option"
  forkret_first :: bool
  ticks :: uint32
  kpgdir :: uint32
  idt :: "nat \<Rightarrow> gatedesc"
  disk :: "uint32 \<Rightarrow> byte list"
  disksize :: uint32
  dwrites :: "(uint32 \<times> byte list) list"
  bufs :: "buf list"
  idequeue :: "nat option"
  havedisk1 :: bool
  log_start :: uint32
  log_size :: int
  log_outstanding :: int
  log_committing :: bool
  log_dev :: uint32
  lh_n :: int
  lh_block :: "uint32 list"
  sb :: superblock
  inodes :: "inode list"
  files :: "filestruct list"
  pipes :: "uint32 \<Rightarrow> pipe"
  cons :: console
  ismp :: bool
  ncpu :: nat
  lapic :: bool
  ioapicid :: byte
  irqmask :: ushort
  uart :: bool
  ios :: "io list"
  ins :: "byte list"

type_synonym 'a kroutine = "(kernel, 'a) routine"

text \<open>
  Static data starts as zeroes. \<open>boot_kernel m e img n\<close> is the kernel before any
  initialisation routine has run, loaded below the symbol \<open>end = e\<close> into the
  memory image \<open>m\<close>, with a disk of \<open>n\<close> blocks that holds the image \<open>img\<close>.
\<close>

definition zero_proc :: proc where
  "zero_proc = \<lparr>p_sz = 0, p_pgdir = 0, p_kstack = 0, p_state = UNUSED, p_pid = 0, p_parent = None,
     p_tf_ptr = 0, p_tf = zero_trapframe, p_context_ptr = 0, p_context = zero_context,
     p_chan = None, p_killed = False, p_ofile = replicate NOFILE None, p_cwd = None,
     p_name = replicate 16 0\<rparr>"

definition zero_buf :: buf where
  "zero_buf = \<lparr>b_busy = False, b_valid = False, b_dirty = False, b_dev = 0, b_blockno = 0,
     b_prev = 0, b_next = 0, b_qnext = None, b_data = replicate BSIZE 0\<rparr>"

definition zero_inode :: inode where
  "zero_inode = \<lparr>i_dev = 0, i_inum = 0, i_ref = 0, i_busy = False, i_valid = False, i_type = 0,
     i_major = 0, i_minor = 0, i_nlink = 0, i_size = 0, i_addrs = replicate (NDIRECT + 1) 0\<rparr>"

definition zero_file :: filestruct where
  "zero_file = \<lparr>f_type = FD_NONE, f_ref = 0, f_readable = False, f_writable = False, f_pipe = 0,
     f_ip = 0, f_off = 0\<rparr>"

definition zero_pipe :: pipe where
  "zero_pipe = \<lparr>pi_data = replicate 512 0, pi_nread = 0, pi_nwrite = 0, pi_readopen = False,
     pi_writeopen = False\<rparr>"

definition zero_cpu :: cpu where
  "zero_cpu = \<lparr>c_ncli = 0, c_intena = False, c_if = False, c_proc = None,
     c_gdt = (\<lambda>_. SEG 0 0 0 0), c_ts_ss0 = 0, c_ts_esp0 = 0, c_tr = 0, c_cr3 = 0,
     c_apicid = 0, c_started = False\<rparr>"

definition zero_spinlock :: spinlock where
  "zero_spinlock = \<lparr>locked = 0, lk_name = [], lk_cpu = None\<rparr>"

definition zero_superblock :: superblock where
  "zero_superblock = \<lparr>sb_size = 0, sb_nblocks = 0, sb_ninodes = 0, sb_nlog = 0, sb_logstart = 0,
     sb_inodestart = 0, sb_bmapstart = 0\<rparr>"

definition zero_console :: console where
  "zero_console = \<lparr>in_buf = replicate 128 0, in_r = 0, in_w = 0, in_e = 0, con_locking = False,
     con_panicked = False, crt_index = 0, crt_reg = (\<lambda>_. 0), crt = replicate 2000 0, kbd_shift = 0\<rparr>"

definition zero_image :: image where
  "zero_image = \<lparr>im_data = 0x80108000, im_trapret = 0x80105A00, im_forkret = 0x80104300,
     im_vectors = (\<lambda>i. 0x80105B00 + 10 * of_nat i), im_cpus = 0x80112800, im_initcode = replicate 44 0\<rparr>"

definition boot_kernel :: "(uint32 \<Rightarrow> byte) \<Rightarrow> uint32 \<Rightarrow> (uint32 \<Rightarrow> byte list) \<Rightarrow> uint32 \<Rightarrow> kernel" where
  "boot_kernel m e img n =
    \<lparr>cpuid = 0, cpus = (\<lambda>_. zero_cpu), locks = (\<lambda>_. zero_spinlock), mem = m, k_end = e,
     k_image = zero_image,
     use_lock = False, freelist = 0, procs = replicate NPROC zero_proc, nextpid = 1,
     initproc = None, forkret_first = True, ticks = 0, kpgdir = 0,
     idt = (\<lambda>_. SETGATE False 0 0 0), disk = img, disksize = n, dwrites = [],
     bufs = replicate (NBUF + 1) zero_buf, idequeue = None, havedisk1 = False,
     log_start = 0, log_size = 0, log_outstanding = 0,
     log_committing = False, log_dev = 0, lh_n = 0, lh_block = replicate (nat LOGSIZE) 0,
     sb = zero_superblock, inodes = replicate NINODE zero_inode, files = replicate NFILE zero_file,
     pipes = (\<lambda>_. zero_pipe), cons = zero_console,
     ismp = False, ncpu = 0, lapic = False, ioapicid = 0, irqmask = 0xFFFB, uart = False, ios = [], ins = []\<rparr>"

text \<open>A small machine: the kernel ends at one megabyte and the disk is blank.\<close>

definition boot0 :: kernel where
  "boot0 = boot_kernel (\<lambda>_. 0) 0x80100000 (\<lambda>_. replicate BSIZE 0) 1000"

lemmas zero_defs = zero_proc_def zero_buf_def zero_inode_def zero_file_def zero_pipe_def
  zero_cpu_def zero_spinlock_def zero_superblock_def zero_console_def

end
