(* ===== verification/Spinlock.thy ===== *)
theory Spinlock
  imports Kernel_State
begin

text \<open>
  \<^verbatim>\<open>spinlock.c\<close>: disabling interrupts (\<open>pushcli\<close>, \<open>popcli\<close>) and the spin
  locks. The recorded call stacks (\<open>pcs\<close>) are debugging output of \<open>getcallerpcs\<close>
  and are not part of a lock's state here.

  The second half is the calculus the other components use: \<open>acq\<close>, \<open>rel\<close> and
  \<open>touch\<close> are the effects on the state of an acquire, of a release, and of a matched
  pair of both, and the \<open>frame_simps\<close> equations move them past the updates of every
  other part of the state, so that a critical section reduces to the updates in it.
\<close>

section \<open>Interrupts and locks\<close>

definition mycpu :: "kernel \<Rightarrow> cpu" where
  "mycpu s = cpus s (cpuid s)"

definition set_mycpu :: "(cpu \<Rightarrow> cpu) \<Rightarrow> kernel \<Rightarrow> kernel" where
  "set_mycpu f s = s\<lparr>cpus := (cpus s)(cpuid s := f (cpus s (cpuid s)))\<rparr>"

definition set_lock :: "lockid \<Rightarrow> (spinlock \<Rightarrow> spinlock) \<Rightarrow> kernel \<Rightarrow> kernel" where
  "set_lock l f s = s\<lparr>locks := (locks s)(l := f (locks s l))\<rparr>"

text \<open>\<open>readeflags() & FL_IF\<close>, \<open>cli\<close> and \<open>sti\<close> of \<^verbatim>\<open>x86.h\<close>.\<close>

definition read_if :: "bool kroutine" where
  "read_if = gets (\<lambda>s. c_if (mycpu s))"

definition cli :: "unit kroutine" where
  "cli = modify (set_mycpu (\<lambda>c. c\<lparr>c_if := False\<rparr>))"

definition sti :: "unit kroutine" where
  "sti = modify (set_mycpu (\<lambda>c. c\<lparr>c_if := True\<rparr>))"

definition initlock :: "lockid \<Rightarrow> string \<Rightarrow> unit kroutine" where
  "initlock lk name =
    modify (set_lock lk (\<lambda>k. k\<lparr>lk_name := name, locked := 0, lk_cpu := None\<rparr>))"

definition pushcli :: "unit kroutine" where
  "pushcli =
    bind read_if (\<lambda>eflags.
    andthen cli
    (modify (set_mycpu (\<lambda>c. c\<lparr>c_ncli := c_ncli c + 1,
       c_intena := (if c_ncli c = 0 then eflags else c_intena c)\<rparr>))))"

definition popcli :: "unit kroutine" where
  "popcli =
    bind read_if (\<lambda>eflags.
    andthen (panic_if eflags ''popcli - interruptible'')
    (andthen (modify (set_mycpu (\<lambda>c. c\<lparr>c_ncli := c_ncli c - 1\<rparr>)))
    (bind (gets mycpu) (\<lambda>c.
    andthen (panic_if (c_ncli c < 0) ''popcli'')
    (do_if (c_ncli c = 0 \<and> c_intena c) sti)))))"

definition holding :: "lockid \<Rightarrow> bool kroutine" where
  "holding lk = gets (\<lambda>s. locked (locks s lk) \<noteq> 0 \<and> lk_cpu (locks s lk) = Some (cpuid s))"

text \<open>The atomic exchange; the loop around it ends in the turn that finds the lock free.\<close>

definition xchg :: "lockid \<Rightarrow> uint32 \<Rightarrow> uint32 kroutine" where
  "xchg lk v = (\<lambda>s. Ok (locked (locks s lk)) (set_lock lk (\<lambda>k. k\<lparr>locked := v\<rparr>) s))"

definition spin_xchg :: "lockid \<Rightarrow> unit kroutine" where
  "spin_xchg lk = bind (xchg lk 1) (\<lambda>old. if old = 0 then return () else (\<lambda>s. Spin s))"

definition acquire :: "lockid \<Rightarrow> unit kroutine" where
  "acquire lk =
    andthen pushcli
    (bind (holding lk) (\<lambda>h.
    andthen (panic_if h ''acquire'')
    (andthen (spin_xchg lk)
    (modify (\<lambda>s. set_lock lk (\<lambda>k. k\<lparr>lk_cpu := Some (cpuid s)\<rparr>) s)))))"

definition release :: "lockid \<Rightarrow> unit kroutine" where
  "release lk =
    bind (holding lk) (\<lambda>h.
    andthen (panic_if (\<not> h) ''release'')
    (andthen (modify (set_lock lk (\<lambda>k. k\<lparr>lk_cpu := None\<rparr>)))
    (bind (xchg lk 0) (\<lambda>_. popcli))))"

section \<open>Effects of acquire and release\<close>

definition cpu_push :: "cpu \<Rightarrow> cpu" where
  "cpu_push c = c\<lparr>c_if := False, c_ncli := c_ncli c + 1,
     c_intena := (if c_ncli c = 0 then c_if c else c_intena c)\<rparr>"

definition cpu_pop :: "cpu \<Rightarrow> cpu" where
  "cpu_pop c = c\<lparr>c_ncli := c_ncli c - 1, c_if := (c_ncli c = 1 \<and> c_intena c)\<rparr>"

definition cpu_touch :: "cpu \<Rightarrow> cpu" where
  "cpu_touch c = c\<lparr>c_intena := (if c_ncli c = 0 then c_if c else c_intena c)\<rparr>"

definition acq :: "lockid \<Rightarrow> kernel \<Rightarrow> kernel" where
  "acq lk s = set_lock lk (\<lambda>k. k\<lparr>locked := 1, lk_cpu := Some (cpuid s)\<rparr>) (set_mycpu cpu_push s)"

definition rel :: "lockid \<Rightarrow> kernel \<Rightarrow> kernel" where
  "rel lk s = set_lock lk (\<lambda>k. k\<lparr>lk_cpu := None, locked := 0\<rparr>) (set_mycpu cpu_pop s)"

definition touch :: "kernel \<Rightarrow> kernel" where
  "touch s = set_mycpu cpu_touch s"

text \<open>A lock that is free, and a processor whose nesting count makes sense: with a
  positive count its interrupts are off.\<close>

definition lock_free :: "lockid \<Rightarrow> kernel \<Rightarrow> bool" where
  "lock_free lk s \<longleftrightarrow> locked (locks s lk) = 0 \<and> lk_cpu (locks s lk) = None"

definition cpu_ok :: "kernel \<Rightarrow> bool" where
  "cpu_ok s \<longleftrightarrow> 0 \<le> c_ncli (mycpu s) \<and> (0 < c_ncli (mycpu s) \<longrightarrow> \<not> c_if (mycpu s))"

text \<open>The executing processor holds a lock, with its interrupts off.\<close>

definition holds :: "lockid \<Rightarrow> kernel \<Rightarrow> bool" where
  "holds lk s \<longleftrightarrow> locked (locks s lk) \<noteq> 0 \<and> lk_cpu (locks s lk) = Some (cpuid s)
     \<and> \<not> c_if (mycpu s) \<and> 0 < c_ncli (mycpu s)"

text \<open>No lock is held and interrupts are not disabled: the state in which a system call
  starts and must end.\<close>

definition quiet :: "kernel \<Rightarrow> bool" where
  "quiet s \<longleftrightarrow> c_ncli (mycpu s) = 0 \<and> (\<forall>lk. lock_free lk s)"

lemmas cpu_defs = mycpu_def set_mycpu_def set_lock_def

lemma pushcli_eq: "pushcli s = Ok () (set_mycpu cpu_push s)"
  by (simp add: pushcli_def read_if_def cli_def cpu_defs cpu_push_def)

lemma popcli_eq:
  "\<not> c_if (mycpu s) \<Longrightarrow> 0 < c_ncli (mycpu s) \<Longrightarrow> popcli s = Ok () (set_mycpu cpu_pop s)"
  by (cases "cpus s (cpuid s)") (auto simp: popcli_def read_if_def sti_def cpu_defs cpu_pop_def do_if_def)

lemma acquire_ok [ok_simps]: "lock_free lk s \<Longrightarrow> acquire lk s = Ok () (acq lk s)"
  by (simp add: acquire_def pushcli_eq holding_def spin_xchg_def xchg_def lock_free_def acq_def
      cpu_defs bind_app)

lemma acquire_busy:
  assumes "locked (locks s lk) \<noteq> 0" "lk_cpu (locks s lk) \<noteq> Some (cpuid s)"
  shows "\<exists>t. acquire lk s = Spin t"
  using assms by (simp add: acquire_def pushcli_eq holding_def spin_xchg_def xchg_def cpu_defs bind_app andthen_app)

lemma release_ok [ok_simps]:
  assumes "holds lk s"
  shows "release lk s = Ok () (rel lk s)"
proof -
  let ?s = "set_lock lk (\<lambda>k. k\<lparr>lk_cpu := None, locked := 0\<rparr>) s"
  have "release lk s = popcli ?s"
    using assms by (simp add: release_def holding_def xchg_def holds_def cpu_defs bind_app)
  also have "\<dots> = Ok () (set_mycpu cpu_pop ?s)"
    using assms by (intro popcli_eq) (simp_all add: holds_def cpu_defs)
  finally show ?thesis by (simp add: rel_def cpu_defs)
qed

lemma locks_acq [simp]: "locks (acq lk s) = (locks s)(lk := (locks s lk)\<lparr>locked := 1, lk_cpu := Some (cpuid s)\<rparr>)"
  by (simp add: acq_def cpu_defs)

lemma locks_touch [simp]: "locks (touch s) = locks s"
  by (simp add: touch_def cpu_defs)

lemma mycpu_acq [simp]: "mycpu (acq lk s) = cpu_push (mycpu s)"
  by (simp add: acq_def cpu_defs)

lemma mycpu_touch [simp]: "mycpu (touch s) = cpu_touch (mycpu s)"
  by (simp add: touch_def cpu_defs)

lemma cpu_push_sel [simp]:
  "c_ncli (cpu_push c) = c_ncli c + 1" "\<not> c_if (cpu_push c)" "c_proc (cpu_push c) = c_proc c"
  by (simp_all add: cpu_push_def)

lemma cpu_touch_sel [simp]:
  "c_ncli (cpu_touch c) = c_ncli c" "c_if (cpu_touch c) = c_if c" "c_proc (cpu_touch c) = c_proc c"
  by (simp_all add: cpu_touch_def)

lemma lock_free_acq [simp]: "lock_free k (acq lk s) \<longleftrightarrow> k \<noteq> lk \<and> lock_free k s"
  by (auto simp: lock_free_def)

lemma holds_acq [simp]: "cpu_ok s \<Longrightarrow> holds lk (acq lk s)"
  by (simp add: holds_def cpu_ok_def acq_def cpu_defs cpu_push_def)

lemma holds_acq_other [simp]: "cpu_ok s \<Longrightarrow> k \<noteq> lk \<Longrightarrow> holds k s \<Longrightarrow> holds k (acq lk s)"
  by (simp add: holds_def cpu_ok_def acq_def cpu_defs cpu_push_def)

lemma holds_touch [simp]: "holds lk (touch s) \<longleftrightarrow> holds lk s"
  by (simp add: holds_def touch_def cpu_defs cpu_touch_def)

lemma lock_free_touch [simp]: "lock_free k (touch s) \<longleftrightarrow> lock_free k s"
  by (simp add: lock_free_def)

lemma cpu_ok_acq [simp]: "cpu_ok s \<Longrightarrow> cpu_ok (acq lk s)"
  by (simp add: cpu_ok_def)

lemma cpu_ok_touch [simp]: "cpu_ok (touch s) \<longleftrightarrow> cpu_ok s"
  by (simp add: cpu_ok_def)

lemma quiet_touch [simp]: "quiet (touch s) \<longleftrightarrow> quiet s"
  by (simp add: quiet_def)

lemma quietD [simp]: "quiet s \<Longrightarrow> lock_free lk s" "quiet s \<Longrightarrow> cpu_ok s"
  by (simp_all add: quiet_def cpu_ok_def)

lemma cpu_touch_idem [simp]: "cpu_touch (cpu_touch c) = cpu_touch c"
  by (simp add: cpu_touch_def)

lemma cpu_push_touch [simp]: "cpu_push (cpu_touch c) = cpu_push c"
  by (simp add: cpu_push_def cpu_touch_def)

lemma cpu_pop_push: "0 \<le> c_ncli c \<Longrightarrow> (0 < c_ncli c \<longrightarrow> \<not> c_if c) \<Longrightarrow> cpu_pop (cpu_push c) = cpu_touch c"
  by (auto simp: cpu_pop_def cpu_push_def cpu_touch_def)

lemma cpu_touch_push: "0 \<le> c_ncli c \<Longrightarrow> cpu_touch (cpu_push c) = cpu_push c"
  by (simp add: cpu_push_def cpu_touch_def)

lemma touch_touch [simp]: "touch (touch s) = touch s"
  by (simp add: touch_def cpu_defs)

lemma acq_touch [simp]: "acq lk (touch s) = acq lk s"
  by (simp add: touch_def acq_def cpu_defs)

lemma touch_acq [simp]: "cpu_ok s \<Longrightarrow> touch (acq lk s) = acq lk s"
  by (simp add: touch_def acq_def cpu_defs cpu_ok_def cpu_touch_push)

text \<open>A matched pair leaves the state as it was, but for the saved interrupt flag.\<close>

lemma rel_acq [simp]:
  assumes "lock_free lk s" "cpu_ok s"
  shows "rel lk (acq lk s) = touch s"
proof -
  have "(locks s lk)\<lparr>locked := 1, lk_cpu := None, locked := 0\<rparr> = locks s lk"
    using assms by (simp add: lock_free_def)
  then show ?thesis using assms
    by (simp add: rel_def acq_def touch_def cpu_defs cpu_ok_def cpu_pop_push)
qed

section \<open>Framing\<close>

text \<open>Acquire and release touch only the processor and the lock table.\<close>

lemma mycpu_frame [simp, frame_simps]:
  "mycpu (mem_update f_mem s) = mycpu s"
  "mycpu (k_end_update f_k_end s) = mycpu s"
  "mycpu (k_image_update f_k_image s) = mycpu s"
  "mycpu (use_lock_update f_use_lock s) = mycpu s"
  "mycpu (freelist_update f_freelist s) = mycpu s"
  "mycpu (procs_update f_procs s) = mycpu s"
  "mycpu (nextpid_update f_nextpid s) = mycpu s"
  "mycpu (initproc_update f_initproc s) = mycpu s"
  "mycpu (forkret_first_update f_forkret_first s) = mycpu s"
  "mycpu (ticks_update f_ticks s) = mycpu s"
  "mycpu (kpgdir_update f_kpgdir s) = mycpu s"
  "mycpu (idt_update f_idt s) = mycpu s"
  "mycpu (disk_update f_disk s) = mycpu s"
  "mycpu (disksize_update f_disksize s) = mycpu s"
  "mycpu (dwrites_update f_dwrites s) = mycpu s"
  "mycpu (bufs_update f_bufs s) = mycpu s"
  "mycpu (idequeue_update f_idequeue s) = mycpu s"
  "mycpu (havedisk1_update f_havedisk1 s) = mycpu s"
  "mycpu (log_start_update f_log_start s) = mycpu s"
  "mycpu (log_size_update f_log_size s) = mycpu s"
  "mycpu (log_outstanding_update f_log_outstanding s) = mycpu s"
  "mycpu (log_committing_update f_log_committing s) = mycpu s"
  "mycpu (log_dev_update f_log_dev s) = mycpu s"
  "mycpu (lh_n_update f_lh_n s) = mycpu s"
  "mycpu (lh_block_update f_lh_block s) = mycpu s"
  "mycpu (sb_update f_sb s) = mycpu s"
  "mycpu (inodes_update f_inodes s) = mycpu s"
  "mycpu (files_update f_files s) = mycpu s"
  "mycpu (pipes_update f_pipes s) = mycpu s"
  "mycpu (cons_update f_cons s) = mycpu s"
  "mycpu (ismp_update f_ismp s) = mycpu s"
  "mycpu (ncpu_update f_ncpu s) = mycpu s"
  "mycpu (lapic_update f_lapic s) = mycpu s"
  "mycpu (ioapicid_update f_ioapicid s) = mycpu s"
  "mycpu (irqmask_update f_irqmask s) = mycpu s"
  "mycpu (uart_update f_uart s) = mycpu s"
  "mycpu (ios_update f_ios s) = mycpu s"
  "mycpu (ins_update f_ins s) = mycpu s"
  "mycpu (locks_update f_locks s) = mycpu s"
  by (simp_all add: mycpu_def)

lemma lock_free_frame [simp, frame_simps]:
  "lock_free lk (mem_update f_mem s) = lock_free lk s"
  "lock_free lk (k_end_update f_k_end s) = lock_free lk s"
  "lock_free lk (k_image_update f_k_image s) = lock_free lk s"
  "lock_free lk (use_lock_update f_use_lock s) = lock_free lk s"
  "lock_free lk (freelist_update f_freelist s) = lock_free lk s"
  "lock_free lk (procs_update f_procs s) = lock_free lk s"
  "lock_free lk (nextpid_update f_nextpid s) = lock_free lk s"
  "lock_free lk (initproc_update f_initproc s) = lock_free lk s"
  "lock_free lk (forkret_first_update f_forkret_first s) = lock_free lk s"
  "lock_free lk (ticks_update f_ticks s) = lock_free lk s"
  "lock_free lk (kpgdir_update f_kpgdir s) = lock_free lk s"
  "lock_free lk (idt_update f_idt s) = lock_free lk s"
  "lock_free lk (disk_update f_disk s) = lock_free lk s"
  "lock_free lk (disksize_update f_disksize s) = lock_free lk s"
  "lock_free lk (dwrites_update f_dwrites s) = lock_free lk s"
  "lock_free lk (bufs_update f_bufs s) = lock_free lk s"
  "lock_free lk (idequeue_update f_idequeue s) = lock_free lk s"
  "lock_free lk (havedisk1_update f_havedisk1 s) = lock_free lk s"
  "lock_free lk (log_start_update f_log_start s) = lock_free lk s"
  "lock_free lk (log_size_update f_log_size s) = lock_free lk s"
  "lock_free lk (log_outstanding_update f_log_outstanding s) = lock_free lk s"
  "lock_free lk (log_committing_update f_log_committing s) = lock_free lk s"
  "lock_free lk (log_dev_update f_log_dev s) = lock_free lk s"
  "lock_free lk (lh_n_update f_lh_n s) = lock_free lk s"
  "lock_free lk (lh_block_update f_lh_block s) = lock_free lk s"
  "lock_free lk (sb_update f_sb s) = lock_free lk s"
  "lock_free lk (inodes_update f_inodes s) = lock_free lk s"
  "lock_free lk (files_update f_files s) = lock_free lk s"
  "lock_free lk (pipes_update f_pipes s) = lock_free lk s"
  "lock_free lk (cons_update f_cons s) = lock_free lk s"
  "lock_free lk (ismp_update f_ismp s) = lock_free lk s"
  "lock_free lk (ncpu_update f_ncpu s) = lock_free lk s"
  "lock_free lk (lapic_update f_lapic s) = lock_free lk s"
  "lock_free lk (ioapicid_update f_ioapicid s) = lock_free lk s"
  "lock_free lk (irqmask_update f_irqmask s) = lock_free lk s"
  "lock_free lk (uart_update f_uart s) = lock_free lk s"
  "lock_free lk (ios_update f_ios s) = lock_free lk s"
  "lock_free lk (ins_update f_ins s) = lock_free lk s"
  by (simp_all add: lock_free_def)

lemma cpu_ok_frame [simp, frame_simps]:
  "cpu_ok (mem_update f_mem s) = cpu_ok s"
  "cpu_ok (k_end_update f_k_end s) = cpu_ok s"
  "cpu_ok (k_image_update f_k_image s) = cpu_ok s"
  "cpu_ok (use_lock_update f_use_lock s) = cpu_ok s"
  "cpu_ok (freelist_update f_freelist s) = cpu_ok s"
  "cpu_ok (procs_update f_procs s) = cpu_ok s"
  "cpu_ok (nextpid_update f_nextpid s) = cpu_ok s"
  "cpu_ok (initproc_update f_initproc s) = cpu_ok s"
  "cpu_ok (forkret_first_update f_forkret_first s) = cpu_ok s"
  "cpu_ok (ticks_update f_ticks s) = cpu_ok s"
  "cpu_ok (kpgdir_update f_kpgdir s) = cpu_ok s"
  "cpu_ok (idt_update f_idt s) = cpu_ok s"
  "cpu_ok (disk_update f_disk s) = cpu_ok s"
  "cpu_ok (disksize_update f_disksize s) = cpu_ok s"
  "cpu_ok (dwrites_update f_dwrites s) = cpu_ok s"
  "cpu_ok (bufs_update f_bufs s) = cpu_ok s"
  "cpu_ok (idequeue_update f_idequeue s) = cpu_ok s"
  "cpu_ok (havedisk1_update f_havedisk1 s) = cpu_ok s"
  "cpu_ok (log_start_update f_log_start s) = cpu_ok s"
  "cpu_ok (log_size_update f_log_size s) = cpu_ok s"
  "cpu_ok (log_outstanding_update f_log_outstanding s) = cpu_ok s"
  "cpu_ok (log_committing_update f_log_committing s) = cpu_ok s"
  "cpu_ok (log_dev_update f_log_dev s) = cpu_ok s"
  "cpu_ok (lh_n_update f_lh_n s) = cpu_ok s"
  "cpu_ok (lh_block_update f_lh_block s) = cpu_ok s"
  "cpu_ok (sb_update f_sb s) = cpu_ok s"
  "cpu_ok (inodes_update f_inodes s) = cpu_ok s"
  "cpu_ok (files_update f_files s) = cpu_ok s"
  "cpu_ok (pipes_update f_pipes s) = cpu_ok s"
  "cpu_ok (cons_update f_cons s) = cpu_ok s"
  "cpu_ok (ismp_update f_ismp s) = cpu_ok s"
  "cpu_ok (ncpu_update f_ncpu s) = cpu_ok s"
  "cpu_ok (lapic_update f_lapic s) = cpu_ok s"
  "cpu_ok (ioapicid_update f_ioapicid s) = cpu_ok s"
  "cpu_ok (irqmask_update f_irqmask s) = cpu_ok s"
  "cpu_ok (uart_update f_uart s) = cpu_ok s"
  "cpu_ok (ios_update f_ios s) = cpu_ok s"
  "cpu_ok (ins_update f_ins s) = cpu_ok s"
  by (simp_all add: cpu_ok_def)

lemma quiet_frame [simp, frame_simps]:
  "quiet (mem_update f_mem s) = quiet s"
  "quiet (k_end_update f_k_end s) = quiet s"
  "quiet (k_image_update f_k_image s) = quiet s"
  "quiet (use_lock_update f_use_lock s) = quiet s"
  "quiet (freelist_update f_freelist s) = quiet s"
  "quiet (procs_update f_procs s) = quiet s"
  "quiet (nextpid_update f_nextpid s) = quiet s"
  "quiet (initproc_update f_initproc s) = quiet s"
  "quiet (forkret_first_update f_forkret_first s) = quiet s"
  "quiet (ticks_update f_ticks s) = quiet s"
  "quiet (kpgdir_update f_kpgdir s) = quiet s"
  "quiet (idt_update f_idt s) = quiet s"
  "quiet (disk_update f_disk s) = quiet s"
  "quiet (disksize_update f_disksize s) = quiet s"
  "quiet (dwrites_update f_dwrites s) = quiet s"
  "quiet (bufs_update f_bufs s) = quiet s"
  "quiet (idequeue_update f_idequeue s) = quiet s"
  "quiet (havedisk1_update f_havedisk1 s) = quiet s"
  "quiet (log_start_update f_log_start s) = quiet s"
  "quiet (log_size_update f_log_size s) = quiet s"
  "quiet (log_outstanding_update f_log_outstanding s) = quiet s"
  "quiet (log_committing_update f_log_committing s) = quiet s"
  "quiet (log_dev_update f_log_dev s) = quiet s"
  "quiet (lh_n_update f_lh_n s) = quiet s"
  "quiet (lh_block_update f_lh_block s) = quiet s"
  "quiet (sb_update f_sb s) = quiet s"
  "quiet (inodes_update f_inodes s) = quiet s"
  "quiet (files_update f_files s) = quiet s"
  "quiet (pipes_update f_pipes s) = quiet s"
  "quiet (cons_update f_cons s) = quiet s"
  "quiet (ismp_update f_ismp s) = quiet s"
  "quiet (ncpu_update f_ncpu s) = quiet s"
  "quiet (lapic_update f_lapic s) = quiet s"
  "quiet (ioapicid_update f_ioapicid s) = quiet s"
  "quiet (irqmask_update f_irqmask s) = quiet s"
  "quiet (uart_update f_uart s) = quiet s"
  "quiet (ios_update f_ios s) = quiet s"
  "quiet (ins_update f_ins s) = quiet s"
  by (simp_all add: quiet_def)

lemma holds_frame [simp, frame_simps]:
  "holds lk (mem_update f_mem s) = holds lk s"
  "holds lk (k_end_update f_k_end s) = holds lk s"
  "holds lk (k_image_update f_k_image s) = holds lk s"
  "holds lk (use_lock_update f_use_lock s) = holds lk s"
  "holds lk (freelist_update f_freelist s) = holds lk s"
  "holds lk (procs_update f_procs s) = holds lk s"
  "holds lk (nextpid_update f_nextpid s) = holds lk s"
  "holds lk (initproc_update f_initproc s) = holds lk s"
  "holds lk (forkret_first_update f_forkret_first s) = holds lk s"
  "holds lk (ticks_update f_ticks s) = holds lk s"
  "holds lk (kpgdir_update f_kpgdir s) = holds lk s"
  "holds lk (idt_update f_idt s) = holds lk s"
  "holds lk (disk_update f_disk s) = holds lk s"
  "holds lk (disksize_update f_disksize s) = holds lk s"
  "holds lk (dwrites_update f_dwrites s) = holds lk s"
  "holds lk (bufs_update f_bufs s) = holds lk s"
  "holds lk (idequeue_update f_idequeue s) = holds lk s"
  "holds lk (havedisk1_update f_havedisk1 s) = holds lk s"
  "holds lk (log_start_update f_log_start s) = holds lk s"
  "holds lk (log_size_update f_log_size s) = holds lk s"
  "holds lk (log_outstanding_update f_log_outstanding s) = holds lk s"
  "holds lk (log_committing_update f_log_committing s) = holds lk s"
  "holds lk (log_dev_update f_log_dev s) = holds lk s"
  "holds lk (lh_n_update f_lh_n s) = holds lk s"
  "holds lk (lh_block_update f_lh_block s) = holds lk s"
  "holds lk (sb_update f_sb s) = holds lk s"
  "holds lk (inodes_update f_inodes s) = holds lk s"
  "holds lk (files_update f_files s) = holds lk s"
  "holds lk (pipes_update f_pipes s) = holds lk s"
  "holds lk (cons_update f_cons s) = holds lk s"
  "holds lk (ismp_update f_ismp s) = holds lk s"
  "holds lk (ncpu_update f_ncpu s) = holds lk s"
  "holds lk (lapic_update f_lapic s) = holds lk s"
  "holds lk (ioapicid_update f_ioapicid s) = holds lk s"
  "holds lk (irqmask_update f_irqmask s) = holds lk s"
  "holds lk (uart_update f_uart s) = holds lk s"
  "holds lk (ios_update f_ios s) = holds lk s"
  "holds lk (ins_update f_ins s) = holds lk s"
  by (simp_all add: holds_def)

lemma acq_frame [simp, frame_simps]:
  "cpuid (acq lk s) = cpuid s"
  "mem (acq lk s) = mem s"
  "k_end (acq lk s) = k_end s"
  "k_image (acq lk s) = k_image s"
  "use_lock (acq lk s) = use_lock s"
  "freelist (acq lk s) = freelist s"
  "procs (acq lk s) = procs s"
  "nextpid (acq lk s) = nextpid s"
  "initproc (acq lk s) = initproc s"
  "forkret_first (acq lk s) = forkret_first s"
  "ticks (acq lk s) = ticks s"
  "kpgdir (acq lk s) = kpgdir s"
  "idt (acq lk s) = idt s"
  "disk (acq lk s) = disk s"
  "disksize (acq lk s) = disksize s"
  "dwrites (acq lk s) = dwrites s"
  "bufs (acq lk s) = bufs s"
  "idequeue (acq lk s) = idequeue s"
  "havedisk1 (acq lk s) = havedisk1 s"
  "log_start (acq lk s) = log_start s"
  "log_size (acq lk s) = log_size s"
  "log_outstanding (acq lk s) = log_outstanding s"
  "log_committing (acq lk s) = log_committing s"
  "log_dev (acq lk s) = log_dev s"
  "lh_n (acq lk s) = lh_n s"
  "lh_block (acq lk s) = lh_block s"
  "sb (acq lk s) = sb s"
  "inodes (acq lk s) = inodes s"
  "files (acq lk s) = files s"
  "pipes (acq lk s) = pipes s"
  "cons (acq lk s) = cons s"
  "ismp (acq lk s) = ismp s"
  "ncpu (acq lk s) = ncpu s"
  "lapic (acq lk s) = lapic s"
  "ioapicid (acq lk s) = ioapicid s"
  "irqmask (acq lk s) = irqmask s"
  "uart (acq lk s) = uart s"
  "ios (acq lk s) = ios s"
  "ins (acq lk s) = ins s"
  by (simp_all add: acq_def cpu_defs)

lemma rel_frame [simp, frame_simps]:
  "cpuid (rel lk s) = cpuid s"
  "mem (rel lk s) = mem s"
  "k_end (rel lk s) = k_end s"
  "k_image (rel lk s) = k_image s"
  "use_lock (rel lk s) = use_lock s"
  "freelist (rel lk s) = freelist s"
  "procs (rel lk s) = procs s"
  "nextpid (rel lk s) = nextpid s"
  "initproc (rel lk s) = initproc s"
  "forkret_first (rel lk s) = forkret_first s"
  "ticks (rel lk s) = ticks s"
  "kpgdir (rel lk s) = kpgdir s"
  "idt (rel lk s) = idt s"
  "disk (rel lk s) = disk s"
  "disksize (rel lk s) = disksize s"
  "dwrites (rel lk s) = dwrites s"
  "bufs (rel lk s) = bufs s"
  "idequeue (rel lk s) = idequeue s"
  "havedisk1 (rel lk s) = havedisk1 s"
  "log_start (rel lk s) = log_start s"
  "log_size (rel lk s) = log_size s"
  "log_outstanding (rel lk s) = log_outstanding s"
  "log_committing (rel lk s) = log_committing s"
  "log_dev (rel lk s) = log_dev s"
  "lh_n (rel lk s) = lh_n s"
  "lh_block (rel lk s) = lh_block s"
  "sb (rel lk s) = sb s"
  "inodes (rel lk s) = inodes s"
  "files (rel lk s) = files s"
  "pipes (rel lk s) = pipes s"
  "cons (rel lk s) = cons s"
  "ismp (rel lk s) = ismp s"
  "ncpu (rel lk s) = ncpu s"
  "lapic (rel lk s) = lapic s"
  "ioapicid (rel lk s) = ioapicid s"
  "irqmask (rel lk s) = irqmask s"
  "uart (rel lk s) = uart s"
  "ios (rel lk s) = ios s"
  "ins (rel lk s) = ins s"
  by (simp_all add: rel_def cpu_defs)

lemma touch_frame [simp, frame_simps]:
  "cpuid (touch s) = cpuid s"
  "mem (touch s) = mem s"
  "k_end (touch s) = k_end s"
  "k_image (touch s) = k_image s"
  "use_lock (touch s) = use_lock s"
  "freelist (touch s) = freelist s"
  "procs (touch s) = procs s"
  "nextpid (touch s) = nextpid s"
  "initproc (touch s) = initproc s"
  "forkret_first (touch s) = forkret_first s"
  "ticks (touch s) = ticks s"
  "kpgdir (touch s) = kpgdir s"
  "idt (touch s) = idt s"
  "disk (touch s) = disk s"
  "disksize (touch s) = disksize s"
  "dwrites (touch s) = dwrites s"
  "bufs (touch s) = bufs s"
  "idequeue (touch s) = idequeue s"
  "havedisk1 (touch s) = havedisk1 s"
  "log_start (touch s) = log_start s"
  "log_size (touch s) = log_size s"
  "log_outstanding (touch s) = log_outstanding s"
  "log_committing (touch s) = log_committing s"
  "log_dev (touch s) = log_dev s"
  "lh_n (touch s) = lh_n s"
  "lh_block (touch s) = lh_block s"
  "sb (touch s) = sb s"
  "inodes (touch s) = inodes s"
  "files (touch s) = files s"
  "pipes (touch s) = pipes s"
  "cons (touch s) = cons s"
  "ismp (touch s) = ismp s"
  "ncpu (touch s) = ncpu s"
  "lapic (touch s) = lapic s"
  "ioapicid (touch s) = ioapicid s"
  "irqmask (touch s) = irqmask s"
  "uart (touch s) = uart s"
  "ios (touch s) = ios s"
  "ins (touch s) = ins s"
  by (simp_all add: touch_def cpu_defs)

lemma acq_commute [simp, frame_simps]:
  "acq lk (mem_update f_mem s) = mem_update f_mem (acq lk s)"
  "acq lk (k_end_update f_k_end s) = k_end_update f_k_end (acq lk s)"
  "acq lk (k_image_update f_k_image s) = k_image_update f_k_image (acq lk s)"
  "acq lk (use_lock_update f_use_lock s) = use_lock_update f_use_lock (acq lk s)"
  "acq lk (freelist_update f_freelist s) = freelist_update f_freelist (acq lk s)"
  "acq lk (procs_update f_procs s) = procs_update f_procs (acq lk s)"
  "acq lk (nextpid_update f_nextpid s) = nextpid_update f_nextpid (acq lk s)"
  "acq lk (initproc_update f_initproc s) = initproc_update f_initproc (acq lk s)"
  "acq lk (forkret_first_update f_forkret_first s) = forkret_first_update f_forkret_first (acq lk s)"
  "acq lk (ticks_update f_ticks s) = ticks_update f_ticks (acq lk s)"
  "acq lk (kpgdir_update f_kpgdir s) = kpgdir_update f_kpgdir (acq lk s)"
  "acq lk (idt_update f_idt s) = idt_update f_idt (acq lk s)"
  "acq lk (disk_update f_disk s) = disk_update f_disk (acq lk s)"
  "acq lk (disksize_update f_disksize s) = disksize_update f_disksize (acq lk s)"
  "acq lk (dwrites_update f_dwrites s) = dwrites_update f_dwrites (acq lk s)"
  "acq lk (bufs_update f_bufs s) = bufs_update f_bufs (acq lk s)"
  "acq lk (idequeue_update f_idequeue s) = idequeue_update f_idequeue (acq lk s)"
  "acq lk (havedisk1_update f_havedisk1 s) = havedisk1_update f_havedisk1 (acq lk s)"
  "acq lk (log_start_update f_log_start s) = log_start_update f_log_start (acq lk s)"
  "acq lk (log_size_update f_log_size s) = log_size_update f_log_size (acq lk s)"
  "acq lk (log_outstanding_update f_log_outstanding s) = log_outstanding_update f_log_outstanding (acq lk s)"
  "acq lk (log_committing_update f_log_committing s) = log_committing_update f_log_committing (acq lk s)"
  "acq lk (log_dev_update f_log_dev s) = log_dev_update f_log_dev (acq lk s)"
  "acq lk (lh_n_update f_lh_n s) = lh_n_update f_lh_n (acq lk s)"
  "acq lk (lh_block_update f_lh_block s) = lh_block_update f_lh_block (acq lk s)"
  "acq lk (sb_update f_sb s) = sb_update f_sb (acq lk s)"
  "acq lk (inodes_update f_inodes s) = inodes_update f_inodes (acq lk s)"
  "acq lk (files_update f_files s) = files_update f_files (acq lk s)"
  "acq lk (pipes_update f_pipes s) = pipes_update f_pipes (acq lk s)"
  "acq lk (cons_update f_cons s) = cons_update f_cons (acq lk s)"
  "acq lk (ismp_update f_ismp s) = ismp_update f_ismp (acq lk s)"
  "acq lk (ncpu_update f_ncpu s) = ncpu_update f_ncpu (acq lk s)"
  "acq lk (lapic_update f_lapic s) = lapic_update f_lapic (acq lk s)"
  "acq lk (ioapicid_update f_ioapicid s) = ioapicid_update f_ioapicid (acq lk s)"
  "acq lk (irqmask_update f_irqmask s) = irqmask_update f_irqmask (acq lk s)"
  "acq lk (uart_update f_uart s) = uart_update f_uart (acq lk s)"
  "acq lk (ios_update f_ios s) = ios_update f_ios (acq lk s)"
  "acq lk (ins_update f_ins s) = ins_update f_ins (acq lk s)"
  by (simp_all add: acq_def cpu_defs)

lemma rel_commute [simp, frame_simps]:
  "rel lk (mem_update f_mem s) = mem_update f_mem (rel lk s)"
  "rel lk (k_end_update f_k_end s) = k_end_update f_k_end (rel lk s)"
  "rel lk (k_image_update f_k_image s) = k_image_update f_k_image (rel lk s)"
  "rel lk (use_lock_update f_use_lock s) = use_lock_update f_use_lock (rel lk s)"
  "rel lk (freelist_update f_freelist s) = freelist_update f_freelist (rel lk s)"
  "rel lk (procs_update f_procs s) = procs_update f_procs (rel lk s)"
  "rel lk (nextpid_update f_nextpid s) = nextpid_update f_nextpid (rel lk s)"
  "rel lk (initproc_update f_initproc s) = initproc_update f_initproc (rel lk s)"
  "rel lk (forkret_first_update f_forkret_first s) = forkret_first_update f_forkret_first (rel lk s)"
  "rel lk (ticks_update f_ticks s) = ticks_update f_ticks (rel lk s)"
  "rel lk (kpgdir_update f_kpgdir s) = kpgdir_update f_kpgdir (rel lk s)"
  "rel lk (idt_update f_idt s) = idt_update f_idt (rel lk s)"
  "rel lk (disk_update f_disk s) = disk_update f_disk (rel lk s)"
  "rel lk (disksize_update f_disksize s) = disksize_update f_disksize (rel lk s)"
  "rel lk (dwrites_update f_dwrites s) = dwrites_update f_dwrites (rel lk s)"
  "rel lk (bufs_update f_bufs s) = bufs_update f_bufs (rel lk s)"
  "rel lk (idequeue_update f_idequeue s) = idequeue_update f_idequeue (rel lk s)"
  "rel lk (havedisk1_update f_havedisk1 s) = havedisk1_update f_havedisk1 (rel lk s)"
  "rel lk (log_start_update f_log_start s) = log_start_update f_log_start (rel lk s)"
  "rel lk (log_size_update f_log_size s) = log_size_update f_log_size (rel lk s)"
  "rel lk (log_outstanding_update f_log_outstanding s) = log_outstanding_update f_log_outstanding (rel lk s)"
  "rel lk (log_committing_update f_log_committing s) = log_committing_update f_log_committing (rel lk s)"
  "rel lk (log_dev_update f_log_dev s) = log_dev_update f_log_dev (rel lk s)"
  "rel lk (lh_n_update f_lh_n s) = lh_n_update f_lh_n (rel lk s)"
  "rel lk (lh_block_update f_lh_block s) = lh_block_update f_lh_block (rel lk s)"
  "rel lk (sb_update f_sb s) = sb_update f_sb (rel lk s)"
  "rel lk (inodes_update f_inodes s) = inodes_update f_inodes (rel lk s)"
  "rel lk (files_update f_files s) = files_update f_files (rel lk s)"
  "rel lk (pipes_update f_pipes s) = pipes_update f_pipes (rel lk s)"
  "rel lk (cons_update f_cons s) = cons_update f_cons (rel lk s)"
  "rel lk (ismp_update f_ismp s) = ismp_update f_ismp (rel lk s)"
  "rel lk (ncpu_update f_ncpu s) = ncpu_update f_ncpu (rel lk s)"
  "rel lk (lapic_update f_lapic s) = lapic_update f_lapic (rel lk s)"
  "rel lk (ioapicid_update f_ioapicid s) = ioapicid_update f_ioapicid (rel lk s)"
  "rel lk (irqmask_update f_irqmask s) = irqmask_update f_irqmask (rel lk s)"
  "rel lk (uart_update f_uart s) = uart_update f_uart (rel lk s)"
  "rel lk (ios_update f_ios s) = ios_update f_ios (rel lk s)"
  "rel lk (ins_update f_ins s) = ins_update f_ins (rel lk s)"
  by (simp_all add: rel_def cpu_defs)

lemma touch_commute [simp, frame_simps]:
  "touch (mem_update f_mem s) = mem_update f_mem (touch s)"
  "touch (k_end_update f_k_end s) = k_end_update f_k_end (touch s)"
  "touch (k_image_update f_k_image s) = k_image_update f_k_image (touch s)"
  "touch (use_lock_update f_use_lock s) = use_lock_update f_use_lock (touch s)"
  "touch (freelist_update f_freelist s) = freelist_update f_freelist (touch s)"
  "touch (procs_update f_procs s) = procs_update f_procs (touch s)"
  "touch (nextpid_update f_nextpid s) = nextpid_update f_nextpid (touch s)"
  "touch (initproc_update f_initproc s) = initproc_update f_initproc (touch s)"
  "touch (forkret_first_update f_forkret_first s) = forkret_first_update f_forkret_first (touch s)"
  "touch (ticks_update f_ticks s) = ticks_update f_ticks (touch s)"
  "touch (kpgdir_update f_kpgdir s) = kpgdir_update f_kpgdir (touch s)"
  "touch (idt_update f_idt s) = idt_update f_idt (touch s)"
  "touch (disk_update f_disk s) = disk_update f_disk (touch s)"
  "touch (disksize_update f_disksize s) = disksize_update f_disksize (touch s)"
  "touch (dwrites_update f_dwrites s) = dwrites_update f_dwrites (touch s)"
  "touch (bufs_update f_bufs s) = bufs_update f_bufs (touch s)"
  "touch (idequeue_update f_idequeue s) = idequeue_update f_idequeue (touch s)"
  "touch (havedisk1_update f_havedisk1 s) = havedisk1_update f_havedisk1 (touch s)"
  "touch (log_start_update f_log_start s) = log_start_update f_log_start (touch s)"
  "touch (log_size_update f_log_size s) = log_size_update f_log_size (touch s)"
  "touch (log_outstanding_update f_log_outstanding s) = log_outstanding_update f_log_outstanding (touch s)"
  "touch (log_committing_update f_log_committing s) = log_committing_update f_log_committing (touch s)"
  "touch (log_dev_update f_log_dev s) = log_dev_update f_log_dev (touch s)"
  "touch (lh_n_update f_lh_n s) = lh_n_update f_lh_n (touch s)"
  "touch (lh_block_update f_lh_block s) = lh_block_update f_lh_block (touch s)"
  "touch (sb_update f_sb s) = sb_update f_sb (touch s)"
  "touch (inodes_update f_inodes s) = inodes_update f_inodes (touch s)"
  "touch (files_update f_files s) = files_update f_files (touch s)"
  "touch (pipes_update f_pipes s) = pipes_update f_pipes (touch s)"
  "touch (cons_update f_cons s) = cons_update f_cons (touch s)"
  "touch (ismp_update f_ismp s) = ismp_update f_ismp (touch s)"
  "touch (ncpu_update f_ncpu s) = ncpu_update f_ncpu (touch s)"
  "touch (lapic_update f_lapic s) = lapic_update f_lapic (touch s)"
  "touch (ioapicid_update f_ioapicid s) = ioapicid_update f_ioapicid (touch s)"
  "touch (irqmask_update f_irqmask s) = irqmask_update f_irqmask (touch s)"
  "touch (uart_update f_uart s) = uart_update f_uart (touch s)"
  "touch (ios_update f_ios s) = ios_update f_ios (touch s)"
  "touch (ins_update f_ins s) = ins_update f_ins (touch s)"
  by (simp_all add: touch_def cpu_defs)

section \<open>Critical sections\<close>

text \<open>
  What a critical section needs of its body: an update of the state that neither reads
  nor writes the lock table and the processor's interrupt state.
\<close>

locale critical_section =
  fixes lk :: lockid
    and body :: "kernel \<Rightarrow> kernel"
  assumes body_locks: "locks (body s) = locks s"
    and body_cpu: "mycpu (body s) = mycpu s" "cpuid (body s) = cpuid s"
    and body_acq: "body (acq lk s) = acq lk (body s)"
begin

lemma section_ok:
  assumes "lock_free lk s" "cpu_ok s"
  shows "andthen (acquire lk) (andthen (modify body) (release lk)) s = Ok () (touch (body s))"
proof -
  have free: "lock_free lk (body s)" and cpu: "cpu_ok (body s)"
    using assms by (simp_all add: lock_free_def cpu_ok_def body_locks body_cpu)
  have "release lk (acq lk (body s)) = Ok () (rel lk (acq lk (body s)))"
    using cpu by (intro release_ok) simp
  then show ?thesis
    using assms free cpu by (simp add: acquire_ok body_acq)
qed

lemma section_quiet: "quiet s \<Longrightarrow> quiet (touch (body s))"
  by (simp add: quiet_def lock_free_def body_locks body_cpu)

end

section \<open>When they return\<close>

lemma acquire_Ok_iff: "acquire lk s = Ok u t \<longleftrightarrow> locked (locks s lk) = 0 \<and> t = acq lk s"
  by (auto simp: acquire_def pushcli_eq holding_def spin_xchg_def xchg_def acq_def cpu_defs
      bind_app andthen_app panic_if_def split: if_splits)

lemma popcli_Ok_iff:
  "popcli s = Ok u t \<longleftrightarrow> \<not> c_if (mycpu s) \<and> 0 < c_ncli (mycpu s) \<and> t = set_mycpu cpu_pop s"
proof (cases "\<not> c_if (mycpu s) \<and> 0 < c_ncli (mycpu s)")
  case True
  then show ?thesis using popcli_eq [of s] by auto
next
  case False
  then show ?thesis
    by (auto simp: popcli_def read_if_def bind_app andthen_app panic_if_def cpu_defs)
qed

lemma release_Ok_iff:
  "release lk s = Ok u t \<longleftrightarrow> locked (locks s lk) \<noteq> 0 \<and> lk_cpu (locks s lk) = Some (cpuid s)
     \<and> \<not> c_if (mycpu s) \<and> 0 < c_ncli (mycpu s) \<and> t = rel lk s"
  by (auto simp: release_def holding_def xchg_def popcli_Ok_iff bind_app andthen_app panic_if_def
      rel_def cpu_defs)

end
