(* ===== verification/Smp.thy ===== *)
theory Smp
  imports Spinlock
begin

text \<open>
  The spin locks on a machine with several processors: the statements of \<open>acquire\<close> and
  \<open>release\<close> of \<^verbatim>\<open>spinlock.c\<close> as steps of their own, interleaved in every order
  that any number of processors can execute them in, and mutual exclusion over the states
  this reaches. The atomic instruction is \<open>xchg\<close> and nothing else.
\<close>

section \<open>The statements\<close>

text \<open>
  The points of \<open>acquire\<close> and \<open>release\<close> between which another processor may run: every
  access to a field of the lock is a statement of its own (\<open>holding\<close> reads \<open>locked\<close> and
  then \<open>cpu\<close>), and so is each turn of the loop around \<open>xchg\<close>. \<open>pushcli\<close> and
  \<open>popcli\<close> touch only the processor that executes them.
\<close>

datatype point = At_pushcli | At_locked | At_cpu | At_xchg | At_set | At_popcli | Done

text \<open>One statement of \<open>acquire\<close>; the result is the point that comes next.\<close>

fun acquire_at :: "lockid \<Rightarrow> point \<Rightarrow> point kroutine" where
  "acquire_at lk At_pushcli = andthen pushcli (return At_locked)"
| "acquire_at lk At_locked =
    bind (gets (\<lambda>s. locked (locks s lk))) (\<lambda>v. return (if v \<noteq> 0 then At_cpu else At_xchg))"
| "acquire_at lk At_cpu =
    bind (gets (\<lambda>s. lk_cpu (locks s lk) = Some (cpuid s))) (\<lambda>h.
    andthen (panic_if h ''acquire'') (return At_xchg))"
| "acquire_at lk At_xchg = bind (xchg lk 1) (\<lambda>old. return (if old \<noteq> 0 then At_xchg else At_set))"
| "acquire_at lk At_set =
    andthen (modify (\<lambda>s. set_lock lk (\<lambda>k. k\<lparr>lk_cpu := Some (cpuid s)\<rparr>) s)) (return Done)"
| "acquire_at lk p = fault ''acquire''"

text \<open>One statement of \<open>release\<close>.\<close>

fun release_at :: "lockid \<Rightarrow> point \<Rightarrow> point kroutine" where
  "release_at lk At_locked =
    bind (gets (\<lambda>s. locked (locks s lk))) (\<lambda>v. andthen (panic_if (v = 0) ''release'') (return At_cpu))"
| "release_at lk At_cpu =
    bind (gets (\<lambda>s. lk_cpu (locks s lk) = Some (cpuid s))) (\<lambda>h.
    andthen (panic_if (\<not> h) ''release'') (return At_set))"
| "release_at lk At_set = andthen (modify (set_lock lk (\<lambda>k. k\<lparr>lk_cpu := None\<rparr>))) (return At_xchg)"
| "release_at lk At_xchg = bind (xchg lk 0) (\<lambda>_. return At_popcli)"
| "release_at lk At_popcli = andthen popcli (return Done)"
| "release_at lk p = fault ''release''"

datatype lock_call = Acquiring lockid | Releasing lockid

fun lock_call_at :: "lock_call \<Rightarrow> point \<Rightarrow> point kroutine" where
  "lock_call_at (Acquiring lk) = acquire_at lk"
| "lock_call_at (Releasing lk) = release_at lk"

section \<open>The machine\<close>

text \<open>
  The machine: the shared state, the call each processor is in and its next statement, and
  which processor is inside which critical section, from the return of its \<open>acquire\<close> to
  its call of \<open>release\<close>.
\<close>

record smp =
  sh :: kernel
  doing :: "nat \<Rightarrow> (lock_call \<times> point) option"
  inside :: "(nat \<times> lockid) set"

inductive lock_step :: "smp \<Rightarrow> smp \<Rightarrow> bool" where
  calls_acquire: "doing x c = None
     \<Longrightarrow> lock_step x (x\<lparr>doing := (doing x)(c \<mapsto> (Acquiring lk, At_pushcli))\<rparr>)"
| calls_release: "doing x c = None
     \<Longrightarrow> lock_step x (x\<lparr>doing := (doing x)(c \<mapsto> (Releasing lk, At_locked)), inside := inside x - {(c, lk)}\<rparr>)"
| goes_on: "doing x c = Some (f, p) \<Longrightarrow> lock_call_at f p ((sh x)\<lparr>cpuid := c\<rparr>) = Ok q t \<Longrightarrow> q \<noteq> Done
     \<Longrightarrow> lock_step x (x\<lparr>sh := t, doing := (doing x)(c \<mapsto> (f, q))\<rparr>)"
| acquired: "doing x c = Some (Acquiring lk, p) \<Longrightarrow> acquire_at lk p ((sh x)\<lparr>cpuid := c\<rparr>) = Ok Done t
     \<Longrightarrow> lock_step x (x\<lparr>sh := t, doing := (doing x)(c := None), inside := insert (c, lk) (inside x)\<rparr>)"
| released: "doing x c = Some (Releasing lk, p) \<Longrightarrow> release_at lk p ((sh x)\<lparr>cpuid := c\<rparr>) = Ok Done t
     \<Longrightarrow> lock_step x (x\<lparr>sh := t, doing := (doing x)(c := None)\<rparr>)"

text \<open>A start: every lock is free and no processor has disabled its interrupts.\<close>

definition smp_start :: "kernel \<Rightarrow> bool" where
  "smp_start s \<longleftrightarrow> (\<forall>lk. lock_free lk s) \<and> (\<forall>c. c_ncli (cpus s c) = 0)"

definition smp_init :: "kernel \<Rightarrow> smp" where
  "smp_init s = \<lparr>sh = s, doing = (\<lambda>_. None), inside = {}\<rparr>"

inductive smp_reach :: "kernel \<Rightarrow> smp \<Rightarrow> bool" for s0 where
  start: "smp_start s0 \<Longrightarrow> smp_reach s0 (smp_init s0)"
| step: "smp_reach s0 x \<Longrightarrow> lock_step x y \<Longrightarrow> smp_reach s0 y"

section \<open>The invariant\<close>

text \<open>The two moments at which a lock is taken without naming its holder.\<close>

definition taken :: "smp \<Rightarrow> nat \<Rightarrow> lockid \<Rightarrow> bool" where
  "taken x c lk \<longleftrightarrow> doing x c = Some (Acquiring lk, At_set) \<or> doing x c = Some (Releasing lk, At_xchg)"

text \<open>The processor a lock names as its holder.\<close>

definition named :: "smp \<Rightarrow> lockid \<Rightarrow> nat option" where
  "named x lk = lk_cpu (locks (sh x) lk)"

text \<open>
  A lock that names a holder or is taken is locked, it is taken by one processor at most and
  not while it names one, and it names the processor that is inside its section or about to
  clear the name.
\<close>

definition excl_inv :: "smp \<Rightarrow> bool" where
  "excl_inv x \<longleftrightarrow>
     (\<forall>c lk. (c, lk) \<in> inside x \<longrightarrow> named x lk = Some c \<and> (\<forall>p. doing x c \<noteq> Some (Releasing lk, p)))
     \<and> (\<forall>lk. named x lk \<noteq> None \<longrightarrow> locked (locks (sh x) lk) \<noteq> 0)
     \<and> (\<forall>c lk. taken x c lk \<longrightarrow> locked (locks (sh x) lk) \<noteq> 0 \<and> named x lk = None \<and> (\<forall>d. taken x d lk \<longrightarrow> d = c))
     \<and> (\<forall>c lk. doing x c = Some (Releasing lk, At_set) \<longrightarrow> named x lk = Some c)"

text \<open>Where a processor has executed the \<open>pushcli\<close> of a lock that does not name it.\<close>

fun extra :: "(lock_call \<times> point) option \<Rightarrow> int" where
  "extra (Some (Acquiring lk, p)) = (if p = At_pushcli then 0 else 1)"
| "extra (Some (Releasing lk, p)) = (if p \<in> {At_xchg, At_popcli} then 1 else 0)"
| "extra None = 0"

text \<open>The nesting count is the number of locks a processor has pushed interrupts off for.\<close>

definition ncli_inv :: "smp \<Rightarrow> bool" where
  "ncli_inv x \<longleftrightarrow>
     (\<forall>c. finite {lk. named x lk = Some c})
     \<and> (\<forall>c. c_ncli (cpus (sh x) c) = int (card {lk. named x lk = Some c}) + extra (doing x c))
     \<and> (\<forall>c. 0 < c_ncli (cpus (sh x) c) \<longrightarrow> \<not> c_if (cpus (sh x) c))"


lemma andthen_return_Ok: "andthen m (return a) s = Ok b t \<longleftrightarrow> (\<exists>u. m s = Ok u t) \<and> b = a"
  by (cases "m s") (auto simp: andthen_app return_def)

lemma acquire_at_Ok [simp]:
  "acquire_at lk At_pushcli s = Ok q t \<longleftrightarrow> q = At_locked \<and> t = set_mycpu cpu_push s"
  "acquire_at lk At_locked s = Ok q t \<longleftrightarrow> q = (if locked (locks s lk) \<noteq> 0 then At_cpu else At_xchg) \<and> t = s"
  "acquire_at lk At_cpu s = Ok q t \<longleftrightarrow> lk_cpu (locks s lk) \<noteq> Some (cpuid s) \<and> q = At_xchg \<and> t = s"
  "acquire_at lk At_xchg s = Ok q t \<longleftrightarrow> q = (if locked (locks s lk) \<noteq> 0 then At_xchg else At_set)
     \<and> t = set_lock lk (\<lambda>k. k\<lparr>locked := 1\<rparr>) s"
  "acquire_at lk At_set s = Ok q t \<longleftrightarrow> q = Done \<and> t = set_lock lk (\<lambda>k. k\<lparr>lk_cpu := Some (cpuid s)\<rparr>) s"
  "acquire_at lk At_popcli s \<noteq> Ok q t" "acquire_at lk Done s \<noteq> Ok q t"
  by (auto simp: xchg_def pushcli_eq panic_if_def bind_app andthen_app)

lemma release_at_Ok [simp]:
  "release_at lk At_locked s = Ok q t \<longleftrightarrow> locked (locks s lk) \<noteq> 0 \<and> q = At_cpu \<and> t = s"
  "release_at lk At_cpu s = Ok q t \<longleftrightarrow> lk_cpu (locks s lk) = Some (cpuid s) \<and> q = At_set \<and> t = s"
  "release_at lk At_set s = Ok q t \<longleftrightarrow> q = At_xchg \<and> t = set_lock lk (\<lambda>k. k\<lparr>lk_cpu := None\<rparr>) s"
  "release_at lk At_xchg s = Ok q t \<longleftrightarrow> q = At_popcli \<and> t = set_lock lk (\<lambda>k. k\<lparr>locked := 0\<rparr>) s"
  "release_at lk At_popcli s = Ok q t \<longleftrightarrow> \<not> c_if (mycpu s) \<and> 0 < c_ncli (mycpu s) \<and> q = Done \<and> t = set_mycpu cpu_pop s"
  "release_at lk At_pushcli s \<noteq> Ok q t" "release_at lk Done s \<noteq> Ok q t"
  by (auto simp: xchg_def panic_if_def bind_app andthen_return_Ok popcli_Ok_iff)


declare acquire_at.simps [simp del] release_at.simps [simp del]

lemmas excl_simps = excl_inv_def taken_def named_def cpu_defs

lemma exclD:
  assumes "excl_inv x"
  shows "(c, lk) \<in> inside x \<Longrightarrow> named x lk = Some c"
    and "(c, lk) \<in> inside x \<Longrightarrow> doing x c \<noteq> Some (Releasing lk, p)"
    and "named x lk = Some c \<Longrightarrow> locked (locks (sh x) lk) \<noteq> 0"
    and "taken x c lk \<Longrightarrow> locked (locks (sh x) lk) \<noteq> 0"
    and "taken x c lk \<Longrightarrow> named x lk = None"
    and "taken x c lk \<Longrightarrow> taken x d lk \<Longrightarrow> d = c"
    and "doing x c = Some (Releasing lk, At_set) \<Longrightarrow> named x lk = Some c"
  using assms unfolding excl_inv_def by blast+

lemma excl_invI:
  assumes "\<And>c lk. (c, lk) \<in> inside x \<Longrightarrow> named x lk = Some c"
    and "\<And>c lk p. (c, lk) \<in> inside x \<Longrightarrow> doing x c \<noteq> Some (Releasing lk, p)"
    and "\<And>c lk. named x lk = Some c \<Longrightarrow> locked (locks (sh x) lk) \<noteq> 0"
    and "\<And>c lk. taken x c lk \<Longrightarrow> locked (locks (sh x) lk) \<noteq> 0"
    and "\<And>c lk. taken x c lk \<Longrightarrow> named x lk = None"
    and "\<And>c d lk. taken x c lk \<Longrightarrow> taken x d lk \<Longrightarrow> d = c"
    and "\<And>c lk. doing x c = Some (Releasing lk, At_set) \<Longrightarrow> named x lk = Some c"
  shows "excl_inv x"
  using assms unfolding excl_inv_def by blast

lemma excl_taken:
  assumes "excl_inv x" "taken x c lk"
  shows "named x lk = None \<and> (d, lk) \<notin> inside x \<and> doing x d \<noteq> Some (Releasing lk, At_set) \<and> (taken x d lk \<longrightarrow> d = c)"
  using exclD [OF assms(1)] assms(2) by (metis option.distinct(1))

lemma excl_leaving:
  assumes "excl_inv x" "doing x c = Some (Releasing lk, At_set)"
  shows "\<not> taken x d lk \<and> (d, lk) \<notin> inside x \<and> (doing x d = Some (Releasing lk, At_set) \<longrightarrow> d = c)"
  using exclD [OF assms(1)] assms(2) by (metis option.distinct(1) option.inject)

lemma excl_acquire_at:
  assumes "excl_inv x" "doing x c = Some (Acquiring lk, p)" "acquire_at lk p ((sh x)\<lparr>cpuid := c\<rparr>) = Ok q t" "q \<noteq> Done"
  shows "excl_inv (x\<lparr>sh := t, doing := (doing x)(c \<mapsto> (Acquiring lk, q))\<rparr>)"
  using assms by (cases p) (auto simp: excl_simps split: if_splits)

lemma excl_clears_cpu:
  assumes inv: "excl_inv x" and c: "doing x c = Some (Releasing lk, At_set)"
    and t: "t = set_lock lk (\<lambda>k. k\<lparr>lk_cpu := None\<rparr>) ((sh x)\<lparr>cpuid := c\<rparr>)"
  shows "excl_inv (x\<lparr>sh := t, doing := (doing x)(c \<mapsto> (Releasing lk, At_xchg))\<rparr>)" (is "excl_inv ?y")
proof -
  have l: "\<not> taken x d lk \<and> (d, lk) \<notin> inside x \<and> (doing x d = Some (Releasing lk, At_set) \<longrightarrow> d = c)" for d
    by (rule excl_leaving [OF inv c])
  have named: "named ?y k = (if k = lk then None else named x k)" for k by (simp add: named_def t cpu_defs)
  have lock: "locked (locks (sh ?y) k) = locked (locks (sh x) k)" for k by (simp add: t cpu_defs)
  have taken: "taken ?y d k \<longleftrightarrow> (if d = c then k = lk else taken x d k)" for d k by (auto simp: taken_def)
  have nz: "locked (locks (sh x) lk) \<noteq> 0" using exclD(3) [OF inv exclD(7) [OF inv c]] .
  show ?thesis
  proof (rule excl_invI, goal_cases)
    case (1 d k)
    then show ?case using l [of d] exclD(1) [OF inv, of d k] unfolding named by auto
  next
    case (2 d k p)
    then show ?case using l [of d] exclD(2) [OF inv, of d k p] by auto
  next
    case (3 d k)
    then show ?case using exclD(3) [OF inv, of k d] unfolding named lock by (simp split: if_splits)
  next
    case (4 d k)
    then show ?case using exclD(4) [OF inv, of d k] nz unfolding taken lock by (simp split: if_splits)
  next
    case (5 d k)
    then show ?case using exclD(5) [OF inv, of d k] unfolding taken named by (simp split: if_splits)
  next
    case (6 d e k)
    then show ?case unfolding taken
      using exclD(6) [OF inv, of d k e] l [of d, THEN conjunct1] l [of e, THEN conjunct1]
      by (cases "d = c"; cases "e = c") auto
  next
    case (7 d k)
    then show ?case using exclD(7) [OF inv, of d k] l [of d] unfolding named by (auto split: if_splits)
  qed
qed

lemma excl_frees:
  assumes inv: "excl_inv x" and c: "doing x c = Some (Releasing lk, At_xchg)"
    and t: "t = set_lock lk (\<lambda>k. k\<lparr>locked := 0\<rparr>) ((sh x)\<lparr>cpuid := c\<rparr>)"
  shows "excl_inv (x\<lparr>sh := t, doing := (doing x)(c \<mapsto> (Releasing lk, At_popcli))\<rparr>)" (is "excl_inv ?y")
proof -
  have "taken x c lk" using c by (simp add: taken_def)
  then have l: "named x lk = None \<and> (d, lk) \<notin> inside x \<and> doing x d \<noteq> Some (Releasing lk, At_set) \<and> (taken x d lk \<longrightarrow> d = c)" for d
    by (rule excl_taken [OF inv])
  have named: "named ?y k = named x k" for k by (simp add: named_def t cpu_defs)
  have lock: "locked (locks (sh ?y) k) = (if k = lk then 0 else locked (locks (sh x) k))" for k by (simp add: t cpu_defs)
  have taken: "taken ?y d k \<longleftrightarrow> d \<noteq> c \<and> taken x d k" for d k by (auto simp: taken_def)
  show ?thesis
  proof (rule excl_invI, goal_cases)
    case (1 d k)
    then show ?case using exclD(1) [OF inv] by (simp add: named)
  next
    case (2 d k p)
    then show ?case using l [of d] exclD(2) [OF inv, of d k p] by auto
  next
    case (3 d k)
    then show ?case using exclD(3) [OF inv, of k d] l [of d] unfolding named lock by auto
  next
    case (4 d k)
    then show ?case using exclD(4) [OF inv, of d k] l [of d] unfolding taken lock by auto
  next
    case (5 d k)
    then show ?case using exclD(5) [OF inv, of d k] unfolding taken named by simp
  next
    case (6 d e k)
    then show ?case using exclD(6) [OF inv, of d k e] unfolding taken by simp
  next
    case (7 d k)
    then show ?case using exclD(7) [OF inv, of d k] unfolding named by (simp split: if_splits)
  qed
qed

lemma excl_release_at:
  assumes inv: "excl_inv x" and c: "doing x c = Some (Releasing lk, p)"
    and ok: "release_at lk p ((sh x)\<lparr>cpuid := c\<rparr>) = Ok q t" and q: "q \<noteq> Done"
  shows "excl_inv (x\<lparr>sh := t, doing := (doing x)(c \<mapsto> (Releasing lk, q))\<rparr>)"
proof (cases p)
  case At_set
  then show ?thesis using excl_clears_cpu [OF inv] c ok by simp
next
  case At_xchg
  then show ?thesis using excl_frees [OF inv] c ok by simp
qed (use inv c ok q in \<open>auto simp: excl_simps\<close>)

lemma excl_acquired:
  assumes inv: "excl_inv x" and c: "doing x c = Some (Acquiring lk, p)"
    and ok: "acquire_at lk p ((sh x)\<lparr>cpuid := c\<rparr>) = Ok Done t"
  shows "excl_inv (x\<lparr>sh := t, doing := (doing x)(c := None), inside := insert (c, lk) (inside x)\<rparr>)" (is "excl_inv ?y")
proof -
  have p: "p = At_set" using ok by (cases p) (auto split: if_splits)
  then have tk: "taken x c lk" using c by (simp add: taken_def)
  then have l: "named x lk = None \<and> (d, lk) \<notin> inside x \<and> doing x d \<noteq> Some (Releasing lk, At_set) \<and> (taken x d lk \<longrightarrow> d = c)" for d
    by (rule excl_taken [OF inv])
  have named: "named ?y k = (if k = lk then Some c else named x k)" for k using ok p by (simp add: named_def cpu_defs)
  have lock: "locked (locks (sh ?y) k) = locked (locks (sh x) k)" for k using ok p by (simp add: cpu_defs)
  have taken: "taken ?y d k \<longleftrightarrow> d \<noteq> c \<and> taken x d k" for d k by (auto simp: taken_def)
  have nz: "locked (locks (sh x) lk) \<noteq> 0" using exclD(4) [OF inv tk] .
  show ?thesis
  proof (rule excl_invI, goal_cases)
    case (1 d k)
    then show ?case using l [of d] exclD(1) [OF inv, of d k] unfolding named by auto
  next
    case (2 d k p)
    then show ?case using exclD(2) [OF inv, of d k p] by auto
  next
    case (3 d k)
    then show ?case using exclD(3) [OF inv, of k d] nz unfolding named lock by (simp split: if_splits)
  next
    case (4 d k)
    then show ?case using exclD(4) [OF inv, of d k] unfolding taken lock by simp
  next
    case (5 d k)
    then show ?case using exclD(5) [OF inv, of d k] l [of d] unfolding taken named by auto
  next
    case (6 d e k)
    then show ?case using exclD(6) [OF inv, of d k e] unfolding taken by simp
  next
    case (7 d k)
    then show ?case using exclD(7) [OF inv, of d k] l [of d] unfolding named by (simp split: if_splits) 
  qed
qed

lemma excl_released:
  assumes "excl_inv x" "doing x c = Some (Releasing lk, p)" "release_at lk p ((sh x)\<lparr>cpuid := c\<rparr>) = Ok Done t"
  shows "excl_inv (x\<lparr>sh := t, doing := (doing x)(c := None)\<rparr>)"
  using assms by (cases p) (auto simp: excl_simps split: if_splits)


lemma excl_step: "lock_step x y \<Longrightarrow> excl_inv x \<Longrightarrow> excl_inv y"
proof (induction rule: lock_step.induct)
  case (calls_acquire x c lk)
  then show ?case by (auto simp: excl_simps)
next
  case (calls_release x c lk)
  then show ?case by (auto simp: excl_simps)
next
  case (goes_on x c f p q t)
  then show ?case by (cases f) (auto intro: excl_acquire_at excl_release_at)
qed (auto intro: excl_acquired excl_released)

lemma named_at:
  "acquire_at lk p ((sh x)\<lparr>cpuid := c\<rparr>) = Ok q t \<Longrightarrow>
     lk_cpu (locks t k) = (if p = At_set \<and> k = lk then Some c else named x k)"
  "release_at lk p ((sh x)\<lparr>cpuid := c\<rparr>) = Ok q t \<Longrightarrow>
     lk_cpu (locks t k) = (if p = At_set \<and> k = lk then None else named x k)"
  by (cases p; auto simp: named_def cpu_defs)+

lemma ncli_acquire_at:
  assumes inv: "ncli_inv x" and c: "doing x c = Some (Acquiring lk, p)"
    and ok: "acquire_at lk p ((sh x)\<lparr>cpuid := c\<rparr>) = Ok q t" "q \<noteq> Done"
  shows "ncli_inv (x\<lparr>sh := t, doing := (doing x)(c \<mapsto> (Acquiring lk, q))\<rparr>)"
proof -
  have "p \<noteq> At_set" using ok by auto
  then have "lk_cpu (locks t k) = named x k" for k using named_at(1) [OF ok(1), of k] by simp
  then have named: "named (x\<lparr>sh := t, doing := (doing x)(c \<mapsto> (Acquiring lk, q))\<rparr>) k = named x k" for k
    by (simp add: named_def)
  show ?thesis
    using inv c ok unfolding ncli_inv_def named
    by (cases p) (auto simp: cpu_defs cpu_push_def split: if_splits)
qed

lemma ncli_acquired:
  assumes inv: "ncli_inv x" and excl: "excl_inv x" and c: "doing x c = Some (Acquiring lk, p)"
    and ok: "acquire_at lk p ((sh x)\<lparr>cpuid := c\<rparr>) = Ok Done t"
  shows "ncli_inv (x\<lparr>sh := t, doing := (doing x)(c := None), inside := insert (c, lk) (inside x)\<rparr>)"
proof -
  let ?x = "x\<lparr>sh := t, doing := (doing x)(c := None), inside := insert (c, lk) (inside x)\<rparr>"
  have p: "p = At_set" using ok by (cases p) (auto split: if_splits)
  then have none: "named x lk = None" using c excl by (simp add: excl_inv_def taken_def)
  have named: "named ?x k = (if k = lk then Some c else named x k)" for k
    using named_at(1) [OF ok, of k] p by (simp add: named_def)
  have fin: "finite {k. named x k = Some d}" for d using inv by (simp add: ncli_inv_def)
  have new: "{k. named ?x k = Some c} = insert lk {k. named x k = Some c}" by (auto simp: named)
  have other: "{k. named ?x k = Some d} = {k. named x k = Some d}" if "d \<noteq> c" for d
    using none that by (auto simp: named)
  have card: "card {k. named ?x k = Some c} = Suc (card {k. named x k = Some c})"
    unfolding new using fin none by simp
  have cpus: "cpus t = cpus (sh x)" using ok p by (simp add: cpu_defs)
  have "finite {k. named ?x k = Some d}" for d by (cases "d = c") (simp_all add: new other fin)
  moreover have "c_ncli (cpus t d) = int (card {k. named ?x k = Some d}) + extra (doing ?x d)" for d
    using inv c p by (cases "d = c") (simp_all add: ncli_inv_def card other cpus)
  ultimately show ?thesis using inv by (simp add: ncli_inv_def cpus)
qed


lemma ncli_release_at:
  assumes inv: "ncli_inv x" and excl: "excl_inv x" and c: "doing x c = Some (Releasing lk, p)"
    and ok: "release_at lk p ((sh x)\<lparr>cpuid := c\<rparr>) = Ok q t" and q: "q \<noteq> Done"
  shows "ncli_inv (x\<lparr>sh := t, doing := (doing x)(c \<mapsto> (Releasing lk, q))\<rparr>)"
proof (cases "p = At_set")
  case True
  let ?x = "x\<lparr>sh := t, doing := (doing x)(c \<mapsto> (Releasing lk, q))\<rparr>"
  have held: "named x lk = Some c" using True c excl by (simp add: excl_inv_def)
  have named: "named ?x k = (if k = lk then None else named x k)" for k
    using named_at(2) [OF ok, of k] True by (simp add: named_def)
  have fin: "finite {k. named x k = Some d}" for d using inv by (simp add: ncli_inv_def)
  have old: "{k. named x k = Some c} = insert lk {k. named ?x k = Some c}" using held by (auto simp: named)
  have other: "{k. named ?x k = Some d} = {k. named x k = Some d}" if "d \<noteq> c" for d
    using held that by (auto simp: named)
  have fin': "finite {k. named ?x k = Some d}" for d by (rule finite_subset [OF _ fin [of d]]) (auto simp: named)
  have card: "card {k. named x k = Some c} = Suc (card {k. named ?x k = Some c})"
    unfolding old using fin' by (subst card_insert_disjoint) (auto simp: named)
  have cpus: "cpus t = cpus (sh x)" and qx: "q = At_xchg" using ok True by (simp_all add: cpu_defs)
  have extra: "extra (doing x c) = 0" "extra (doing ?x c) = 1" using c True qx by simp_all
  have "c_ncli (cpus t d) = int (card {k. named ?x k = Some d}) + extra (doing ?x d)" for d
    using inv extra by (cases "d = c") (simp_all add: ncli_inv_def card other cpus del: extra.simps)
  then show ?thesis using inv fin' by (simp add: ncli_inv_def cpus)
next
  case False
  then have "lk_cpu (locks t k) = named x k" for k using named_at(2) [OF ok, of k] by simp
  then have named: "named (x\<lparr>sh := t, doing := (doing x)(c \<mapsto> (Releasing lk, q))\<rparr>) k = named x k" for k
    by (simp add: named_def)
  show ?thesis
    using inv c ok q False unfolding ncli_inv_def named by (cases p) (auto simp: cpu_defs split: if_splits)
qed

lemma ncli_released:
  assumes inv: "ncli_inv x" and c: "doing x c = Some (Releasing lk, p)"
    and ok: "release_at lk p ((sh x)\<lparr>cpuid := c\<rparr>) = Ok Done t"
  shows "ncli_inv (x\<lparr>sh := t, doing := (doing x)(c := None)\<rparr>)"
proof -
  have p: "p = At_popcli" using ok by (cases p) auto
  have named: "named (x\<lparr>sh := t, doing := (doing x)(c := None)\<rparr>) k = named x k" for k
    using named_at(2) [OF ok, of k] p by (simp add: named_def)
  show ?thesis using inv c ok unfolding ncli_inv_def named p by (auto simp: cpu_defs cpu_pop_def)
qed

lemma ncli_step: "lock_step x y \<Longrightarrow> excl_inv x \<Longrightarrow> ncli_inv x \<Longrightarrow> ncli_inv y"
proof (induction rule: lock_step.induct)
  case (calls_acquire x c lk)
  then show ?case by (auto simp: ncli_inv_def named_def)
next
  case (calls_release x c lk)
  then show ?case by (auto simp: ncli_inv_def named_def)
next
  case (goes_on x c f p q t)
  then show ?case by (cases f) (auto intro: ncli_acquire_at ncli_release_at)
qed (auto intro: ncli_acquired ncli_released)

lemma smp_inv_reach: "smp_reach s0 x \<Longrightarrow> excl_inv x \<and> ncli_inv x"
proof (induction rule: smp_reach.induct)
  case start
  then show ?case
    by (simp add: smp_init_def smp_start_def excl_simps lock_free_def ncli_inv_def)
qed (auto intro: excl_step ncli_step)

text \<open>One processor that is not disturbed executes the routines as they are defined.\<close>

lemma lock_step_acquire_at:
  assumes "doing x c = Some (Acquiring lk, p)" "acquire_at lk p ((sh x)\<lparr>cpuid := c\<rparr>) = Ok q t" "q \<noteq> Done"
  shows "lock_step x (x\<lparr>sh := t, doing := (doing x)(c \<mapsto> (Acquiring lk, q))\<rparr>)"
  using assms by (intro goes_on) simp_all

lemma acquire_runs:
  assumes ok: "acquire lk ((sh x)\<lparr>cpuid := c\<rparr>) = Ok () t" and idle: "doing x c = None"
  shows "rtranclp lock_step x (x\<lparr>sh := t, inside := insert (c, lk) (inside x)\<rparr>)"
proof -
  define y where "y s p = x\<lparr>sh := s, doing := (doing x)(c \<mapsto> (Acquiring lk, p))\<rparr>" for s p
  let ?s1 = "set_mycpu cpu_push ((sh x)\<lparr>cpuid := c\<rparr>)"
  let ?s2 = "set_lock lk (\<lambda>k. k\<lparr>locked := 1\<rparr>) ?s1"
  have free: "locked (locks (sh x) lk) = 0" and t: "t = set_lock lk (\<lambda>k. k\<lparr>lk_cpu := Some c\<rparr>) ?s2"
    using ok by (auto simp: acquire_Ok_iff acq_def cpu_defs)
  have id: "s\<lparr>cpuid := c\<rparr> = s" if "cpuid s = c" for s :: kernel using that by (cases s) simp
  have s1: "?s1\<lparr>cpuid := c\<rparr> = ?s1" and s2: "?s2\<lparr>cpuid := c\<rparr> = ?s2" by (rule id, simp add: cpu_defs)+
  have l1: "locked (locks ?s1 lk) = 0" using free by (simp add: cpu_defs)
  have t': "acquire_at lk At_set ?s2 = Ok Done t" using t by (simp add: cpu_defs)
  have "lock_step x (y (sh x) At_pushcli)" using calls_acquire [OF idle, of lk] by (simp add: y_def)
  moreover have "lock_step (y (sh x) At_pushcli) (y ?s1 At_locked)"
    using lock_step_acquire_at [of "y (sh x) At_pushcli" c lk At_pushcli] by (simp add: y_def)
  moreover have "lock_step (y ?s1 At_locked) (y ?s1 At_xchg)"
    using lock_step_acquire_at [of "y ?s1 At_locked" c lk At_locked] l1 by (simp add: y_def s1)
  moreover have "lock_step (y ?s1 At_xchg) (y ?s2 At_set)"
    using lock_step_acquire_at [of "y ?s1 At_xchg" c lk At_xchg] l1 by (simp add: y_def s1)
  moreover have "lock_step (y ?s2 At_set) (x\<lparr>sh := t, inside := insert (c, lk) (inside x)\<rparr>)"
    using acquired [of "y ?s2 At_set" c lk At_set t] t' idle by (simp add: y_def s2 fun_upd_idem)
  ultimately show ?thesis by (meson rtranclp.rtrancl_refl rtranclp.rtrancl_into_rtrancl)
qed

lemma lock_step_release_at:
  assumes "doing x c = Some (Releasing lk, p)" "release_at lk p ((sh x)\<lparr>cpuid := c\<rparr>) = Ok q t" "q \<noteq> Done"
  shows "lock_step x (x\<lparr>sh := t, doing := (doing x)(c \<mapsto> (Releasing lk, q))\<rparr>)"
  using assms by (intro goes_on) simp_all

lemma release_runs:
  assumes ok: "release lk ((sh x)\<lparr>cpuid := c\<rparr>) = Ok () t" and idle: "doing x c = None"
  shows "rtranclp lock_step x (x\<lparr>sh := t, inside := inside x - {(c, lk)}\<rparr>)"
proof -
  define y where "y s p = x\<lparr>inside := inside x - {(c, lk)}, sh := s, doing := (doing x)(c \<mapsto> (Releasing lk, p))\<rparr>" for s p
  let ?s0 = "(sh x)\<lparr>cpuid := c\<rparr>"
  let ?s1 = "set_lock lk (\<lambda>k. k\<lparr>lk_cpu := None\<rparr>) ?s0"
  let ?s2 = "set_lock lk (\<lambda>k. k\<lparr>locked := 0\<rparr>) ?s1"
  have held: "locked (locks (sh x) lk) \<noteq> 0" "lk_cpu (locks (sh x) lk) = Some c"
    "\<not> c_if (mycpu ?s2)" "0 < c_ncli (mycpu ?s2)" and t: "t = set_mycpu cpu_pop ?s2"
    using ok by (auto simp: release_Ok_iff rel_def cpu_defs)
  have id: "s\<lparr>cpuid := c\<rparr> = s" if "cpuid s = c" for s :: kernel using that by (cases s) simp
  have s1: "?s1\<lparr>cpuid := c\<rparr> = ?s1" and s2: "?s2\<lparr>cpuid := c\<rparr> = ?s2" by (rule id, simp add: cpu_defs)+
  have t': "release_at lk At_popcli ?s2 = Ok Done t" using t held(3,4) by simp
  have swap: "x\<lparr>sh := t, inside := inside x - {(c, lk)}\<rparr> = x\<lparr>inside := inside x - {(c, lk)}, sh := t\<rparr>" by (cases x) simp
  have "y (sh x) At_locked = x\<lparr>doing := (doing x)(c \<mapsto> (Releasing lk, At_locked)), inside := inside x - {(c, lk)}\<rparr>"
    by (cases x) (simp add: y_def)
  then have "lock_step x (y (sh x) At_locked)" using calls_release [OF idle, of lk] by simp
  moreover have "lock_step (y (sh x) At_locked) (y ?s0 At_cpu)"
    using lock_step_release_at [of "y (sh x) At_locked" c lk At_locked] held by (simp add: y_def)
  moreover have "lock_step (y ?s0 At_cpu) (y ?s0 At_set)"
    using lock_step_release_at [of "y ?s0 At_cpu" c lk At_cpu] held by (simp add: y_def)
  moreover have "lock_step (y ?s0 At_set) (y ?s1 At_xchg)"
    using lock_step_release_at [of "y ?s0 At_set" c lk At_set] by (simp add: y_def)
  moreover have "lock_step (y ?s1 At_xchg) (y ?s2 At_popcli)"
    using lock_step_release_at [of "y ?s1 At_xchg" c lk At_xchg] by (simp add: y_def s1)
  moreover have "lock_step (y ?s2 At_popcli) (x\<lparr>sh := t, inside := inside x - {(c, lk)}\<rparr>)"
    unfolding swap using released [of "y ?s2 At_popcli" c lk At_popcli t] t' idle by (simp add: y_def s2 fun_upd_idem)
  ultimately show ?thesis by (meson rtranclp.rtrancl_refl rtranclp.rtrancl_into_rtrancl)
qed

section \<open>Mutual exclusion\<close>

text \<open>
  C12. Mutual exclusion: however the statements of \<open>acquire\<close> and \<open>release\<close> on any number
  of processors are interleaved, while one processor is inside the critical section of a
  lock no other processor is, and the lock names its holder.
\<close>

theorem mutual_exclusion:
  assumes "smp_reach s0 x" "(c, lk) \<in> inside x" "d \<noteq> c"
  shows "(d, lk) \<notin> inside x \<and> locked (locks (sh x) lk) \<noteq> 0 \<and> lk_cpu (locks (sh x) lk) = Some c"
proof -
  have inv: "excl_inv x" using smp_inv_reach [OF assms(1)] by simp
  have c: "named x lk = Some c" by (rule exclD(1) [OF inv assms(2)])
  show ?thesis using exclD(1) [OF inv, of d lk] exclD(3) [OF inv c] c assms(3) by (auto simp: named_def)
qed

text \<open>
  C13. A processor that holds a spin lock runs with interrupts disabled, and another
  processor's attempt to acquire that lock does not return.
\<close>

theorem holder_undisturbed:
  assumes reach: "smp_reach s0 x" and c: "(c, lk) \<in> inside x"
  shows "\<not> c_if (cpus (sh x) c) \<and> (d \<noteq> c \<longrightarrow> (\<exists>t. acquire lk ((sh x)\<lparr>cpuid := d\<rparr>) = Spin t))"
proof -
  have inv: "excl_inv x" "ncli_inv x" using smp_inv_reach [OF reach] by simp_all
  have named: "named x lk = Some c" by (rule exclD(1) [OF inv(1) c])
  have "finite {k. named x k = Some c}" using inv(2) by (simp add: ncli_inv_def)
  then have "0 < card {k. named x k = Some c}" using named by (auto simp: card_gt_0_iff)
  moreover have "0 \<le> extra (doing x c)" by (cases "doing x c" rule: extra.cases) simp_all
  ultimately have "0 < c_ncli (cpus (sh x) c)" using inv(2) by (simp add: ncli_inv_def)
  then have "\<not> c_if (cpus (sh x) c)" using inv(2) by (simp add: ncli_inv_def)
  moreover have "\<exists>t. acquire lk ((sh x)\<lparr>cpuid := d\<rparr>) = Spin t" if "d \<noteq> c"
    using exclD(3) [OF inv(1) named] named that by (intro acquire_busy) (simp_all add: named_def)
  ultimately show ?thesis by simp
qed

section \<open>Concrete instances\<close>

text \<open>Processor 0 in a critical section of the log.\<close>

definition log_taken :: smp where
  "log_taken = \<lparr>sh = acq L_log (boot0\<lparr>cpuid := 0\<rparr>), doing = (\<lambda>_. None), inside = {(0, L_log)}\<rparr>"

lemma smp_reach_steps: "rtranclp lock_step x y \<Longrightarrow> smp_reach s0 x \<Longrightarrow> smp_reach s0 y"
  by (induction rule: rtranclp_induct) (auto intro: smp_reach.step)

lemma log_taken_reach: "smp_reach boot0 log_taken"
proof -
  have "smp_start boot0" by (simp add: smp_start_def lock_free_def boot0_def boot_kernel_def zero_defs)
  moreover have "acquire L_log ((sh (smp_init boot0))\<lparr>cpuid := 0\<rparr>) = Ok () (sh log_taken)"
    by (simp add: smp_init_def acquire_Ok_iff log_taken_def boot0_def boot_kernel_def zero_defs)
  from acquire_runs [OF this] have "rtranclp lock_step (smp_init boot0) log_taken"
    by (simp add: smp_init_def log_taken_def)
  ultimately show ?thesis by (blast intro: smp_reach.start smp_reach_steps)
qed

text \<open>Meanwhile processor 1 tries to take the same lock: it is in the loop around \<open>xchg\<close>.\<close>

definition contended :: smp where
  "contended = log_taken\<lparr>sh := set_mycpu cpu_push ((sh log_taken)\<lparr>cpuid := 1\<rparr>),
     doing := [1 \<mapsto> (Acquiring L_log, At_xchg)]\<rparr>"

lemma contended_reach: "smp_reach boot0 contended"
proof -
  define y where "y s p = log_taken\<lparr>sh := s, doing := [1 \<mapsto> (Acquiring L_log, p)]\<rparr>" for s p
  let ?s = "sh contended"
  have id: "?s\<lparr>cpuid := 1\<rparr> = ?s" by (cases "sh log_taken") (simp add: contended_def cpu_defs)
  have held: "locked (locks ?s L_log) = 1" "lk_cpu (locks ?s L_log) = Some 0" "cpuid ?s = 1"
    by (simp_all add: contended_def log_taken_def acq_def cpu_defs boot0_def boot_kernel_def)
  have "lock_step log_taken (y (sh log_taken) At_pushcli)"
    using calls_acquire [of log_taken 1 L_log] by (simp add: y_def log_taken_def)
  moreover have "lock_step (y (sh log_taken) At_pushcli) (y ?s At_locked)"
    using lock_step_acquire_at [of "y (sh log_taken) At_pushcli" 1 L_log At_pushcli] by (simp add: y_def contended_def)
  moreover have "lock_step (y ?s At_locked) (y ?s At_cpu)"
    using lock_step_acquire_at [of "y ?s At_locked" 1 L_log At_locked] held by (simp add: y_def id [simplified])
  moreover have "lock_step (y ?s At_cpu) (y ?s At_xchg)"
    using lock_step_acquire_at [of "y ?s At_cpu" 1 L_log At_cpu] held by (simp add: y_def id [simplified])
  ultimately have "smp_reach boot0 (y ?s At_xchg)"
    by (meson smp_reach.step log_taken_reach)
  then show ?thesis by (simp add: y_def contended_def)
qed

lemma mutual_exclusion_witness:
  "(0, L_log) \<in> inside contended \<and> doing contended 1 = Some (Acquiring L_log, At_xchg) \<and> (1, L_log) \<notin> inside contended
     \<and> lk_cpu (locks (sh contended) L_log) = Some 0"
  using mutual_exclusion [OF contended_reach, of 0 L_log 1] by (simp add: contended_def log_taken_def)

lemma holder_undisturbed_witness:
  "\<not> c_if (cpus (sh contended) 0) \<and> (\<exists>t. acquire L_log ((sh contended)\<lparr>cpuid := 1\<rparr>) = Spin t)"
  using holder_undisturbed [OF contended_reach, of 0 L_log 1] by (simp add: contended_def log_taken_def)

end
