(* ===== verification/CString.thy ===== *)
theory CString
  imports Kernel_State
begin

text \<open>
  \<^verbatim>\<open>string.c\<close>. \<open>memset\<close> and \<open>memmove\<close> act on the memory function, so that
  their aliasing is visible; the string routines act on the bytes of an array from the
  pointer on (a list), and reading or writing past the end of the array is \<open>None\<close>.
\<close>

unbundle bit_operations_syntax

section \<open>Filling memory\<close>

text \<open>The string instructions \<open>rep stosb\<close> and \<open>rep stosl\<close> of \<^verbatim>\<open>x86.h\<close>.\<close>

fun stosb :: "(uint32 \<Rightarrow> byte) \<Rightarrow> uint32 \<Rightarrow> byte \<Rightarrow> nat \<Rightarrow> (uint32 \<Rightarrow> byte)" where
  "stosb m addr c 0 = m"
| "stosb m addr c (Suc n) = stosb (m(addr := c)) (addr + 1) c n"

definition store32 :: "(uint32 \<Rightarrow> byte) \<Rightarrow> uint32 \<Rightarrow> uint32 \<Rightarrow> (uint32 \<Rightarrow> byte)" where
  "store32 m a w = m(a := byte_of 0 w, a + 1 := byte_of 1 w, a + 2 := byte_of 2 w, a + 3 := byte_of 3 w)"

definition load32 :: "(uint32 \<Rightarrow> byte) \<Rightarrow> uint32 \<Rightarrow> uint32" where
  "load32 m a = ucast (m a) OR push_bit 8 (ucast (m (a + 1)))
     OR push_bit 16 (ucast (m (a + 2))) OR push_bit 24 (ucast (m (a + 3)))"

fun stosl :: "(uint32 \<Rightarrow> byte) \<Rightarrow> uint32 \<Rightarrow> uint32 \<Rightarrow> nat \<Rightarrow> (uint32 \<Rightarrow> byte)" where
  "stosl m addr c 0 = m"
| "stosl m addr c (Suc n) = stosl (store32 m addr c) (addr + 4) c n"

definition memset :: "(uint32 \<Rightarrow> byte) \<Rightarrow> uint32 \<Rightarrow> uint32 \<Rightarrow> uint32 \<Rightarrow> (uint32 \<Rightarrow> byte)" where
  "memset m dst c n =
    (if dst mod 4 = 0 \<and> n mod 4 = 0
     then (let c' = c AND 0xFF in
           stosl m dst (push_bit 24 c' OR push_bit 16 c' OR push_bit 8 c' OR c') (unat (n div 4)))
     else stosb m dst (ucast c) (unat n))"

lemma store32_load32 [simp]: "load32 (store32 m a w) a = w"
  using word32_bytes [of w] by (simp add: load32_def store32_def)

lemma pattern_byte:
  assumes "k < 4"
  shows "byte_of k (push_bit 24 (c AND 0xFF) OR push_bit 16 (c AND 0xFF)
       OR push_bit 8 (c AND 0xFF) OR (c AND 0xFF)) = (ucast (c :: uint32) :: byte)"
proof (rule bit_word_eqI)
  have m: "(0xFF :: uint32) = mask 8" by (simp add: mask_eq_exp_minus_1)
  fix n assume n: "n < LENGTH(8)"
  from assms consider "k = 0" | "k = 1" | "k = 2" | "k = 3" by linarith
  then show "bit (byte_of k (push_bit 24 (c AND 0xFF) OR push_bit 16 (c AND 0xFF)
       OR push_bit 8 (c AND 0xFF) OR (c AND 0xFF))) n = bit (ucast c :: byte) n"
    using n unfolding m by cases (simp_all add: byte_of_def bit_simps)
qed

lemma stosb_4: "stosb m a c (Suc (Suc (Suc (Suc n)))) =
    stosb (m(a := c, a + 1 := c, a + 2 := c, a + 3 := c)) (a + 4) c n"
  by (simp add: ac_simps)

lemma stosl_stosb:
  assumes "\<And>k. k < 4 \<Longrightarrow> byte_of k w = c"
  shows "stosl m a w n = stosb m a c (4 * n)"
proof (induction n arbitrary: m a)
  case 0
  then show ?case by simp
next
  case (Suc n)
  have "stosb m a c (4 * Suc n) = stosb m a c (Suc (Suc (Suc (Suc (4 * n)))))"
    by (rule arg_cong [where f = "stosb m a c"]) simp
  also have "\<dots> = stosb (store32 m a w) (a + 4) c (4 * n)"
    using stosb_4 [of m a c "4 * n"] by (simp add: store32_def assms del: stosb.simps)
  finally show ?case using Suc.IH by simp
qed

text \<open>The word-at-a-time path of \<open>memset\<close> writes the same bytes as the byte path.\<close>

lemma memset_stosb: "memset m dst c n = stosb m dst (ucast c) (unat n)"
proof (cases "dst mod 4 = 0 \<and> n mod 4 = 0")
  case True
  have "unat (n mod 4) = 0" using True by simp
  then have "unat n mod 4 = 0" by (simp add: unat_mod)
  then have "4 * unat (n div 4) = unat n" by (simp add: unat_div mult.commute mod_0_imp_dvd)
  with True show ?thesis
    using stosl_stosb [OF pattern_byte, where m = m and a = dst and n = "unat (n div 4)"]
    by (simp add: memset_def Let_def)
next
  case False
  then show ?thesis by (auto simp: memset_def)
qed

lemma stosb_apply:
  "n \<le> 2 ^ 32 \<Longrightarrow> stosb m d c n a = (if unat (a - d) < n then c else m a)"
proof (induction n arbitrary: m d)
  case 0
  then show ?case by simp
next
  case (Suc n)
  have n: "n \<le> 2 ^ 32" using Suc.prems by linarith
  show ?case
  proof (cases "a = d")
    case True
    have "a - (d + 1) = - 1" using True by simp
    then have "unat (a - (d + 1)) = 2 ^ 32 - 1"
      by (simp only: unsigned_minus_1_eq_mask) (simp add: mask_eq_exp_minus_1)
    then have "\<not> unat (a - (d + 1)) < n" using Suc.prems by linarith
    then show ?thesis using Suc.IH [OF n] True by simp
  next
    case False
    then have "unat (a - (d + 1)) = unat (a - d) - 1"
      using unat_minus_one [of "a - d"] by (simp add: diff_diff_add)
    moreover have "0 < unat (a - d)" using False by (simp add: unat_gt_0)
    ultimately show ?thesis using Suc.IH [OF n] False by auto
  qed
qed

lemma memset_apply: "memset m d c n a = (if unat (a - d) < unat n then ucast c else m a)"
  using unat_lt_2p32 [of n] by (simp add: memset_stosb stosb_apply)

section \<open>Moving memory\<close>

text \<open>\<open>while(n-- > 0) *d++ = *s++\<close> and \<open>while(n-- > 0) *--d = *--s\<close>.\<close>

fun copy_fwd :: "(uint32 \<Rightarrow> byte) \<Rightarrow> uint32 \<Rightarrow> uint32 \<Rightarrow> nat \<Rightarrow> (uint32 \<Rightarrow> byte)" where
  "copy_fwd m s d 0 = m"
| "copy_fwd m s d (Suc n) = copy_fwd (m(d := m s)) (s + 1) (d + 1) n"

fun copy_bwd :: "(uint32 \<Rightarrow> byte) \<Rightarrow> uint32 \<Rightarrow> uint32 \<Rightarrow> nat \<Rightarrow> (uint32 \<Rightarrow> byte)" where
  "copy_bwd m s d 0 = m"
| "copy_bwd m s d (Suc n) = copy_bwd (m(d - 1 := m (s - 1))) (s - 1) (d - 1) n"

definition memmove :: "(uint32 \<Rightarrow> byte) \<Rightarrow> uint32 \<Rightarrow> uint32 \<Rightarrow> uint32 \<Rightarrow> (uint32 \<Rightarrow> byte)" where
  "memmove m dst src n =
    (if src < dst \<and> src + n > dst then copy_bwd m (src + n) (dst + n) (unat n)
     else copy_fwd m src dst (unat n))"

definition memcpy :: "(uint32 \<Rightarrow> byte) \<Rightarrow> uint32 \<Rightarrow> uint32 \<Rightarrow> uint32 \<Rightarrow> (uint32 \<Rightarrow> byte)" where
  "memcpy m dst src n = memmove m dst src n"

text \<open>The bytes of \<open>n\<close> addresses from \<open>a\<close> on.\<close>

definition bytes_at :: "(uint32 \<Rightarrow> byte) \<Rightarrow> uint32 \<Rightarrow> nat \<Rightarrow> byte list" where
  "bytes_at m a n = map (\<lambda>i. m (a + of_nat i)) [0..<n]"

lemma copy_fwd_apply:
  assumes "n \<le> 2 ^ 32"
    and "\<And>i j. i < n \<Longrightarrow> j < i \<Longrightarrow> d + of_nat j \<noteq> s + of_nat i"
  shows "copy_fwd m s d n a = (if unat (a - d) < n then m (s + (a - d)) else m a)"
  using assms
proof (induction n arbitrary: m s d)
  case 0
  then show ?case by simp
next
  case (Suc n)
  have n: "n \<le> 2 ^ 32" using Suc.prems(1) by linarith
  have haz: "d + 1 + of_nat j \<noteq> s + 1 + of_nat i" if "i < n" "j < i" for i j
    using Suc.prems(2) [of "Suc i" "Suc j"] that by (simp add: algebra_simps)
  have IH: "copy_fwd m' (s + 1) (d + 1) n a =
      (if unat (a - (d + 1)) < n then m' (s + 1 + (a - (d + 1))) else m' a)" for m'
    by (rule Suc.IH [OF n]) (rule haz)
  show ?case
  proof (cases "a = d")
    case True
    have "a - (d + 1) = - 1" using True by simp
    then have "unat (a - (d + 1)) = 2 ^ 32 - 1"
      by (simp only: unsigned_minus_1_eq_mask) (simp add: mask_eq_exp_minus_1)
    then have "\<not> unat (a - (d + 1)) < n" using Suc.prems(1) by linarith
    then show ?thesis using IH True by simp
  next
    case False
    then have k: "unat (a - (d + 1)) = unat (a - d) - 1"
      using unat_minus_one [of "a - d"] by (simp add: diff_diff_add)
    have pos: "0 < unat (a - d)" using False by (simp add: unat_gt_0)
    have nd: "s + (a - d) \<noteq> d" if "unat (a - d) < Suc n"
      using Suc.prems(2) [of "unat (a - d)" 0] that pos by auto
    have e: "s + 1 + (a - (d + 1)) = s + (a - d)" by simp
    show ?thesis
      unfolding copy_fwd.simps IH e using k pos nd False by auto
  qed
qed

lemma copy_bwd_apply:
  assumes "n \<le> 2 ^ 32"
    and "\<And>i j. i < n \<Longrightarrow> j < i \<Longrightarrow> d - of_nat j \<noteq> s - of_nat i"
  shows "copy_bwd m s d n a = (if unat (d - 1 - a) < n then m (s - (d - a)) else m a)"
  using assms
proof (induction n arbitrary: m s d)
  case 0
  then show ?case by simp
next
  case (Suc n)
  have n: "n \<le> 2 ^ 32" using Suc.prems(1) by linarith
  have haz: "d - 1 - of_nat j \<noteq> s - 1 - of_nat i" if "i < n" "j < i" for i j
    using Suc.prems(2) [of "Suc i" "Suc j"] that by (simp add: algebra_simps)
  have IH: "copy_bwd m' (s - 1) (d - 1) n a =
      (if unat (d - 1 - 1 - a) < n then m' (s - 1 - (d - 1 - a)) else m' a)" for m'
    by (rule Suc.IH [OF n]) (rule haz)
  show ?case
  proof (cases "a = d - 1")
    case True
    have "d - 1 - 1 - a = - 1" using True by simp
    then have "unat (d - 1 - 1 - a) = 2 ^ 32 - 1"
      by (simp only: unsigned_minus_1_eq_mask) (simp add: mask_eq_exp_minus_1)
    then have "\<not> unat (d - 1 - 1 - a) < n" using Suc.prems(1) by linarith
    then show ?thesis using IH True by simp
  next
    case False
    then have nz: "d - 1 - a \<noteq> 0" by (metis eq_iff_diff_eq_0)
    have k: "unat (d - 1 - 1 - a) = unat (d - 1 - a) - 1"
      using unat_minus_one [OF nz] by (simp add: algebra_simps)
    have pos: "0 < unat (d - 1 - a)" using nz by (simp only: unat_gt_0 not_False_eq_True simp_thms)
    have nd: "s - (d - a) \<noteq> d - 1" if "unat (d - 1 - a) < Suc n"
      using Suc.prems(2) [of "unat (d - 1 - a)" 0] that pos by (auto simp: algebra_simps)
    have e: "s - 1 - (d - 1 - a) = s - (d - a)" by simp
    show ?thesis
      unfolding copy_bwd.simps IH e using k pos nd False by auto
  qed
qed

lemma unat_add_of_nat:
  assumes "unat (a :: uint32) + i < 2 ^ 32"
  shows "unat (a + of_nat i) = unat a + i"
proof -
  have "unat (of_nat i :: uint32) = i" using assms by (simp add: unat_of_nat)
  with assms show ?thesis by (simp add: unat_word_ariths)
qed

lemma unat_sub_below: "unat (n - 1 - k) < unat n \<longleftrightarrow> unat k < unat (n :: uint32)"
  by unat_arith

lemma memmove_apply:
  assumes s: "unat src + unat n < 2 ^ 32" and d: "unat dst + unat n \<le> 2 ^ 32"
  shows "memmove m dst src n a = (if unat (a - dst) < unat n then m (src + (a - dst)) else m a)"
proof -
  have n: "unat n \<le> 2 ^ 32" using s by linarith
  have usd: "unat (dst + of_nat i) = unat dst + i" "unat (src + of_nat i) = unat src + i" if "i < unat n" for i
    using s d that by (auto intro!: unat_add_of_nat)
  show ?thesis
  proof (cases "src < dst \<and> src + n > dst")
    case True
    have haz: "dst + n - of_nat j \<noteq> src + n - of_nat i" if "i < unat n" "j < i" for i j
    proof
      assume "dst + n - of_nat j = src + n - of_nat i"
      then have "dst + of_nat i = src + of_nat j" by (simp add: algebra_simps)
      then have "unat dst + i = unat src + j" using usd [of i] usd [of j] that by simp
      then show False using True that by (simp add: word_less_nat_alt)
    qed
    have e: "src + n - (dst + n - a) = src + (a - dst)" "dst + n - 1 - a = n - 1 - (a - dst)" by simp_all
    have "copy_bwd m (src + n) (dst + n) (unat n) a =
        (if unat (dst + n - 1 - a) < unat n then m (src + n - (dst + n - a)) else m a)"
      by (rule copy_bwd_apply [OF n]) (rule haz)
    then show ?thesis using True unfolding memmove_def e unat_sub_below by simp
  next
    case False
    have haz: "dst + of_nat j \<noteq> src + of_nat i" if "i < unat n" "j < i" for i j
    proof
      assume "dst + of_nat j = src + of_nat i"
      then have eq: "unat dst + j = unat src + i" using usd [of i] usd [of j] that by simp
      have "unat (src + n) = unat src + unat n" using s by (simp add: unat_word_ariths)
      then show False using False eq that by (simp add: word_less_nat_alt)
    qed
    have "copy_fwd m src dst (unat n) a = (if unat (a - dst) < unat n then m (src + (a - dst)) else m a)"
      by (rule copy_fwd_apply [OF n]) (rule haz)
    then show ?thesis using False unfolding memmove_def by (auto split: if_splits)
  qed
qed

section \<open>Strings\<close>

text \<open>
  The string of an array: its bytes before the first NUL, at most \<open>n\<close> of them.
\<close>

definition cstr :: "nat \<Rightarrow> byte list \<Rightarrow> byte list" where
  "cstr n bs = takeWhile (\<lambda>b. b \<noteq> 0) (take n bs)"

fun memcmp :: "byte list \<Rightarrow> byte list \<Rightarrow> nat \<Rightarrow> int option" where
  "memcmp s1 s2 0 = Some 0"
| "memcmp (x # s1) (y # s2) (Suc n) =
    (if x \<noteq> y then Some (int (unat x) - int (unat y)) else memcmp s1 s2 n)"
| "memcmp s1 s2 (Suc n) = None"

fun strncmp :: "byte list \<Rightarrow> byte list \<Rightarrow> nat \<Rightarrow> int option" where
  "strncmp p q 0 = Some 0"
| "strncmp (x # p) (y # q) (Suc n) =
    (if x \<noteq> 0 \<and> x = y then strncmp p q n else Some (int (unat x) - int (unat y)))"
| "strncmp p q (Suc n) = None"

text \<open>\<open>while(n-- > 0) *s++ = 0\<close>\<close>

fun zero_fill :: "byte list \<Rightarrow> nat \<Rightarrow> byte list option" where
  "zero_fill s 0 = Some s"
| "zero_fill (x # s) (Suc n) = map_option (Cons 0) (zero_fill s n)"
| "zero_fill [] (Suc n) = None"

fun strncpy :: "byte list \<Rightarrow> byte list \<Rightarrow> nat \<Rightarrow> byte list option" where
  "strncpy s t 0 = Some s"
| "strncpy (x # s) (y # t) (Suc n) =
    map_option (Cons y) (if y \<noteq> 0 then strncpy s t n else zero_fill s n)"
| "strncpy s t (Suc n) = None"

text \<open>
  \<open>safestrcpy\<close> with a positive \<open>n\<close>: after the copied NUL, or where the room ends,
  the byte at the final position of \<open>s\<close> is cleared.
\<close>

fun safestrcpy :: "byte list \<Rightarrow> byte list \<Rightarrow> nat \<Rightarrow> byte list option" where
  "safestrcpy s t 0 = Some s"
| "safestrcpy (x # s) t (Suc 0) = Some (0 # s)"
| "safestrcpy (x # s) (y # t) (Suc (Suc n)) =
    map_option (Cons y)
      (if y \<noteq> 0 then safestrcpy s t (Suc n)
       else (case s of [] \<Rightarrow> None | z # s' \<Rightarrow> Some (0 # s')))"
| "safestrcpy s t (Suc n) = None"

fun strlen :: "byte list \<Rightarrow> nat option" where
  "strlen [] = None"
| "strlen (x # s) = (if x = 0 then Some 0 else map_option Suc (strlen s))"

lemma strncmp_zero_iff:
  "n \<le> length p \<Longrightarrow> n \<le> length q \<Longrightarrow> strncmp p q n = Some 0 \<longleftrightarrow> cstr n p = cstr n q"
proof (induction p q n rule: strncmp.induct)
  case (2 x p y q n)
  then show ?case by (auto simp: cstr_def word_uint_eq_iff)
qed (auto simp: cstr_def)

lemma strncmp_bounded: "n \<le> length p \<Longrightarrow> n \<le> length q \<Longrightarrow> strncmp p q n \<noteq> None"
  by (induction p q n rule: strncmp.induct) auto

lemma memcmp_zero_iff:
  "n \<le> length p \<Longrightarrow> n \<le> length q \<Longrightarrow> memcmp p q n = Some 0 \<longleftrightarrow> take n p = take n q"
  by (induction p q n rule: memcmp.induct) (auto simp: word_uint_eq_iff)

lemma zero_fill_eq: "n \<le> length s \<Longrightarrow> zero_fill s n = Some (replicate n 0 @ drop n s)"
  by (induction s n rule: zero_fill.induct) auto

lemma strncpy_eq:
  assumes "n \<le> length s" "n \<le> length t \<or> 0 \<in> set t"
  shows "strncpy s t n = Some (cstr n t @ replicate (n - length (cstr n t)) 0 @ drop n s)"
  using assms
proof (induction s t n rule: strncpy.induct)
  case (2 x s y t n)
  then show ?case by (auto simp: cstr_def zero_fill_eq)
qed (auto simp: cstr_def)

lemma safestrcpy_cstr:
  assumes "safestrcpy s t n = Some r" "0 < n" "n \<le> length s"
  shows "length r = length s" "cstr n r = cstr (n - 1) t" "0 \<in> set (take n r)" "drop n r = drop n s"
  using assms
proof (induction s t n arbitrary: r rule: safestrcpy.induct)
  case (3 x s y t n)
  note IH = "3.IH"
  {
    case 1
    with IH show ?case by (auto split: if_splits list.splits)
  next
    case 2
    with IH show ?case by (auto simp: cstr_def split: if_splits list.splits)
  next
    case 3
    with IH show ?case by (auto split: if_splits list.splits)
  next
    case 4
    with IH show ?case by (auto split: if_splits list.splits)
  }
qed (auto simp: cstr_def)

lemma safestrcpy_total:
  "n \<le> length s \<Longrightarrow> n - 1 \<le> length t \<or> 0 \<in> set t \<Longrightarrow> safestrcpy s t n \<noteq> None"
  by (induction s t n rule: safestrcpy.induct) (auto split: list.splits)

lemma strlen_eq: "strlen s = (if 0 \<in> set s then Some (length (takeWhile (\<lambda>b. b \<noteq> 0) s)) else None)"
  by (induction s) auto

end
