(* ===== verification/Kalloc.thy ===== *)
theory Kalloc
  imports CString Spinlock
begin

text \<open>
  \<^verbatim>\<open>kalloc.c\<close>, the physical page allocator. The free list is intrusive: the first
  word of a free page is the address of the next free page, so the list lives in the
  memory function.
\<close>

section \<open>The allocator\<close>

definition kfree :: "uint32 \<Rightarrow> unit kroutine" where
  "kfree v =
    bind (gets k_end) (\<lambda>endk.
    andthen (panic_if (v mod PGSIZE \<noteq> 0 \<or> v < endk \<or> v2p v \<ge> PHYSTOP) ''kfree'')
    (andthen (modify (\<lambda>s. s\<lparr>mem := memset (mem s) v 1 PGSIZE\<rparr>))
    (bind (gets use_lock) (\<lambda>ul.
    andthen (do_if ul (acquire L_kmem))
    (andthen (modify (\<lambda>s. s\<lparr>mem := store32 (mem s) v (freelist s)\<rparr>))
    (andthen (modify (\<lambda>s. s\<lparr>freelist := v\<rparr>))
    (do_if ul (release L_kmem))))))))"

definition kalloc :: "uint32 kroutine" where
  "kalloc =
    bind (gets use_lock) (\<lambda>ul.
    andthen (do_if ul (acquire L_kmem))
    (bind (gets freelist) (\<lambda>r.
    andthen (do_if (r \<noteq> 0) (modify (\<lambda>s. s\<lparr>freelist := load32 (mem s) r\<rparr>)))
    (andthen (do_if ul (release L_kmem))
    (return r)))))"

text \<open>
  The loop of \<open>freerange\<close>. An address space has \<open>2 ^ 20\<close> pages; the loop frees or
  panics within that many turns.
\<close>

fun freerange_loop :: "nat \<Rightarrow> uint32 \<Rightarrow> uint32 \<Rightarrow> unit kroutine" where
  "freerange_loop 0 p vend = (\<lambda>s. Spin s)"
| "freerange_loop (Suc fuel) p vend =
    (if p + PGSIZE \<le> vend then andthen (kfree p) (freerange_loop fuel (p + PGSIZE) vend)
     else return ())"

definition page_count :: nat where
  "page_count = 2 ^ 20"

definition freerange :: "uint32 \<Rightarrow> uint32 \<Rightarrow> unit kroutine" where
  "freerange vstart vend = freerange_loop (Suc page_count) (PGROUNDUP vstart) vend"

definition kinit1 :: "uint32 \<Rightarrow> uint32 \<Rightarrow> unit kroutine" where
  "kinit1 vstart vend =
    andthen (initlock L_kmem ''kmem'')
    (andthen (modify (\<lambda>s. s\<lparr>use_lock := False\<rparr>))
    (freerange vstart vend))"

definition kinit2 :: "uint32 \<Rightarrow> uint32 \<Rightarrow> unit kroutine" where
  "kinit2 vstart vend =
    andthen (freerange vstart vend)
    (modify (\<lambda>s. s\<lparr>use_lock := True\<rparr>))"

section \<open>Pages\<close>

definition page_ok :: "kernel \<Rightarrow> uint32 \<Rightarrow> bool" where
  "page_ok s p \<longleftrightarrow> p mod PGSIZE = 0 \<and> k_end s \<le> p \<and> v2p p < PHYSTOP"

lemma page_mod_iff: "p mod PGSIZE = 0 \<longleftrightarrow> unat p mod 4096 = 0"
  by (simp add: PGSIZE_def word_unat_eq_iff unat_mod)

lemma page_aligned_bound: "p mod PGSIZE = 0 \<Longrightarrow> unat p \<le> 2 ^ 32 - 4096"
proof -
  assume "p mod PGSIZE = 0"
  then obtain q where q: "unat p = 4096 * q" by (auto simp: page_mod_iff mod_eq_0_iff_dvd dvd_def)
  moreover have "unat p < 2 ^ 32" by (rule unat_lt_2p32)
  ultimately show ?thesis by simp
qed

text \<open>The addresses at a distance below 4096 from a page are the page.\<close>

lemma same_page:
  assumes "p mod PGSIZE = 0"
  shows "unat (a - p) < 4096 \<longleftrightarrow> PGROUNDDOWN a = p"
proof
  have ap: "unat p mod 4096 = 0" using assms by (simp add: page_mod_iff)
  {
    assume lt: "unat (a - p) < 4096"
    have "unat (p + (a - p)) = unat p + unat (a - p)"
      using page_aligned_bound [OF assms] lt by (simp only: unat_word_ariths) simp
    then have "unat a = unat p + unat (a - p)" by simp
    then have "unat (PGROUNDDOWN a) = unat p"
      using ap lt by (auto simp: unat_PGROUNDDOWN mod_eq_0_iff_dvd dvd_def)
    then show "PGROUNDDOWN a = p" by (simp only: word_unat_eq_iff)
  }
  {
    assume "PGROUNDDOWN a = p"
    then have "unat p = unat a div 4096 * 4096" using unat_PGROUNDDOWN [of a] by simp
    moreover from this have "p \<le> a" by (simp add: word_le_nat_alt)
    ultimately have "unat (a - p) = unat a mod 4096"
      by (simp add: unat_sub minus_div_mult_eq_mod)
    then show "unat (a - p) < 4096" by simp
  }
qed

lemma PGROUNDDOWN_add:
  assumes "p mod PGSIZE = 0" "unat k < 4096"
  shows "PGROUNDDOWN (p + k) = p"
  using same_page [OF assms(1), of "p + k"] assms(2) by simp

lemma load32_other_page:
  assumes "p mod PGSIZE = 0" "v mod PGSIZE = 0" "p \<noteq> v"
    and "\<And>a. PGROUNDDOWN a \<noteq> v \<Longrightarrow> m' a = m a"
  shows "load32 m' p = load32 m p"
proof -
  have "PGROUNDDOWN (p + k) = p" if "k \<in> {0, 1, 2, 3}" for k
    using PGROUNDDOWN_add [OF assms(1), of k] that by auto
  then have "m' (p + k) = m (p + k)" if "k \<in> {0, 1, 2, 3}" for k
    using assms(3,4) that by metis
  then have "m' (p + 0) = m (p + 0)" "m' (p + 1) = m (p + 1)" "m' (p + 2) = m (p + 2)" "m' (p + 3) = m (p + 3)"
    by blast+
  then show ?thesis by (simp add: load32_def)
qed

lemma store32_other_page:
  assumes "v mod PGSIZE = 0" "PGROUNDDOWN a \<noteq> v"
  shows "store32 m v w a = m a"
proof -
  have "a \<noteq> v + k" if "k \<in> {0, 1, 2, 3}" for k
    using PGROUNDDOWN_add [OF assms(1), of k] assms(2) that by auto
  then have "a \<noteq> v + 0" "a \<noteq> v + 1" "a \<noteq> v + 2" "a \<noteq> v + 3" by blast+
  then show ?thesis by (simp add: store32_def)
qed

lemma memset_page:
  "v mod PGSIZE = 0 \<Longrightarrow> memset m v c PGSIZE a = (if PGROUNDDOWN a = v then ucast c else m a)"
  by (simp add: memset_apply same_page) (simp add: PGSIZE_def same_page [unfolded PGSIZE_def])

section \<open>The free list\<close>

text \<open>\<open>free_chain m a ps\<close>: the free list at \<open>a\<close> runs through exactly the pages \<open>ps\<close>.\<close>

fun free_chain :: "(uint32 \<Rightarrow> byte) \<Rightarrow> uint32 \<Rightarrow> uint32 list \<Rightarrow> bool" where
  "free_chain m a [] \<longleftrightarrow> a = 0"
| "free_chain m a (p # ps) \<longleftrightarrow> a = p \<and> p \<noteq> 0 \<and> free_chain m (load32 m p) ps"

definition kmem_inv :: "kernel \<Rightarrow> uint32 list \<Rightarrow> bool" where
  "kmem_inv s ps \<longleftrightarrow> free_chain (mem s) (freelist s) ps \<and> distinct ps \<and> (\<forall>p \<in> set ps. page_ok s p)
     \<and> lock_free L_kmem s \<and> cpu_ok s"

lemma page_ok_nonzero: "page_ok s p \<Longrightarrow> p \<noteq> 0"
  by (auto simp: page_ok_def v2p_def layout_simps)

lemma page_ok_frame [simp, frame_simps]:
  "page_ok (cpuid_update f_cpuid s) p = page_ok s p"
  "page_ok (cpus_update f_cpus s) p = page_ok s p"
  "page_ok (locks_update f_locks s) p = page_ok s p"
  "page_ok (mem_update f_mem s) p = page_ok s p"
  "page_ok (k_image_update f_k_image s) p = page_ok s p"
  "page_ok (use_lock_update f_use_lock s) p = page_ok s p"
  "page_ok (freelist_update f_freelist s) p = page_ok s p"
  "page_ok (procs_update f_procs s) p = page_ok s p"
  "page_ok (nextpid_update f_nextpid s) p = page_ok s p"
  "page_ok (initproc_update f_initproc s) p = page_ok s p"
  "page_ok (forkret_first_update f_forkret_first s) p = page_ok s p"
  "page_ok (ticks_update f_ticks s) p = page_ok s p"
  "page_ok (kpgdir_update f_kpgdir s) p = page_ok s p"
  "page_ok (idt_update f_idt s) p = page_ok s p"
  "page_ok (disk_update f_disk s) p = page_ok s p"
  "page_ok (disksize_update f_disksize s) p = page_ok s p"
  "page_ok (dwrites_update f_dwrites s) p = page_ok s p"
  "page_ok (bufs_update f_bufs s) p = page_ok s p"
  "page_ok (idequeue_update f_idequeue s) p = page_ok s p"
  "page_ok (havedisk1_update f_havedisk1 s) p = page_ok s p"
  "page_ok (log_start_update f_log_start s) p = page_ok s p"
  "page_ok (log_size_update f_log_size s) p = page_ok s p"
  "page_ok (log_outstanding_update f_log_outstanding s) p = page_ok s p"
  "page_ok (log_committing_update f_log_committing s) p = page_ok s p"
  "page_ok (log_dev_update f_log_dev s) p = page_ok s p"
  "page_ok (lh_n_update f_lh_n s) p = page_ok s p"
  "page_ok (lh_block_update f_lh_block s) p = page_ok s p"
  "page_ok (sb_update f_sb s) p = page_ok s p"
  "page_ok (inodes_update f_inodes s) p = page_ok s p"
  "page_ok (files_update f_files s) p = page_ok s p"
  "page_ok (pipes_update f_pipes s) p = page_ok s p"
  "page_ok (cons_update f_cons s) p = page_ok s p"
  "page_ok (ismp_update f_ismp s) p = page_ok s p"
  "page_ok (ncpu_update f_ncpu s) p = page_ok s p"
  "page_ok (lapic_update f_lapic s) p = page_ok s p"
  "page_ok (ioapicid_update f_ioapicid s) p = page_ok s p"
  "page_ok (irqmask_update f_irqmask s) p = page_ok s p"
  "page_ok (uart_update f_uart s) p = page_ok s p"
  "page_ok (ios_update f_ios s) p = page_ok s p"
  "page_ok (ins_update f_ins s) p = page_ok s p"
  by (simp_all add: page_ok_def)

lemma page_ok_touch [simp, frame_simps]: "page_ok (touch s) p = page_ok s p" "page_ok (acq lk s) p = page_ok s p"
  "page_ok (rel lk s) p = page_ok s p"
  by (simp_all add: page_ok_def)

lemma kmem_inv_frame [simp, frame_simps]:
  "kmem_inv (k_image_update f_k_image s) ps = kmem_inv s ps"
  "kmem_inv (use_lock_update f_use_lock s) ps = kmem_inv s ps"
  "kmem_inv (procs_update f_procs s) ps = kmem_inv s ps"
  "kmem_inv (nextpid_update f_nextpid s) ps = kmem_inv s ps"
  "kmem_inv (initproc_update f_initproc s) ps = kmem_inv s ps"
  "kmem_inv (forkret_first_update f_forkret_first s) ps = kmem_inv s ps"
  "kmem_inv (ticks_update f_ticks s) ps = kmem_inv s ps"
  "kmem_inv (kpgdir_update f_kpgdir s) ps = kmem_inv s ps"
  "kmem_inv (idt_update f_idt s) ps = kmem_inv s ps"
  "kmem_inv (disk_update f_disk s) ps = kmem_inv s ps"
  "kmem_inv (disksize_update f_disksize s) ps = kmem_inv s ps"
  "kmem_inv (dwrites_update f_dwrites s) ps = kmem_inv s ps"
  "kmem_inv (bufs_update f_bufs s) ps = kmem_inv s ps"
  "kmem_inv (idequeue_update f_idequeue s) ps = kmem_inv s ps"
  "kmem_inv (havedisk1_update f_havedisk1 s) ps = kmem_inv s ps"
  "kmem_inv (log_start_update f_log_start s) ps = kmem_inv s ps"
  "kmem_inv (log_size_update f_log_size s) ps = kmem_inv s ps"
  "kmem_inv (log_outstanding_update f_log_outstanding s) ps = kmem_inv s ps"
  "kmem_inv (log_committing_update f_log_committing s) ps = kmem_inv s ps"
  "kmem_inv (log_dev_update f_log_dev s) ps = kmem_inv s ps"
  "kmem_inv (lh_n_update f_lh_n s) ps = kmem_inv s ps"
  "kmem_inv (lh_block_update f_lh_block s) ps = kmem_inv s ps"
  "kmem_inv (sb_update f_sb s) ps = kmem_inv s ps"
  "kmem_inv (inodes_update f_inodes s) ps = kmem_inv s ps"
  "kmem_inv (files_update f_files s) ps = kmem_inv s ps"
  "kmem_inv (pipes_update f_pipes s) ps = kmem_inv s ps"
  "kmem_inv (cons_update f_cons s) ps = kmem_inv s ps"
  "kmem_inv (ismp_update f_ismp s) ps = kmem_inv s ps"
  "kmem_inv (ncpu_update f_ncpu s) ps = kmem_inv s ps"
  "kmem_inv (lapic_update f_lapic s) ps = kmem_inv s ps"
  "kmem_inv (ioapicid_update f_ioapicid s) ps = kmem_inv s ps"
  "kmem_inv (irqmask_update f_irqmask s) ps = kmem_inv s ps"
  "kmem_inv (uart_update f_uart s) ps = kmem_inv s ps"
  "kmem_inv (ios_update f_ios s) ps = kmem_inv s ps"
  "kmem_inv (ins_update f_ins s) ps = kmem_inv s ps"
  by (simp_all add: kmem_inv_def)

lemma kmem_inv_touch [simp, frame_simps]: "kmem_inv (touch s) ps = kmem_inv s ps"
  by (simp add: kmem_inv_def)

lemma free_chain_other:
  assumes "\<forall>p \<in> set ps. p mod PGSIZE = 0" "v mod PGSIZE = 0" "v \<notin> set ps"
    and "\<And>a. PGROUNDDOWN a \<noteq> v \<Longrightarrow> m' a = m a"
  shows "free_chain m' a ps \<longleftrightarrow> free_chain m a ps"
  using assms(1,3)
proof (induction ps arbitrary: a)
  case Nil
  then show ?case by simp
next
  case (Cons p ps)
  then have "load32 m' p = load32 m p"
    by (intro load32_other_page [OF _ assms(2) _ assms(4)]) auto
  with Cons show ?case by auto
qed

text \<open>The optional lock around the list operations: with it the state is touched.\<close>

definition kmem_touch :: "kernel \<Rightarrow> kernel" where
  "kmem_touch s = (if use_lock s then touch s else s)"

lemma kmem_touch_frame [simp, frame_simps]:
  "lock_free lk (kmem_touch s) = lock_free lk s" "cpu_ok (kmem_touch s) = cpu_ok s"
  "quiet (kmem_touch s) = quiet s" "page_ok (kmem_touch s) p = page_ok s p"
  "cpuid (kmem_touch s) = cpuid s"
  "locks (kmem_touch s) = locks s"
  "mem (kmem_touch s) = mem s"
  "k_end (kmem_touch s) = k_end s"
  "k_image (kmem_touch s) = k_image s"
  "use_lock (kmem_touch s) = use_lock s"
  "freelist (kmem_touch s) = freelist s"
  "procs (kmem_touch s) = procs s"
  "nextpid (kmem_touch s) = nextpid s"
  "initproc (kmem_touch s) = initproc s"
  "forkret_first (kmem_touch s) = forkret_first s"
  "ticks (kmem_touch s) = ticks s"
  "kpgdir (kmem_touch s) = kpgdir s"
  "idt (kmem_touch s) = idt s"
  "disk (kmem_touch s) = disk s"
  "disksize (kmem_touch s) = disksize s"
  "dwrites (kmem_touch s) = dwrites s"
  "bufs (kmem_touch s) = bufs s"
  "idequeue (kmem_touch s) = idequeue s"
  "havedisk1 (kmem_touch s) = havedisk1 s"
  "log_start (kmem_touch s) = log_start s"
  "log_size (kmem_touch s) = log_size s"
  "log_outstanding (kmem_touch s) = log_outstanding s"
  "log_committing (kmem_touch s) = log_committing s"
  "log_dev (kmem_touch s) = log_dev s"
  "lh_n (kmem_touch s) = lh_n s"
  "lh_block (kmem_touch s) = lh_block s"
  "sb (kmem_touch s) = sb s"
  "inodes (kmem_touch s) = inodes s"
  "files (kmem_touch s) = files s"
  "pipes (kmem_touch s) = pipes s"
  "cons (kmem_touch s) = cons s"
  "ismp (kmem_touch s) = ismp s"
  "ncpu (kmem_touch s) = ncpu s"
  "lapic (kmem_touch s) = lapic s"
  "ioapicid (kmem_touch s) = ioapicid s"
  "irqmask (kmem_touch s) = irqmask s"
  "uart (kmem_touch s) = uart s"
  "ios (kmem_touch s) = ios s"
  "ins (kmem_touch s) = ins s"
  by (simp_all add: kmem_touch_def)

lemma kfree_eq:
  assumes "page_ok s v" "lock_free L_kmem s" "cpu_ok s"
  shows "kfree v s = Ok () ((kmem_touch s)\<lparr>mem := store32 (memset (mem s) v 1 PGSIZE) v (freelist s),
     freelist := v\<rparr>)"
proof -
  have g: "\<not> (v mod PGSIZE \<noteq> 0 \<or> v < k_end s \<or> v2p v \<ge> PHYSTOP)"
    using assms by (auto simp: page_ok_def)
  show ?thesis
  proof (cases "use_lock s")
    case True
    then show ?thesis using assms g
      by (simp add: kfree_def acquire_ok release_ok kmem_touch_def cpu_ok_def [symmetric])
  next
    case False
    then show ?thesis using g by (simp add: kfree_def kmem_touch_def)
  qed
qed

lemma kalloc_eq:
  assumes "lock_free L_kmem s" "cpu_ok s"
  shows "kalloc s = Ok (freelist s) ((kmem_touch s)\<lparr>freelist :=
     (if freelist s = 0 then 0 else load32 (mem s) (freelist s))\<rparr>)"
  using assms
  by (cases "use_lock s"; cases "freelist s = 0")
    (simp_all add: kalloc_def acquire_ok release_ok kmem_touch_def)

lemma kfree_returns:
  assumes inv: "kmem_inv s ps" and v: "page_ok s v" "v \<notin> set ps"
  shows "returns (kfree v) s (\<lambda>_ t. kmem_inv t (v # ps) \<and> use_lock t = use_lock s \<and> k_end t = k_end s
     \<and> (\<forall>a. PGROUNDDOWN a \<noteq> v \<longrightarrow> mem t a = mem s a) \<and> quiet t = quiet s)"
proof -
  let ?m = "store32 (memset (mem s) v 1 PGSIZE) v (freelist s)"
  have al: "v mod PGSIZE = 0" using v by (simp add: page_ok_def)
  have m: "?m a = mem s a" if "PGROUNDDOWN a \<noteq> v" for a
    using that al by (simp add: store32_other_page memset_page)
  have "free_chain ?m (freelist s) ps"
    using inv v al free_chain_other [of ps v ?m "mem s" "freelist s", OF _ al _ m]
    by (auto simp: kmem_inv_def page_ok_def)
  then have "kmem_inv ((kmem_touch s)\<lparr>mem := ?m, freelist := v\<rparr>) (v # ps)"
    using inv v page_ok_nonzero [OF v(1)] by (simp add: kmem_inv_def)
  then show ?thesis
    using kfree_eq [OF v(1)] inv m by (auto simp: kmem_inv_def intro!: returnsI)
qed

lemma kalloc_returns:
  assumes "kmem_inv s ps"
  shows "returns kalloc s (\<lambda>p t. p = (case ps of [] \<Rightarrow> 0 | q # _ \<Rightarrow> q) \<and> kmem_inv t (tl ps)
     \<and> k_end t = k_end s \<and> t = (kmem_touch s)\<lparr>freelist := freelist t\<rparr>)"
proof -
  have "lock_free L_kmem s" "cpu_ok s" using assms by (auto simp: kmem_inv_def)
  then show ?thesis
    using kalloc_eq [of s] assms
    by (cases ps) (auto simp: kmem_inv_def intro!: returnsI)
qed

text \<open>Writing to a page that is not free leaves the free list alone.\<close>

lemma kmem_inv_mem:
  assumes "kmem_inv s ps" "v mod PGSIZE = 0" "v \<notin> set ps" "\<And>a. PGROUNDDOWN a \<noteq> v \<Longrightarrow> m a = mem s a"
  shows "kmem_inv (s\<lparr>mem := m\<rparr>) ps"
proof -
  have "\<forall>p \<in> set ps. p mod PGSIZE = 0" using assms(1) by (simp add: kmem_inv_def page_ok_def)
  then show ?thesis
    using assms(1) free_chain_other [OF _ assms(2,3), of m "mem s"] assms(4) by (simp add: kmem_inv_def)
qed

lemma store32_in_page:
  assumes "v mod PGSIZE = 0" "unat k \<le> 4092" "PGROUNDDOWN a \<noteq> v"
  shows "store32 m (v + k) w a = m a"
proof -
  have "a \<noteq> v + k + j" if "j \<in> {0, 1, 2, 3}" for j
  proof -
    have "unat j \<le> 3" using that by auto
    then have "unat (k + j) < 4096" using assms(2) by (simp add: unat_word_ariths)
    then have "PGROUNDDOWN (v + (k + j)) = v" by (rule PGROUNDDOWN_add [OF assms(1)])
    then show ?thesis using assms(3) by (auto simp: add.assoc)
  qed
  from this [of 0] this [of 1] this [of 2] this [of 3] show ?thesis by (auto simp: store32_def)
qed

lemma memset_in_page:
  assumes "v mod PGSIZE = 0" "unat k + unat n \<le> 4096" "PGROUNDDOWN a \<noteq> v"
  shows "memset m (v + k) c n a = m a"
proof -
  have "\<not> unat (a - (v + k)) < unat n"
  proof
    assume lt: "unat (a - (v + k)) < unat n"
    have "unat ((a - (v + k)) + k) \<le> unat (a - (v + k)) + unat k"
      by (simp only: unat_word_ariths mod_less_eq_dividend)
    then have "unat (a - v) < 4096" using lt assms(2) by simp
    then show False using same_page [OF assms(1)] assms(3) by simp
  qed
  then show ?thesis by (simp add: memset_apply)
qed

section \<open>The allocator's interface\<close>

text \<open>
  What the users of the allocator (page tables, kernel stacks, pipes) rely on: an
  allocation takes a page that is available, null means that none is, and a page that is
  given back is available again.
\<close>

locale page_allocator =
  fixes alloc :: "('s, uint32) routine"
    and dealloc :: "uint32 \<Rightarrow> ('s, unit) routine"
    and avail :: "'s \<Rightarrow> uint32 list \<Rightarrow> bool"
    and valid :: "'s \<Rightarrow> uint32 \<Rightarrow> bool"
  assumes alloc_empty: "avail s [] \<Longrightarrow> returns alloc s (\<lambda>p t. p = 0 \<and> avail t [])"
    and alloc_page: "avail s (q # ps) \<Longrightarrow>
      returns alloc s (\<lambda>p t. p = q \<and> avail t ps \<and> (\<forall>v. valid t v \<longleftrightarrow> valid s v))"
    and dealloc_page: "avail s ps \<Longrightarrow> valid s p \<Longrightarrow> p \<notin> set ps \<Longrightarrow>
      returns (dealloc p) s (\<lambda>_ t. avail t (p # ps) \<and> (\<forall>v. valid t v \<longleftrightarrow> valid s v))"
    and avail_valid: "avail s ps \<Longrightarrow> distinct ps \<and> (\<forall>p \<in> set ps. valid s p)"
    and valid_nonnull: "valid s p \<Longrightarrow> p \<noteq> 0"
begin

lemma allocs_taken:
  "avail s ps \<Longrightarrow> n \<le> length ps \<Longrightarrow>
   returns (repeat n alloc) s (\<lambda>qs t. qs = take n ps \<and> avail t (drop n ps) \<and> (\<forall>v. valid t v \<longleftrightarrow> valid s v))"
proof (induction n arbitrary: s ps)
  case 0
  then show ?case by (simp add: returns_def)
next
  case (Suc n)
  then obtain q qs where ps: "ps = q # qs" by (cases ps) auto
  show ?case
    unfolding repeat.simps returns_bind
  proof (rule returns_mono [OF alloc_page [OF Suc.prems(1) [unfolded ps]]])
    fix p t assume t: "p = q \<and> avail t qs \<and> (\<forall>v. valid t v \<longleftrightarrow> valid s v)"
    then have IH: "returns (repeat n alloc) t (\<lambda>rs u. rs = take n qs \<and> avail u (drop n qs)
        \<and> (\<forall>v. valid u v \<longleftrightarrow> valid t v))"
      using Suc.IH [of t qs] Suc.prems(2) ps by simp
    show "returns (repeat n alloc) t (\<lambda>xs u. returns (return (p # xs)) u
        (\<lambda>rs v. rs = take (Suc n) ps \<and> avail v (drop (Suc n) ps) \<and> (\<forall>x. valid v x \<longleftrightarrow> valid s x)))"
      by (rule returns_mono [OF IH]) (use t ps in \<open>auto intro!: returnsI\<close>)
  qed
qed

lemma allocs_distinct:
  assumes "avail s ps" "n \<le> length ps"
  shows "returns (repeat n alloc) s (\<lambda>qs t. distinct qs \<and> 0 \<notin> set qs \<and> (\<forall>q \<in> set qs. valid t q))"
  by (rule returns_mono [OF allocs_taken [OF assms]])
    (use avail_valid [OF assms(1)] in \<open>auto dest: in_set_takeD valid_nonnull\<close>)

lemma alloc_dealloc:
  assumes "avail s (q # ps)"
  shows "returns (bind alloc dealloc) s (\<lambda>_ t. avail t (q # ps))"
  unfolding returns_bind
proof (rule returns_mono [OF alloc_page [OF assms]])
  fix p t assume "p = q \<and> avail t ps \<and> (\<forall>v. valid t v \<longleftrightarrow> valid s v)"
  then show "returns (dealloc p) t (\<lambda>_ u. avail u (q # ps))"
    using dealloc_page [of t ps q] avail_valid [OF assms] by (auto elim: returns_mono)
qed

end

interpretation kmem: page_allocator kalloc kfree kmem_inv page_ok
proof
  fix s assume "kmem_inv s []"
  from kalloc_returns [OF this] show "returns kalloc s (\<lambda>p t. p = 0 \<and> kmem_inv t [])"
    by (rule returns_mono) simp
next
  fix s q ps assume "kmem_inv s (q # ps)"
  from kalloc_returns [OF this] show "returns kalloc s (\<lambda>p t. p = q \<and> kmem_inv t ps
      \<and> (\<forall>v. page_ok t v \<longleftrightarrow> page_ok s v))"
    by (rule returns_mono) (simp only: page_ok_def list.case list.sel, blast)
next
  fix s ps p assume a: "kmem_inv s ps" "page_ok s p" "p \<notin> set ps"
  from kfree_returns [OF this] show "returns (kfree p) s (\<lambda>_ t. kmem_inv t (p # ps)
      \<and> (\<forall>v. page_ok t v \<longleftrightarrow> page_ok s v))"
    by (rule returns_mono) (simp add: page_ok_def)
qed (auto simp: kmem_inv_def dest: page_ok_nonzero)

section \<open>Handing the memory to the allocator\<close>

definition page_seq :: "uint32 \<Rightarrow> nat \<Rightarrow> uint32 list" where
  "page_seq p n = map (\<lambda>i. p + of_nat i * PGSIZE) [0..<n]"

lemma page_seq_Suc: "page_seq p (Suc n) = p # page_seq (p + PGSIZE) n"
proof -
  have "page_seq p (Suc n) = map (\<lambda>i. p + of_nat i * PGSIZE) (0 # map Suc [0..<n])"
    by (simp only: page_seq_def upt_conv_Cons map_Suc_upt zero_less_Suc)
  then show ?thesis by (simp add: page_seq_def comp_def algebra_simps)
qed

lemma freerange_loop_returns:
  assumes "n < fuel" and "kmem_inv s ps" and "unat p + n * 4096 \<le> unat vend"
    and "unat vend < unat p + (n + 1) * 4096" and "unat vend < 2 ^ 32 - 4096"
    and "\<forall>q \<in> set (page_seq p n). page_ok s q" and "distinct (page_seq p n)"
    and "set (page_seq p n) \<inter> set ps = {}"
  shows "returns (freerange_loop fuel p vend) s (\<lambda>_ t. kmem_inv t (rev (page_seq p n) @ ps)
     \<and> use_lock t = use_lock s \<and> k_end t = k_end s)"
  using assms
proof (induction n arbitrary: fuel p ps s)
  case 0
  then obtain f where f: "fuel = Suc f" by (cases fuel) auto
  have "unat (p + PGSIZE) = unat p + 4096"
    using 0 by (simp add: PGSIZE_def unat_word_ariths)
  then have "\<not> p + PGSIZE \<le> vend" using 0 by (simp add: word_le_nat_alt)
  then show ?case using 0 f by (simp add: page_seq_def returns_def)
next
  case (Suc n)
  then obtain f where f: "fuel = Suc f" "n < f" by (cases fuel) auto
  have u: "unat (p + PGSIZE) = unat p + 4096"
    using Suc.prems(3,5) by (simp add: PGSIZE_def unat_word_ariths)
  then have go: "p + PGSIZE \<le> vend" using Suc.prems(3) by (simp add: word_le_nat_alt)
  have p: "page_ok s p" "p \<notin> set ps" using Suc.prems(6,8) by (auto simp: page_seq_Suc)
  show ?case
    unfolding f freerange_loop.simps if_P [OF go] returns_andthen
  proof (rule returns_mono [OF kfree_returns [OF Suc.prems(2) p]])
    fix u t assume t: "kmem_inv t (p # ps) \<and> use_lock t = use_lock s \<and> k_end t = k_end s
        \<and> (\<forall>a. PGROUNDDOWN a \<noteq> p \<longrightarrow> mem t a = mem s a) \<and> quiet t = quiet s"
    have "returns (freerange_loop f (p + PGSIZE) vend) t (\<lambda>_ v.
        kmem_inv v (rev (page_seq (p + PGSIZE) n) @ p # ps) \<and> use_lock v = use_lock t \<and> k_end v = k_end t)"
      using Suc.prems t f u by (intro Suc.IH) (auto simp: page_seq_Suc page_ok_def)
    then show "returns (freerange_loop f (p + PGSIZE) vend) t (\<lambda>_ v.
        kmem_inv v (rev (page_seq p (Suc n)) @ ps) \<and> use_lock v = use_lock s \<and> k_end v = k_end s)"
      by (rule returns_mono) (use t in \<open>simp add: page_seq_Suc\<close>)
  qed
qed

lemma unat_page_seq:
  assumes "unat p + n * 4096 < 2 ^ 32" "i < n"
  shows "unat (p + of_nat i * PGSIZE) = unat p + i * 4096"
proof -
  have lt: "unat p + i * 4096 < 2 ^ 32" "i * 4096 < 2 ^ 32" using assms by auto
  then have "unat (of_nat i * PGSIZE :: uint32) = i * 4096"
    by (simp add: PGSIZE_def unat_word_ariths unat_of_nat)
  with lt show ?thesis by (simp add: unat_word_ariths)
qed

lemma distinct_page_seq:
  assumes "unat p + n * 4096 < 2 ^ 32"
  shows "distinct (page_seq p n)"
proof -
  have "inj_on (\<lambda>i. p + of_nat i * PGSIZE) {0..<n}"
  proof (rule inj_onI)
    fix i j assume ij: "i \<in> {0..<n}" "j \<in> {0..<n}" and eq: "p + of_nat i * PGSIZE = p + of_nat j * PGSIZE"
    have "unat p + i * 4096 = unat p + j * 4096"
      using unat_page_seq [OF assms, of i] unat_page_seq [OF assms, of j] ij unfolding eq by simp
    then show "i = j" by simp
  qed
  then show ?thesis by (simp add: page_seq_def distinct_map)
qed

lemma set_page_seq:
  fixes vend :: uint32
  assumes al: "p mod PGSIZE = 0" and n: "unat p + n * 4096 \<le> unat vend" "unat vend < unat p + (n + 1) * 4096"
  shows "set (page_seq p n) = {q. q mod PGSIZE = 0 \<and> p \<le> q \<and> unat q + 4096 \<le> unat vend}"
proof -
  have b: "unat p + n * 4096 < 2 ^ 32" using n unat_lt_2p32 [of vend] by linarith
  obtain k where k: "unat p = 4096 * k" using al by (auto simp: page_mod_iff mod_eq_0_iff_dvd dvd_def)
  show ?thesis
  proof (intro set_eqI iffI)
    fix q assume "q \<in> set (page_seq p n)"
    then obtain i where i: "i < n" "q = p + of_nat i * PGSIZE" by (auto simp: page_seq_def)
    then have "unat q = 4096 * (k + i)" using unat_page_seq [OF b] k by simp
    then show "q \<in> {q. q mod PGSIZE = 0 \<and> p \<le> q \<and> unat q + 4096 \<le> unat vend}"
      using i k n by (simp add: page_mod_iff word_le_nat_alt)
  next
    fix q assume q: "q \<in> {q. q mod PGSIZE = 0 \<and> p \<le> q \<and> unat q + 4096 \<le> unat vend}"
    then obtain m where m: "unat q = 4096 * m" by (auto simp: page_mod_iff mod_eq_0_iff_dvd dvd_def)
    then have "k \<le> m" "4096 * m + 4096 \<le> unat vend" using q k by (simp_all add: word_le_nat_alt)
    moreover from this have "m < k + n" using n k by (simp add: algebra_simps)
    ultimately have i: "k \<le> m" "m - k < n" by linarith+
    then have "unat q = unat (p + of_nat (m - k) * PGSIZE)"
      using unat_page_seq [OF b i(2)] k m by simp
    then have "q = p + of_nat (m - k) * PGSIZE" by (simp only: word_unat_eq_iff)
    moreover have "m - k \<in> {0..<n}" using i by simp
    ultimately show "q \<in> set (page_seq p n)" unfolding page_seq_def set_map set_upt by (rule image_eqI)
  qed
qed

lemma PGROUNDUP_page:
  assumes "unat a \<le> 2 ^ 32 - 4096"
  shows "PGROUNDUP a mod PGSIZE = 0" "a \<le> PGROUNDUP a" "q mod PGSIZE = 0 \<Longrightarrow> a \<le> q \<Longrightarrow> PGROUNDUP a \<le> q"
proof -
  note u = unat_PGROUNDUP [OF assms]
  show "PGROUNDUP a mod PGSIZE = 0" by (simp add: page_mod_iff u)
  have "unat a \<le> (unat a + 4095) div 4096 * 4096"
    using div_mult_mod_eq [of "unat a + 4095" 4096] mod_less_divisor [of 4096 "unat a + 4095"] by linarith
  then show "a \<le> PGROUNDUP a" by (simp add: word_le_nat_alt u)
  show "PGROUNDUP a \<le> q" if q: "q mod PGSIZE = 0" "a \<le> q"
  proof -
    obtain m where m: "unat q = 4096 * m" using q(1) by (auto simp: page_mod_iff mod_eq_0_iff_dvd dvd_def)
    have "unat a \<le> 4096 * m" using q(2) m by (simp add: word_le_nat_alt)
    then have "unat a + 4095 < 4096 * (m + 1)" by simp
    then have "(unat a + 4095) div 4096 < m + 1" by (simp add: less_mult_imp_div_less mult.commute)
    then show ?thesis using m u by (simp add: word_le_nat_alt)
  qed
qed


text \<open>
  C14. Initialising the allocator over the addresses from \<open>vstart\<close> to \<open>vend\<close> puts
  every whole page of that range, and nothing else, on the free list, each once.
\<close>

theorem kinit1_free_pages:
  assumes "cpu_ok s" "freelist s = 0" "k_end s \<le> vstart" "KERNBASE \<le> vstart"
    and "vstart \<le> vend" "PGROUNDUP vstart \<le> vend" "vend \<le> p2v PHYSTOP"
  shows "returns (kinit1 vstart vend) s (\<lambda>_ t. \<exists>ps. kmem_inv t ps \<and> distinct ps \<and>
     set ps = {p. p mod PGSIZE = 0 \<and> vstart \<le> p \<and> unat p + 4096 \<le> unat vend})"
proof -
  let ?p = "PGROUNDUP vstart" and ?n = "(unat vend - unat (PGROUNDUP vstart)) div 4096"
  let ?s = "set_lock L_kmem (\<lambda>k. k\<lparr>lk_name := ''kmem'', locked := 0, lk_cpu := None\<rparr>) s\<lparr>use_lock := False\<rparr>"
  have vb: "unat vend \<le> 0x8E000000" using assms(7) by (simp add: word_le_nat_alt p2v_def layout_simps)
  have le: "unat ?p \<le> unat vend" using assms(6) by (simp add: word_le_nat_alt)
  have vs: "unat vstart \<le> 2 ^ 32 - 4096" using assms(5) vb by (simp add: word_le_nat_alt)
  note up = PGROUNDUP_page [OF vs]
  have "?n * 4096 + (unat vend - unat ?p) mod 4096 = unat vend - unat ?p"
    by (rule div_mult_mod_eq)
  moreover have "(unat vend - unat ?p) mod 4096 < 4096" by simp
  ultimately have n: "unat ?p + ?n * 4096 \<le> unat vend" "unat vend < unat ?p + (?n + 1) * 4096"
    using le by (simp_all add: algebra_simps)
  have "?n * 4096 \<le> 0x8E000000" using n vb by linarith
  then have n': "?n < Suc page_count" by (simp add: page_count_def)
  have set: "set (page_seq ?p ?n) = {p. p mod PGSIZE = 0 \<and> vstart \<le> p \<and> unat p + 4096 \<le> unat vend}"
    unfolding set_page_seq [OF up(1) n]
    by (rule Collect_cong, rule conj_cong [OF refl], rule conj_cong [OF _ refl])
      (rule iffI, erule order_trans [OF up(2)], erule (1) up(3))
  have ok: "page_ok ?s p" if "p \<in> set (page_seq ?p ?n)" for p
  proof -
    have p: "p mod PGSIZE = 0" "vstart \<le> p" "unat p + 4096 \<le> unat vend" using that set by auto
    then have "KERNBASE \<le> p" "k_end s \<le> p" using assms(3,4) by (auto intro: order_trans)
    moreover from this have "unat (v2p p) = unat p - 0x80000000"
      by (simp add: v2p_def unat_sub KERNBASE_def)
    ultimately show ?thesis
      using p vb by (simp add: page_ok_def cpu_defs word_less_nat_alt PHYSTOP_def)
  qed
  have inv: "kmem_inv ?s []"
    using assms(1,2) by (simp add: kmem_inv_def lock_free_def cpu_ok_def cpu_defs)
  have dist: "distinct (page_seq ?p ?n)"
    by (rule distinct_page_seq) (use le_less_trans [OF n(1) unat_lt_2p32] in simp)
  have "returns (freerange_loop (Suc page_count) ?p vend) ?s (\<lambda>_ t. kmem_inv t (rev (page_seq ?p ?n) @ [])
      \<and> use_lock t = use_lock ?s \<and> k_end t = k_end ?s)"
    by (rule freerange_loop_returns [OF n' inv n]) (use vb ok dist in auto)
  then have "returns (freerange vstart vend) ?s (\<lambda>_ t. \<exists>ps. kmem_inv t ps \<and> distinct ps \<and>
     set ps = {p. p mod PGSIZE = 0 \<and> vstart \<le> p \<and> unat p + 4096 \<le> unat vend})"
    unfolding freerange_def
    by (rule returns_mono) (intro exI [of _ "rev (page_seq ?p ?n)"], use set dist in simp)
  then show ?thesis by (simp add: kinit1_def initlock_def returns_andthen returns_def)
qed

text \<open>
  C15. Several calls of \<open>kalloc\<close> return pages that are different from each other, not
  null, page-aligned, above the kernel and below the top of physical memory.
\<close>

theorem kalloc_pages_distinct:
  assumes "kmem_inv s ps" "n \<le> length ps"
  shows "returns (repeat n kalloc) s (\<lambda>qs t. distinct qs \<and> 0 \<notin> set qs \<and> (\<forall>q \<in> set qs. page_ok t q))"
  by (rule kmem.allocs_distinct [OF assms])

text \<open>
  C16. Freeing a page: \<open>kfree\<close> of an aligned page of the allocator's range that is not
  free puts it at the head of the free list and changes no byte outside that page; any
  other argument is a panic.
\<close>

theorem kfree_frees:
  assumes "kmem_inv s ps" "v \<notin> set ps"
  shows "if page_ok s v
     then returns (kfree v) s (\<lambda>_ t. kmem_inv t (v # ps) \<and> (\<forall>a. PGROUNDDOWN a \<noteq> v \<longrightarrow> mem t a = mem s a))
     else kfree v s = Panic ''kfree'' s"
proof (cases "page_ok s v")
  case True
  with kfree_returns [OF assms(1) True assms(2)] show ?thesis by (auto elim: returns_mono)
next
  case False
  then have "v mod PGSIZE \<noteq> 0 \<or> v < k_end s \<or> v2p v \<ge> PHYSTOP" 
    by (simp only: page_ok_def de_Morgan_conj not_le not_less)
  with False show ?thesis by (simp add: kfree_def andthen_app panic_if_def)
qed

lemma kinit1_free_pages_witness:
  "returns (kinit1 0x80100000 0x80400000) boot0 (\<lambda>_ t. \<exists>ps. kmem_inv t ps \<and> distinct ps \<and>
     set ps = {p. p mod PGSIZE = 0 \<and> 0x80100000 \<le> p \<and> unat p + 4096 \<le> unat (0x80400000 :: uint32)})"
  by (rule kinit1_free_pages)
    (simp_all add: boot0_def boot_kernel_def cpu_ok_def mycpu_def zero_cpu_def PGROUNDUP_def
       p2v_def layout_simps)

definition two_pages :: kernel where
  "two_pages = boot0\<lparr>freelist := 0x80200000, mem := store32 (\<lambda>_. 0) 0x80200000 0x80201000\<rparr>"

lemma two_pages_inv: "kmem_inv two_pages [0x80200000, 0x80201000]"
  by (simp add: two_pages_def boot0_def boot_kernel_def kmem_inv_def zero_defs load32_def store32_def byte_of_def lock_free_def cpu_ok_def
    cpu_defs page_ok_def v2p_def layout_simps)

lemma kalloc_pages_distinct_witness:
  "returns (repeat 2 kalloc) two_pages (\<lambda>qs t. distinct qs \<and> 0 \<notin> set qs \<and> (\<forall>q \<in> set qs. page_ok t q))"
  by (rule kalloc_pages_distinct [OF two_pages_inv]) simp

lemma kfree_frees_witness:
  "returns (kfree 0x80300000) two_pages (\<lambda>_ t. kmem_inv t [0x80300000, 0x80200000, 0x80201000]
       \<and> (\<forall>a. PGROUNDDOWN a \<noteq> 0x80300000 \<longrightarrow> mem t a = mem two_pages a))
   \<and> kfree 0x80300004 two_pages = Panic ''kfree'' two_pages"
  using kfree_frees [OF two_pages_inv, where v = "0x80300000"] kfree_frees [OF two_pages_inv, where v = "0x80300004"]
  by (simp add: page_ok_def v2p_def two_pages_def boot0_def boot_kernel_def layout_simps)

end
