(* ===== verification/Sched.thy ===== *)
theory Sched
  imports Kalloc
begin

text \<open>
  The part of \<^verbatim>\<open>proc.c\<close> the rest of the kernel blocks and wakes processes with:
  \<open>allocproc\<close>, \<open>sched\<close>, \<open>yield\<close>, \<open>sleep\<close>, \<open>wakeup\<close> and \<open>kill\<close>.

  A routine that calls \<open>swtch\<close> ends in the outcome \<open>Swtch\<close>; what it does once the
  scheduler has come back to it is the routine with the suffix \<open>_resume\<close>. A caller that
  sleeps in a loop goes back to the head of that loop afterwards.
\<close>

section \<open>The process table\<close>

definition curproc :: "kernel \<Rightarrow> nat option" where
  "curproc s = c_proc (mycpu s)"

definition set_proc :: "nat \<Rightarrow> (proc \<Rightarrow> proc) \<Rightarrow> kernel \<Rightarrow> kernel" where
  "set_proc i f s = s\<lparr>procs := (procs s)[i := f (procs s ! i)]\<rparr>"

text \<open>An access through the pointer \<open>proc\<close>.\<close>

definition with_proc :: "(nat \<Rightarrow> 'a kroutine) \<Rightarrow> 'a kroutine" where
  "with_proc f = bind (gets curproc) (\<lambda>p. case p of None \<Rightarrow> fault ''proc'' | Some i \<Rightarrow> f i)"

definition pinit :: "unit kroutine" where
  "pinit = initlock L_ptable ''ptable''"

text \<open>
  \<open>allocproc\<close>; a trap frame has 76 bytes and a context 20. The words stored on the new
  kernel stack (the return address \<open>trapret\<close> and the cleared context) go to memory.
\<close>

definition allocproc :: "nat option kroutine" where
  "allocproc =
    andthen (acquire L_ptable)
    (bind (gets (\<lambda>s. find (\<lambda>i. p_state (procs s ! i) = UNUSED) [0..<NPROC])) (\<lambda>found.
    case found of
      None \<Rightarrow> andthen (release L_ptable) (return None)
    | Some p \<Rightarrow>
        andthen (modify (set_proc p (\<lambda>q. q\<lparr>p_state := EMBRYO\<rparr>)))
        (andthen (modify (\<lambda>s. (set_proc p (\<lambda>q. q\<lparr>p_pid := nextpid s\<rparr>) s)\<lparr>nextpid := wrap_int (nextpid s + 1)\<rparr>))
        (andthen (release L_ptable)
        (bind kalloc (\<lambda>kst.
        andthen (modify (set_proc p (\<lambda>q. q\<lparr>p_kstack := kst\<rparr>)))
        (if kst = 0 then andthen (modify (set_proc p (\<lambda>q. q\<lparr>p_state := UNUSED\<rparr>))) (return None)
         else
           let sp = kst + KSTACKSIZE - 76; sp2 = sp - 4; sp3 = sp2 - 20 in
           andthen (modify (set_proc p (\<lambda>q. q\<lparr>p_tf_ptr := sp\<rparr>)))
           (andthen (modify (\<lambda>s. s\<lparr>mem := store32 (mem s) sp2 (im_trapret (k_image s))\<rparr>))
           (andthen (modify (set_proc p (\<lambda>q. q\<lparr>p_context_ptr := sp3\<rparr>)))
           (andthen (modify (\<lambda>s. s\<lparr>mem := memset (mem s) sp3 0 20\<rparr>))
           (andthen (modify (\<lambda>s. set_proc p (\<lambda>q. q\<lparr>p_context := zero_context\<lparr>ctx_eip := im_forkret (k_image s)\<rparr>\<rparr>) s))
           (andthen (modify (\<lambda>s. s\<lparr>mem := store32 (mem s) (sp3 + 16) (im_forkret (k_image s))\<rparr>))
           (return (Some p))))))))))))))"

section \<open>Giving up the processor\<close>

definition sched :: "unit kroutine" where
  "sched =
    bind (holding L_ptable) (\<lambda>h.
    andthen (panic_if (\<not> h) ''sched ptable.lock'')
    (bind (gets mycpu) (\<lambda>c.
    andthen (panic_if (c_ncli c \<noteq> 1) ''sched locks'')
    (with_proc (\<lambda>i.
    bind (gets (\<lambda>s. p_state (procs s ! i))) (\<lambda>st.
    andthen (panic_if (st = RUNNING) ''sched running'')
    (bind read_if (\<lambda>fl.
    andthen (panic_if fl ''sched interruptible'')
    (\<lambda>s. Swtch s)))))))))"

definition sched_resume :: "bool \<Rightarrow> unit kroutine" where
  "sched_resume intena = modify (set_mycpu (\<lambda>c. c\<lparr>c_intena := intena\<rparr>))"

definition yield :: "unit kroutine" where
  "yield =
    andthen (acquire L_ptable)
    (with_proc (\<lambda>i.
    andthen (modify (set_proc i (\<lambda>p. p\<lparr>p_state := RUNNABLE\<rparr>)))
    sched))"

definition yield_resume :: "bool \<Rightarrow> unit kroutine" where
  "yield_resume intena = andthen (sched_resume intena) (release L_ptable)"

text \<open>The statements of \<open>sleep\<close> up to the switch, in order.\<close>

definition sleep_steps :: "nat \<Rightarrow> chan \<Rightarrow> lockid \<Rightarrow> unit kroutine list" where
  "sleep_steps i ch l =
    (if l \<noteq> L_ptable then [acquire L_ptable, release l] else []) @
    [modify (set_proc i (\<lambda>p. p\<lparr>p_chan := Some ch\<rparr>)),
     modify (set_proc i (\<lambda>p. p\<lparr>p_state := SLEEPING\<rparr>)),
     sched]"

definition sleep :: "chan \<Rightarrow> lockid option \<Rightarrow> unit kroutine" where
  "sleep ch lk =
    bind (gets curproc) (\<lambda>cp. case cp of None \<Rightarrow> panic ''sleep'' | Some i \<Rightarrow>
    (case lk of None \<Rightarrow> panic ''sleep without lk'' | Some l \<Rightarrow> seq (sleep_steps i ch l)))"

definition sleep_resume :: "lockid \<Rightarrow> bool \<Rightarrow> unit kroutine" where
  "sleep_resume l intena =
    andthen (sched_resume intena)
    (with_proc (\<lambda>i.
    andthen (modify (set_proc i (\<lambda>p. p\<lparr>p_chan := None\<rparr>)))
    (do_if (l \<noteq> L_ptable) (andthen (release L_ptable) (acquire l)))))"

text \<open>To sleep in a loop: the routine continues at the head of its loop when it is resumed.\<close>

definition sleep_again :: "chan \<Rightarrow> lockid \<Rightarrow> 'a kroutine" where
  "sleep_again ch lk = bind (sleep ch (Some lk)) (\<lambda>_ s. Spin s)"

definition wakeup1 :: "chan option \<Rightarrow> unit kroutine" where
  "wakeup1 ch = foreach [0..<NPROC] (\<lambda>i.
    bind (gets (\<lambda>s. procs s ! i)) (\<lambda>p.
    do_if (p_state p = SLEEPING \<and> p_chan p = ch) (modify (set_proc i (\<lambda>p. p\<lparr>p_state := RUNNABLE\<rparr>)))))"

definition wakeup_steps :: "chan \<Rightarrow> unit kroutine list" where
  "wakeup_steps ch = [acquire L_ptable, wakeup1 (Some ch), release L_ptable]"

definition wakeup :: "chan \<Rightarrow> unit kroutine" where
  "wakeup ch = seq (wakeup_steps ch)"

definition kill :: "int \<Rightarrow> int kroutine" where
  "kill pid =
    andthen (acquire L_ptable)
    (bind (gets (\<lambda>s. find (\<lambda>i. p_pid (procs s ! i) = pid) [0..<NPROC])) (\<lambda>found.
    case found of
      Some p \<Rightarrow>
        andthen (modify (set_proc p (\<lambda>q. q\<lparr>p_killed := True\<rparr>)))
        (bind (gets (\<lambda>s. p_state (procs s ! p))) (\<lambda>st.
        andthen (do_if (st = SLEEPING) (modify (set_proc p (\<lambda>q. q\<lparr>p_state := RUNNABLE\<rparr>))))
        (andthen (release L_ptable)
        (return 0))))
    | None \<Rightarrow> andthen (release L_ptable) (return (- 1))))"

section \<open>Waking up\<close>

definition wake :: "chan option \<Rightarrow> proc \<Rightarrow> proc" where
  "wake ch p = (if p_state p = SLEEPING \<and> p_chan p = ch then p\<lparr>p_state := RUNNABLE\<rparr> else p)"

definition wake_all :: "chan option \<Rightarrow> kernel \<Rightarrow> kernel" where
  "wake_all ch s = s\<lparr>procs := map (wake ch) (procs s)\<rparr>"

lemma fold_set_proc: "fold (\<lambda>i. set_proc i f) is s = s\<lparr>procs := fold (\<lambda>i xs. xs[i := f (xs ! i)]) is (procs s)\<rparr>"
  by (induction "is" arbitrary: s) (simp_all add: set_proc_def)

lemma wakeup1_ok [ok_simps]:
  assumes "length (procs s) = NPROC"
  shows "wakeup1 ch s = Ok () (wake_all ch s)"
proof -
  have "wakeup1 ch s = Ok () (fold (\<lambda>i. set_proc i (wake ch)) [0..<NPROC] s)"
    unfolding wakeup1_def by (rule foreach_fold) (auto simp: do_if_def wake_def set_proc_def)
  then show ?thesis
    using assms by (simp add: fold_set_proc fold_list_update wake_all_def)
qed

interpretation waking: critical_section L_ptable "wake_all ch" for ch
  by unfold_locales (simp_all add: wake_all_def)

lemma wakeup_ok [ok_simps]:
  assumes "length (procs s) = NPROC" "lock_free L_ptable s" "cpu_ok s"
  shows "wakeup ch s = Ok () (touch (wake_all (Some ch) s))"
proof -
  have "wakeup ch s = andthen (acquire L_ptable) (andthen (modify (wake_all (Some ch))) (release L_ptable)) s"
    using assms by (simp add: wakeup_def wakeup_steps_def andthen_app acquire_ok wakeup1_ok)
  also have "\<dots> = Ok () (touch (wake_all (Some ch) s))"
    by (rule waking.section_ok [OF assms(2,3)])
  finally show ?thesis .
qed

lemma wake_sel [simp]:
  "p_pid (wake ch p) = p_pid p" "p_killed (wake ch p) = p_killed p" "p_ofile (wake ch p) = p_ofile p"
  "p_cwd (wake ch p) = p_cwd p" "p_chan (wake ch p) = p_chan p" "p_parent (wake ch p) = p_parent p"
  by (simp_all add: wake_def)

section \<open>Sleeping\<close>

lemma sched_swtch [ok_simps]:
  assumes "locked (locks s L_ptable) \<noteq> 0" "lk_cpu (locks s L_ptable) = Some (cpuid s)"
    "c_ncli (mycpu s) = 1" "c_proc (mycpu s) = Some i" "p_state (procs s ! i) \<noteq> RUNNING" "\<not> c_if (mycpu s)"
  shows "sched s = Swtch s"
  using assms by (simp add: sched_def holding_def with_proc_def read_if_def curproc_def)

lemma sched_never_returns: "sched s \<noteq> Ok u t"
  by (auto simp: sched_def with_proc_def holding_def read_if_def bind_app andthen_app panic_if_def
      split: option.splits if_splits)

lemma set_proc_frame [simp, frame_simps]:
  "locks (set_proc i f s) = locks s" "mycpu (set_proc i f s) = mycpu s" "cpuid (set_proc i f s) = cpuid s"
  "cpus (set_proc i f s) = cpus s" "holds lk (set_proc i f s) = holds lk s"
  "lock_free lk (set_proc i f s) = lock_free lk s" "cpu_ok (set_proc i f s) = cpu_ok s"
  "quiet (set_proc i f s) = quiet s" "length (procs (set_proc i f s)) = length (procs s)"
  "acq lk (set_proc i f s) = set_proc i f (acq lk s)" "rel lk (set_proc i f s) = set_proc i f (rel lk s)"
  "touch (set_proc i f s) = set_proc i f (touch s)" "bufs (set_proc i f s) = bufs s"
  by (simp_all add: set_proc_def)

lemma procs_set_proc [simp]: "procs (set_proc i f s) = (procs s)[i := f (procs s ! i)]"
  by (simp add: set_proc_def)

lemma mycpu_rel [simp]: "mycpu (rel lk s) = cpu_pop (mycpu s)"
  by (simp add: rel_def cpu_defs)

lemma locks_rel [simp]: "locks (rel lk s) = (locks s)(lk := (locks s lk)\<lparr>lk_cpu := None, locked := 0\<rparr>)"
  by (simp add: rel_def cpu_defs)

lemma cpu_pop_sel [simp]:
  "c_ncli (cpu_pop c) = c_ncli c - 1" "c_if (cpu_pop c) = (c_ncli c = 1 \<and> c_intena c)" "c_proc (cpu_pop c) = c_proc c"
  by (simp_all add: cpu_pop_def)

lemma sleep_swtch:
  assumes "curproc s = Some i" "i < length (procs s)" "l \<noteq> L_ptable"
    and "holds l s" "c_ncli (mycpu s) = 1" "lock_free L_ptable s"
  shows "sleep ch (Some l) s = Swtch (set_proc i (\<lambda>p. p\<lparr>p_state := SLEEPING\<rparr>)
    (set_proc i (\<lambda>p. p\<lparr>p_chan := Some ch\<rparr>) (rel l (acq L_ptable s))))"
proof -
  let ?u = "rel l (acq L_ptable s)"
  let ?v = "set_proc i (\<lambda>p. p\<lparr>p_state := SLEEPING\<rparr>) (set_proc i (\<lambda>p. p\<lparr>p_chan := Some ch\<rparr>) ?u)"
  have cpu: "cpu_ok s" using assms(4,5) by (simp add: holds_def cpu_ok_def)
  then have "release l (acq L_ptable s) = Ok () ?u"
    using assms by (intro release_ok) simp
  moreover have "sched ?v = Swtch ?v"
    using assms by (intro sched_swtch [where i = i]) (simp_all add: curproc_def)
  ultimately show "sleep ch (Some l) s = Swtch ?v"
    using assms by (simp add: sleep_def sleep_steps_def acquire_ok)
qed

lemma set_mycpu_sel [simp]: "mycpu (set_mycpu f s) = f (mycpu s)" "locks (set_mycpu f s) = locks s"
    "cpuid (set_mycpu f s) = cpuid s" "procs (set_mycpu f s) = procs s"
  by (simp_all add: cpu_defs)

text \<open>What \<open>sleep\<close> does when the scheduler has come back to it.\<close>

lemma sleep_resume_ok:
  assumes "curproc u = Some i" "i < length (procs u)" "l \<noteq> L_ptable"
    and "holds L_ptable u" "c_ncli (mycpu u) = 1" "lock_free l u"
  shows "sleep_resume l fl u = Ok () (acq l (rel L_ptable (set_proc i (\<lambda>p. p\<lparr>p_chan := None\<rparr>)
    (set_mycpu (\<lambda>c. c\<lparr>c_intena := fl\<rparr>) u))))"
proof -
  let ?v = "set_proc i (\<lambda>p. p\<lparr>p_chan := None\<rparr>) (set_mycpu (\<lambda>c. c\<lparr>c_intena := fl\<rparr>) u)"
  have "holds L_ptable ?v" using assms(4) by (simp add: holds_def cpu_defs)
  then have "release L_ptable ?v = Ok () (rel L_ptable ?v)" by (rule release_ok)
  moreover have "lock_free l (rel L_ptable ?v)" using assms(3,6) by (simp add: lock_free_def cpu_defs)
  ultimately show ?thesis
    using assms(1,3) by (simp add: sleep_resume_def sched_resume_def with_proc_def curproc_def acquire_ok do_if_def cpu_defs)
qed

text \<open>
  C8. Sleeping and waking: a process that holds exactly the lock \<open>l\<close> and calls \<open>sleep\<close>
  hands the processor over with the process table's lock as the only one it holds, \<open>l\<close>
  free, every other lock as it was, itself asleep on the channel and no other process
  changed. When the scheduler comes back to it, on any processor, with the process table
  locked and \<open>l\<close> free, it continues with \<open>l\<close> as the only lock it holds, the process table
  free, every other lock as it was and its channel cleared.
\<close>

theorem sleep_hands_over:
  assumes "curproc s = Some i" "i < length (procs s)" "l \<noteq> L_ptable"
    and "holds l s" "c_ncli (mycpu s) = 1" "lock_free L_ptable s"
    and "curproc u = Some i" "i < length (procs u)" "holds L_ptable u" "c_ncli (mycpu u) = 1" "lock_free l u"
  shows "(\<exists>t. sleep ch (Some l) s = Swtch t \<and> lock_free l t \<and> holds L_ptable t \<and> c_ncli (mycpu t) = 1
       \<and> (\<forall>k. k \<noteq> l \<and> k \<noteq> L_ptable \<longrightarrow> locks t k = locks s k)
       \<and> procs t = (procs s)[i := (procs s ! i)\<lparr>p_chan := Some ch, p_state := SLEEPING\<rparr>])
     \<and> (\<exists>v. sleep_resume l fl u = Ok () v \<and> holds l v \<and> lock_free L_ptable v \<and> c_ncli (mycpu v) = 1
       \<and> (\<forall>k. k \<noteq> l \<and> k \<noteq> L_ptable \<longrightarrow> locks v k = locks u k)
       \<and> procs v = (procs u)[i := (procs u ! i)\<lparr>p_chan := None\<rparr>])"
proof
  show "\<exists>t. sleep ch (Some l) s = Swtch t \<and> lock_free l t \<and> holds L_ptable t \<and> c_ncli (mycpu t) = 1
       \<and> (\<forall>k. k \<noteq> l \<and> k \<noteq> L_ptable \<longrightarrow> locks t k = locks s k)
       \<and> procs t = (procs s)[i := (procs s ! i)\<lparr>p_chan := Some ch, p_state := SLEEPING\<rparr>]"
    unfolding sleep_swtch [OF assms(1-6)] using assms(1-6) by (simp add: lock_free_def holds_def)
  show "\<exists>v. sleep_resume l fl u = Ok () v \<and> holds l v \<and> lock_free L_ptable v \<and> c_ncli (mycpu v) = 1
       \<and> (\<forall>k. k \<noteq> l \<and> k \<noteq> L_ptable \<longrightarrow> locks v k = locks u k)
       \<and> procs v = (procs u)[i := (procs u ! i)\<lparr>p_chan := None\<rparr>]"
    unfolding sleep_resume_ok [OF assms(7,8,3,9-11)] using assms(3,7-11)
    by (simp add: lock_free_def holds_def)
qed

section \<open>Sleep against wakeup\<close>

text \<open>
  Two processors, step by step. Processor 0 runs process \<open>i\<close>, which holds \<open>lk\<close> and has
  found that it must wait: it executes the statements of \<open>sleep\<close>, and after the switch the
  scheduler releases the process table. Processor 1 takes \<open>lk\<close>, wakes the channel up and
  releases \<open>lk\<close>. A configuration has the kernel and how many statements each has executed.
\<close>

definition sleeper_code :: "nat \<Rightarrow> chan \<Rightarrow> lockid \<Rightarrow> unit kroutine list" where
  "sleeper_code i ch lk = sleep_steps i ch lk @ [release L_ptable]"

definition waker_code :: "chan \<Rightarrow> lockid \<Rightarrow> unit kroutine list" where
  "waker_code ch lk = acquire lk # wakeup_steps ch @ [release lk]"

definition passes :: "unit kroutine \<Rightarrow> kernel \<Rightarrow> kernel \<Rightarrow> bool" where
  "passes m s t \<longleftrightarrow> m s = Ok () t \<or> m s = Swtch t"

inductive race :: "nat \<Rightarrow> chan \<Rightarrow> lockid \<Rightarrow> kernel \<times> nat \<times> nat \<Rightarrow> kernel \<times> nat \<times> nat \<Rightarrow> bool" for i ch lk where
  sleeper: "k < length (sleeper_code i ch lk) \<Longrightarrow> passes (sleeper_code i ch lk ! k) (s\<lparr>cpuid := 0\<rparr>) t
     \<Longrightarrow> race i ch lk (s, k, j) (t, Suc k, j)"
| waker: "j < length (waker_code ch lk) \<Longrightarrow> passes (waker_code ch lk ! j) (s\<lparr>cpuid := 1\<rparr>) t
     \<Longrightarrow> race i ch lk (s, k, j) (t, k, Suc j)"

definition owned :: "lockid \<Rightarrow> nat option \<Rightarrow> kernel \<Rightarrow> bool" where
  "owned l c s \<longleftrightarrow> lk_cpu (locks s l) = c \<and> (locked (locks s l) \<noteq> 0) = (c \<noteq> None)"

definition cpu_at :: "nat \<Rightarrow> int \<Rightarrow> kernel \<Rightarrow> bool" where
  "cpu_at c n s \<longleftrightarrow> c_ncli (cpus s c) = n \<and> (0 < n \<longrightarrow> \<not> c_if (cpus s c))"

definition race_start :: "nat \<Rightarrow> lockid \<Rightarrow> kernel \<Rightarrow> bool" where
  "race_start i lk s \<longleftrightarrow> lk \<noteq> L_ptable \<and> i < NPROC \<and> length (procs s) = NPROC
     \<and> owned lk (Some 0) s \<and> owned L_ptable None s \<and> cpu_at 0 1 s \<and> cpu_at 1 0 s
     \<and> c_proc (cpus s 0) = Some i"

definition race_inv :: "nat \<Rightarrow> chan \<Rightarrow> lockid \<Rightarrow> kernel \<times> nat \<times> nat \<Rightarrow> bool" where
  "race_inv i ch lk x \<longleftrightarrow> (case x of (s, k, j) \<Rightarrow>
     k \<le> 6 \<and> j \<le> 5 \<and> (k < 2 \<longrightarrow> j = 0) \<and> (2 \<le> j \<longrightarrow> k = 6)
     \<and> lk \<noteq> L_ptable \<and> i < NPROC \<and> length (procs s) = NPROC \<and> c_proc (cpus s 0) = Some i
     \<and> owned lk (if k < 2 then Some 0 else if 1 \<le> j \<and> j < 5 then Some 1 else None) s
     \<and> owned L_ptable (if 1 \<le> k \<and> k < 6 then Some 0 else if j = 2 \<or> j = 3 then Some 1 else None) s
     \<and> cpu_at 0 ([1, 2, 1, 1, 1, 1, 0] ! k) s \<and> cpu_at 1 ([0, 1, 2, 2, 1, 0] ! j) s
     \<and> (3 \<le> k \<longrightarrow> p_chan (procs s ! i) = Some ch)
     \<and> (4 \<le> k \<longrightarrow> p_state (procs s ! i) = (if 3 \<le> j then RUNNABLE else SLEEPING)))"

lemma race_init: "race_start i lk s \<Longrightarrow> race_inv i ch lk (s, 0, 0)"
  by (simp add: race_start_def race_inv_def)

lemma less_Suc6: "k < (6 :: nat) \<longleftrightarrow> k = 0 \<or> k = 1 \<or> k = 2 \<or> k = 3 \<or> k = 4 \<or> k = 5"
  by auto

lemma less_Suc5: "k < (5 :: nat) \<longleftrightarrow> k = 0 \<or> k = 1 \<or> k = 2 \<or> k = 3 \<or> k = 4"
  by auto

lemmas race_simps = race_inv_def owned_def cpu_at_def sleeper_code_def waker_code_def sleep_steps_def
  wakeup_steps_def

lemma cpu_at_acq:
  "c_ncli (cpus (acq l s) c) = (if c = cpuid s then c_ncli (cpus s c) + 1 else c_ncli (cpus s c))"
  "c_if (cpus (acq l s) c) = (c \<noteq> cpuid s \<and> c_if (cpus s c))"
  "c_proc (cpus (acq l s) c) = c_proc (cpus s c)"
  by (simp_all add: acq_def cpu_defs)

lemma cpu_at_rel:
  "c_ncli (cpus (rel l s) c) = (if c = cpuid s then c_ncli (cpus s c) - 1 else c_ncli (cpus s c))"
  "c_if (cpus (rel l s) c) = (if c = cpuid s then c_ncli (cpus s c) = 1 \<and> c_intena (cpus s c) else c_if (cpus s c))"
  "c_proc (cpus (rel l s) c) = c_proc (cpus s c)"
  by (simp_all add: rel_def cpu_defs)

lemma passes_acquire: "passes (acquire l) s t \<longleftrightarrow> locked (locks s l) = 0 \<and> t = acq l s"
  by (auto simp: passes_def acquire_Ok_iff) (auto simp: acquire_def pushcli_eq holding_def spin_xchg_def
      xchg_def cpu_defs bind_app andthen_app panic_if_def split: if_splits)

lemma passes_release:
  "passes (release l) s t \<longleftrightarrow> locked (locks s l) \<noteq> 0 \<and> lk_cpu (locks s l) = Some (cpuid s)
     \<and> \<not> c_if (mycpu s) \<and> 0 < c_ncli (mycpu s) \<and> t = rel l s"
  by (auto simp: passes_def release_Ok_iff) (auto simp: release_def popcli_def sti_def do_if_def read_if_def holding_def
      xchg_def cpu_defs bind_app andthen_app panic_if_def split: if_splits)

lemma passes_modify: "passes (modify f) s t \<longleftrightarrow> t = f s"
  by (auto simp: passes_def)

lemma passes_sched:
  "passes sched s t \<longleftrightarrow> locked (locks s L_ptable) \<noteq> 0 \<and> lk_cpu (locks s L_ptable) = Some (cpuid s)
     \<and> c_ncli (mycpu s) = 1 \<and> (\<exists>i. c_proc (mycpu s) = Some i \<and> p_state (procs s ! i) \<noteq> RUNNING)
     \<and> \<not> c_if (mycpu s) \<and> t = s"
  by (auto simp: passes_def sched_never_returns) (auto simp: sched_def holding_def with_proc_def curproc_def read_if_def
      bind_app andthen_app panic_if_def split: if_splits option.splits)

lemma passes_wakeup1: "length (procs s) = NPROC \<Longrightarrow> passes (wakeup1 ch) s t \<longleftrightarrow> t = wake_all ch s"
  by (auto simp: passes_def wakeup1_ok)

lemmas passes_simps = passes_acquire passes_release passes_modify passes_sched passes_wakeup1

lemma race_sleeper:
  assumes inv: "race_inv i ch lk (s, k, j)" and k: "k < 6" and go: "passes (sleeper_code i ch lk ! k) (s\<lparr>cpuid := 0\<rparr>) t"
  shows "race_inv i ch lk (t, Suc k, j)"
proof -
  consider "k = 0" | "k = 1" | "k = 2" | "k = 3" | "k = 4" | "k = 5" using k by (auto simp: less_Suc6)
  then show ?thesis
    by cases (use inv go in \<open>auto simp: race_simps passes_simps cpu_at_acq cpu_at_rel mycpu_def\<close>)
qed

lemma race_waker:
  assumes inv: "race_inv i ch lk (s, k, j)" and j: "j < 5" and go: "passes (waker_code ch lk ! j) (s\<lparr>cpuid := 1\<rparr>) t"
  shows "race_inv i ch lk (t, k, Suc j)"
proof -
  consider "j = 0" | "j = 1" | "j = 2" | "j = 3" | "j = 4" using j by (auto simp: less_Suc5)
  then show ?thesis
    by cases (use inv go in \<open>auto simp: race_simps passes_simps cpu_at_acq cpu_at_rel mycpu_def wake_all_def wake_def
      split: if_splits\<close>)
qed

lemma race_lengths: "lk \<noteq> L_ptable \<Longrightarrow> length (sleeper_code i ch lk) = 6" "length (waker_code ch lk) = 5"
  by (simp_all add: sleeper_code_def sleep_steps_def waker_code_def wakeup_steps_def)

lemma race_step:
  assumes "race i ch lk x y" "race_inv i ch lk x"
  shows "race_inv i ch lk y"
proof -
  have lk: "lk \<noteq> L_ptable" using assms(2) by (auto simp only: race_inv_def split: prod.splits)
  from assms(1) show ?thesis
  proof cases
    case (sleeper k s t j)
    then have "k < 6" using race_lengths(1) [OF lk] by simp
    then show ?thesis using sleeper assms(2) race_sleeper by blast
  next
    case (waker j s t k)
    then have "j < 5" using race_lengths(2) by simp
    then show ?thesis using waker assms(2) race_waker by blast
  qed
qed

lemma race_keeps: "rtranclp (race i ch lk) x y \<Longrightarrow> race_inv i ch lk x \<Longrightarrow> race_inv i ch lk y"
  by (induction rule: rtranclp_induct) (auto intro: race_step)

lemma race_progress:
  assumes inv: "race_inv i ch lk (s, k, j)" and "k < 6 \<or> j < 5"
  shows "\<exists>y. race i ch lk (s, k, j) y"
proof (cases "k < 6")
  case True
  have lk: "lk \<noteq> L_ptable" using inv by (simp add: race_inv_def)
  consider "k = 0" | "k = 1" | "k = 2" | "k = 3" | "k = 4" | "k = 5" using True by (auto simp: less_Suc6)
  then have "\<exists>t. passes (sleeper_code i ch lk ! k) (s\<lparr>cpuid := 0\<rparr>) t"
    by cases (use inv in \<open>auto simp: race_simps passes_simps mycpu_def\<close>)
  then show ?thesis using True race_lengths(1) [OF lk] sleeper by metis
next
  case False
  then have "j < 5" using assms by simp
  then consider "j = 0" | "j = 1" | "j = 2" | "j = 3" | "j = 4" by (auto simp: less_Suc5)
  then have "\<exists>t. passes (waker_code ch lk ! j) (s\<lparr>cpuid := 1\<rparr>) t"
    by cases (use inv False in \<open>auto simp: race_simps passes_simps mycpu_def\<close>)
  then show ?thesis using \<open>j < 5\<close> race_lengths(2) waker by metis
qed

text \<open>
  C7. No wakeup is lost: however the statements of a sleeping process and of a processor
  that takes the same lock and wakes the channel up are interleaved, the process is
  runnable as soon as the waker has gone through the process table, and the two never
  block each other for good.
\<close>

theorem no_lost_wakeup:
  assumes "race_start i lk s" "rtranclp (race i ch lk) (s, 0, 0) (t, k, j)"
  shows "(3 \<le> j \<longrightarrow> p_state (procs t ! i) = RUNNABLE) \<and> (k < 6 \<or> j < 5 \<longrightarrow> (\<exists>y. race i ch lk (t, k, j) y))"
proof -
  have inv: "race_inv i ch lk (t, k, j)"
    using race_keeps [OF assms(2) race_init [OF assms(1)]] .
  then show ?thesis using race_progress [OF inv] by (simp add: race_inv_def)
qed

section \<open>Killing\<close>

lemma kill_ok:
  assumes "lock_free L_ptable s" "cpu_ok s" "length (procs s) = NPROC"
  shows "kill pid s = (case find (\<lambda>i. p_pid (procs s ! i) = pid) [0..<NPROC] of
      None \<Rightarrow> Ok (- 1) (touch s)
    | Some p \<Rightarrow> Ok 0 (touch (set_proc p (\<lambda>q. q\<lparr>p_killed := True,
        p_state := (if p_state q = SLEEPING then RUNNABLE else p_state q)\<rparr>) s)))"
proof (cases "find (\<lambda>i. p_pid (procs s ! i) = pid) [0..<NPROC]")
  case None
  then show ?thesis using assms by (simp add: kill_def acquire_ok release_ok)
next
  case (Some p)
  then have "p < length (procs s)" using assms(3) by (auto simp: find_Some_iff)
  then show ?thesis
    using assms Some by (cases "p_state (procs s ! p) = SLEEPING")
      (simp_all add: kill_def acquire_ok release_ok do_if_def set_proc_def)
qed

section \<open>Allocating a process\<close>

text \<open>What a new process looks like, with its kernel stack in the page \<open>k\<close>.\<close>

definition embryo :: "kernel \<Rightarrow> uint32 \<Rightarrow> proc \<Rightarrow> proc" where
  "embryo s k q = q\<lparr>p_state := EMBRYO, p_pid := nextpid s, p_kstack := k, p_tf_ptr := k + 4020,
     p_context_ptr := k + 3996, p_context := zero_context\<lparr>ctx_eip := im_forkret (k_image s)\<rparr>\<rparr>"

lemma allocproc_full:
  assumes "kmem_inv s ps" "lock_free L_ptable s" "find (\<lambda>i. p_state (procs s ! i) = UNUSED) [0..<NPROC] = None"
  shows "allocproc s = Ok None (touch s)"
  using assms by (simp add: allocproc_def acquire_ok release_ok kmem_inv_def)

lemma allocproc_slot:
  assumes inv: "kmem_inv s ps" and free: "lock_free L_ptable s" and len: "length (procs s) = NPROC"
    and p: "find (\<lambda>i. p_state (procs s ! i) = UNUSED) [0..<NPROC] = Some p"
  shows "returns allocproc s (\<lambda>r t.
     nextpid t = wrap_int (nextpid s + 1) \<and> lock_free L_ptable t \<and> quiet t = quiet s \<and>
     (case ps of
       [] \<Rightarrow> r = None \<and> kmem_inv t [] \<and> procs t = (procs s)[p := (procs s ! p)\<lparr>p_pid := nextpid s, p_kstack := 0\<rparr>]
     | k # ks \<Rightarrow> r = Some p \<and> kmem_inv t ks \<and> procs t = (procs s)[p := embryo s k (procs s ! p)]))"
proof -
  have pl: "p < length (procs s)" "p_state (procs s ! p) = UNUSED" using p len by (auto simp: find_Some_iff)
  have cpu: "cpu_ok s" using inv by (simp add: kmem_inv_def)
  let ?q = "(procs s ! p)\<lparr>p_state := EMBRYO, p_pid := nextpid s\<rparr>"
  let ?s = "(touch s)\<lparr>procs := (procs s)[p := ?q], nextpid := wrap_int (nextpid s + 1)\<rparr>"
  have inv': "kmem_inv ?s ps" using inv by simp
  from kalloc_returns [OF inv'] obtain k t where k: "kalloc ?s = Ok k t" "k = (case ps of [] \<Rightarrow> 0 | q # _ \<Rightarrow> q)"
    and t: "kmem_inv t (tl ps)" "t = (kmem_touch ?s)\<lparr>freelist := freelist t\<rparr>" by (auto elim: returnsE)
  let ?t = "(kmem_touch ?s)\<lparr>freelist := freelist t\<rparr>"
  have t_eq: "\<And>f. f t = f ?t" using t(2) by metis
  have tf: "procs t = (procs s)[p := ?q]" "nextpid t = wrap_int (nextpid s + 1)" "lock_free L_ptable t = lock_free L_ptable s"
    "quiet t = quiet s" "k_image t = k_image s"
    by (subst t_eq, simp)+
  show ?thesis
  proof (cases ps)
    case Nil
    let ?u = "set_proc p (\<lambda>q. q\<lparr>p_state := UNUSED\<rparr>) (set_proc p (\<lambda>q. q\<lparr>p_kstack := 0\<rparr>) t)"
    have "allocproc s = Ok None ?u"
      using k Nil p pl cpu free by (simp add: allocproc_def acquire_ok release_ok set_proc_def)
    moreover have "(procs s ! p)\<lparr>p_state := EMBRYO, p_pid := nextpid s, p_kstack := 0, p_state := UNUSED\<rparr>
        = (procs s ! p)\<lparr>p_pid := nextpid s, p_kstack := 0\<rparr>"
      using pl(2) by simp
    ultimately show ?thesis
      using Nil t(1) pl free tf by (simp add: returns_def set_proc_def)
  next
    case (Cons q qs)
    let ?m = "store32 (memset (store32 (mem t) (q + 4016) (im_trapret (k_image s))) (q + 3996) 0 20)
      (q + 4012) (im_forkret (k_image s))"
    have q: "page_ok s q" "q \<notin> set qs" using inv Cons by (simp_all add: kmem_inv_def)
    then have qa: "q mod PGSIZE = 0" "q \<noteq> 0" using page_ok_nonzero [OF q(1)] by (simp_all add: page_ok_def)
    have "?m a = mem t a" if "PGROUNDDOWN a \<noteq> q" for a
      using that qa by (simp add: store32_in_page memset_in_page)
    then have inv2: "kmem_inv (t\<lparr>procs := (procs s)[p := embryo s q (procs s ! p)], mem := ?m\<rparr>) qs"
      using t(1) Cons q(2) by (intro kmem_inv_mem [OF _ qa(1)]) auto
    have "allocproc s = Ok (Some p) (t\<lparr>procs := (procs s)[p := embryo s q (procs s ! p)], mem := ?m\<rparr>)"
      using k Cons p pl cpu free qa
      by (simp add: allocproc_def acquire_ok release_ok set_proc_def Let_def tf embryo_def KSTACKSIZE_def add.commute)
    then show ?thesis
      using Cons inv2 free tf by (simp add: returns_def)
  qed
qed

text \<open>
  Process identifiers: those in use are positive, below \<open>nextpid\<close> and different from
  each other, and \<open>nextpid\<close> is the value of a C \<open>int\<close>.
\<close>

definition pids_ok :: "kernel \<Rightarrow> bool" where
  "pids_ok s \<longleftrightarrow> length (procs s) = NPROC \<and> 0 < nextpid s \<and> nextpid s < 2147483648
     \<and> (\<forall>i < NPROC. p_state (procs s ! i) \<noteq> UNUSED \<longrightarrow> 0 < p_pid (procs s ! i) \<and> p_pid (procs s ! i) < nextpid s)
     \<and> (\<forall>i < NPROC. \<forall>j < NPROC. p_state (procs s ! i) \<noteq> UNUSED \<longrightarrow> p_state (procs s ! j) \<noteq> UNUSED \<longrightarrow>
          p_pid (procs s ! i) = p_pid (procs s ! j) \<longrightarrow> i = j)"

lemma pids_ok_update:
  assumes "pids_ok s" "length (procs t) = NPROC" "nextpid t = nextpid s + 1" "nextpid s < 2147483647"
    and "\<And>j. j < NPROC \<Longrightarrow> j \<noteq> p \<Longrightarrow> procs t ! j = procs s ! j"
    and "p_pid (procs t ! p) = nextpid s"
  shows "pids_ok t"
proof -
  have old: "0 < p_pid (procs t ! j) \<and> p_pid (procs t ! j) < nextpid s"
    if "j < NPROC" "j \<noteq> p" "p_state (procs t ! j) \<noteq> UNUSED" for j
    using assms(1) assms(5) [OF that(1,2)] that by (simp add: pids_ok_def)
  have new: "p_pid (procs t ! p) = nextpid s" "0 < nextpid s" using assms by (simp_all add: pids_ok_def)
  have "0 < p_pid (procs t ! j) \<and> p_pid (procs t ! j) < nextpid t"
    if "j < NPROC" "p_state (procs t ! j) \<noteq> UNUSED" for j
    using old [of j] new that assms(3) by (cases "j = p") auto
  moreover have "i = j"
    if ij: "i < NPROC" "j < NPROC" "p_state (procs t ! i) \<noteq> UNUSED" "p_state (procs t ! j) \<noteq> UNUSED"
      "p_pid (procs t ! i) = p_pid (procs t ! j)" for i j
  proof (cases "i = p \<or> j = p")
    case True
    then show ?thesis using old [of i] old [of j] new ij by (cases "i = p"; cases "j = p") auto
  next
    case False
    then show ?thesis using assms(1) assms(5) ij by (simp add: pids_ok_def)
  qed
  ultimately show ?thesis using assms(2-4) new by (simp add: pids_ok_def)
qed

text \<open>
  C9. Allocating a process: while the table has an unused slot and memory a free page,
  \<open>allocproc\<close> returns the first unused slot as an embryo with a fresh identifier, its own
  kernel stack and a context that starts at \<open>forkret\<close>; all other slots are unchanged and
  the identifiers in use stay different from each other. This holds as long as \<open>nextpid\<close>,
  a C \<open>int\<close>, has not come to its largest value.
\<close>

theorem allocproc_fresh:
  assumes "kmem_inv s (k # ks)" "lock_free L_ptable s" "pids_ok s" "nextpid s < 2147483647"
    and "p < NPROC" "p_state (procs s ! p) = UNUSED" "\<forall>i < p. p_state (procs s ! i) \<noteq> UNUSED"
  shows "returns allocproc s (\<lambda>r t. r = Some p \<and> kmem_inv t ks \<and> pids_ok t
     \<and> procs t = (procs s)[p := embryo s k (procs s ! p)] \<and> nextpid t = nextpid s + 1
     \<and> (\<forall>i < NPROC. p_state (procs s ! i) \<noteq> UNUSED \<longrightarrow> p_pid (procs s ! i) \<noteq> p_pid (procs t ! p)))"
proof -
  have len: "length (procs s) = NPROC" using assms(3) by (simp add: pids_ok_def)
  have "find (\<lambda>i. p_state (procs s ! i) = UNUSED) [0..<NPROC] = Some p"
    using assms(5-7) by (simp add: find_upt_Some)
  from allocproc_slot [OF assms(1,2) len this] show ?thesis
  proof (rule returns_mono, goal_cases)
    case (1 r t)
    have "wrap_int (nextpid s + 1) = nextpid s + 1" using assms(3,4) by (intro wrap_int_id) (simp_all add: pids_ok_def)
    with 1 have t: "nextpid t = nextpid s + 1" "procs t = (procs s)[p := embryo s k (procs s ! p)]" "kmem_inv t ks" "r = Some p"
      by simp_all
    have "pids_ok t"
      by (rule pids_ok_update [OF assms(3), where p = p]) (use t len assms(4,5) in \<open>simp_all add: embryo_def\<close>)
    moreover have "p_pid (procs t ! p) = nextpid s" using t len assms(5) by (simp add: embryo_def)
    moreover have "\<forall>i < NPROC. p_state (procs s ! i) \<noteq> UNUSED \<longrightarrow> p_pid (procs s ! i) < nextpid s"
      using assms(3) by (simp add: pids_ok_def)
    ultimately show ?case using t by auto
  qed
qed

text \<open>
  C10. Killing a process: \<open>kill\<close> fails exactly if no slot has the identifier, and then
  changes no slot. Otherwise it succeeds; of all slots only the first that has the
  identifier changes, and of that one only \<open>killed\<close>, which is set, and, if and only if it
  was asleep, the state, which becomes runnable.
\<close>

theorem kill_marks:
  assumes "lock_free L_ptable s" "cpu_ok s" "length (procs s) = NPROC"
  shows "returns (kill pid) s (\<lambda>r t. lock_free L_ptable t \<and>
     (if \<forall>i < NPROC. p_pid (procs s ! i) \<noteq> pid then r = - 1 \<and> procs t = procs s
     else r = 0 \<and> (\<exists>i < NPROC. p_pid (procs s ! i) = pid \<and> (\<forall>j < i. p_pid (procs s ! j) \<noteq> pid)
       \<and> procs t = (procs s)[i := (procs s ! i)\<lparr>p_killed := True,
           p_state := (if p_state (procs s ! i) = SLEEPING then RUNNABLE else p_state (procs s ! i))\<rparr>])))"
proof (cases "find (\<lambda>i. p_pid (procs s ! i) = pid) [0..<NPROC]")
  case None
  then have "\<forall>i < NPROC. p_pid (procs s ! i) \<noteq> pid" by (simp add: find_upt_None)
  with None show ?thesis using kill_ok [OF assms, of pid] assms(1) by (simp add: returns_def)
next
  case (Some p)
  then have p: "p < NPROC" "p_pid (procs s ! p) = pid" "\<forall>j < p. p_pid (procs s ! j) \<noteq> pid"
    by (simp_all add: find_upt_Some)
  let ?f = "\<lambda>q. q\<lparr>p_killed := True, p_state := (if p_state q = SLEEPING then RUNNABLE else p_state q)\<rparr>"
  let ?t = "touch (set_proc p ?f s)"
  have "procs ?t = (procs s)[p := ?f (procs s ! p)]" "lock_free L_ptable ?t" using assms(1) by simp_all
  moreover have "\<not> (\<forall>i < NPROC. p_pid (procs s ! i) \<noteq> pid)" using p by blast
  moreover have e: "kill pid s = Ok 0 ?t" using kill_ok [OF assms, of pid] Some by simp
  ultimately show ?thesis
    unfolding returns_def e outcome.case by (simp only: if_False, use p in blast)
qed

text \<open>
  C11. A slot that is not in use can be killed: \<open>kill(0)\<close> in a state whose first slot with
  identifier 0 is also the first unused one succeeds, and the next process allocated, in
  that slot, starts its life with \<open>killed\<close> set.
\<close>

theorem kill_zero_marks_next_process:
  assumes "kmem_inv s (k # ks)" "lock_free L_ptable s" "length (procs s) = NPROC"
    and "p < NPROC" "p_state (procs s ! p) = UNUSED" "p_pid (procs s ! p) = 0"
    and "\<forall>i < p. p_state (procs s ! i) \<noteq> UNUSED \<and> p_pid (procs s ! i) \<noteq> 0"
  shows "returns (bind (kill 0) (\<lambda>r. bind allocproc (\<lambda>q. return (r, q)))) s
     (\<lambda>(r, q) t. r = 0 \<and> q = Some p \<and> p_killed (procs t ! p))"
proof -
  define t where "t = touch (set_proc p (\<lambda>q. q\<lparr>p_killed := True,
        p_state := (if p_state q = SLEEPING then RUNNABLE else p_state q)\<rparr>) s)"
  have "find (\<lambda>i. p_pid (procs s ! i) = 0) [0..<NPROC] = Some p"
    using assms(4,6,7) by (simp add: find_upt_Some)
  then have kill: "kill 0 s = Ok 0 t"
    using kill_ok [OF assms(2) _ assms(3), of 0] assms(1) by (simp add: kmem_inv_def t_def)
  have procs: "procs t = (procs s)[p := (procs s ! p)\<lparr>p_killed := True\<rparr>]"
    using assms(5) by (cases "procs s ! p") (simp add: t_def)
  have slot: "find (\<lambda>i. p_state (procs t ! i) = UNUSED) [0..<NPROC] = Some p"
    unfolding find_upt_Some procs using assms(3-5,7) by (simp add: nth_list_update)
  have inv: "kmem_inv t (k # ks)" "lock_free L_ptable t" "length (procs t) = NPROC"
    using assms(1-3) by (simp_all add: t_def set_proc_def)
  from allocproc_slot [OF inv slot]
  have "returns allocproc t (\<lambda>r u. r = Some p \<and> procs u = (procs t)[p := embryo t k (procs t ! p)])"
    unfolding list.case by (rule returns_mono) blast
  then obtain u where "allocproc t = Ok (Some p) u" "procs u = (procs t)[p := embryo t k (procs t ! p)]"
    by (auto elim!: returnsE)
  then show ?thesis using kill inv(3) assms(3,4) by (simp add: returns_def embryo_def procs)
qed

section \<open>Concrete instances\<close>

text \<open>Process 0 runs on processor 0 and holds the lock of the log.\<close>

definition logger :: kernel where
  "logger = acq L_log (boot0\<lparr>cpus := (\<lambda>_. zero_cpu\<lparr>c_proc := Some 0\<rparr>)\<rparr>)"

lemmas logger_simps = logger_def boot0_def boot_kernel_def zero_defs acq_def cpu_push_def cpu_defs
  lock_free_def holds_def

text \<open>The scheduler comes back to process 0 on processor 1.\<close>

definition resumed :: kernel where
  "resumed = acq L_ptable (boot0\<lparr>cpuid := 1, cpus := (\<lambda>_. zero_cpu\<lparr>c_proc := Some 0\<rparr>)\<rparr>)"

lemma sleep_hands_over_witness:
  "(\<exists>t. sleep Ch_log (Some L_log) logger = Swtch t \<and> lock_free L_log t \<and> holds L_ptable t \<and> c_ncli (mycpu t) = 1
     \<and> p_state (procs t ! 0) = SLEEPING \<and> p_chan (procs t ! 0) = Some Ch_log)
   \<and> (\<exists>v. sleep_resume L_log True resumed = Ok () v \<and> holds L_log v \<and> lock_free L_ptable v \<and> c_ncli (mycpu v) = 1
     \<and> p_chan (procs v ! 0) = None)"
proof -
  have l: "curproc logger = Some 0" "0 < length (procs logger)" "L_log \<noteq> L_ptable" "holds L_log logger"
    "c_ncli (mycpu logger) = 1" "lock_free L_ptable logger"
    by (simp_all add: logger_simps curproc_def NPROC_def)
  have r: "curproc resumed = Some 0" "0 < length (procs resumed)" "holds L_ptable resumed"
    "c_ncli (mycpu resumed) = 1" "lock_free L_log resumed"
    by (simp_all add: resumed_def logger_simps curproc_def NPROC_def)
  show ?thesis using sleep_hands_over [OF l r, of Ch_log True] l(2) r(2) by fastforce
qed

lemma no_lost_wakeup_witness: "\<exists>y. race 0 Ch_log L_log (logger, 0, 0) y"
proof -
  have "race_start 0 L_log logger"
    by (simp add: race_start_def owned_def cpu_at_def logger_simps NPROC_def)
  from no_lost_wakeup [OF this rtranclp.rtrancl_refl] show ?thesis by simp
qed

lemma NPROC_pos: "0 < NPROC"
  by (simp add: NPROC_def)

lemma two_pages_procs: "procs two_pages = replicate NPROC zero_proc" "nextpid two_pages = 1"
    "lock_free lk two_pages" "cpu_ok two_pages"
  by (simp_all add: two_pages_def boot0_def boot_kernel_def zero_defs lock_free_def cpu_ok_def mycpu_def)

lemma allocproc_fresh_witness:
  "returns allocproc two_pages (\<lambda>r t. r = Some 0 \<and> kmem_inv t [0x80201000] \<and> pids_ok t
     \<and> procs t = (procs two_pages)[0 := embryo two_pages 0x80200000 (procs two_pages ! 0)] \<and> nextpid t = nextpid two_pages + 1
     \<and> (\<forall>i < NPROC. p_state (procs two_pages ! i) \<noteq> UNUSED \<longrightarrow> p_pid (procs two_pages ! i) \<noteq> p_pid (procs t ! 0)))"
  by (rule allocproc_fresh [OF two_pages_inv])
    (simp_all add: two_pages_procs pids_ok_def zero_proc_def NPROC_pos)

text \<open>Process 3 sleeps and process 4 runs.\<close>

definition two_procs :: kernel where
  "two_procs = two_pages\<lparr>procs := (replicate NPROC zero_proc)[0 := zero_proc\<lparr>p_pid := 3, p_state := SLEEPING\<rparr>,
     1 := zero_proc\<lparr>p_pid := 4, p_state := RUNNING\<rparr>]\<rparr>"

lemma two_procs_pids:
  assumes "i < NPROC"
  shows "p_pid (procs two_procs ! i) = (if i = 0 then 3 else if i = 1 then 4 else 0)"
  using assms by (simp add: two_procs_def zero_proc_def nth_list_update NPROC_def)

lemma kill_marks_witness:
  "returns (kill 3) two_procs (\<lambda>r t. r = 0 \<and> p_killed (procs t ! 0) \<and> p_state (procs t ! 0) = RUNNABLE \<and> procs t ! 1 = procs two_procs ! 1)
   \<and> returns (kill 4) two_procs (\<lambda>r t. r = 0 \<and> p_killed (procs t ! 1) \<and> p_state (procs t ! 1) = RUNNING \<and> procs t ! 0 = procs two_procs ! 0)
   \<and> returns (kill 7) two_procs (\<lambda>r t. r = - 1 \<and> procs t = procs two_procs)"
proof -
  have ok: "lock_free L_ptable two_procs" "cpu_ok two_procs" "length (procs two_procs) = NPROC"
    using two_pages_procs(3,4) by (simp_all add: two_procs_def)
  have procs: "procs two_procs ! 0 = zero_proc\<lparr>p_pid := 3, p_state := SLEEPING\<rparr>"
    "procs two_procs ! 1 = zero_proc\<lparr>p_pid := 4, p_state := RUNNING\<rparr>" "1 < NPROC"
    by (simp_all add: two_procs_def NPROC_def)
  have ne: "procs two_procs \<noteq> []" "Suc 0 < length (procs two_procs)" by (simp_all add: two_procs_def NPROC_def)
  have first: "i = 0" if "i < NPROC" "p_pid (procs two_procs ! i) = 3" for i
    using that two_procs_pids [OF that(1)] by (simp split: if_splits)
  have second: "i = 1" if "i < NPROC" "p_pid (procs two_procs ! i) = 4" for i
    using that two_procs_pids [OF that(1)] by (simp split: if_splits)
  have some: "\<not> (\<forall>i < NPROC. p_pid (procs two_procs ! i) \<noteq> 3)" "\<not> (\<forall>i < NPROC. p_pid (procs two_procs ! i) \<noteq> 4)"
    using procs NPROC_pos two_procs_pids [OF procs(3)] two_procs_pids [OF NPROC_pos] by fastforce+
  have none: "\<forall>i < NPROC. p_pid (procs two_procs ! i) \<noteq> 7" by (simp add: two_procs_pids)
  have "returns (kill 3) two_procs (\<lambda>r t. r = 0 \<and> p_killed (procs t ! 0) \<and> p_state (procs t ! 0) = RUNNABLE \<and> procs t ! 1 = procs two_procs ! 1)"
    using kill_marks [OF ok, of 3] unfolding if_not_P [OF some(1)]
  proof (rule returns_mono, goal_cases)
    case (1 r t)
    then obtain i where i: "r = 0" "i < NPROC" "p_pid (procs two_procs ! i) = 3" and
      t: "procs t = (procs two_procs)[i := (procs two_procs ! i)\<lparr>p_killed := True,
        p_state := (if p_state (procs two_procs ! i) = SLEEPING then RUNNABLE else p_state (procs two_procs ! i))\<rparr>]" by blast
    have "i = 0" by (rule first [OF i(2,3)])
    then show ?case using i(1) t procs ne by simp
  qed
  moreover have "returns (kill 4) two_procs (\<lambda>r t. r = 0 \<and> p_killed (procs t ! 1) \<and> p_state (procs t ! 1) = RUNNING \<and> procs t ! 0 = procs two_procs ! 0)"
    using kill_marks [OF ok, of 4] unfolding if_not_P [OF some(2)]
  proof (rule returns_mono, goal_cases)
    case (1 r t)
    then obtain i where i: "r = 0" "i < NPROC" "p_pid (procs two_procs ! i) = 4" and
      t: "procs t = (procs two_procs)[i := (procs two_procs ! i)\<lparr>p_killed := True,
        p_state := (if p_state (procs two_procs ! i) = SLEEPING then RUNNABLE else p_state (procs two_procs ! i))\<rparr>]" by blast
    have "i = 1" by (rule second [OF i(2,3)])
    then show ?case using i(1) t procs ne by simp
  qed
  moreover have "returns (kill 7) two_procs (\<lambda>r t. r = - 1 \<and> procs t = procs two_procs)"
    using kill_marks [OF ok, of 7] unfolding if_P [OF none] by (rule returns_mono) simp
  ultimately show ?thesis by blast
qed

lemma kill_zero_marks_next_process_witness:
  "returns (bind (kill 0) (\<lambda>r. bind allocproc (\<lambda>q. return (r, q)))) two_pages
     (\<lambda>(r, q) t. r = 0 \<and> q = Some 0 \<and> p_killed (procs t ! 0))"
  by (rule kill_zero_marks_next_process [OF two_pages_inv])
    (simp_all add: two_pages_procs zero_proc_def NPROC_def)

end
