(* ===== verification/Bio.thy ===== *)
theory Bio
  imports Sched
begin

text \<open>
  \<^verbatim>\<open>bio.c\<close>, the buffer cache, over the disk driver \<^verbatim>\<open>memide.c\<close>. The array
  \<open>bufs\<close> holds the buffers \<open>bcache.buf\<close> and, at index \<open>NBUF\<close>, \<open>bcache.head\<close>,
  the head of the circular list of all buffers, most recently used first.

  The lemmas show what users of the cache rely on: \<open>view\<close>, what a block holds as far as
  the kernel can tell, does not depend on which buffers the cache has recycled.
\<close>

section \<open>The driver of the memory disk\<close>

definition set_buf :: "nat \<Rightarrow> (buf \<Rightarrow> buf) \<Rightarrow> kernel \<Rightarrow> kernel" where
  "set_buf i f s = s\<lparr>bufs := (bufs s)[i := f (bufs s ! i)]\<rparr>"

definition memide_init :: "(uint32 \<Rightarrow> byte list) \<Rightarrow> uint32 \<Rightarrow> unit kroutine" where
  "memide_init img nbytes = modify (\<lambda>s. s\<lparr>disk := img, disksize := nbytes div 512\<rparr>)"

definition iderw :: "nat \<Rightarrow> unit kroutine" where
  "iderw b =
    bind (gets (\<lambda>s. bufs s ! b)) (\<lambda>x.
    andthen (panic_if (\<not> b_busy x) ''iderw: buf not busy'')
    (andthen (panic_if (b_valid x \<and> \<not> b_dirty x) ''iderw: nothing to do'')
    (andthen (panic_if (b_dev x \<noteq> 1) ''iderw: request not for disk 1'')
    (bind (gets disksize) (\<lambda>n.
    andthen (panic_if (b_blockno x \<ge> n) ''iderw: block out of range'')
    (andthen
      (if b_dirty x then
         andthen (modify (set_buf b (\<lambda>x. x\<lparr>b_dirty := False\<rparr>)))
         (modify (\<lambda>s. s\<lparr>disk := (disk s)(b_blockno x := b_data x),
            dwrites := dwrites s @ [(b_blockno x, b_data x)]\<rparr>))
       else modify (\<lambda>s. set_buf b (\<lambda>y. y\<lparr>b_data := disk s (b_blockno x)\<rparr>) s))
    (modify (set_buf b (\<lambda>x. x\<lparr>b_valid := True\<rparr>)))))))))"

section \<open>The buffer cache\<close>

definition binit :: "unit kroutine" where
  "binit =
    andthen (initlock L_bcache ''bcache'')
    (andthen (modify (set_buf NBUF (\<lambda>h. h\<lparr>b_prev := NBUF\<rparr>)))
    (andthen (modify (set_buf NBUF (\<lambda>h. h\<lparr>b_next := NBUF\<rparr>)))
    (foreach [0..<NBUF] (\<lambda>b. seq
      [modify (\<lambda>s. set_buf b (\<lambda>x. x\<lparr>b_next := b_next (bufs s ! NBUF)\<rparr>) s),
       modify (set_buf b (\<lambda>x. x\<lparr>b_prev := NBUF\<rparr>)),
       modify (set_buf b (\<lambda>x. x\<lparr>b_dev := - 1\<rparr>)),
       modify (\<lambda>s. set_buf (b_next (bufs s ! NBUF)) (\<lambda>x. x\<lparr>b_prev := b\<rparr>) s),
       modify (set_buf NBUF (\<lambda>x. x\<lparr>b_next := b\<rparr>))]))))"

text \<open>
  The scans of the list: follow \<open>nxt\<close> from \<open>b\<close> until a buffer satisfies \<open>P\<close> or the
  head is back.
\<close>

fun bwalk :: "nat \<Rightarrow> (buf \<Rightarrow> nat) \<Rightarrow> (buf \<Rightarrow> bool) \<Rightarrow> nat \<Rightarrow> nat option kroutine" where
  "bwalk 0 nxt P b = (\<lambda>s. Spin s)"
| "bwalk (Suc k) nxt P b =
    (if b = NBUF then return None
     else bind (gets (\<lambda>s. bufs s ! b)) (\<lambda>x.
       if P x then return (Some b) else bwalk k nxt P (nxt x)))"

text \<open>\<open>bget\<close> from the label \<open>loop\<close>, with the lock of the cache held.\<close>

definition bget_loop :: "uint32 \<Rightarrow> uint32 \<Rightarrow> nat kroutine" where
  "bget_loop dev blockno =
    bind (gets (\<lambda>s. b_next (bufs s ! NBUF))) (\<lambda>b0.
    bind (bwalk (Suc NBUF) b_next (\<lambda>x. b_dev x = dev \<and> b_blockno x = blockno) b0) (\<lambda>r.
    case r of
      Some b \<Rightarrow>
        bind (gets (\<lambda>s. b_busy (bufs s ! b))) (\<lambda>busy.
        if \<not> busy then
          andthen (modify (set_buf b (\<lambda>x. x\<lparr>b_busy := True\<rparr>)))
          (andthen (release L_bcache) (return b))
        else sleep_again (Ch_buf b) L_bcache)
    | None \<Rightarrow>
        bind (gets (\<lambda>s. b_prev (bufs s ! NBUF))) (\<lambda>b1.
        bind (bwalk (Suc NBUF) b_prev (\<lambda>x. \<not> b_busy x \<and> \<not> b_dirty x) b1) (\<lambda>r.
        case r of
          Some b \<Rightarrow>
            andthen (modify (set_buf b (\<lambda>x. x\<lparr>b_dev := dev\<rparr>)))
            (andthen (modify (set_buf b (\<lambda>x. x\<lparr>b_blockno := blockno\<rparr>)))
            (andthen (modify (set_buf b (\<lambda>x. x\<lparr>b_busy := True, b_valid := False, b_dirty := False\<rparr>)))
            (andthen (release L_bcache) (return b))))
        | None \<Rightarrow> panic ''bget: no buffers''))))"

definition bget :: "uint32 \<Rightarrow> uint32 \<Rightarrow> nat kroutine" where
  "bget dev blockno = andthen (acquire L_bcache) (bget_loop dev blockno)"

definition bread :: "uint32 \<Rightarrow> uint32 \<Rightarrow> nat kroutine" where
  "bread dev blockno =
    bind (bget dev blockno) (\<lambda>b.
    bind (gets (\<lambda>s. b_valid (bufs s ! b))) (\<lambda>valid.
    andthen (do_if (\<not> valid) (iderw b))
    (return b)))"

definition bwrite :: "nat \<Rightarrow> unit kroutine" where
  "bwrite b =
    bind (gets (\<lambda>s. b_busy (bufs s ! b))) (\<lambda>busy.
    andthen (panic_if (\<not> busy) ''bwrite'')
    (andthen (modify (set_buf b (\<lambda>x. x\<lparr>b_dirty := True\<rparr>)))
    (iderw b)))"

text \<open>Unlink a buffer and put it at the front of the list.\<close>

definition to_front :: "nat \<Rightarrow> unit kroutine" where
  "to_front b = seq
    [modify (\<lambda>s. set_buf (b_next (bufs s ! b)) (\<lambda>x. x\<lparr>b_prev := b_prev (bufs s ! b)\<rparr>) s),
     modify (\<lambda>s. set_buf (b_prev (bufs s ! b)) (\<lambda>x. x\<lparr>b_next := b_next (bufs s ! b)\<rparr>) s),
     modify (\<lambda>s. set_buf b (\<lambda>x. x\<lparr>b_next := b_next (bufs s ! NBUF)\<rparr>) s),
     modify (set_buf b (\<lambda>x. x\<lparr>b_prev := NBUF\<rparr>)),
     modify (\<lambda>s. set_buf (b_next (bufs s ! NBUF)) (\<lambda>x. x\<lparr>b_prev := b\<rparr>) s),
     modify (set_buf NBUF (\<lambda>x. x\<lparr>b_next := b\<rparr>))]"

definition brelse :: "nat \<Rightarrow> unit kroutine" where
  "brelse b =
    bind (gets (\<lambda>s. b_busy (bufs s ! b))) (\<lambda>busy.
    andthen (panic_if (\<not> busy) ''brelse'')
    (andthen (acquire L_bcache)
    (andthen (to_front b)
    (andthen (modify (set_buf b (\<lambda>x. x\<lparr>b_busy := False\<rparr>)))
    (andthen (wakeup (Ch_buf b))
    (release L_bcache))))))"

section \<open>The list of buffers\<close>

text \<open>
  A circular doubly linked list with head \<open>h\<close>: the fields \<open>nx\<close> lead from the head
  through \<open>xs\<close> back to it, the fields \<open>pv\<close> the other way round.
\<close>

definition dll :: "nat \<Rightarrow> (nat \<Rightarrow> nat) \<Rightarrow> (nat \<Rightarrow> nat) \<Rightarrow> nat list \<Rightarrow> bool" where
  "dll h nx pv xs \<longleftrightarrow> ptr_path nx h xs h \<and> ptr_path pv h (rev xs) h \<and> distinct (h # xs)"

lemma dll_unlink:
  assumes "dll h nx pv (xs @ i # ys)"
  shows "dll h (nx(pv i := nx i)) (pv(nx i := pv i)) (xs @ ys)"
proof -
  have nx1: "ptr_path nx h xs i" and nx2: "ptr_path nx i ys h"
    and pv1: "ptr_path pv h (rev ys) i" and pv2: "ptr_path pv i (rev xs) h"
    and d: "distinct (h # xs @ i # ys)"
    using assms by (simp_all add: dll_def ptr_path_append)
  have pi: "pv i = last (h # xs)" using ptr_path_first [OF pv2] by (cases xs rule: rev_cases) auto
  have ni: "nx i = hd (ys @ [h])" using ptr_path_first [OF nx2] .
  have a: "ptr_path (nx(pv i := nx i)) h xs (nx i)"
    unfolding pi using ptr_path_upd_last [OF nx1] d by auto
  have "ptr_path (nx(pv i := nx i)) h (xs @ ys) h"
  proof (cases ys)
    case Nil
    then show ?thesis using a ni by simp
  next
    case (Cons y zs)
    have "ptr_path nx y zs h" using nx2 Cons by simp
    moreover have "pv i \<in> set (h # xs)" unfolding pi by (rule last_in_set) simp
    then have "pv i \<noteq> y" "pv i \<notin> set zs" using d Cons by auto
    ultimately show ?thesis using a ni Cons by (simp add: ptr_path_append ptr_path_upd)
  qed
  moreover
  have li: "nx i = last (h # rev ys)" unfolding ni by (cases ys) auto
  have b: "ptr_path (pv(nx i := pv i)) h (rev ys) (pv i)"
    unfolding li using ptr_path_upd_last [OF pv1] d by auto
  have "ptr_path (pv(nx i := pv i)) h (rev (xs @ ys)) h"
  proof (cases xs rule: rev_cases)
    case Nil
    then show ?thesis using b pi by simp
  next
    case (snoc zs z)
    have "ptr_path pv z (rev zs) h" using pv2 snoc by simp
    moreover have "nx i \<noteq> z" "nx i \<notin> set (rev zs)" using ni d snoc by (cases ys; auto)+
    ultimately show ?thesis using b pi snoc by (simp add: ptr_path_append ptr_path_upd)
  qed
  ultimately show ?thesis using d by (auto simp: dll_def)
qed

lemma dll_push:
  assumes "dll h nx pv xs" "i \<notin> set (h # xs)"
  shows "dll h (nx(i := nx h, h := i)) (pv(i := h, nx h := i)) (i # xs)"
proof -
  have p: "ptr_path nx h xs h" "ptr_path pv h (rev xs) h" "distinct (h # xs)" using assms by (simp_all add: dll_def)
  have n: "nx h = hd (xs @ [h])" using ptr_path_first [OF p(1)] .
  have "ptr_path (nx(i := nx h, h := i)) h (i # xs) h"
  proof (cases xs)
    case Nil
    then show ?thesis using p assms(2) by simp
  next
    case (Cons x ys)
    then show ?thesis using p assms(2) by (auto simp: ptr_path_upd)
  qed
  moreover have "ptr_path (pv(i := h, nx h := i)) h (rev (i # xs)) h"
  proof (cases xs)
    case Nil
    then show ?thesis using p n assms(2) by simp
  next
    case (Cons x ys)
    have l: "nx h = last (h # rev xs)" using n Cons by simp
    have "ptr_path (pv(last (h # rev xs) := i)) h (rev xs) i" using ptr_path_upd_last [OF p(2)] p(3) by auto
    then have "ptr_path (pv(nx h := i)) h (rev xs) i" unfolding l .
    then have "ptr_path ((pv(nx h := i))(i := h)) h (rev xs) i"
      using assms(2) by (subst ptr_path_upd) auto
    moreover have "(pv(nx h := i))(i := h) = pv(i := h, nx h := i)"
      using assms(2) n Cons by (auto simp: fun_eq_iff)
    ultimately show ?thesis using n Cons assms(2) by (auto simp: ptr_path_append)
  qed
  ultimately show ?thesis using p assms by (auto simp: dll_def)
qed

text \<open>The links of the buffer array, and what the updates of the cache do to them.\<close>

definition nx :: "kernel \<Rightarrow> nat \<Rightarrow> nat" where
  "nx s n = b_next (bufs s ! n)"

definition pv :: "kernel \<Rightarrow> nat \<Rightarrow> nat" where
  "pv s n = b_prev (bufs s ! n)"

lemma length_bufs_set_buf [simp]: "length (bufs (set_buf i f s)) = length (bufs s)"
  by (simp add: set_buf_def)

lemma nth_set_buf [simp]:
  "i < length (bufs s) \<Longrightarrow> bufs (set_buf i f s) ! j = (if i = j then f (bufs s ! i) else bufs s ! j)"
  by (simp add: set_buf_def)

lemma nx_set_buf: "i < length (bufs s) \<Longrightarrow> nx (set_buf i f s) = (nx s)(i := b_next (f (bufs s ! i)))"
  by (auto simp: fun_eq_iff nx_def)

lemma pv_set_buf: "i < length (bufs s) \<Longrightarrow> pv (set_buf i f s) = (pv s)(i := b_prev (f (bufs s ! i)))"
  by (auto simp: fun_eq_iff pv_def)

definition cache_list :: "kernel \<Rightarrow> nat list \<Rightarrow> bool" where
  "cache_list s xs \<longleftrightarrow> length (bufs s) = Suc NBUF \<and> dll NBUF (nx s) (pv s) xs \<and> set xs = {0..<NBUF}"

lemma bwalk_ok:
  assumes "ptr_path (\<lambda>n. nxt (bufs s ! n)) a xs NBUF" "NBUF \<notin> set xs" "length xs < k"
  shows "bwalk k nxt P (nxt (bufs s ! a)) s = Ok (find (\<lambda>i. P (bufs s ! i)) xs) s"
  using assms
proof (induction xs arbitrary: a k)
  case Nil
  then show ?case by (cases k) simp_all
next
  case (Cons x xs)
  then show ?case by (cases k) auto
qed

lemma bwalk_next:
  assumes "cache_list s xs"
  shows "bwalk (Suc NBUF) b_next P (b_next (bufs s ! NBUF)) s = Ok (find (\<lambda>i. P (bufs s ! i)) xs) s"
proof (rule bwalk_ok)
  show "ptr_path (\<lambda>n. b_next (bufs s ! n)) NBUF xs NBUF"
    using assms by (simp add: cache_list_def dll_def nx_def [abs_def])
  have "distinct xs" "set xs = {0..<NBUF}" using assms by (simp_all add: cache_list_def dll_def)
  then show "length xs < Suc NBUF" "NBUF \<notin> set xs" using distinct_card [of xs] by simp_all
qed

lemma bwalk_prev:
  assumes "cache_list s xs"
  shows "bwalk (Suc NBUF) b_prev P (b_prev (bufs s ! NBUF)) s = Ok (find (\<lambda>i. P (bufs s ! i)) (rev xs)) s"
proof (rule bwalk_ok)
  show "ptr_path (\<lambda>n. b_prev (bufs s ! n)) NBUF (rev xs) NBUF"
    using assms by (simp add: cache_list_def dll_def pv_def [abs_def])
  have "distinct xs" "set xs = {0..<NBUF}" using assms by (simp_all add: cache_list_def dll_def)
  then show "length (rev xs) < Suc NBUF" "NBUF \<notin> set (rev xs)" using distinct_card [of xs] by simp_all
qed

text \<open>What a buffer holds, without its place in the list.\<close>

definition strip :: "buf \<Rightarrow> buf" where
  "strip x = x\<lparr>b_prev := 0, b_next := 0\<rparr>"

lemma strip_links [simp]: "strip (x\<lparr>b_prev := p\<rparr>) = strip x" "strip (x\<lparr>b_next := n\<rparr>) = strip x"
  by (simp_all add: strip_def)

lemma map_strip_set_buf:
  assumes "strip (f (bufs s ! i)) = strip (bufs s ! i)"
  shows "map strip (bufs (set_buf i f s)) = map strip (bufs s)"
proof (cases "i < length (bufs s)")
  case True
  then have "(map strip (bufs s))[i := strip (bufs s ! i)] = map strip (bufs s)" by (metis list_update_id nth_map)
  then show ?thesis using assms by (simp add: set_buf_def map_update)
qed (simp add: set_buf_def list_update_beyond)

lemma set_buf_only: "set_buf i f s = s\<lparr>bufs := bufs (set_buf i f s)\<rparr>"
  by (simp add: set_buf_def)

lemma dll_neighbours:
  assumes "dll h n p (xs @ b # ys)"
  shows "n b = hd (ys @ [h])" "p b = last (h # xs)" "n h = hd (xs @ [b])" "p h = last (b # ys)"
proof -
  have a: "ptr_path n h xs b" "ptr_path n b ys h" "ptr_path p h (rev ys) b" "ptr_path p b (rev xs) h"
    using assms by (simp_all add: dll_def ptr_path_append)
  show "n b = hd (ys @ [h])" "n h = hd (xs @ [b])" using a by (auto dest: ptr_path_first)
  show "p b = last (h # xs)" using ptr_path_first [OF a(4)] by (cases xs rule: rev_cases) auto
  show "p h = last (b # ys)" using ptr_path_first [OF a(3)] by (cases ys rule: rev_cases) auto
qed

lemma dll_first: "dll h n p xs \<Longrightarrow> n h = hd (xs @ [h])"
  by (auto simp: dll_def dest: ptr_path_first)

lemma to_front_ok:
  assumes c: "cache_list s xs" and b: "b < NBUF"
  shows "\<exists>bs. to_front b s = Ok () (s\<lparr>bufs := bs\<rparr>) \<and> cache_list (s\<lparr>bufs := bs\<rparr>) (b # remove1 b xs)
     \<and> map strip bs = map strip (bufs s)"
proof -
  have len: "length (bufs s) = Suc NBUF" and d: "dll NBUF (nx s) (pv s) xs" and xs: "set xs = {0..<NBUF}"
    using c by (simp_all add: cache_list_def)
  obtain ys zs where split: "xs = ys @ b # zs" using b xs by (metis atLeastLessThan_iff split_list zero_le)
  have dist: "distinct xs" using d by (simp add: dll_def)
  have rem: "remove1 b xs = ys @ zs" using dist split by (simp add: remove1_append)
  have mem: "nx s b \<in> set (NBUF # xs)" "pv s b \<in> set (NBUF # xs)" "nx s b \<noteq> b"
  proof -
    show "nx s b \<in> set (NBUF # xs)" using dll_neighbours(1) [OF d [unfolded split]] split by (cases zs) auto
    have "pv s b \<in> set (NBUF # ys)" unfolding dll_neighbours(2) [OF d [unfolded split]] by (rule last_in_set) simp
    then show "pv s b \<in> set (NBUF # xs)" using split by auto
    show "nx s b \<noteq> b" using dll_neighbours(1) [OF d [unfolded split]] dist split b by (cases zs) auto
  qed
  have lt: "n < Suc NBUF" if "n \<in> set (NBUF # xs)" for n using that xs by auto
  define s1 where "s1 = set_buf (nx s b) (\<lambda>x. x\<lparr>b_prev := pv s b\<rparr>) s"
  define s2 where "s2 = set_buf (pv s1 b) (\<lambda>x. x\<lparr>b_next := nx s1 b\<rparr>) s1"
  define s3 where "s3 = set_buf b (\<lambda>x. x\<lparr>b_next := nx s2 NBUF\<rparr>) s2"
  define s4 where "s4 = set_buf b (\<lambda>x. x\<lparr>b_prev := NBUF\<rparr>) s3"
  define s5 where "s5 = set_buf (nx s4 NBUF) (\<lambda>x. x\<lparr>b_prev := b\<rparr>) s4"
  define s6 where "s6 = set_buf NBUF (\<lambda>x. x\<lparr>b_next := b\<rparr>) s5"
  have ok: "to_front b s = Ok () s6"
    by (simp add: to_front_def s1_def s2_def s3_def s4_def s5_def s6_def nx_def pv_def)
  have l: "length (bufs s1) = Suc NBUF" "length (bufs s2) = Suc NBUF" "length (bufs s3) = Suc NBUF"
    "length (bufs s4) = Suc NBUF" "length (bufs s5) = Suc NBUF" "length (bufs s6) = Suc NBUF"
    by (simp_all add: s1_def s2_def s3_def s4_def s5_def s6_def len)
  have n1: "nx s1 = nx s" "pv s1 = (pv s)(nx s b := pv s b)"
    using lt [OF mem(1)] len by (auto simp: s1_def nx_set_buf pv_set_buf nx_def [of s] fun_eq_iff)
  have n2: "nx s2 = (nx s)(pv s b := nx s b)" "pv s2 = (pv s)(nx s b := pv s b)"
    using lt [OF mem(2)] mem(3) l by (auto simp: s2_def nx_set_buf pv_set_buf n1 pv_def [of s1, symmetric] fun_eq_iff)
  have d2: "dll NBUF (nx s2) (pv s2) (ys @ zs)"
    unfolding n2 by (rule dll_unlink) (use d split in simp)
  have n3: "nx s4 = (nx s2)(b := nx s2 NBUF)" "pv s4 = (pv s2)(b := NBUF)"
    using b l by (auto simp: s4_def s3_def nx_set_buf pv_set_buf nx_def [of s2] pv_def [of s2] fun_eq_iff)
  have "nx s2 NBUF \<in> set (NBUF # ys @ zs)" using dll_first [OF d2] by (cases "ys @ zs") auto
  then have h: "nx s2 NBUF < Suc NBUF" using lt split by auto
  have n6: "nx s6 = (nx s2)(b := nx s2 NBUF, NBUF := b)" "pv s6 = (pv s2)(b := NBUF, nx s2 NBUF := b)"
    using h b l n3 by (auto simp: s6_def s5_def nx_set_buf pv_set_buf nx_def [of s4] pv_def [of s4] pv_def [of s5] fun_eq_iff)
  have "dll NBUF (nx s6) (pv s6) (b # ys @ zs)"
    unfolding n6 by (rule dll_push [OF d2]) (use b dist split xs in auto)
  moreover have "s6 = s\<lparr>bufs := bufs s6\<rparr>"
    by (simp add: s1_def s2_def s3_def s4_def s5_def s6_def set_buf_def)
  moreover have "set (b # ys @ zs) = {0..<NBUF}" using xs split by auto
  moreover have "map strip (bufs s6) = map strip (bufs s)"
    by (simp add: s1_def s2_def s3_def s4_def s5_def s6_def map_strip_set_buf)
  ultimately show ?thesis using ok l(6) rem by (intro exI [of _ "bufs s6"]) (simp add: cache_list_def)
qed

section \<open>The state apart from the cache\<close>

text \<open>
  The routines of the cache change the buffers, may make processes runnable and use the
  processor's saved interrupt flag. \<open>core\<close> is the state without these.
\<close>

definition core :: "kernel \<Rightarrow> kernel" where
  "core s = s\<lparr>bufs := [], cpus := (\<lambda>c. (cpus s c)\<lparr>c_intena := False\<rparr>),
     procs := map (\<lambda>p. p\<lparr>p_state := UNUSED\<rparr>) (procs s)\<rparr>"

lemma core_update [simp, frame_simps]:
  "core (cpuid_update f_cpuid s) = cpuid_update f_cpuid (core s)"
  "core (locks_update f_locks s) = locks_update f_locks (core s)"
  "core (mem_update f_mem s) = mem_update f_mem (core s)"
  "core (k_end_update f_k_end s) = k_end_update f_k_end (core s)"
  "core (k_image_update f_k_image s) = k_image_update f_k_image (core s)"
  "core (use_lock_update f_use_lock s) = use_lock_update f_use_lock (core s)"
  "core (freelist_update f_freelist s) = freelist_update f_freelist (core s)"
  "core (nextpid_update f_nextpid s) = nextpid_update f_nextpid (core s)"
  "core (initproc_update f_initproc s) = initproc_update f_initproc (core s)"
  "core (forkret_first_update f_forkret_first s) = forkret_first_update f_forkret_first (core s)"
  "core (ticks_update f_ticks s) = ticks_update f_ticks (core s)"
  "core (kpgdir_update f_kpgdir s) = kpgdir_update f_kpgdir (core s)"
  "core (idt_update f_idt s) = idt_update f_idt (core s)"
  "core (disk_update f_disk s) = disk_update f_disk (core s)"
  "core (disksize_update f_disksize s) = disksize_update f_disksize (core s)"
  "core (dwrites_update f_dwrites s) = dwrites_update f_dwrites (core s)"
  "core (idequeue_update f_idequeue s) = idequeue_update f_idequeue (core s)"
  "core (havedisk1_update f_havedisk1 s) = havedisk1_update f_havedisk1 (core s)"
  "core (log_start_update f_log_start s) = log_start_update f_log_start (core s)"
  "core (log_size_update f_log_size s) = log_size_update f_log_size (core s)"
  "core (log_outstanding_update f_log_outstanding s) = log_outstanding_update f_log_outstanding (core s)"
  "core (log_committing_update f_log_committing s) = log_committing_update f_log_committing (core s)"
  "core (log_dev_update f_log_dev s) = log_dev_update f_log_dev (core s)"
  "core (lh_n_update f_lh_n s) = lh_n_update f_lh_n (core s)"
  "core (lh_block_update f_lh_block s) = lh_block_update f_lh_block (core s)"
  "core (sb_update f_sb s) = sb_update f_sb (core s)"
  "core (inodes_update f_inodes s) = inodes_update f_inodes (core s)"
  "core (files_update f_files s) = files_update f_files (core s)"
  "core (pipes_update f_pipes s) = pipes_update f_pipes (core s)"
  "core (cons_update f_cons s) = cons_update f_cons (core s)"
  "core (ismp_update f_ismp s) = ismp_update f_ismp (core s)"
  "core (ncpu_update f_ncpu s) = ncpu_update f_ncpu (core s)"
  "core (lapic_update f_lapic s) = lapic_update f_lapic (core s)"
  "core (ioapicid_update f_ioapicid s) = ioapicid_update f_ioapicid (core s)"
  "core (irqmask_update f_irqmask s) = irqmask_update f_irqmask (core s)"
  "core (uart_update f_uart s) = uart_update f_uart (core s)"
  "core (ios_update f_ios s) = ios_update f_ios (core s)"
  "core (ins_update f_ins s) = ins_update f_ins (core s)"
  by (simp_all add: core_def)

lemma core_sel:
  "cpuid (core s) = cpuid s"
  "locks (core s) = locks s"
  "mem (core s) = mem s"
  "k_end (core s) = k_end s"
  "k_image (core s) = k_image s"
  "use_lock (core s) = use_lock s"
  "freelist (core s) = freelist s"
  "nextpid (core s) = nextpid s"
  "initproc (core s) = initproc s"
  "forkret_first (core s) = forkret_first s"
  "ticks (core s) = ticks s"
  "kpgdir (core s) = kpgdir s"
  "idt (core s) = idt s"
  "disk (core s) = disk s"
  "disksize (core s) = disksize s"
  "dwrites (core s) = dwrites s"
  "idequeue (core s) = idequeue s"
  "havedisk1 (core s) = havedisk1 s"
  "log_start (core s) = log_start s"
  "log_size (core s) = log_size s"
  "log_outstanding (core s) = log_outstanding s"
  "log_committing (core s) = log_committing s"
  "log_dev (core s) = log_dev s"
  "lh_n (core s) = lh_n s"
  "lh_block (core s) = lh_block s"
  "sb (core s) = sb s"
  "inodes (core s) = inodes s"
  "files (core s) = files s"
  "pipes (core s) = pipes s"
  "cons (core s) = cons s"
  "ismp (core s) = ismp s"
  "ncpu (core s) = ncpu s"
  "lapic (core s) = lapic s"
  "ioapicid (core s) = ioapicid s"
  "irqmask (core s) = irqmask s"
  "uart (core s) = uart s"
  "ios (core s) = ios s"
  "ins (core s) = ins s"
  by (simp_all add: core_def)

lemma core_bufs [simp]: "core (bufs_update f s) = core s"
  by (simp add: core_def)

lemma core_set_buf [simp]: "core (set_buf i f s) = core s"
  by (simp add: set_buf_def)

lemma core_touch [simp]: "core (touch s) = core s"
  by (simp add: core_def touch_def cpu_defs cpu_touch_def fun_eq_iff)

lemma core_wake_all [simp]: "core (wake_all ch s) = core s"
  by (simp add: core_def wake_all_def wake_def comp_def)

lemma coreD:
  assumes "core t = core s"
  shows
  "cpuid t = cpuid s"
  "locks t = locks s"
  "mem t = mem s"
  "k_end t = k_end s"
  "k_image t = k_image s"
  "use_lock t = use_lock s"
  "freelist t = freelist s"
  "nextpid t = nextpid s"
  "initproc t = initproc s"
  "forkret_first t = forkret_first s"
  "ticks t = ticks s"
  "kpgdir t = kpgdir s"
  "idt t = idt s"
  "disk t = disk s"
  "disksize t = disksize s"
  "dwrites t = dwrites s"
  "idequeue t = idequeue s"
  "havedisk1 t = havedisk1 s"
  "log_start t = log_start s"
  "log_size t = log_size s"
  "log_outstanding t = log_outstanding s"
  "log_committing t = log_committing s"
  "log_dev t = log_dev s"
  "lh_n t = lh_n s"
  "lh_block t = lh_block s"
  "sb t = sb s"
  "inodes t = inodes s"
  "files t = files s"
  "pipes t = pipes s"
  "cons t = cons s"
  "ismp t = ismp s"
  "ncpu t = ncpu s"
  "lapic t = lapic s"
  "ioapicid t = ioapicid s"
  "irqmask t = irqmask s"
  "uart t = uart s"
  "ios t = ios s"
  "ins t = ins s"
  using assms by (metis core_sel)+

lemma core_cpu:
  assumes "core t = core s"
  shows "c_ncli (cpus t c) = c_ncli (cpus s c)" "c_if (cpus t c) = c_if (cpus s c)" "c_proc (cpus t c) = c_proc (cpus s c)"
proof -
  have "(cpus t c)\<lparr>c_intena := False\<rparr> = (cpus s c)\<lparr>c_intena := False\<rparr>"
    using arg_cong [OF assms, of "\<lambda>k. cpus k c"] by (simp add: core_def)
  then show "c_ncli (cpus t c) = c_ncli (cpus s c)" "c_if (cpus t c) = c_if (cpus s c)" "c_proc (cpus t c) = c_proc (cpus s c)"
    by (metis cpu.select_convs cpu.surjective cpu.update_convs(2))+
qed

lemma core_derived:
  assumes "core t = core s"
  shows "lock_free lk t = lock_free lk s" "cpu_ok t = cpu_ok s" "quiet t = quiet s" "curproc t = curproc s"
    "holds lk t = holds lk s"
  using core_cpu [OF assms, of "cpuid s"] coreD [OF assms]
  by (simp_all add: lock_free_def cpu_ok_def quiet_def curproc_def holds_def mycpu_def)

lemma core_procs:
  assumes "core t = core s"
  shows "length (procs t) = length (procs s)"
    "i < length (procs s) \<Longrightarrow> (procs t ! i)\<lparr>p_state := UNUSED\<rparr> = (procs s ! i)\<lparr>p_state := UNUSED\<rparr>"
proof -
  have m: "map (\<lambda>p. p\<lparr>p_state := UNUSED\<rparr>) (procs t) = map (\<lambda>p. p\<lparr>p_state := UNUSED\<rparr>) (procs s)"
    using arg_cong [OF assms, of procs] by (simp add: core_def)
  show l: "length (procs t) = length (procs s)" using m by (rule map_eq_imp_length_eq)
  show "(procs t ! i)\<lparr>p_state := UNUSED\<rparr> = (procs s ! i)\<lparr>p_state := UNUSED\<rparr>" if "i < length (procs s)"
    using arg_cong [OF m, of "\<lambda>l. l ! i"] that l by simp
qed

end
