(* ===== verification/Bio_Cache.thy ===== *)
theory Bio_Cache
  imports Bio
begin

text \<open>
  What the buffer cache of \<^verbatim>\<open>bio.c\<close> guarantees: its invariant, the content of a block as
  the kernel sees it, the effect of each routine on both, and the interface through which
  the log and the file system use it.
\<close>

section \<open>What the cache keeps\<close>

definition buf_ok :: "kernel \<Rightarrow> buf \<Rightarrow> bool" where
  "buf_ok s x \<longleftrightarrow> (b_dirty x \<longrightarrow> b_valid x) \<and> (b_valid x \<or> b_busy x \<longrightarrow> b_dev x = 1 \<and> b_blockno x < disksize s)
     \<and> length (b_data x) = BSIZE
     \<and> (b_valid x \<and> \<not> b_dirty x \<and> \<not> b_busy x \<longrightarrow> b_data x = disk s (b_blockno x))"

definition one_each :: "buf list \<Rightarrow> bool" where
  "one_each bs \<longleftrightarrow> (\<forall>i < NBUF. \<forall>j < NBUF. b_dev (bs ! i) = 1 \<longrightarrow> b_dev (bs ! j) = 1 \<longrightarrow>
     b_blockno (bs ! i) = b_blockno (bs ! j) \<longrightarrow> i = j)"

text \<open>
  The invariant of the cache while its lock is free: the list is well formed, no block is
  in two buffers, and a buffer that nobody holds and that is not pinned by the log agrees
  with the disk.
\<close>

definition bio_ok :: "kernel \<Rightarrow> bool" where
  "bio_ok s \<longleftrightarrow> (\<exists>xs. cache_list s xs) \<and> (\<forall>i < NBUF. buf_ok s (bufs s ! i)) \<and> one_each (bufs s)
     \<and> (\<forall>b. length (disk s b) = BSIZE)
     \<and> lock_free L_bcache s \<and> lock_free L_ptable s \<and> cpu_ok s \<and> length (procs s) = NPROC"

text \<open>The content of a block as the kernel sees it.\<close>

definition cached :: "kernel \<Rightarrow> uint32 \<Rightarrow> nat option" where
  "cached s b = find (\<lambda>i. b_dev (bufs s ! i) = 1 \<and> b_blockno (bufs s ! i) = b) [0..<NBUF]"

definition view :: "kernel \<Rightarrow> uint32 \<Rightarrow> byte list" where
  "view s b = (case cached s b of
      Some i \<Rightarrow> if b_valid (bufs s ! i) then b_data (bufs s ! i) else disk s b
    | None \<Rightarrow> disk s b)"

text \<open>The blocks in use by some process, and those the log has pinned.\<close>

definition held :: "kernel \<Rightarrow> uint32 set" where
  "held s = {b_blockno (bufs s ! i) | i. i < NBUF \<and> b_busy (bufs s ! i)}"

definition pinned :: "kernel \<Rightarrow> uint32 set" where
  "pinned s = {b_blockno (bufs s ! i) | i. i < NBUF \<and> b_dirty (bufs s ! i)}"

text \<open>Buffer \<open>i\<close> is held and has block \<open>b\<close>.\<close>

definition buf_for :: "kernel \<Rightarrow> nat \<Rightarrow> uint32 \<Rightarrow> bool" where
  "buf_for s i b \<longleftrightarrow> i < NBUF \<and> b_dev (bufs s ! i) = 1 \<and> b_blockno (bufs s ! i) = b
     \<and> b_busy (bufs s ! i) \<and> b_valid (bufs s ! i)"

lemma bio_unique:
  "bio_ok s \<Longrightarrow> i < NBUF \<Longrightarrow> j < NBUF \<Longrightarrow> b_dev (bufs s ! i) = 1 \<Longrightarrow> b_dev (bufs s ! j) = 1 \<Longrightarrow>
   b_blockno (bufs s ! i) = b_blockno (bufs s ! j) \<Longrightarrow> i = j"
  by (simp add: bio_ok_def one_each_def)

lemma cached_Some:
  assumes "bio_ok s" "i < NBUF" "b_dev (bufs s ! i) = 1" "b_blockno (bufs s ! i) = b"
  shows "cached s b = Some i"
proof -
  have "\<not> (b_dev (bufs s ! j) = 1 \<and> b_blockno (bufs s ! j) = b)" if "j < i" for j
    using bio_unique [OF assms(1) _ assms(2), of j] assms that by auto
  then show ?thesis using assms by (simp add: cached_def find_upt_Some)
qed

lemma cached_SomeD: "cached s b = Some i \<Longrightarrow> i < NBUF \<and> b_dev (bufs s ! i) = 1 \<and> b_blockno (bufs s ! i) = b"
  by (simp add: cached_def find_upt_Some)

lemma cached_NoneD: "cached s b = None \<Longrightarrow> i < NBUF \<Longrightarrow> b_dev (bufs s ! i) = 1 \<Longrightarrow> b_blockno (bufs s ! i) \<noteq> b"
  by (simp add: cached_def find_upt_None)

lemma bio_buf_ok: "bio_ok s \<Longrightarrow> i < NBUF \<Longrightarrow> buf_ok s (bufs s ! i)"
  by (simp add: bio_ok_def)

lemma view_valid:
  assumes "bio_ok s" "i < NBUF" "b_valid (bufs s ! i)" "b_blockno (bufs s ! i) = b"
  shows "view s b = b_data (bufs s ! i)"
  using cached_Some [OF assms(1,2) _ assms(4)] bio_buf_ok [OF assms(1,2)] assms(3)
  by (simp add: view_def buf_ok_def)

lemma view_disk:
  assumes "\<And>i. i < NBUF \<Longrightarrow> b_valid (bufs s ! i) \<Longrightarrow> b_blockno (bufs s ! i) \<noteq> b"
  shows "view s b = disk s b"
  using assms by (auto simp: view_def dest: cached_SomeD split: option.splits)

lemma view_cases:
  assumes "bio_ok s"
  obtains i where "i < NBUF" "b_valid (bufs s ! i)" "b_blockno (bufs s ! i) = b" "view s b = b_data (bufs s ! i)"
  | "\<forall>i < NBUF. b_valid (bufs s ! i) \<longrightarrow> b_blockno (bufs s ! i) \<noteq> b" "view s b = disk s b"
  using assms view_valid view_disk by metis

lemma length_view [simp]: "bio_ok s \<Longrightarrow> length (view s b) = BSIZE"
  by (rule view_cases [of s b]) (auto simp: bio_ok_def buf_ok_def)

lemma buf_for_view: "bio_ok s \<Longrightarrow> buf_for s i b \<Longrightarrow> view s b = b_data (bufs s ! i)"
  by (rule view_valid) (auto simp: buf_for_def)

text \<open>A block that is neither held nor pinned is as on the disk.\<close>

lemma view_clean:
  assumes "bio_ok s" "b \<notin> held s" "b \<notin> pinned s"
  shows "view s b = disk s b"
proof (rule view_cases [OF assms(1)])
  fix i assume i: "i < NBUF" "b_valid (bufs s ! i)" "b_blockno (bufs s ! i) = b" "view s b = b_data (bufs s ! i)"
  then have "\<not> b_busy (bufs s ! i)" "\<not> b_dirty (bufs s ! i)" using assms(2,3) by (auto simp: held_def pinned_def)
  then show ?thesis using i bio_buf_ok [OF assms(1) i(1)] by (simp add: buf_ok_def)
qed

lemma buf_for_unique:
  assumes "bio_ok s" "buf_for s i b" "j < NBUF" "b_blockno (bufs s ! j) = b" "b_busy (bufs s ! j) \<or> b_valid (bufs s ! j)"
  shows "j = i"
proof -
  have "b_dev (bufs s ! j) = 1" using bio_buf_ok [OF assms(1,3)] assms(5) by (auto simp: buf_ok_def)
  then show ?thesis using bio_unique [OF assms(1,3), of i] assms(2,4) by (auto simp: buf_for_def)
qed

lemma buf_for_held: "buf_for s i b \<Longrightarrow> b \<in> held s"
  by (auto simp: buf_for_def held_def)

lemma buf_for_dirty:
  assumes inv: "bio_ok s" and h: "buf_for s i b"
  shows "b_dirty (bufs s ! i) = (b \<in> pinned s)"
proof
  assume "b \<in> pinned s"
  then obtain j where j: "j < NBUF" "b_blockno (bufs s ! j) = b" "b_dirty (bufs s ! j)" by (auto simp: pinned_def)
  then have "j = i" using buf_for_unique [OF inv h j(1,2)] bio_buf_ok [OF inv j(1)] by (simp add: buf_ok_def)
  then show "b_dirty (bufs s ! i)" using j by simp
qed (use h in \<open>auto simp: buf_for_def pinned_def\<close>)

text \<open>There is a buffer to recycle while fewer than \<open>NBUF\<close> blocks are held or pinned.\<close>

lemma recyclable:
  assumes "bio_ok s" "card (held s \<union> pinned s) < NBUF"
  shows "\<exists>i < NBUF. \<not> b_busy (bufs s ! i) \<and> \<not> b_dirty (bufs s ! i)"
proof (rule ccontr)
  assume "\<not> ?thesis"
  then have all: "b_busy (bufs s ! i) \<or> b_dirty (bufs s ! i)" if "i < NBUF" for i using that by blast
  have "inj_on (\<lambda>i. b_blockno (bufs s ! i)) {0..<NBUF}"
  proof (rule inj_onI)
    fix i j assume ij: "i \<in> {0..<NBUF}" "j \<in> {0..<NBUF}" and eq: "b_blockno (bufs s ! i) = b_blockno (bufs s ! j)"
    then have "b_dev (bufs s ! i) = 1" "b_dev (bufs s ! j) = 1"
      using all bio_buf_ok [OF assms(1)] by (auto simp: buf_ok_def)
    then show "i = j" using bio_unique [OF assms(1)] ij eq by simp
  qed
  then have "card ((\<lambda>i. b_blockno (bufs s ! i)) ` {0..<NBUF}) = NBUF" by (simp add: card_image)
  moreover have "(\<lambda>i. b_blockno (bufs s ! i)) ` {0..<NBUF} = held s \<union> pinned s"
  proof (intro set_eqI iffI)
    fix x assume "x \<in> (\<lambda>i. b_blockno (bufs s ! i)) ` {0..<NBUF}"
    then obtain i where i: "i < NBUF" "x = b_blockno (bufs s ! i)" by auto
    then show "x \<in> held s \<union> pinned s" using all [OF i(1)] by (auto simp: held_def pinned_def)
  qed (auto simp: held_def pinned_def)
  ultimately show False using assms(2) by simp
qed

section \<open>One buffer changes\<close>

text \<open>
  Every routine of the cache changes one buffer: it either keeps its block, or takes a
  block that was in no buffer while the old one was neither held nor pinned. At most that
  block changes on the disk.
\<close>

definition buf_step :: "kernel \<Rightarrow> nat \<Rightarrow> uint32 \<Rightarrow> kernel \<Rightarrow> bool" where
  "buf_step s i b t \<longleftrightarrow> i < NBUF \<and> (\<exists>xs. cache_list t xs)
     \<and> (\<forall>j < NBUF. j \<noteq> i \<longrightarrow> strip (bufs t ! j) = strip (bufs s ! j))
     \<and> b_dev (bufs t ! i) = 1 \<and> b_blockno (bufs t ! i) = b \<and> b_valid (bufs t ! i) \<and> buf_ok t (bufs t ! i)
     \<and> (b_dev (bufs s ! i) = 1 \<and> b_blockno (bufs s ! i) = b
        \<or> cached s b = None \<and> \<not> b_busy (bufs s ! i) \<and> \<not> b_dirty (bufs s ! i) \<and> b_busy (bufs t ! i) \<and> \<not> b_dirty (bufs t ! i))
     \<and> disksize t = disksize s \<and> (\<forall>c. c \<noteq> b \<longrightarrow> disk t c = disk s c) \<and> length (disk t b) = BSIZE
     \<and> lock_free L_bcache t \<and> lock_free L_ptable t \<and> cpu_ok t \<and> length (procs t) = NPROC"

lemma stripD:
  assumes "strip x = strip y"
  shows "b_dev x = b_dev y" "b_blockno x = b_blockno y" "b_busy x = b_busy y" "b_valid x = b_valid y"
    "b_dirty x = b_dirty y" "b_data x = b_data y"
  using assms by (cases x; cases y; simp add: strip_def)+

lemma buf_ok_cong:
  assumes "strip x = strip y" "disksize t = disksize s" "b_valid y \<Longrightarrow> disk t (b_blockno y) = disk s (b_blockno y)"
  shows "buf_ok t x = buf_ok s y"
  using stripD [OF assms(1)] assms(2,3) by (auto simp: buf_ok_def)

lemma buf_step_other:
  assumes "bio_ok s" "buf_step s i b t" "j < NBUF" "j \<noteq> i" "b_dev (bufs s ! j) = 1"
  shows "b_blockno (bufs s ! j) \<noteq> b"
  using assms(2)
proof (cases "cached s b")
  case None
  then show ?thesis using cached_NoneD [OF None assms(3,5)] by simp
next
  case (Some k)
  then have "b_dev (bufs s ! i) = 1" "b_blockno (bufs s ! i) = b" "i < NBUF" using assms(2) by (auto simp: buf_step_def)
  then show ?thesis using bio_unique [OF assms(1,3), of i] assms(4,5) by auto
qed

lemma buf_step_bio_ok:
  assumes inv: "bio_ok s" and st: "buf_step s i b t"
  shows "bio_ok t"
proof -
  have t: "i < NBUF" "b_dev (bufs t ! i) = 1" "b_blockno (bufs t ! i) = b" "buf_ok t (bufs t ! i)"
    "disksize t = disksize s" "\<And>c. c \<noteq> b \<Longrightarrow> disk t c = disk s c" "length (disk t b) = BSIZE"
    and other: "\<And>j. j < NBUF \<Longrightarrow> j \<noteq> i \<Longrightarrow> strip (bufs t ! j) = strip (bufs s ! j)"
    using st by (auto simp: buf_step_def)
  have ne: "b_blockno (bufs t ! j) \<noteq> b" if "j < NBUF" "j \<noteq> i" "b_dev (bufs t ! j) = 1" for j
    using buf_step_other [OF inv st that(1,2)] stripD [OF other [OF that(1,2)]] that(3) by simp
  have "buf_ok t (bufs t ! j)" if j: "j < NBUF" for j
  proof (cases "j = i")
    case False
    have "b_valid (bufs s ! j) \<Longrightarrow> b_blockno (bufs s ! j) \<noteq> b"
      using buf_step_other [OF inv st j False] bio_buf_ok [OF inv j] by (auto simp: buf_ok_def)
    then have "buf_ok t (bufs t ! j) = buf_ok s (bufs s ! j)"
      by (intro buf_ok_cong other [OF j False] t)
    then show ?thesis using bio_buf_ok [OF inv j] by simp
  qed (use t in simp)
  moreover have "one_each (bufs t)"
    unfolding one_each_def
  proof (intro allI impI)
    fix j k assume jk: "j < NBUF" "k < NBUF" "b_dev (bufs t ! j) = 1" "b_dev (bufs t ! k) = 1"
      "b_blockno (bufs t ! j) = b_blockno (bufs t ! k)"
    show "j = k"
    proof (cases "j = i \<or> k = i")
      case True
      then show ?thesis using ne [of j] ne [of k] jk t(3) by (cases "j = i"; cases "k = i") auto
    next
      case False
      then show ?thesis
        using jk bio_unique [OF inv jk(1,2)] stripD [OF other [OF jk(1)]] stripD [OF other [OF jk(2)]] by simp
    qed
  qed
  moreover have "length (disk t c) = BSIZE" for c
    using t(6,7) inv by (cases "c = b") (auto simp: bio_ok_def)
  ultimately show ?thesis using st by (simp add: bio_ok_def buf_step_def)
qed

lemma buf_step_view:
  assumes inv: "bio_ok s" and st: "buf_step s i b t"
  shows "view t = (view s)(b := b_data (bufs t ! i))"
proof
  fix c
  have inv': "bio_ok t" by (rule buf_step_bio_ok [OF inv st])
  have i: "i < NBUF" "b_blockno (bufs t ! i) = b" "b_valid (bufs t ! i)" using st by (auto simp: buf_step_def)
  have other: "strip (bufs t ! j) = strip (bufs s ! j)" if "j < NBUF" "j \<noteq> i" for j
    using st that by (auto simp: buf_step_def)
  show "view t c = ((view s)(b := b_data (bufs t ! i))) c"
  proof (cases "c = b")
    case True
    then show ?thesis using view_valid [OF inv' i(1,3,2)] by simp
  next
    case False
    then have dc: "disk t c = disk s c" using st by (auto simp: buf_step_def)
    show ?thesis
    proof (cases "\<exists>j < NBUF. j \<noteq> i \<and> b_valid (bufs s ! j) \<and> b_blockno (bufs s ! j) = c")
      case True
      then obtain j where j: "j < NBUF" "j \<noteq> i" "b_valid (bufs s ! j)" "b_blockno (bufs s ! j) = c" by blast
      note e = stripD [OF other [OF j(1,2)]]
      have "view s c = b_data (bufs s ! j)" by (rule view_valid [OF inv j(1,3,4)])
      moreover have "view t c = b_data (bufs t ! j)" using view_valid [OF inv' j(1), of c] e j by simp
      ultimately show ?thesis using e \<open>c \<noteq> b\<close> by simp
    next
      case none: False
      have "view t c = disk t c"
        using none other stripD i \<open>c \<noteq> b\<close> by (intro view_disk) metis
      moreover have "view s c = disk s c"
      proof (cases "b_valid (bufs s ! i) \<and> b_blockno (bufs s ! i) = c")
        case True
        then have "\<not> b_busy (bufs s ! i)" "\<not> b_dirty (bufs s ! i)" using st \<open>c \<noteq> b\<close> by (auto simp: buf_step_def)
        then show ?thesis
          using True view_valid [OF inv i(1), of c] bio_buf_ok [OF inv i(1)] by (simp add: buf_ok_def)
      next
        case False
        then show ?thesis using none by (intro view_disk) metis
      qed
      ultimately show ?thesis using dc \<open>c \<noteq> b\<close> by simp
    qed
  qed
qed

lemma marked_blocks:
  fixes bn bn' :: "nat \<Rightarrow> 'b" and q q' :: "nat \<Rightarrow> bool"
  assumes "i < n" "bn' i = b" and same: "\<And>j. j < n \<Longrightarrow> j \<noteq> i \<Longrightarrow> bn' j = bn j \<and> q' j = q j"
    and ne: "\<And>j. j < n \<Longrightarrow> j \<noteq> i \<Longrightarrow> q j \<Longrightarrow> bn j \<noteq> b" and old: "bn i = b \<or> \<not> q i"
  shows "{bn' j | j. j < n \<and> q' j} = (if q' i then insert b {bn j | j. j < n \<and> q j} else {bn j | j. j < n \<and> q j} - {b})"
proof -
  let ?R = "{bn j | j. j < n \<and> j \<noteq> i \<and> q j}"
  have a: "{bn' j | j. j < n \<and> q' j} = ?R \<union> (if q' i then {b} else {})"
  proof (intro set_eqI iffI)
    fix c assume "c \<in> {bn' j | j. j < n \<and> q' j}"
    then obtain j where "c = bn' j" "j < n" "q' j" by blast
    then show "c \<in> ?R \<union> (if q' i then {b} else {})" using same [of j] assms(2) by (cases "j = i") auto
  next
    fix c assume "c \<in> ?R \<union> (if q' i then {b} else {})"
    then consider j where "c = bn j" "j < n" "j \<noteq> i" "q j" | "q' i" "c = b" by (auto split: if_splits)
    then show "c \<in> {bn' j | j. j < n \<and> q' j}"
    proof cases
      case (1 j)
      then have "c = bn' j \<and> j < n \<and> q' j" using same by auto
      then show ?thesis by blast
    qed (use assms(1,2) in auto)
  qed
  have s: "{bn j | j. j < n \<and> q j} = ?R \<union> (if q i then {b} else {})"
  proof (intro set_eqI iffI)
    fix c assume "c \<in> {bn j | j. j < n \<and> q j}"
    then obtain j where "c = bn j" "j < n" "q j" by blast
    then show "c \<in> ?R \<union> (if q i then {b} else {})" using old by (cases "j = i") auto
  qed (use assms(1) old in \<open>auto split: if_splits\<close>)
  have "b \<notin> ?R" using ne by blast
  then show ?thesis unfolding a s by auto
qed

lemma buf_step_sets:
  assumes inv: "bio_ok s" and st: "buf_step s i b t"
  shows "held t = (if b_busy (bufs t ! i) then insert b (held s) else held s - {b})"
    and "pinned t = (if b_dirty (bufs t ! i) then insert b (pinned s) else pinned s - {b})"
proof -
  have i: "i < NBUF" "b_blockno (bufs t ! i) = b" using st by (auto simp: buf_step_def)
  have same: "b_blockno (bufs t ! j) = b_blockno (bufs s ! j) \<and> b_busy (bufs t ! j) = b_busy (bufs s ! j)"
    "b_blockno (bufs t ! j) = b_blockno (bufs s ! j) \<and> b_dirty (bufs t ! j) = b_dirty (bufs s ! j)"
    if "j < NBUF" "j \<noteq> i" for j
    using stripD [of "bufs t ! j" "bufs s ! j"] st that by (auto simp: buf_step_def)
  have ne: "b_blockno (bufs s ! j) \<noteq> b" if "j < NBUF" "j \<noteq> i" "b_busy (bufs s ! j) \<or> b_dirty (bufs s ! j)" for j
    using buf_step_other [OF inv st that(1,2)] bio_buf_ok [OF inv that(1)] that(3) by (auto simp: buf_ok_def)
  have old: "b_blockno (bufs s ! i) = b \<or> \<not> b_busy (bufs s ! i) \<and> \<not> b_dirty (bufs s ! i)"
    using st by (auto simp: buf_step_def)
  show "held t = (if b_busy (bufs t ! i) then insert b (held s) else held s - {b})"
    unfolding held_def 
    by (rule marked_blocks [where bn' = "\<lambda>j. b_blockno (bufs t ! j)" and bn = "\<lambda>j. b_blockno (bufs s ! j)"
        and q' = "\<lambda>j. b_busy (bufs t ! j)" and q = "\<lambda>j. b_busy (bufs s ! j)"])
      (use i same(1) ne old in auto)
  show "pinned t = (if b_dirty (bufs t ! i) then insert b (pinned s) else pinned s - {b})"
    unfolding pinned_def 
    by (rule marked_blocks [where bn' = "\<lambda>j. b_blockno (bufs t ! j)" and bn = "\<lambda>j. b_blockno (bufs s ! j)"
        and q' = "\<lambda>j. b_dirty (bufs t ! j)" and q = "\<lambda>j. b_dirty (bufs s ! j)"])
      (use i same(2) ne old in auto)
qed

lemma buf_step_buf_for:
  assumes inv: "bio_ok s" and st: "buf_step s i b t" and "buf_for s j c" "j \<noteq> i"
  shows "buf_for t j c" "b_data (bufs t ! j) = b_data (bufs s ! j)" "b_dirty (bufs t ! j) = b_dirty (bufs s ! j)"
proof -
  have "j < NBUF" using assms(3) by (simp add: buf_for_def)
  then have e: "strip (bufs t ! j) = strip (bufs s ! j)" using st assms(4) by (simp add: buf_step_def)
  show "buf_for t j c" "b_data (bufs t ! j) = b_data (bufs s ! j)" "b_dirty (bufs t ! j) = b_dirty (bufs s ! j)"
    using stripD [OF e] assms(3) by (simp_all add: buf_for_def)
qed

section \<open>The routines of the cache\<close>

lemma set_buf_frame [simp, frame_simps]:
  "mycpu (set_buf i f s) = mycpu s" "holds lk (set_buf i f s) = holds lk s"
  "lock_free lk (set_buf i f s) = lock_free lk s" "cpu_ok (set_buf i f s) = cpu_ok s"
  "quiet (set_buf i f s) = quiet s"
  "acq lk (set_buf i f s) = set_buf i f (acq lk s)" "rel lk (set_buf i f s) = set_buf i f (rel lk s)"
  "touch (set_buf i f s) = set_buf i f (touch s)"
  "cpuid (set_buf i f s) = cpuid s"
  "cpus (set_buf i f s) = cpus s"
  "locks (set_buf i f s) = locks s"
  "mem (set_buf i f s) = mem s"
  "k_end (set_buf i f s) = k_end s"
  "k_image (set_buf i f s) = k_image s"
  "use_lock (set_buf i f s) = use_lock s"
  "freelist (set_buf i f s) = freelist s"
  "procs (set_buf i f s) = procs s"
  "nextpid (set_buf i f s) = nextpid s"
  "initproc (set_buf i f s) = initproc s"
  "forkret_first (set_buf i f s) = forkret_first s"
  "ticks (set_buf i f s) = ticks s"
  "kpgdir (set_buf i f s) = kpgdir s"
  "idt (set_buf i f s) = idt s"
  "disk (set_buf i f s) = disk s"
  "disksize (set_buf i f s) = disksize s"
  "dwrites (set_buf i f s) = dwrites s"
  "idequeue (set_buf i f s) = idequeue s"
  "havedisk1 (set_buf i f s) = havedisk1 s"
  "log_start (set_buf i f s) = log_start s"
  "log_size (set_buf i f s) = log_size s"
  "log_outstanding (set_buf i f s) = log_outstanding s"
  "log_committing (set_buf i f s) = log_committing s"
  "log_dev (set_buf i f s) = log_dev s"
  "lh_n (set_buf i f s) = lh_n s"
  "lh_block (set_buf i f s) = lh_block s"
  "sb (set_buf i f s) = sb s"
  "inodes (set_buf i f s) = inodes s"
  "files (set_buf i f s) = files s"
  "pipes (set_buf i f s) = pipes s"
  "cons (set_buf i f s) = cons s"
  "ismp (set_buf i f s) = ismp s"
  "ncpu (set_buf i f s) = ncpu s"
  "lapic (set_buf i f s) = lapic s"
  "ioapicid (set_buf i f s) = ioapicid s"
  "irqmask (set_buf i f s) = irqmask s"
  "uart (set_buf i f s) = uart s"
  "ios (set_buf i f s) = ios s"
  "ins (set_buf i f s) = ins s"
  by (simp_all add: set_buf_def)

lemma set_buf_set_buf [simp]: "i < length (bufs s) \<Longrightarrow> set_buf i g (set_buf i f s) = set_buf i (\<lambda>x. g (f x)) s"
  by (simp add: set_buf_def)

lemma set_buf_cong: "f (bufs s ! i) = g (bufs s ! i) \<Longrightarrow> set_buf i f s = set_buf i g s"
  by (simp add: set_buf_def)

lemma set_buf_id: "f (bufs s ! i) = bufs s ! i \<Longrightarrow> set_buf i f s = s"
  by (simp add: set_buf_def)

lemma cache_list_frame [simp]:
  "cache_list (acq lk s) xs = cache_list s xs" "cache_list (touch s) xs = cache_list s xs"
  "cache_list (disk_update f s) xs = cache_list s xs" "cache_list (dwrites_update g s) xs = cache_list s xs"
  by (simp_all add: cache_list_def nx_def [abs_def] pv_def [abs_def])

lemma cache_list_set_buf:
  assumes "cache_list s xs" "b_next (f (bufs s ! i)) = b_next (bufs s ! i)" "b_prev (f (bufs s ! i)) = b_prev (bufs s ! i)"
  shows "cache_list (set_buf i f s) xs"
proof (cases "i < length (bufs s)")
  case True
  then have "nx (set_buf i f s) = nx s" "pv (set_buf i f s) = pv s"
    using assms by (auto simp: nx_def pv_def fun_eq_iff)
  then show ?thesis using assms(1) by (simp add: cache_list_def)
next
  case False
  then show ?thesis using assms(1) by (simp add: set_buf_def list_update_beyond)
qed

lemma bio_length: "bio_ok s \<Longrightarrow> length (bufs s) = Suc NBUF"
  by (auto simp: bio_ok_def cache_list_def)

lemma find_cached:
  assumes "bio_ok s" "cache_list s xs"
  shows "find (\<lambda>i. b_dev (bufs s ! i) = 1 \<and> b_blockno (bufs s ! i) = b) xs = cached s b"
  unfolding cached_def
  by (rule find_from_perm) (use assms bio_unique [OF assms(1)] in \<open>auto simp: cache_list_def\<close>)

text \<open>Which buffer \<open>bget\<close> returns: the one that has the block, else the least recently used
  one that is neither held nor pinned.\<close>

definition victim :: "kernel \<Rightarrow> nat list \<Rightarrow> nat option" where
  "victim s xs = find (\<lambda>i. \<not> b_busy (bufs s ! i) \<and> \<not> b_dirty (bufs s ! i)) (rev xs)"

lemma find_Some_mem: "find P xs = Some x \<Longrightarrow> x \<in> set xs \<and> P x"
  by (auto simp: find_Some_iff)

lemma victimD: "victim s xs = Some i \<Longrightarrow> cache_list s xs \<Longrightarrow> i < NBUF \<and> \<not> b_busy (bufs s ! i) \<and> \<not> b_dirty (bufs s ! i)"
  by (auto simp: victim_def cache_list_def dest: find_Some_mem)

lemma victim_exists:
  assumes "bio_ok s" "cache_list s xs" "card (held s \<union> pinned s) < NBUF"
  shows "\<exists>i. victim s xs = Some i"
  using recyclable [OF assms(1,3)] assms(2) by (cases "victim s xs") (auto simp: victim_def find_None_iff cache_list_def)

lemma bget_hit:
  assumes inv: "bio_ok s" and xs: "cache_list s xs" and hit: "cached s b = Some i" and free: "\<not> b_busy (bufs s ! i)"
  shows "bget 1 b s = Ok i (touch (set_buf i (\<lambda>x. x\<lparr>b_busy := True\<rparr>) s))"
proof -
  have "lock_free L_bcache s" "cpu_ok s" using inv by (simp_all add: bio_ok_def)
  moreover have "bwalk (Suc NBUF) b_next (\<lambda>x. b_dev x = 1 \<and> b_blockno x = b) (b_next (bufs s ! NBUF)) (acq L_bcache s)
      = Ok (Some i) (acq L_bcache s)"
    using bwalk_next [of "acq L_bcache s" xs "\<lambda>x. b_dev x = 1 \<and> b_blockno x = b"] find_cached [OF inv xs, of b] xs hit by simp
  ultimately show ?thesis
    using free by (simp add: bget_def bget_loop_def acquire_ok release_ok del: bwalk.simps)
qed

lemma bget_miss:
  assumes inv: "bio_ok s" and xs: "cache_list s xs" and miss: "cached s b = None" and v: "victim s xs = Some i"
  shows "bget 1 b s = Ok i (touch (set_buf i (\<lambda>x. x\<lparr>b_dev := 1, b_blockno := b,
     b_busy := True, b_valid := False, b_dirty := False\<rparr>) s))"
proof -
  have "lock_free L_bcache s" "cpu_ok s" using inv by (simp_all add: bio_ok_def)
  moreover have "bwalk (Suc NBUF) b_next (\<lambda>x. b_dev x = 1 \<and> b_blockno x = b) (b_next (bufs s ! NBUF)) (acq L_bcache s)
      = Ok None (acq L_bcache s)"
    using bwalk_next [of "acq L_bcache s" xs "\<lambda>x. b_dev x = 1 \<and> b_blockno x = b"] find_cached [OF inv xs, of b] xs miss by simp
  moreover have "bwalk (Suc NBUF) b_prev (\<lambda>x. \<not> b_busy x \<and> \<not> b_dirty x) (b_prev (bufs s ! NBUF)) (acq L_bcache s)
      = Ok (Some i) (acq L_bcache s)"
    using bwalk_prev [of "acq L_bcache s" xs "\<lambda>x. \<not> b_busy x \<and> \<not> b_dirty x"] xs v by (simp add: victim_def)
  moreover have "i < length (bufs s)" using victimD [OF v xs] xs by (simp add: cache_list_def)
  ultimately show ?thesis
    by (simp add: bget_def bget_loop_def acquire_ok release_ok del: bwalk.simps)
qed

lemma iderw_read:
  assumes "b_busy (bufs s ! i)" "\<not> b_valid (bufs s ! i)" "\<not> b_dirty (bufs s ! i)" "b_dev (bufs s ! i) = 1"
    and "b_blockno (bufs s ! i) < disksize s" "i < length (bufs s)"
  shows "iderw i s = Ok () (set_buf i (\<lambda>x. x\<lparr>b_data := disk s (b_blockno (bufs s ! i)), b_valid := True\<rparr>) s)"
  using assms by (simp add: iderw_def not_le)

lemma iderw_write:
  assumes "b_busy (bufs s ! i)" "b_dirty (bufs s ! i)" "b_dev (bufs s ! i) = 1"
    and "b_blockno (bufs s ! i) < disksize s" "i < length (bufs s)"
  shows "iderw i s = Ok () ((set_buf i (\<lambda>x. x\<lparr>b_dirty := False, b_valid := True\<rparr>) s)
     \<lparr>disk := (disk s)(b_blockno (bufs s ! i) := b_data (bufs s ! i)),
      dwrites := dwrites s @ [(b_blockno (bufs s ! i), b_data (bufs s ! i))]\<rparr>)"
  using assms by (simp add: iderw_def not_le set_buf_def)

text \<open>The state after a successful \<open>bread\<close>.\<close>

definition bread_state :: "kernel \<Rightarrow> uint32 \<Rightarrow> nat \<Rightarrow> kernel" where
  "bread_state s b i = set_buf i (\<lambda>x. x\<lparr>b_busy := True, b_valid := True, b_dev := 1, b_blockno := b,
     b_data := view s b\<rparr>) (touch s)"

lemma bread_hit:
  assumes inv: "bio_ok s" and hit: "cached s b = Some i" and free: "\<not> b_busy (bufs s ! i)" and b: "b < disksize s"
  shows "bread 1 b s = Ok i (bread_state s b i)"
proof -
  obtain xs where xs: "cache_list s xs" using inv by (auto simp: bio_ok_def)
  note i = cached_SomeD [OF hit]
  have len: "i < length (bufs s)" using i bio_length [OF inv] by simp
  note g = bget_hit [OF inv xs hit free]
  show ?thesis
  proof (cases "b_valid (bufs s ! i)")
    case True
    have v: "view s b = b_data (bufs s ! i)" using view_valid [OF inv _ True] i by simp
    show ?thesis
      using g len True i by (simp add: bread_def bread_state_def v) (auto intro!: set_buf_cong)
  next
    case False
    then have v: "view s b = disk s b" using hit by (simp add: view_def)
    have dirty: "\<not> b_dirty (bufs s ! i)" using bio_buf_ok [OF inv, of i] i False by (simp add: buf_ok_def)
    let ?t = "set_buf i (\<lambda>x. x\<lparr>b_busy := True\<rparr>) (touch s)"
    have "iderw i ?t = Ok () (set_buf i (\<lambda>x. x\<lparr>b_data := disk ?t (b_blockno (bufs ?t ! i)), b_valid := True\<rparr>) ?t)"
      by (rule iderw_read) (use False dirty i b len in simp_all)
    then show ?thesis
      using g len False i by (simp add: bread_def bread_state_def v) (auto intro!: set_buf_cong)
  qed
qed

lemma bread_miss:
  assumes inv: "bio_ok s" and xs: "cache_list s xs" and miss: "cached s b = None" and v: "victim s xs = Some i"
    and b: "b < disksize s"
  shows "bread 1 b s = Ok i (bread_state s b i)"
proof -
  note i = victimD [OF v xs]
  have len: "i < length (bufs s)" using i bio_length [OF inv] by simp
  have vw: "view s b = disk s b" using miss by (simp add: view_def)
  let ?t = "set_buf i (\<lambda>x. x\<lparr>b_dev := 1, b_blockno := b, b_busy := True, b_valid := False, b_dirty := False\<rparr>) (touch s)"
  have "iderw i ?t = Ok () (set_buf i (\<lambda>x. x\<lparr>b_data := disk ?t (b_blockno (bufs ?t ! i)), b_valid := True\<rparr>) ?t)"
    by (rule iderw_read) (use i b len in simp_all)
  then show ?thesis
    using bget_miss [OF inv xs miss v] len i
    by (simp add: bread_def bread_state_def vw) (auto intro!: set_buf_cong)
qed

lemma bread_state_step:
  assumes inv: "bio_ok s" and b: "b < disksize s" and i: "i < NBUF"
    and how: "cached s b = Some i \<and> \<not> b_busy (bufs s ! i) \<or>
      cached s b = None \<and> \<not> b_busy (bufs s ! i) \<and> \<not> b_dirty (bufs s ! i)"
  shows "buf_step s i b (bread_state s b i)"
proof -
  have len: "i < length (bufs s)" using i bio_length [OF inv] by simp
  obtain xs where xs: "cache_list s xs" using inv by (auto simp: bio_ok_def)
  then have "cache_list (bread_state s b i) xs"
    by (simp add: bread_state_def cache_list_set_buf)
  moreover have "buf_ok (bread_state s b i) (bufs (bread_state s b i) ! i)"
    using len b length_view [OF inv, of b] bio_buf_ok [OF inv i] how
    by (auto simp: bread_state_def buf_ok_def)
  ultimately show ?thesis
    using inv how len i cached_SomeD [of s b i] by (auto simp: buf_step_def bread_state_def bio_ok_def)
qed

lemma bread_finds:
  assumes inv: "bio_ok s" and b: "b < disksize s" "b \<notin> held s"
    and room: "cached s b = None \<longrightarrow> card (held s \<union> pinned s) < NBUF"
  shows "\<exists>i. bread 1 b s = Ok i (bread_state s b i) \<and> buf_step s i b (bread_state s b i)
     \<and> \<not> b_busy (bufs s ! i)"
proof (cases "cached s b")
  case None
  obtain xs where xs: "cache_list s xs" using inv by (auto simp: bio_ok_def)
  obtain i where v: "victim s xs = Some i" using victim_exists [OF inv xs] room None by blast
  then show ?thesis
    using bread_miss [OF inv xs None v b(1)] bread_state_step [OF inv b(1)] victimD [OF v xs] None by blast
next
  case (Some i)
  then have i: "i < NBUF" "b_blockno (bufs s ! i) = b" using cached_SomeD by blast+
  then have "\<not> b_busy (bufs s ! i)" using b(2) by (auto simp: held_def)
  then show ?thesis
    using bread_hit [OF inv Some _ b(1)] bread_state_step [OF inv b(1) i(1)] Some by blast
qed

lemma core_bread_state [simp]: "core (bread_state s b i) = core s"
  by (simp add: bread_state_def)

text \<open>
  What a client of \<open>bread\<close> sees: the block is now held, in a buffer with its content, and
  nothing else is different: not the content of any block, not the pinned blocks, not the
  buffers held before.
\<close>

lemma bread_returns:
  assumes inv: "bio_ok s" and b: "b < disksize s" "b \<notin> held s"
    and room: "cached s b = None \<longrightarrow> card (held s \<union> pinned s) < NBUF"
  shows "returns (bread 1 b) s (\<lambda>i t. core t = core s \<and> bio_ok t \<and> buf_for t i b
     \<and> b_data (bufs t ! i) = view s b \<and> view t = view s \<and> held t = insert b (held s) \<and> pinned t = pinned s
     \<and> b_dirty (bufs t ! i) = (b \<in> pinned s)
     \<and> (\<forall>j c. buf_for s j c \<longrightarrow> buf_for t j c \<and> b_data (bufs t ! j) = b_data (bufs s ! j)))"
proof -
  obtain i where ok: "bread 1 b s = Ok i (bread_state s b i)" and st: "buf_step s i b (bread_state s b i)"
    and nb: "\<not> b_busy (bufs s ! i)"
    using bread_finds [OF assms] by blast
  let ?t = "bread_state s b i"
  have i: "i < NBUF" using st by (simp add: buf_step_def)
  have len: "i < length (bufs s)" using i bio_length [OF inv] by simp
  have data: "b_data (bufs ?t ! i) = view s b" "b_busy (bufs ?t ! i)" "b_valid (bufs ?t ! i)" "b_dirty (bufs ?t ! i) = b_dirty (bufs s ! i)"
    using len by (simp_all add: bread_state_def)
  have inv': "bio_ok ?t" by (rule buf_step_bio_ok [OF inv st])
  have "buf_for ?t i b" using st data by (simp add: buf_step_def buf_for_def)
  moreover have "view ?t = view s" using buf_step_view [OF inv st] data by simp
  moreover have "held ?t = insert b (held s)" using buf_step_sets(1) [OF inv st] data by simp
  moreover have d: "b_dirty (bufs s ! i) = (b \<in> pinned s)"
  proof
    assume "b_dirty (bufs s ! i)"
    then show "b \<in> pinned s" using st i by (auto simp: buf_step_def pinned_def)
  next
    assume "b \<in> pinned s"
    then obtain j where j: "j < NBUF" "b_blockno (bufs s ! j) = b" "b_dirty (bufs s ! j)" by (auto simp: pinned_def)
    then have "b_dev (bufs s ! j) = 1" using bio_buf_ok [OF inv j(1)] by (simp add: buf_ok_def)
    then have "j = i" using buf_step_other [OF inv st j(1)] j(2) by blast
    then show "b_dirty (bufs s ! i)" using j by simp
  qed
  moreover have "pinned ?t = pinned s" using buf_step_sets(2) [OF inv st] data d by auto
  moreover have "buf_for ?t j c \<and> b_data (bufs ?t ! j) = b_data (bufs s ! j)" if "buf_for s j c" for j c
    using buf_step_buf_for [OF inv st that] nb that by (auto simp: buf_for_def)
  ultimately show ?thesis using ok inv' data by (simp add: returns_def)
qed

text \<open>The holder of a buffer changes its data, or pins it.\<close>

lemma held_buf_step:
  assumes inv: "bio_ok s" and h: "buf_for s i b" and f: "strip (f (bufs s ! i)) = strip ((bufs s ! i)\<lparr>b_data := d, b_dirty := e\<rparr>)"
    "b_next (f (bufs s ! i)) = b_next (bufs s ! i)" "b_prev (f (bufs s ! i)) = b_prev (bufs s ! i)"
    and d: "length d = BSIZE"
  shows "buf_step s i b (set_buf i f s)"
proof -
  have i: "i < NBUF" using h by (simp add: buf_for_def)
  have len: "i < length (bufs s)" using i bio_length [OF inv] by simp
  obtain xs where "cache_list s xs" using inv by (auto simp: bio_ok_def)
  then have "cache_list (set_buf i f s) xs" using f by (intro cache_list_set_buf)
  moreover note stripD [OF f(1)]
  ultimately show ?thesis
    using inv h len i d bio_buf_ok [OF inv i] by (auto simp: buf_step_def buf_for_def bio_ok_def buf_ok_def)
qed

definition set_data :: "nat \<Rightarrow> byte list \<Rightarrow> kernel \<Rightarrow> kernel" where
  "set_data i d s = set_buf i (\<lambda>x. x\<lparr>b_data := d\<rparr>) s"

lemma set_data_spec:
  assumes inv: "bio_ok s" and h: "buf_for s i b" and d: "length d = BSIZE"
  shows "bio_ok (set_data i d s)" "buf_for (set_data i d s) i b" "view (set_data i d s) = (view s)(b := d)"
    "held (set_data i d s) = held s" "pinned (set_data i d s) = pinned s" "core (set_data i d s) = core s"
    "b_data (bufs (set_data i d s) ! i) = d" "b_dirty (bufs (set_data i d s) ! i) = b_dirty (bufs s ! i)"
    "buf_for s j c \<Longrightarrow> j \<noteq> i \<Longrightarrow> buf_for (set_data i d s) j c \<and> b_data (bufs (set_data i d s) ! j) = b_data (bufs s ! j)"
proof -
  let ?t = "set_data i d s"
  have i: "i < NBUF" "b_blockno (bufs s ! i) = b" "b_busy (bufs s ! i)" using h by (simp_all add: buf_for_def)
  have len: "i < length (bufs s)" using i bio_length [OF inv] by simp
  have st: "buf_step s i b ?t" unfolding set_data_def
    by (rule held_buf_step [OF inv h _ _ _ d, where e = "b_dirty (bufs s ! i)"]) (simp_all add: strip_def)
  have x: "bufs ?t ! i = (bufs s ! i)\<lparr>b_data := d\<rparr>" using len by (simp add: set_data_def)
  have b: "b \<in> held s" "b_dirty (bufs s ! i) = (b \<in> pinned s)"
    using buf_for_held [OF h] buf_for_dirty [OF inv h] by simp_all
  show "bio_ok ?t" by (rule buf_step_bio_ok [OF inv st])
  show "buf_for ?t i b" using h x by (simp add: buf_for_def)
  show "view ?t = (view s)(b := d)" using buf_step_view [OF inv st] x by simp
  show "held ?t = held s" using buf_step_sets(1) [OF inv st] x i b by auto
  show "pinned ?t = pinned s" using buf_step_sets(2) [OF inv st] x b by auto
  show "core ?t = core s" by (simp add: set_data_def)
  show "b_data (bufs ?t ! i) = d" "b_dirty (bufs ?t ! i) = b_dirty (bufs s ! i)" using x by simp_all
  show "buf_for s j c \<Longrightarrow> j \<noteq> i \<Longrightarrow> buf_for ?t j c \<and> b_data (bufs ?t ! j) = b_data (bufs s ! j)"
    using buf_step_buf_for [OF inv st] by blast
qed

definition pin :: "nat \<Rightarrow> kernel \<Rightarrow> kernel" where
  "pin i s = set_buf i (\<lambda>x. x\<lparr>b_dirty := True\<rparr>) s"

lemma pin_spec:
  assumes inv: "bio_ok s" and h: "buf_for s i b"
  shows "bio_ok (pin i s)" "buf_for (pin i s) i b" "view (pin i s) = view s"
    "held (pin i s) = held s" "pinned (pin i s) = insert b (pinned s)" "core (pin i s) = core s"
    "b_data (bufs (pin i s) ! i) = b_data (bufs s ! i)" "b_dirty (bufs (pin i s) ! i)"
    "buf_for s j c \<Longrightarrow> buf_for (pin i s) j c \<and> b_data (bufs (pin i s) ! j) = b_data (bufs s ! j)"
proof -
  let ?t = "pin i s"
  have i: "i < NBUF" "b_blockno (bufs s ! i) = b" "b_busy (bufs s ! i)" using h by (simp_all add: buf_for_def)
  have len: "i < length (bufs s)" using i bio_length [OF inv] by simp
  have d: "length (b_data (bufs s ! i)) = BSIZE" using bio_buf_ok [OF inv i(1)] by (simp add: buf_ok_def)
  have st: "buf_step s i b ?t" unfolding pin_def
    by (rule held_buf_step [OF inv h _ _ _ d, where e = True]) (simp_all add: strip_def)
  have x: "bufs ?t ! i = (bufs s ! i)\<lparr>b_dirty := True\<rparr>" using len by (simp add: pin_def)
  have b: "b \<in> held s" using i by (auto simp: held_def)
  show "bio_ok ?t" by (rule buf_step_bio_ok [OF inv st])
  show f: "buf_for ?t i b" using h x by (simp add: buf_for_def)
  show "view ?t = view s" using buf_step_view [OF inv st] x buf_for_view [OF inv h] by auto
  show "held ?t = held s" using buf_step_sets(1) [OF inv st] x i b by auto
  show "pinned ?t = insert b (pinned s)" using buf_step_sets(2) [OF inv st] x by auto
  show "core ?t = core s" by (simp add: pin_def)
  show "b_data (bufs ?t ! i) = b_data (bufs s ! i)" "b_dirty (bufs ?t ! i)" using x by simp_all
  show "buf_for s j c \<Longrightarrow> buf_for ?t j c \<and> b_data (bufs ?t ! j) = b_data (bufs s ! j)"
    using buf_step_buf_for [OF inv st, of j c] f x by (cases "j = i") (auto simp: buf_for_def)
qed

text \<open>Writing a held buffer to the disk: the block is not pinned afterwards.\<close>

lemma bwrite_ok:
  assumes inv: "bio_ok s" and h: "buf_for s i b"
  shows "bwrite i s = Ok () ((set_buf i (\<lambda>x. x\<lparr>b_dirty := False\<rparr>) s)
     \<lparr>disk := (disk s)(b := b_data (bufs s ! i)), dwrites := dwrites s @ [(b, b_data (bufs s ! i))]\<rparr>)"
proof -
  have i: "i < NBUF" "b_blockno (bufs s ! i) = b" "b_busy (bufs s ! i)" "b_dev (bufs s ! i) = 1" "b_valid (bufs s ! i)"
    using h by (simp_all add: buf_for_def)
  have len: "i < length (bufs s)" using i bio_length [OF inv] by simp
  have b: "b < disksize s" using bio_buf_ok [OF inv i(1)] i by (simp add: buf_ok_def)
  let ?s = "set_buf i (\<lambda>x. x\<lparr>b_dirty := True\<rparr>) s"
  have "iderw i ?s = Ok () ((set_buf i (\<lambda>x. x\<lparr>b_dirty := False, b_valid := True\<rparr>) ?s)
     \<lparr>disk := (disk ?s)(b_blockno (bufs ?s ! i) := b_data (bufs ?s ! i)),
      dwrites := dwrites ?s @ [(b_blockno (bufs ?s ! i), b_data (bufs ?s ! i))]\<rparr>)"
    by (rule iderw_write) (use i b len in simp_all)
  moreover have "set_buf i (\<lambda>x. x\<lparr>b_dirty := True, b_dirty := False, b_valid := True\<rparr>) s = set_buf i (\<lambda>x. x\<lparr>b_dirty := False\<rparr>) s"
    by (rule set_buf_cong) (use i in simp)
  ultimately show ?thesis using i len by (simp add: bwrite_def)
qed

lemma bwrite_returns:
  assumes inv: "bio_ok s" and h: "buf_for s i b"
  shows "returns (bwrite i) s (\<lambda>_ t. core t = (core s)\<lparr>disk := (disk s)(b := view s b), dwrites := dwrites s @ [(b, view s b)]\<rparr>
     \<and> bio_ok t \<and> buf_for t i b \<and> view t = view s \<and> held t = held s \<and> pinned t = pinned s - {b}
     \<and> b_data (bufs t ! i) = view s b
     \<and> (\<forall>j c. buf_for s j c \<longrightarrow> buf_for t j c \<and> b_data (bufs t ! j) = b_data (bufs s ! j)))"
proof -
  let ?t = "(set_buf i (\<lambda>x. x\<lparr>b_dirty := False\<rparr>) s)
     \<lparr>disk := (disk s)(b := b_data (bufs s ! i)), dwrites := dwrites s @ [(b, b_data (bufs s ! i))]\<rparr>"
  have v: "view s b = b_data (bufs s ! i)" by (rule buf_for_view [OF inv h])
  have i: "i < NBUF" "b_blockno (bufs s ! i) = b" "b_busy (bufs s ! i)" using h by (simp_all add: buf_for_def)
  have len: "i < length (bufs s)" using i bio_length [OF inv] by simp
  obtain xs where "cache_list s xs" using inv by (auto simp: bio_ok_def)
  then have "cache_list ?t xs" by (simp add: cache_list_set_buf)
  then have st: "buf_step s i b ?t"
    using inv h len i bio_buf_ok [OF inv i(1)] by (auto simp: buf_step_def buf_for_def bio_ok_def buf_ok_def)
  have x: "bufs ?t ! i = (bufs s ! i)\<lparr>b_dirty := False\<rparr>" using len by simp
  have "buf_for ?t i b" using h x by (simp add: buf_for_def)
  moreover have "view ?t = view s" using buf_step_view [OF inv st] x v by auto
  moreover have "held ?t = held s" using buf_step_sets(1) [OF inv st] x i by (auto simp: held_def)
  moreover have "pinned ?t = pinned s - {b}" using buf_step_sets(2) [OF inv st] x by auto
  moreover have "buf_for ?t j c \<and> b_data (bufs ?t ! j) = b_data (bufs s ! j)" if "buf_for s j c" for j c
    using buf_step_buf_for [OF inv st, of j c] that \<open>buf_for ?t i b\<close> x by (cases "j = i") (auto simp: buf_for_def)
  ultimately show ?thesis
    using bwrite_ok [OF inv h] buf_step_bio_ok [OF inv st] v x by (simp add: returns_def)
qed

text \<open>Releasing a buffer puts it at the front of the list and wakes its waiters up.\<close>

lemma brelse_ok:
  assumes inv: "bio_ok s" and xs: "cache_list s xs" and i: "i < NBUF" "b_busy (bufs s ! i)"
  shows "\<exists>bs. brelse i s = Ok () (wake_all (Some (Ch_buf i)) ((touch s)\<lparr>bufs := bs\<rparr>))
     \<and> cache_list (s\<lparr>bufs := bs\<rparr>) (i # remove1 i xs)
     \<and> map strip bs = (map strip (bufs s))[i := strip ((bufs s ! i)\<lparr>b_busy := False\<rparr>)]"
proof -
  have ok: "lock_free L_bcache s" "lock_free L_ptable s" "cpu_ok s" "length (procs s) = NPROC"
    using inv by (simp_all add: bio_ok_def)
  have "cache_list (acq L_bcache s) xs" using xs by simp
  from to_front_ok [OF this i(1)] obtain bs where bs: "to_front i (acq L_bcache s) = Ok () ((acq L_bcache s)\<lparr>bufs := bs\<rparr>)"
    "cache_list ((acq L_bcache s)\<lparr>bufs := bs\<rparr>) (i # remove1 i xs)" "map strip bs = map strip (bufs s)" by auto
  let ?x = "(bs ! i)\<lparr>b_busy := False\<rparr>"
  have len: "length bs = Suc NBUF" using bs(2) by (simp add: cache_list_def)
  have c: "cache_list (s\<lparr>bufs := bs[i := ?x]\<rparr>) (i # remove1 i xs)"
  proof -
    have "cache_list (s\<lparr>bufs := bs\<rparr>) (i # remove1 i xs)"
      using bs(2) by (simp add: cache_list_def nx_def [abs_def] pv_def [abs_def])
    then have "cache_list (set_buf i (\<lambda>x. x\<lparr>b_busy := False\<rparr>) (s\<lparr>bufs := bs\<rparr>)) (i # remove1 i xs)"
      by (rule cache_list_set_buf) simp_all
    then show ?thesis by (simp add: set_buf_def)
  qed
  have "strip ?x = strip ((bufs s ! i)\<lparr>b_busy := False\<rparr>)"
  proof -
    have "strip (bs ! i) = strip (bufs s ! i)"
      using arg_cong [OF bs(3), of "\<lambda>l. l ! i"] len i(1) bio_length [OF inv] by simp
    then show ?thesis by (cases "bs ! i"; cases "bufs s ! i") (simp add: strip_def)
  qed
  then have m: "map strip (bs[i := ?x]) = (map strip (bufs s))[i := strip ((bufs s ! i)\<lparr>b_busy := False\<rparr>)]"
    using bs(3) by (simp add: map_update)
  let ?u = "(acq L_bcache s)\<lparr>bufs := bs[i := ?x]\<rparr>"
  have w: "wakeup (Ch_buf i) ?u = Ok () (touch (wake_all (Some (Ch_buf i)) ?u))"
    by (rule wakeup_ok) (use ok in simp_all)
  have "brelse i s = Ok () (wake_all (Some (Ch_buf i)) ((touch s)\<lparr>bufs := bs[i := ?x]\<rparr>))"
    using ok i(2) bs(1) w by (simp add: brelse_def acquire_ok release_ok set_buf_def wake_all_def)
  then show ?thesis using c m by blast
qed

lemma brelse_returns:
  assumes inv: "bio_ok s" and h: "buf_for s i b" and clean: "b \<in> pinned s \<or> b_data (bufs s ! i) = disk s b"
  shows "returns (brelse i) s (\<lambda>_ t. core t = core s \<and> bio_ok t \<and> view t = view s \<and> held t = held s - {b}
     \<and> pinned t = pinned s
     \<and> (\<forall>j c. j \<noteq> i \<longrightarrow> buf_for s j c \<longrightarrow> buf_for t j c \<and> b_data (bufs t ! j) = b_data (bufs s ! j)))"
proof -
  have i: "i < NBUF" "b_busy (bufs s ! i)" "b_blockno (bufs s ! i) = b" using h by (simp_all add: buf_for_def)
  obtain xs where xs: "cache_list s xs" using inv by (auto simp: bio_ok_def)
  from brelse_ok [OF inv xs i(1,2)] obtain bs where
    ok: "brelse i s = Ok () (wake_all (Some (Ch_buf i)) ((touch s)\<lparr>bufs := bs\<rparr>))"
    and c: "cache_list (s\<lparr>bufs := bs\<rparr>) (i # remove1 i xs)"
    and m: "map strip bs = (map strip (bufs s))[i := strip ((bufs s ! i)\<lparr>b_busy := False\<rparr>)]" by blast
  let ?t = "wake_all (Some (Ch_buf i)) ((touch s)\<lparr>bufs := bs\<rparr>)"
  have len: "length bs = Suc NBUF" "length (bufs s) = Suc NBUF" using c bio_length [OF inv] by (simp_all add: cache_list_def)
  have core: "core ?t = core s" by simp
  have bt: "bufs ?t = bs" by (simp add: wake_all_def)
  have nth: "strip (bs ! j) = (if j = i then strip ((bufs s ! i)\<lparr>b_busy := False\<rparr>) else strip (bufs s ! j))" if "j < Suc NBUF" for j
    using arg_cong [OF m, of "\<lambda>l. l ! j"] len that i(1) by (auto simp: nth_list_update)
  note x = stripD [OF nth [of i, simplified]]
  have dirty: "b_dirty (bufs s ! i) = (b \<in> pinned s)" by (rule buf_for_dirty [OF inv h])
  have "cache_list ?t (i # remove1 i xs)" using c by (simp add: cache_list_def nx_def [abs_def] pv_def [abs_def] bt)
  moreover have "\<forall>j < NBUF. j \<noteq> i \<longrightarrow> strip (bufs ?t ! j) = strip (bufs s ! j)"
    unfolding bt using nth by simp
  moreover have "buf_ok ?t (bufs ?t ! i)"
    unfolding bt buf_ok_def coreD [OF core]
    using x clean dirty i bio_buf_ok [OF inv i(1)] by (auto simp: buf_ok_def)
  moreover have "b_dev (bs ! i) = 1" "b_blockno (bs ! i) = b" "b_valid (bs ! i)" "b_dev (bufs s ! i) = 1"
    using x h by (simp_all add: buf_for_def)
  ultimately have st: "buf_step s i b ?t"
    using i inv unfolding buf_step_def bt core_derived [OF core] coreD [OF core] core_procs(1) [OF core] bio_ok_def
    by blast
  have "view ?t = view s" using buf_step_view [OF inv st] x buf_for_view [OF inv h] i by (auto simp: bt)
  moreover have "held ?t = held s - {b}" using buf_step_sets(1) [OF inv st] x i by (auto simp: bt)
  moreover have "pinned ?t = pinned s" using buf_step_sets(2) [OF inv st] x i dirty by (auto simp: bt)
  ultimately show ?thesis
    using ok core buf_step_bio_ok [OF inv st] buf_step_buf_for [OF inv st] by (simp add: returns_def)
qed

section \<open>Framing\<close>

lemma bio_ok_frame [simp, frame_simps]:
  "bio_ok (mem_update f_mem s) = bio_ok s"
  "bio_ok (k_end_update f_k_end s) = bio_ok s"
  "bio_ok (k_image_update f_k_image s) = bio_ok s"
  "bio_ok (use_lock_update f_use_lock s) = bio_ok s"
  "bio_ok (freelist_update f_freelist s) = bio_ok s"
  "bio_ok (nextpid_update f_nextpid s) = bio_ok s"
  "bio_ok (initproc_update f_initproc s) = bio_ok s"
  "bio_ok (forkret_first_update f_forkret_first s) = bio_ok s"
  "bio_ok (ticks_update f_ticks s) = bio_ok s"
  "bio_ok (kpgdir_update f_kpgdir s) = bio_ok s"
  "bio_ok (idt_update f_idt s) = bio_ok s"
  "bio_ok (dwrites_update f_dwrites s) = bio_ok s"
  "bio_ok (idequeue_update f_idequeue s) = bio_ok s"
  "bio_ok (havedisk1_update f_havedisk1 s) = bio_ok s"
  "bio_ok (log_start_update f_log_start s) = bio_ok s"
  "bio_ok (log_size_update f_log_size s) = bio_ok s"
  "bio_ok (log_outstanding_update f_log_outstanding s) = bio_ok s"
  "bio_ok (log_committing_update f_log_committing s) = bio_ok s"
  "bio_ok (log_dev_update f_log_dev s) = bio_ok s"
  "bio_ok (lh_n_update f_lh_n s) = bio_ok s"
  "bio_ok (lh_block_update f_lh_block s) = bio_ok s"
  "bio_ok (sb_update f_sb s) = bio_ok s"
  "bio_ok (inodes_update f_inodes s) = bio_ok s"
  "bio_ok (files_update f_files s) = bio_ok s"
  "bio_ok (pipes_update f_pipes s) = bio_ok s"
  "bio_ok (cons_update f_cons s) = bio_ok s"
  "bio_ok (ismp_update f_ismp s) = bio_ok s"
  "bio_ok (ncpu_update f_ncpu s) = bio_ok s"
  "bio_ok (lapic_update f_lapic s) = bio_ok s"
  "bio_ok (ioapicid_update f_ioapicid s) = bio_ok s"
  "bio_ok (irqmask_update f_irqmask s) = bio_ok s"
  "bio_ok (uart_update f_uart s) = bio_ok s"
  "bio_ok (ios_update f_ios s) = bio_ok s"
  "bio_ok (ins_update f_ins s) = bio_ok s"
  by (simp_all add: bio_ok_def buf_ok_def cache_list_def nx_def [abs_def] pv_def [abs_def])

lemma view_bufs: "bufs t = bufs s \<Longrightarrow> disk t = disk s \<Longrightarrow> view t = view s"
  by (simp add: view_def [abs_def] cached_def cong: option.case_cong if_cong)

lemma view_frame [simp, frame_simps]:
  "view (cpuid_update f_cpuid s) = view s"
  "view (cpus_update f_cpus s) = view s"
  "view (locks_update f_locks s) = view s"
  "view (mem_update f_mem s) = view s"
  "view (k_end_update f_k_end s) = view s"
  "view (k_image_update f_k_image s) = view s"
  "view (use_lock_update f_use_lock s) = view s"
  "view (freelist_update f_freelist s) = view s"
  "view (procs_update f_procs s) = view s"
  "view (nextpid_update f_nextpid s) = view s"
  "view (initproc_update f_initproc s) = view s"
  "view (forkret_first_update f_forkret_first s) = view s"
  "view (ticks_update f_ticks s) = view s"
  "view (kpgdir_update f_kpgdir s) = view s"
  "view (idt_update f_idt s) = view s"
  "view (disksize_update f_disksize s) = view s"
  "view (dwrites_update f_dwrites s) = view s"
  "view (idequeue_update f_idequeue s) = view s"
  "view (havedisk1_update f_havedisk1 s) = view s"
  "view (log_start_update f_log_start s) = view s"
  "view (log_size_update f_log_size s) = view s"
  "view (log_outstanding_update f_log_outstanding s) = view s"
  "view (log_committing_update f_log_committing s) = view s"
  "view (log_dev_update f_log_dev s) = view s"
  "view (lh_n_update f_lh_n s) = view s"
  "view (lh_block_update f_lh_block s) = view s"
  "view (sb_update f_sb s) = view s"
  "view (inodes_update f_inodes s) = view s"
  "view (files_update f_files s) = view s"
  "view (pipes_update f_pipes s) = view s"
  "view (cons_update f_cons s) = view s"
  "view (ismp_update f_ismp s) = view s"
  "view (ncpu_update f_ncpu s) = view s"
  "view (lapic_update f_lapic s) = view s"
  "view (ioapicid_update f_ioapicid s) = view s"
  "view (irqmask_update f_irqmask s) = view s"
  "view (uart_update f_uart s) = view s"
  "view (ios_update f_ios s) = view s"
  "view (ins_update f_ins s) = view s"
  by (rule view_bufs, simp, simp)+

lemma held_frame [simp, frame_simps]:
  "held (cpuid_update f_cpuid s) = held s"
  "held (cpus_update f_cpus s) = held s"
  "held (locks_update f_locks s) = held s"
  "held (mem_update f_mem s) = held s"
  "held (k_end_update f_k_end s) = held s"
  "held (k_image_update f_k_image s) = held s"
  "held (use_lock_update f_use_lock s) = held s"
  "held (freelist_update f_freelist s) = held s"
  "held (procs_update f_procs s) = held s"
  "held (nextpid_update f_nextpid s) = held s"
  "held (initproc_update f_initproc s) = held s"
  "held (forkret_first_update f_forkret_first s) = held s"
  "held (ticks_update f_ticks s) = held s"
  "held (kpgdir_update f_kpgdir s) = held s"
  "held (idt_update f_idt s) = held s"
  "held (disk_update f_disk s) = held s"
  "held (disksize_update f_disksize s) = held s"
  "held (dwrites_update f_dwrites s) = held s"
  "held (idequeue_update f_idequeue s) = held s"
  "held (havedisk1_update f_havedisk1 s) = held s"
  "held (log_start_update f_log_start s) = held s"
  "held (log_size_update f_log_size s) = held s"
  "held (log_outstanding_update f_log_outstanding s) = held s"
  "held (log_committing_update f_log_committing s) = held s"
  "held (log_dev_update f_log_dev s) = held s"
  "held (lh_n_update f_lh_n s) = held s"
  "held (lh_block_update f_lh_block s) = held s"
  "held (sb_update f_sb s) = held s"
  "held (inodes_update f_inodes s) = held s"
  "held (files_update f_files s) = held s"
  "held (pipes_update f_pipes s) = held s"
  "held (cons_update f_cons s) = held s"
  "held (ismp_update f_ismp s) = held s"
  "held (ncpu_update f_ncpu s) = held s"
  "held (lapic_update f_lapic s) = held s"
  "held (ioapicid_update f_ioapicid s) = held s"
  "held (irqmask_update f_irqmask s) = held s"
  "held (uart_update f_uart s) = held s"
  "held (ios_update f_ios s) = held s"
  "held (ins_update f_ins s) = held s"
  by (simp_all add: held_def)

lemma pinned_frame [simp, frame_simps]:
  "pinned (cpuid_update f_cpuid s) = pinned s"
  "pinned (cpus_update f_cpus s) = pinned s"
  "pinned (locks_update f_locks s) = pinned s"
  "pinned (mem_update f_mem s) = pinned s"
  "pinned (k_end_update f_k_end s) = pinned s"
  "pinned (k_image_update f_k_image s) = pinned s"
  "pinned (use_lock_update f_use_lock s) = pinned s"
  "pinned (freelist_update f_freelist s) = pinned s"
  "pinned (procs_update f_procs s) = pinned s"
  "pinned (nextpid_update f_nextpid s) = pinned s"
  "pinned (initproc_update f_initproc s) = pinned s"
  "pinned (forkret_first_update f_forkret_first s) = pinned s"
  "pinned (ticks_update f_ticks s) = pinned s"
  "pinned (kpgdir_update f_kpgdir s) = pinned s"
  "pinned (idt_update f_idt s) = pinned s"
  "pinned (disk_update f_disk s) = pinned s"
  "pinned (disksize_update f_disksize s) = pinned s"
  "pinned (dwrites_update f_dwrites s) = pinned s"
  "pinned (idequeue_update f_idequeue s) = pinned s"
  "pinned (havedisk1_update f_havedisk1 s) = pinned s"
  "pinned (log_start_update f_log_start s) = pinned s"
  "pinned (log_size_update f_log_size s) = pinned s"
  "pinned (log_outstanding_update f_log_outstanding s) = pinned s"
  "pinned (log_committing_update f_log_committing s) = pinned s"
  "pinned (log_dev_update f_log_dev s) = pinned s"
  "pinned (lh_n_update f_lh_n s) = pinned s"
  "pinned (lh_block_update f_lh_block s) = pinned s"
  "pinned (sb_update f_sb s) = pinned s"
  "pinned (inodes_update f_inodes s) = pinned s"
  "pinned (files_update f_files s) = pinned s"
  "pinned (pipes_update f_pipes s) = pinned s"
  "pinned (cons_update f_cons s) = pinned s"
  "pinned (ismp_update f_ismp s) = pinned s"
  "pinned (ncpu_update f_ncpu s) = pinned s"
  "pinned (lapic_update f_lapic s) = pinned s"
  "pinned (ioapicid_update f_ioapicid s) = pinned s"
  "pinned (irqmask_update f_irqmask s) = pinned s"
  "pinned (uart_update f_uart s) = pinned s"
  "pinned (ios_update f_ios s) = pinned s"
  "pinned (ins_update f_ins s) = pinned s"
  by (simp_all add: pinned_def)

lemma buf_for_frame [simp, frame_simps]:
  "buf_for (cpuid_update f_cpuid s) i b = buf_for s i b"
  "buf_for (cpus_update f_cpus s) i b = buf_for s i b"
  "buf_for (locks_update f_locks s) i b = buf_for s i b"
  "buf_for (mem_update f_mem s) i b = buf_for s i b"
  "buf_for (k_end_update f_k_end s) i b = buf_for s i b"
  "buf_for (k_image_update f_k_image s) i b = buf_for s i b"
  "buf_for (use_lock_update f_use_lock s) i b = buf_for s i b"
  "buf_for (freelist_update f_freelist s) i b = buf_for s i b"
  "buf_for (procs_update f_procs s) i b = buf_for s i b"
  "buf_for (nextpid_update f_nextpid s) i b = buf_for s i b"
  "buf_for (initproc_update f_initproc s) i b = buf_for s i b"
  "buf_for (forkret_first_update f_forkret_first s) i b = buf_for s i b"
  "buf_for (ticks_update f_ticks s) i b = buf_for s i b"
  "buf_for (kpgdir_update f_kpgdir s) i b = buf_for s i b"
  "buf_for (idt_update f_idt s) i b = buf_for s i b"
  "buf_for (disk_update f_disk s) i b = buf_for s i b"
  "buf_for (disksize_update f_disksize s) i b = buf_for s i b"
  "buf_for (dwrites_update f_dwrites s) i b = buf_for s i b"
  "buf_for (idequeue_update f_idequeue s) i b = buf_for s i b"
  "buf_for (havedisk1_update f_havedisk1 s) i b = buf_for s i b"
  "buf_for (log_start_update f_log_start s) i b = buf_for s i b"
  "buf_for (log_size_update f_log_size s) i b = buf_for s i b"
  "buf_for (log_outstanding_update f_log_outstanding s) i b = buf_for s i b"
  "buf_for (log_committing_update f_log_committing s) i b = buf_for s i b"
  "buf_for (log_dev_update f_log_dev s) i b = buf_for s i b"
  "buf_for (lh_n_update f_lh_n s) i b = buf_for s i b"
  "buf_for (lh_block_update f_lh_block s) i b = buf_for s i b"
  "buf_for (sb_update f_sb s) i b = buf_for s i b"
  "buf_for (inodes_update f_inodes s) i b = buf_for s i b"
  "buf_for (files_update f_files s) i b = buf_for s i b"
  "buf_for (pipes_update f_pipes s) i b = buf_for s i b"
  "buf_for (cons_update f_cons s) i b = buf_for s i b"
  "buf_for (ismp_update f_ismp s) i b = buf_for s i b"
  "buf_for (ncpu_update f_ncpu s) i b = buf_for s i b"
  "buf_for (lapic_update f_lapic s) i b = buf_for s i b"
  "buf_for (ioapicid_update f_ioapicid s) i b = buf_for s i b"
  "buf_for (irqmask_update f_irqmask s) i b = buf_for s i b"
  "buf_for (uart_update f_uart s) i b = buf_for s i b"
  "buf_for (ios_update f_ios s) i b = buf_for s i b"
  "buf_for (ins_update f_ins s) i b = buf_for s i b"
  by (simp_all add: buf_for_def)

lemma sets_bufs: "bufs t = bufs s \<Longrightarrow> held t = held s" "bufs t = bufs s \<Longrightarrow> pinned t = pinned s"
    "bufs t = bufs s \<Longrightarrow> buf_for t i b = buf_for s i b" "bufs t = bufs s \<Longrightarrow> cached t b = cached s b"
  by (simp_all add: held_def pinned_def buf_for_def cached_def)

lemma bio_ok_cong:
  assumes "bufs t = bufs s" "core t = core s"
  shows "bio_ok t = bio_ok s"
  using coreD [OF assms(2)] core_derived [OF assms(2)] core_procs(1) [OF assms(2)] assms(1)
  by (simp add: bio_ok_def buf_ok_def cache_list_def nx_def [abs_def] pv_def [abs_def])

lemma bio_lock [simp]:
  "bio_ok (touch s) = bio_ok s" "view (touch s) = view s" "held (touch s) = held s" "pinned (touch s) = pinned s"
  "buf_for (touch s) i b = buf_for s i b" "view (acq lk s) = view s" "held (acq lk s) = held s"
  "pinned (acq lk s) = pinned s" "buf_for (acq lk s) i b = buf_for s i b"
  using bio_ok_cong [of "touch s" s] view_bufs [of "touch s" s] view_bufs [of "acq lk s" s]
    sets_bufs [of "touch s" s] sets_bufs [of "acq lk s" s] by simp_all

lemma bio_ok_acq [simp]: "bio_ok s \<Longrightarrow> lk \<noteq> L_bcache \<Longrightarrow> lk \<noteq> L_ptable \<Longrightarrow> bio_ok (acq lk s)"
  by (simp add: bio_ok_def buf_ok_def)

lemma wake_all_bio [simp]:
  "bio_ok (wake_all ch s) = bio_ok s" "view (wake_all ch s) = view s" "held (wake_all ch s) = held s"
  "pinned (wake_all ch s) = pinned s" "buf_for (wake_all ch s) i b = buf_for s i b" "bufs (wake_all ch s) = bufs s"
proof -
  show b: "bufs (wake_all ch s) = bufs s" by (simp add: wake_all_def)
  have "disk (wake_all ch s) = disk s" by (simp add: wake_all_def)
  with b show "view (wake_all ch s) = view s" by (rule view_bufs)
  show "bio_ok (wake_all ch s) = bio_ok s" by (rule bio_ok_cong [OF b]) simp
  show "held (wake_all ch s) = held s" "pinned (wake_all ch s) = pinned s" "buf_for (wake_all ch s) i b = buf_for s i b"
    using sets_bufs [OF b] by simp_all
qed

section \<open>Initialisation\<close>

definition strip_dev :: "buf \<Rightarrow> buf" where
  "strip_dev x = x\<lparr>b_prev := 0, b_next := 0, b_dev := 0\<rparr>"

lemma map_strip_dev_set_buf:
  assumes "strip_dev (f (bufs s ! i)) = strip_dev (bufs s ! i)"
  shows "map strip_dev (bufs (set_buf i f s)) = map strip_dev (bufs s)"
proof (cases "i < length (bufs s)")
  case True
  then have "(map strip_dev (bufs s))[i := strip_dev (bufs s ! i)] = map strip_dev (bufs s)" by (metis list_update_id nth_map)
  then show ?thesis using assms by (simp add: set_buf_def map_update)
qed (simp add: set_buf_def list_update_beyond)

definition binit_inv :: "kernel \<Rightarrow> nat \<Rightarrow> kernel \<Rightarrow> bool" where
  "binit_inv s k t \<longleftrightarrow> length (bufs t) = Suc NBUF \<and> dll NBUF (nx t) (pv t) (rev [0..<k])
     \<and> (\<forall>i < k. b_dev (bufs t ! i) = - 1) \<and> map strip_dev (bufs t) = map strip_dev (bufs s)
     \<and> t = s\<lparr>bufs := bufs t\<rparr>"

lemma binit_step:
  assumes inv: "binit_inv s k t" and k: "k < NBUF"
  shows "returns (seq
      [modify (\<lambda>s. set_buf k (\<lambda>x. x\<lparr>b_next := b_next (bufs s ! NBUF)\<rparr>) s),
       modify (set_buf k (\<lambda>x. x\<lparr>b_prev := NBUF\<rparr>)),
       modify (set_buf k (\<lambda>x. x\<lparr>b_dev := - 1\<rparr>)),
       modify (\<lambda>s. set_buf (b_next (bufs s ! NBUF)) (\<lambda>x. x\<lparr>b_prev := k\<rparr>) s),
       modify (set_buf NBUF (\<lambda>x. x\<lparr>b_next := k\<rparr>))]) t (\<lambda>_ u. binit_inv s (Suc k) u)"
proof -
  have len: "length (bufs t) = Suc NBUF" and d: "dll NBUF (nx t) (pv t) (rev [0..<k])"
    and dev: "\<And>i. i < k \<Longrightarrow> b_dev (bufs t ! i) = - 1" and eq: "t = s\<lparr>bufs := bufs t\<rparr>"
    and m: "map strip_dev (bufs t) = map strip_dev (bufs s)"
    using inv by (simp_all add: binit_inv_def)
  have h: "nx t NBUF \<noteq> k" "nx t NBUF < Suc NBUF"
    using dll_first [OF d] k by (cases k; simp)+
  define t3 where "t3 = set_buf k (\<lambda>x. x\<lparr>b_next := nx t NBUF, b_prev := NBUF, b_dev := - 1\<rparr>) t"
  define t4 where "t4 = set_buf (nx t NBUF) (\<lambda>x. x\<lparr>b_prev := k\<rparr>) t3"
  define t5 where "t5 = set_buf NBUF (\<lambda>x. x\<lparr>b_next := k\<rparr>) t4"
  have l: "length (bufs t3) = Suc NBUF" "length (bufs t4) = Suc NBUF" "length (bufs t5) = Suc NBUF"
    using len by (simp_all add: t3_def t4_def t5_def)
  have n3: "nx t3 = (nx t)(k := nx t NBUF)" "pv t3 = (pv t)(k := NBUF)"
    using k len by (simp_all add: t3_def nx_set_buf pv_set_buf)
  have n4: "nx t4 = nx t3" "pv t4 = (pv t3)(nx t NBUF := k)"
    using h l by (auto simp: t4_def nx_set_buf pv_set_buf nx_def [of t3] fun_eq_iff)
  have n5: "nx t5 = (nx t)(k := nx t NBUF, NBUF := k)" "pv t5 = (pv t)(k := NBUF, nx t NBUF := k)"
    using l n3 n4 by (auto simp: t5_def nx_set_buf pv_set_buf pv_def [of t4] fun_eq_iff)
  have "dll NBUF (nx t5) (pv t5) (k # rev [0..<k])"
    unfolding n5 by (rule dll_push [OF d]) (use k in auto)
  moreover have "b_dev (bufs t5 ! i) = - 1" if "i < Suc k" for i
    using that dev [of i] k h l len by (cases "i = k") (auto simp: t5_def t4_def t3_def)
  moreover have "map strip_dev (bufs t5) = map strip_dev (bufs s)"
    using m by (simp add: t5_def t4_def t3_def map_strip_dev_set_buf strip_dev_def)
  moreover have "t5 = s\<lparr>bufs := bufs t5\<rparr>"
  proof -
    have "t5 = t\<lparr>bufs := bufs t5\<rparr>" by (simp add: t5_def t4_def t3_def set_buf_def)
    also have "\<dots> = s\<lparr>bufs := bufs t5\<rparr>" by (subst eq) simp
    finally show ?thesis .
  qed
  ultimately have "binit_inv s (Suc k) t5" using l by (simp add: binit_inv_def)
  moreover have "seq
      [modify (\<lambda>s. set_buf k (\<lambda>x. x\<lparr>b_next := b_next (bufs s ! NBUF)\<rparr>) s),
       modify (set_buf k (\<lambda>x. x\<lparr>b_prev := NBUF\<rparr>)),
       modify (set_buf k (\<lambda>x. x\<lparr>b_dev := - 1\<rparr>)),
       modify (\<lambda>s. set_buf (b_next (bufs s ! NBUF)) (\<lambda>x. x\<lparr>b_prev := k\<rparr>) s),
       modify (set_buf NBUF (\<lambda>x. x\<lparr>b_next := k\<rparr>))] t = Ok () t5"
    using k len by (simp add: t5_def t4_def t3_def nx_def)
  ultimately show ?thesis by (simp add: returns_def)
qed

text \<open>Static data: no buffer is in use.\<close>

definition bufs_unused :: "kernel \<Rightarrow> bool" where
  "bufs_unused s \<longleftrightarrow> length (bufs s) = Suc NBUF \<and> (\<forall>i < NBUF. \<not> b_busy (bufs s ! i) \<and> \<not> b_valid (bufs s ! i)
     \<and> \<not> b_dirty (bufs s ! i) \<and> length (b_data (bufs s ! i)) = BSIZE)"

text \<open>Nothing but the buffers and the lock of the cache is different.\<close>

definition binit_frame :: "kernel \<Rightarrow> kernel \<Rightarrow> bool" where
  "binit_frame s t \<longleftrightarrow> (\<exists>f bs. t = (set_lock L_bcache f s)\<lparr>bufs := bs\<rparr>)"

lemma binit_frameD:
  assumes "binit_frame s t"
  shows
  "cpuid t = cpuid s"
  "cpus t = cpus s"
  "mem t = mem s"
  "k_end t = k_end s"
  "k_image t = k_image s"
  "use_lock t = use_lock s"
  "freelist t = freelist s"
  "procs t = procs s"
  "nextpid t = nextpid s"
  "initproc t = initproc s"
  "forkret_first t = forkret_first s"
  "ticks t = ticks s"
  "kpgdir t = kpgdir s"
  "idt t = idt s"
  "disk t = disk s"
  "disksize t = disksize s"
  "dwrites t = dwrites s"
  "idequeue t = idequeue s"
  "havedisk1 t = havedisk1 s"
  "log_start t = log_start s"
  "log_size t = log_size s"
  "log_outstanding t = log_outstanding s"
  "log_committing t = log_committing s"
  "log_dev t = log_dev s"
  "lh_n t = lh_n s"
  "lh_block t = lh_block s"
  "sb t = sb s"
  "inodes t = inodes s"
  "files t = files s"
  "pipes t = pipes s"
  "cons t = cons s"
  "ismp t = ismp s"
  "ncpu t = ncpu s"
  "lapic t = lapic s"
  "ioapicid t = ioapicid s"
  "irqmask t = irqmask s"
  "uart t = uart s"
  "ios t = ios s"
  "ins t = ins s"
  "lk \<noteq> L_bcache \<Longrightarrow> lock_free lk t = lock_free lk s" "cpu_ok t = cpu_ok s" "curproc t = curproc s"
  using assms by (auto simp: binit_frame_def set_lock_def lock_free_def cpu_ok_def mycpu_def curproc_def)

lemma binit_returns:
  assumes z: "bufs_unused s" and "\<And>b. length (disk s b) = BSIZE" "lock_free L_ptable s" "cpu_ok s" "length (procs s) = NPROC"
  shows "returns binit s (\<lambda>_ t. bio_ok t \<and> view t = disk s \<and> held t = {} \<and> pinned t = {}
     \<and> binit_frame s t \<and> cache_list t (rev [0..<NBUF]) \<and> (\<forall>b. cached t b = None))"
proof -
  let ?s = "set_lock L_bcache (\<lambda>k. k\<lparr>lk_name := ''bcache'', locked := 0, lk_cpu := None\<rparr>) s"
  let ?h = "set_buf NBUF (\<lambda>h. h\<lparr>b_prev := NBUF, b_next := NBUF\<rparr>) ?s"
  have bs: "bufs ?s = bufs s" by (simp add: set_lock_def)
  have len: "length (bufs ?s) = Suc NBUF" using z by (simp add: bufs_unused_def bs)
  have "binit_inv ?s 0 ?h"
    using len by (simp add: binit_inv_def dll_def nx_set_buf pv_set_buf map_strip_dev_set_buf strip_dev_def)
  with foreach_returns [of "binit_inv ?s" ?h "[0..<NBUF]"] binit_step [of ?s]
  have "returns (foreach [0..<NBUF] (\<lambda>b. seq
      [modify (\<lambda>s. set_buf b (\<lambda>x. x\<lparr>b_next := b_next (bufs s ! NBUF)\<rparr>) s),
       modify (set_buf b (\<lambda>x. x\<lparr>b_prev := NBUF\<rparr>)),
       modify (set_buf b (\<lambda>x. x\<lparr>b_dev := - 1\<rparr>)),
       modify (\<lambda>s. set_buf (b_next (bufs s ! NBUF)) (\<lambda>x. x\<lparr>b_prev := b\<rparr>) s),
       modify (set_buf NBUF (\<lambda>x. x\<lparr>b_next := b\<rparr>))])) ?h (\<lambda>_ t. binit_inv ?s NBUF t)"
    by simp
  then obtain t where ok: "binit s = Ok () t" and inv: "binit_inv ?s NBUF t"
    using len by (auto simp: binit_def initlock_def elim!: returnsE)
  have t: "length (bufs t) = Suc NBUF" "dll NBUF (nx t) (pv t) (rev [0..<NBUF])" "\<And>i. i < NBUF \<Longrightarrow> b_dev (bufs t ! i) = - 1"
    "t = ?s\<lparr>bufs := bufs t\<rparr>" "map strip_dev (bufs t) = map strip_dev (bufs ?s)"
    using inv by (simp_all add: binit_inv_def)
  have c: "cache_list t (rev [0..<NBUF])" using t(1,2) by (auto simp: cache_list_def)
  have x: "\<not> b_busy (bufs t ! i) \<and> \<not> b_valid (bufs t ! i) \<and> \<not> b_dirty (bufs t ! i) \<and> length (b_data (bufs t ! i)) = BSIZE"
    if "i < NBUF" for i
  proof -
    have "strip_dev (bufs t ! i) = strip_dev (bufs s ! i)"
      using arg_cong [OF t(5), of "\<lambda>l. l ! i"] that t(1) len bs by simp
    then have "b_busy (bufs t ! i) = b_busy (bufs s ! i)" "b_valid (bufs t ! i) = b_valid (bufs s ! i)"
      "b_dirty (bufs t ! i) = b_dirty (bufs s ! i)" "b_data (bufs t ! i) = b_data (bufs s ! i)"
      by (cases "bufs t ! i"; cases "bufs s ! i"; simp add: strip_dev_def)+
    then show ?thesis using z that by (simp add: bufs_unused_def)
  qed
  define bs' where "bs' = bufs t"
  have t': "t = ?s\<lparr>bufs := bs'\<rparr>" using t(4) by (simp only: bs'_def)
  have f: "disk t = disk s" "procs t = procs s" "lock_free L_bcache t" "lock_free L_ptable t = lock_free L_ptable s"
    "cpu_ok t = cpu_ok s"
    unfolding t' by (simp_all add: set_lock_def lock_free_def cpu_ok_def mycpu_def)
  have "bio_ok t"
    using c x t(3) f assms(2-5) by (auto simp: bio_ok_def buf_ok_def one_each_def)
  moreover have "held t = {}" "pinned t = {}" using x by (auto simp: held_def pinned_def)
  moreover have "view t c = disk t c" for c by (rule view_disk) (use x in auto)
  then have "view t = disk s" using f by auto
  moreover have "cached t c = None" for c using t(3) by (simp add: cached_def find_upt_None)
  moreover have "binit_frame s t" unfolding binit_frame_def using t(4) by blast
  ultimately show ?thesis using ok c by (simp add: returns_def)
qed

section \<open>The interface of the cache\<close>

text \<open>
  What the log and the file system rely on: getting a block, storing a new content
  through to the disk, and giving the block back. The laws speak about the content of the
  blocks (\<open>view\<close>), the blocks that are held or pinned, and the rest of the state
  (\<open>core\<close>).
\<close>

definition keeps_bufs :: "kernel \<Rightarrow> nat \<Rightarrow> kernel \<Rightarrow> bool" where
  "keeps_bufs s i t \<longleftrightarrow> (\<forall>j c. j \<noteq> i \<longrightarrow> buf_for s j c \<longrightarrow> buf_for t j c \<and> b_data (bufs t ! j) = b_data (bufs s ! j))"

lemma keeps_bufsD: "keeps_bufs s i t \<Longrightarrow> buf_for s j c \<Longrightarrow> j \<noteq> i \<Longrightarrow> buf_for t j c \<and> b_data (bufs t ! j) = b_data (bufs s ! j)"
  by (simp add: keeps_bufs_def)

definition writes :: "uint32 \<Rightarrow> byte list \<Rightarrow> kernel \<Rightarrow> kernel" where
  "writes b d s = s\<lparr>disk := (disk s)(b := d), dwrites := dwrites s @ [(b, d)]\<rparr>"

locale block_cache =
  fixes get :: "uint32 \<Rightarrow> nat kroutine"
    and put :: "nat \<Rightarrow> byte list \<Rightarrow> unit kroutine"
    and give :: "nat \<Rightarrow> unit kroutine"
  assumes get_law: "\<lbrakk>bio_ok s; b < disksize s; b \<notin> held s; b \<in> pinned s \<or> card (held s \<union> pinned s) < NBUF\<rbrakk> \<Longrightarrow>
      returns (get b) s (\<lambda>i t. core t = core s \<and> bio_ok t \<and> buf_for t i b \<and> b_data (bufs t ! i) = view s b
        \<and> view t = view s \<and> held t = insert b (held s) \<and> pinned t = pinned s \<and> keeps_bufs s NBUF t)"
    and put_law: "\<lbrakk>bio_ok s; buf_for s i b; length d = BSIZE\<rbrakk> \<Longrightarrow>
      returns (put i d) s (\<lambda>_ t. core t = writes b d (core s) \<and> bio_ok t \<and> buf_for t i b \<and> b_data (bufs t ! i) = d
        \<and> view t = (view s)(b := d) \<and> held t = held s \<and> pinned t = pinned s - {b} \<and> keeps_bufs s i t)"
    and give_law: "\<lbrakk>bio_ok s; buf_for s i b; b \<in> pinned s \<or> view s b = disk s b\<rbrakk> \<Longrightarrow>
      returns (give i) s (\<lambda>_ t. core t = core s \<and> bio_ok t \<and> view t = view s \<and> held t = held s - {b}
        \<and> pinned t = pinned s \<and> keeps_bufs s i t)"
begin

text \<open>Reading a block changes nothing but the cache.\<close>

lemma read_block:
  assumes "bio_ok s" "b < disksize s" "b \<notin> held s" "b \<in> pinned s \<or> card (held s \<union> pinned s) < NBUF"
  shows "returns (bind (get b) (\<lambda>i. bind (gets (\<lambda>s. f (b_data (bufs s ! i)))) (\<lambda>x. andthen (give i) (return x)))) s
     (\<lambda>x t. x = f (view s b) \<and> core t = core s \<and> bio_ok t \<and> view t = view s \<and> held t = held s \<and> pinned t = pinned s)"
proof -
  from get_law [OF assms] obtain i t where t: "get b s = Ok i t" "core t = core s" "bio_ok t" "buf_for t i b"
    "b_data (bufs t ! i) = view s b" "view t = view s" "held t = insert b (held s)" "pinned t = pinned s"
    by (auto elim!: returnsE)
  have "view s b = disk s b \<or> b \<in> pinned s" using view_clean [OF assms(1,3)] by blast
  then have "b \<in> pinned t \<or> view t b = disk t b" using t coreD [OF t(2)] by auto
  from give_law [OF t(3,4) this] obtain u where u: "give i t = Ok () u" "core u = core t" "bio_ok u" "view u = view t"
    "held u = held t - {b}" "pinned u = pinned t" by (auto elim!: returnsE)
  then show ?thesis using t assms(3) by (auto simp: returns_def)
qed

text \<open>Writing a block.\<close>

lemma write_block:
  assumes "bio_ok s" "b < disksize s" "b \<notin> held s" "b \<in> pinned s \<or> card (held s \<union> pinned s) < NBUF" "length d = BSIZE"
  shows "returns (bind (get b) (\<lambda>i. andthen (put i d) (give i))) s (\<lambda>_ t. core t = writes b d (core s) \<and> bio_ok t
     \<and> view t = (view s)(b := d) \<and> held t = held s \<and> pinned t = pinned s - {b})"
proof -
  from get_law [OF assms(1-4)] obtain i t where t: "get b s = Ok i t" "core t = core s" "bio_ok t" "buf_for t i b"
    "view t = view s" "held t = insert b (held s)" "pinned t = pinned s" by (auto elim!: returnsE)
  from put_law [OF t(3,4) assms(5)] obtain u where u: "put i d t = Ok () u" "core u = writes b d (core t)" "bio_ok u"
    "buf_for u i b" "view u = (view t)(b := d)" "held u = held t" "pinned u = pinned t - {b}" by (auto elim!: returnsE)
  have "view u b = disk u b"
    using arg_cong [OF u(2), of disk] u(5) by (simp add: writes_def core_sel)
  then obtain v where "give i u = Ok () v" "core v = core u" "bio_ok v" "view v = view u"
    "held v = held u - {b}" "pinned v = pinned u" using give_law [OF u(3,4)] by (auto elim!: returnsE)
  then show ?thesis using t u assms(3) by (auto simp: returns_def)
qed

text \<open>Copying one block over another: the source is given back first.\<close>

lemma copy_block:
  assumes inv: "bio_ok s" and src: "src < disksize s" "src \<notin> held s" and dst: "dst < disksize s" "dst \<notin> held s"
    and ne: "src \<noteq> dst" and d: "d = view s src"
    and t: "bio_ok t" "core t = core s" "buf_for t i src" "buf_for t j dst" "view t = view s"
      "held t = insert src (insert dst (held s))" "pinned t = pinned s"
  shows "returns (andthen (put j d) (andthen (give i) (give j))) t
     (\<lambda>_ u. core u = writes dst d (core s) \<and> bio_ok u \<and> view u = (view s)(dst := d) \<and> held u = held s
        \<and> pinned u = pinned s - {dst})"
proof -
  have ij: "i \<noteq> j" using t(3,4) ne by (auto simp: buf_for_def)
  have len: "length d = BSIZE" using inv d by simp
  from put_law [OF t(1,4) len] obtain u where u: "put j d t = Ok () u" "core u = writes dst d (core t)" "bio_ok u"
    "buf_for u j dst" "view u = (view t)(dst := d)" "held u = held t" "pinned u = pinned t - {dst}" "keeps_bufs t j u"
    by (auto elim!: returnsE)
  have disk_u: "disk u = (disk s)(dst := d)"
    using arg_cong [OF u(2), of disk] t(2) by (simp add: writes_def core_sel coreD [OF t(2)])
  have ui: "buf_for u i src" using keeps_bufsD [OF u(8) t(3) ij] by simp
  have "view s src = disk s src \<or> src \<in> pinned s" using view_clean [OF inv src(2)] by blast
  then have "src \<in> pinned u \<or> view u src = disk u src" using u t ne disk_u by auto
  from give_law [OF u(3) ui this] obtain v where v: "give i u = Ok () v" "core v = core u" "bio_ok v" "view v = view u"
    "held v = held u - {src}" "pinned v = pinned u" "keeps_bufs u i v" by (auto elim!: returnsE)
  have vj: "buf_for v j dst" using keeps_bufsD [OF v(7) u(4)] ij by simp
  have "view v dst = disk v dst" using v u t disk_u coreD [OF v(2)] by simp
  then obtain w where w: "give j v = Ok () w" "core w = core v" "bio_ok w" "view w = view v"
    "held w = held v - {dst}" "pinned w = pinned v"
    using give_law [OF v(3) vj] by (auto elim!: returnsE)
  have "held w = held s" using w v u t src dst by auto
  then show ?thesis using u v w t by (simp add: returns_def)
qed

end

text \<open>\<open>bwrite\<close> after the holder has changed the data (\<open>memmove\<close> into \<open>b->data\<close>).\<close>

definition store_block :: "nat \<Rightarrow> byte list \<Rightarrow> unit kroutine" where
  "store_block i d = andthen (modify (set_data i d)) (bwrite i)"

interpretation bcache: block_cache "bread 1" store_block brelse
proof
  fix s b assume a: "bio_ok s" "b < disksize s" "b \<notin> held s" "b \<in> pinned s \<or> card (held s \<union> pinned s) < NBUF"
  have "cached s b \<noteq> None" if p: "b \<in> pinned s"
  proof -
    obtain j where "j < NBUF" "b_blockno (bufs s ! j) = b" "b_dirty (bufs s ! j)" using p by (auto simp: pinned_def)
    then show ?thesis using cached_Some [OF a(1)] bio_buf_ok [OF a(1)] by (auto simp: buf_ok_def)
  qed
  then have "cached s b = None \<longrightarrow> card (held s \<union> pinned s) < NBUF" using a(4) by blast
  from bread_returns [OF a(1-3) this]
  show "returns (bread 1 b) s (\<lambda>i t. core t = core s \<and> bio_ok t \<and> buf_for t i b \<and> b_data (bufs t ! i) = view s b
        \<and> view t = view s \<and> held t = insert b (held s) \<and> pinned t = pinned s \<and> keeps_bufs s NBUF t)"
    by (rule returns_mono) (simp add: keeps_bufs_def)
next
  fix s i b and d :: "byte list" assume a: "bio_ok s" "buf_for s i b" "length d = BSIZE"
  note sd = set_data_spec [OF a]
  have v: "view (set_data i d s) b = d" using sd(3) by simp
  from bwrite_returns [OF sd(1,2)]
  have "returns (bwrite i) (set_data i d s) (\<lambda>_ t. core t = writes b d (core s) \<and> bio_ok t \<and> buf_for t i b \<and> b_data (bufs t ! i) = d
        \<and> view t = (view s)(b := d) \<and> held t = held s \<and> pinned t = pinned s - {b} \<and> keeps_bufs s i t)"
  proof (rule returns_mono, goal_cases)
    case (1 u t)
    have "keeps_bufs s i t"
      unfolding keeps_bufs_def
    proof (intro allI impI)
      fix j c assume "j \<noteq> i" "buf_for s j c"
      with 1 sd(9) [of j c] show "buf_for t j c \<and> b_data (bufs t ! j) = b_data (bufs s ! j)" by auto
    qed
    then show ?case using 1 sd v by (simp add: writes_def set_data_def core_sel)
  qed
  then show "returns (store_block i d) s (\<lambda>_ t. core t = writes b d (core s) \<and> bio_ok t \<and> buf_for t i b \<and> b_data (bufs t ! i) = d
        \<and> view t = (view s)(b := d) \<and> held t = held s \<and> pinned t = pinned s - {b} \<and> keeps_bufs s i t)"
    by (simp add: store_block_def returns_def)
next
  fix s i b assume a: "bio_ok s" "buf_for s i b" "b \<in> pinned s \<or> view s b = disk s b"
  have "b \<in> pinned s \<or> b_data (bufs s ! i) = disk s b" using a(3) buf_for_view [OF a(1,2)] by simp
  from brelse_returns [OF a(1,2) this]
  show "returns (brelse i) s (\<lambda>_ t. core t = core s \<and> bio_ok t \<and> view t = view s \<and> held t = held s - {b}
        \<and> pinned t = pinned s \<and> keeps_bufs s i t)"
    by (rule returns_mono) (simp add: keeps_bufs_def)
qed

section \<open>Reading and writing blocks\<close>

definition read_block :: "uint32 \<Rightarrow> byte list kroutine" where
  "read_block b = bind (bread 1 b) (\<lambda>i. bind (gets (\<lambda>s. b_data (bufs s ! i))) (\<lambda>d. andthen (brelse i) (return d)))"

definition write_block :: "uint32 \<Rightarrow> byte list \<Rightarrow> unit kroutine" where
  "write_block b d = bind (bread 1 b) (\<lambda>i. andthen (store_block i d) (brelse i))"

text \<open>Reading a block and dropping its content.\<close>

definition skim :: "uint32 \<Rightarrow> unit kroutine" where
  "skim b = andthen (read_block b) (return ())"

lemma read_block_returns:
  "\<lbrakk>bio_ok s; b < disksize s; b \<notin> held s; b \<in> pinned s \<or> card (held s \<union> pinned s) < NBUF\<rbrakk> \<Longrightarrow>
   returns (read_block b) s (\<lambda>d t. d = view s b \<and> core t = core s \<and> bio_ok t \<and> view t = view s \<and> held t = held s
     \<and> pinned t = pinned s)"
  unfolding read_block_def using bcache.read_block [where f = "\<lambda>d. d"] by simp

lemma write_block_returns:
  "\<lbrakk>bio_ok s; b < disksize s; b \<notin> held s; b \<in> pinned s \<or> card (held s \<union> pinned s) < NBUF; length d = BSIZE\<rbrakk> \<Longrightarrow>
   returns (write_block b d) s (\<lambda>_ t. core t = writes b d (core s) \<and> bio_ok t \<and> view t = (view s)(b := d)
     \<and> held t = held s \<and> pinned t = pinned s - {b})"
  unfolding write_block_def by (rule bcache.write_block)

lemma find_append_None: "find P xs = None \<Longrightarrow> find P (xs @ ys) = find P ys"
  by (induction xs) (auto split: if_splits)

lemma reads_return:
  assumes "bio_ok s" "held s = {}" "card (pinned s) < NBUF" "\<forall>c \<in> set cs. c < disksize s"
  shows "returns (foreach cs skim) s (\<lambda>_ t. core t = core s \<and> bio_ok t \<and> view t = view s
     \<and> held t = {} \<and> pinned t = pinned s)"
  using assms
proof (induction cs arbitrary: s)
  case Nil
  then show ?case by (simp add: returns_def)
next
  case (Cons c cs)
  have "returns (read_block c) s (\<lambda>d t. d = view s c \<and> core t = core s \<and> bio_ok t \<and> view t = view s \<and> held t = held s
     \<and> pinned t = pinned s)"
    by (rule read_block_returns) (use Cons.prems in auto)
  then obtain t where t: "read_block c s = Ok (view s c) t" "core t = core s" "bio_ok t" "view t = view s" "held t = held s"
     "pinned t = pinned s" by (auto elim!: returnsE)
  have "returns (foreach cs skim) t (\<lambda>_ u. core u = core t \<and> bio_ok u \<and> view u = view t
     \<and> held u = {} \<and> pinned u = pinned t)"
    using Cons.prems t by (intro Cons.IH) (auto simp: coreD [OF t(2)])
  moreover have "skim c s = Ok () t" using t(1) by (simp add: skim_def)
  ultimately show ?case using t by (simp add: returns_def)
qed

text \<open>
  C4. Through the cache a block reads as it was last written: after a block has been
  written, and then any other blocks have been read, however often and however many
  buffers that has recycled, reading the block returns what was written, and the disk
  holds it.
\<close>

theorem cache_write_read:
  assumes "bio_ok s" "held s = {}" "card (pinned s) < NBUF" "b < disksize s" "length d = BSIZE"
    and "\<forall>c \<in> set cs. c < disksize s"
  shows "returns (andthen (write_block b d) (andthen (foreach cs skim) (read_block b))) s
     (\<lambda>r t. r = d \<and> disk t b = d \<and> view t = (view s)(b := d))"
proof -
  have "returns (write_block b d) s (\<lambda>_ t. core t = writes b d (core s) \<and> bio_ok t \<and> view t = (view s)(b := d)
     \<and> held t = held s \<and> pinned t = pinned s - {b})"
    by (rule write_block_returns) (use assms in auto)
  then obtain t where t: "write_block b d s = Ok () t" "core t = writes b d (core s)" "bio_ok t" "view t = (view s)(b := d)"
     "held t = held s" "pinned t = pinned s - {b}" by (auto elim!: returnsE)
  have ds: "disksize t = disksize s" "disk t b = d"
    using arg_cong [OF t(2), of disksize] arg_cong [OF t(2), of disk] by (simp_all add: writes_def core_sel)
  have card: "card (pinned t) < NBUF"
    using assms(3) card_Diff1_le [of "pinned s" b] unfolding t(6) by linarith
  have "returns (foreach cs skim) t (\<lambda>_ u. core u = core t \<and> bio_ok u \<and> view u = view t
     \<and> held u = {} \<and> pinned u = pinned t)"
    by (rule reads_return) (use assms t ds card in auto)
  then obtain u where u: "foreach cs skim t = Ok () u" "core u = core t" "bio_ok u"
     "view u = view t" "held u = {}" "pinned u = pinned t" by (auto elim!: returnsE)
  have "returns (read_block b) u (\<lambda>d v. d = view u b \<and> core v = core u \<and> bio_ok v \<and> view v = view u \<and> held v = held u
     \<and> pinned v = pinned u)"
    by (rule read_block_returns) (use assms u ds card in \<open>auto simp: coreD [OF u(2)]\<close>)
  then obtain v where v: "read_block b u = Ok (view u b) v" "core v = core u" "view v = view u" by (auto elim!: returnsE)
  have "disk v b = d" using coreD [OF v(2)] coreD [OF u(2)] ds by simp
  then show ?thesis using t(1,4) u(1,4) v by (simp add: returns_def)
qed

text \<open>
  C5. The cache replaces the least recently used buffer: for a block that is in no buffer,
  \<open>bread\<close> takes the last buffer of the list that is neither held nor pinned and
  leaves the order alone, and \<open>brelse\<close> moves a buffer to the front.
\<close>

theorem lru_replacement:
  assumes "bio_ok s" "cache_list s (xs @ i # ys)"
  shows "(cached s b = None \<and> b < disksize s \<and> \<not> b_busy (bufs s ! i) \<and> \<not> b_dirty (bufs s ! i)
       \<and> (\<forall>j \<in> set ys. b_busy (bufs s ! j) \<or> b_dirty (bufs s ! j)) \<longrightarrow>
       returns (bread 1 b) s (\<lambda>j t. j = i \<and> cache_list t (xs @ i # ys) \<and> buf_for t i b \<and> b_data (bufs t ! i) = disk s b))
     \<and> (b_busy (bufs s ! i) \<longrightarrow> returns (brelse i) s (\<lambda>_ t. cache_list t (i # xs @ ys) \<and> \<not> b_busy (bufs t ! i)))"
proof (intro conjI impI)
  assume a: "cached s b = None \<and> b < disksize s \<and> \<not> b_busy (bufs s ! i) \<and> \<not> b_dirty (bufs s ! i)
       \<and> (\<forall>j \<in> set ys. b_busy (bufs s ! j) \<or> b_dirty (bufs s ! j))"
  have i: "i < NBUF" using assms(2) by (auto simp: cache_list_def)
  let ?P = "\<lambda>j. \<not> b_busy (bufs s ! j) \<and> \<not> b_dirty (bufs s ! j)"
  have "find ?P (rev ys) = None" using a by (auto simp: find_None_iff)
  then have v: "victim s (xs @ i # ys) = Some i" using a by (simp add: victim_def find_append_None)
  have "view s b = disk s b" using a by (simp add: view_def)
  moreover have "i < length (bufs s)" using i bio_length [OF assms(1)] by simp
  ultimately show "returns (bread 1 b) s (\<lambda>j t. j = i \<and> cache_list t (xs @ i # ys) \<and> buf_for t i b \<and> b_data (bufs t ! i) = disk s b)"
    using bread_miss [OF assms _ v] a i assms(2)
    by (simp add: returns_def bread_state_def buf_for_def cache_list_set_buf)
next
  assume busy: "b_busy (bufs s ! i)"
  have i: "i < NBUF" using assms(2) by (auto simp: cache_list_def)
  have "i \<notin> set xs" using assms(2) by (auto simp: cache_list_def dll_def)
  then have r: "remove1 i (xs @ i # ys) = xs @ ys" by (simp add: remove1_append)
  from brelse_ok [OF assms i busy] obtain bs where bs: "brelse i s = Ok () (wake_all (Some (Ch_buf i)) ((touch s)\<lparr>bufs := bs\<rparr>))"
    "cache_list (s\<lparr>bufs := bs\<rparr>) (i # xs @ ys)" "map strip bs = (map strip (bufs s))[i := strip ((bufs s ! i)\<lparr>b_busy := False\<rparr>)]"
    unfolding r by blast
  have "length bs = Suc NBUF" using bs(2) by (simp add: cache_list_def)
  then have "strip (bs ! i) = strip ((bufs s ! i)\<lparr>b_busy := False\<rparr>)"
    using arg_cong [OF bs(3), of "\<lambda>l. l ! i"] i bio_length [OF assms(1)] by simp
  then have "b_busy (bs ! i) = b_busy ((bufs s ! i)\<lparr>b_busy := False\<rparr>)" by (rule stripD)
  then have "\<not> b_busy (bs ! i)" by simp
  then show "returns (brelse i) s (\<lambda>_ t. cache_list t (i # xs @ ys) \<and> \<not> b_busy (bufs t ! i))"
    using bs by (simp add: returns_def cache_list_def nx_def [abs_def] pv_def [abs_def])
qed

section \<open>A concrete cache\<close>

text \<open>The cache right after its initialisation, over a blank disk.\<close>

definition bio_boot :: kernel where
  "bio_boot = (case binit boot0 of Ok _ t \<Rightarrow> t | _ \<Rightarrow> boot0)"

lemma bio_boot_facts:
  "bio_ok bio_boot" "view bio_boot = disk boot0" "held bio_boot = {}" "pinned bio_boot = {}"
  "disksize bio_boot = 1000" "cache_list bio_boot (rev [0..<NBUF])" "binit_frame boot0 bio_boot"
  "cached bio_boot b = None"
proof -
  have "returns binit boot0 (\<lambda>_ t. bio_ok t \<and> view t = disk boot0 \<and> held t = {} \<and> pinned t = {}
     \<and> binit_frame boot0 t \<and> cache_list t (rev [0..<NBUF]) \<and> (\<forall>b. cached t b = None))"
    by (rule binit_returns)
      (simp_all add: boot0_def boot_kernel_def zero_defs bufs_unused_def lock_free_def cpu_ok_def mycpu_def
        del: replicate_Suc)
  then obtain t where t: "binit boot0 = Ok () t" "bio_ok t" "view t = disk boot0" "held t = {}" "pinned t = {}"
     "binit_frame boot0 t" "cache_list t (rev [0..<NBUF])" "\<forall>b. cached t b = None"
    unfolding returns_iff by (elim exE conjE) simp
  have "bio_boot = t" using t(1) by (simp add: bio_boot_def)
  then show "bio_ok bio_boot" "view bio_boot = disk boot0" "held bio_boot = {}" "pinned bio_boot = {}"
    "cache_list bio_boot (rev [0..<NBUF])" "binit_frame boot0 bio_boot"
    "cached bio_boot b = None"
    using t by simp_all
  then have "disksize bio_boot = disksize boot0" by (intro binit_frameD)
  then show "disksize bio_boot = 1000" by (simp add: boot0_def boot_kernel_def)
qed

lemma cache_write_read_witness:
  "returns (andthen (write_block 7 (replicate BSIZE 65)) (andthen (foreach [1, 2, 3] skim) (read_block 7))) bio_boot
     (\<lambda>r t. r = replicate BSIZE 65 \<and> disk t 7 = replicate BSIZE 65 \<and> view t = (view bio_boot)(7 := replicate BSIZE 65))"
  by (rule cache_write_read) (simp_all add: bio_boot_facts NBUF_def MAXOPBLOCKS_def)

lemma lru_replacement_witness:
  "returns (bread 1 7) bio_boot (\<lambda>j t. j = 0 \<and> cache_list t (rev [1..<NBUF] @ [0]) \<and> buf_for t 0 7 \<and> b_data (bufs t ! 0) = disk bio_boot 7)"
proof -
  have "[0..<NBUF] = 0 # [1..<NBUF]" by (subst upt_conv_Cons) (simp_all add: NBUF_def MAXOPBLOCKS_def)
  then have c: "cache_list bio_boot (rev [1..<NBUF] @ 0 # [])" using bio_boot_facts(6) by simp
  have n: "(0 :: nat) < NBUF" by (simp add: NBUF_def MAXOPBLOCKS_def)
  have free: "\<not> b_busy (bufs bio_boot ! 0)" "\<not> b_dirty (bufs bio_boot ! 0)"
    using bio_boot_facts(3,4) n by (auto simp: held_def pinned_def)
  show ?thesis
    using lru_replacement [OF bio_boot_facts(1) c, of 7] free bio_boot_facts(5,8) by simp
qed

end
