(* ===== verification/Log.thy ===== *)
theory Log
  imports Bio_Cache
begin

text \<open>
  \<^verbatim>\<open>log.c\<close>: file system calls write blocks through a redo log, so that a crash
  leaves all the writes of a transaction on the disk or none. Structures on disk are read
  out of and stored into the bytes of a block with \<open>get32\<close> and \<open>put32\<close>.
\<close>

section \<open>On-disk structures\<close>

text \<open>\<open>readsb\<close> of \<^verbatim>\<open>fs.c\<close>: the super block is block 1.\<close>

definition sb_of :: "byte list \<Rightarrow> superblock" where
  "sb_of d = \<lparr>sb_size = get32 d 0, sb_nblocks = get32 d 4, sb_ninodes = get32 d 8, sb_nlog = get32 d 12,
     sb_logstart = get32 d 16, sb_inodestart = get32 d 20, sb_bmapstart = get32 d 24\<rparr>"

definition readsb :: "uint32 \<Rightarrow> superblock kroutine" where
  "readsb dev =
    bind (bread dev 1) (\<lambda>bp.
    bind (gets (\<lambda>s. sb_of (b_data (bufs s ! bp)))) (\<lambda>sb.
    andthen (brelse bp)
    (return sb)))"

text \<open>\<open>struct logheader\<close> at the start of a block: \<open>n\<close> and then the block numbers.\<close>

definition head_n :: "byte list \<Rightarrow> int" where
  "head_n d = sint (get32 d 0)"

definition head_block :: "byte list \<Rightarrow> nat \<Rightarrow> uint32" where
  "head_block d i = get32 d (4 + 4 * i)"

definition put_head :: "int \<Rightarrow> uint32 list \<Rightarrow> byte list \<Rightarrow> byte list" where
  "put_head n bs d = fold (\<lambda>i d. put32 d (4 + 4 * i) (bs ! i)) [0..<nat n] (put32 d 0 (of_int n))"

section \<open>The log\<close>

text \<open>The address of log block \<open>tail\<close>, after the header block.\<close>

definition log_block :: "kernel \<Rightarrow> nat \<Rightarrow> uint32" where
  "log_block s tail = log_start s + of_nat tail + 1"

definition install_trans :: "unit kroutine" where
  "install_trans =
    bind (gets lh_n) (\<lambda>n.
    foreach [0..<nat n] (\<lambda>tail.
      bind (gets (\<lambda>s. log_block s tail)) (\<lambda>lb.
      bind (gets log_dev) (\<lambda>dev.
      bind (bread dev lb) (\<lambda>lbuf.
      bind (gets (\<lambda>s. lh_block s ! tail)) (\<lambda>db.
      bind (bread dev db) (\<lambda>dbuf.
      bind (gets (\<lambda>s. b_data (bufs s ! lbuf))) (\<lambda>d.
      andthen (modify (set_data dbuf d))
      (andthen (bwrite dbuf)
      (andthen (brelse lbuf)
      (brelse dbuf)))))))))))"

text \<open>The header is copied without a check of \<open>n\<close>: more than \<open>LOGSIZE\<close> entries overrun
  the array in memory.\<close>

definition read_head :: "unit kroutine" where
  "read_head =
    bind (gets log_dev) (\<lambda>dev.
    bind (gets log_start) (\<lambda>start.
    bind (bread dev start) (\<lambda>b.
    bind (gets (\<lambda>s. b_data (bufs s ! b))) (\<lambda>d.
    andthen (modify (\<lambda>s. s\<lparr>lh_n := head_n d\<rparr>))
    (if head_n d > LOGSIZE then fault ''log.lh.block''
     else andthen (foreach [0..<nat (head_n d)] (\<lambda>i. modify (\<lambda>s. s\<lparr>lh_block := (lh_block s)[i := head_block d i]\<rparr>)))
       (brelse b))))))"

definition write_head :: "unit kroutine" where
  "write_head =
    bind (gets log_dev) (\<lambda>dev.
    bind (gets log_start) (\<lambda>start.
    bind (bread dev start) (\<lambda>b.
    bind (gets (\<lambda>s. put_head (lh_n s) (lh_block s) (b_data (bufs s ! b)))) (\<lambda>d.
    andthen (modify (set_data b d))
    (andthen (bwrite b)
    (brelse b))))))"

definition recover_from_log :: "unit kroutine" where
  "recover_from_log =
    andthen read_head
    (andthen install_trans
    (andthen (modify (\<lambda>s. s\<lparr>lh_n := 0\<rparr>))
    write_head))"

text \<open>A log header has 124 bytes, less than a block.\<close>

definition initlog :: "uint32 \<Rightarrow> unit kroutine" where
  "initlog dev =
    andthen (panic_if (4 + 4 * nat LOGSIZE \<ge> BSIZE) ''initlog: too big logheader'')
    (andthen (initlock L_log ''log'')
    (bind (readsb dev) (\<lambda>sb.
    andthen (modify (\<lambda>s. s\<lparr>log_start := sb_logstart sb\<rparr>))
    (andthen (modify (\<lambda>s. s\<lparr>log_size := sint (sb_nlog sb)\<rparr>))
    (andthen (modify (\<lambda>s. s\<lparr>log_dev := dev\<rparr>))
    recover_from_log)))))"

text \<open>\<open>begin_op\<close> from the head of its loop, with the lock of the log held.\<close>

definition begin_op_loop :: "unit kroutine" where
  "begin_op_loop = (\<lambda>s.
    if log_committing s then sleep_again Ch_log L_log s
    else if lh_n s + (log_outstanding s + 1) * MAXOPBLOCKS > LOGSIZE then sleep_again Ch_log L_log s
    else andthen (modify (\<lambda>s. s\<lparr>log_outstanding := log_outstanding s + 1\<rparr>)) (release L_log) s)"

definition begin_op :: "unit kroutine" where
  "begin_op = andthen (acquire L_log) begin_op_loop"

definition write_log :: "unit kroutine" where
  "write_log =
    bind (gets lh_n) (\<lambda>n.
    foreach [0..<nat n] (\<lambda>tail.
      bind (gets (\<lambda>s. log_block s tail)) (\<lambda>lb.
      bind (gets log_dev) (\<lambda>dev.
      bind (bread dev lb) (\<lambda>to.
      bind (gets (\<lambda>s. lh_block s ! tail)) (\<lambda>cb.
      bind (bread dev cb) (\<lambda>from.
      bind (gets (\<lambda>s. b_data (bufs s ! from))) (\<lambda>d.
      andthen (modify (set_data to d))
      (andthen (bwrite to)
      (andthen (brelse from)
      (brelse to)))))))))))"

definition commit :: "unit kroutine" where
  "commit =
    bind (gets lh_n) (\<lambda>n.
    do_if (n > 0)
      (andthen write_log
      (andthen write_head
      (andthen install_trans
      (andthen (modify (\<lambda>s. s\<lparr>lh_n := 0\<rparr>))
      write_head)))))"

definition end_op :: "unit kroutine" where
  "end_op =
    andthen (acquire L_log)
    (andthen (modify (\<lambda>s. s\<lparr>log_outstanding := log_outstanding s - 1\<rparr>))
    (bind (gets log_committing) (\<lambda>c.
    andthen (panic_if c ''log.committing'')
    (bind (gets log_outstanding) (\<lambda>n.
    andthen (if n = 0 then modify (\<lambda>s. s\<lparr>log_committing := True\<rparr>) else wakeup Ch_log)
    (andthen (release L_log)
    (do_if (n = 0)
      (andthen commit
      (andthen (acquire L_log)
      (andthen (modify (\<lambda>s. s\<lparr>log_committing := False\<rparr>))
      (andthen (wakeup Ch_log)
      (release L_log))))))))))))"

text \<open>The index at which the loop of \<open>log_write\<close> stops: that of the block, or \<open>log.lh.n\<close>.\<close>

definition log_slot :: "kernel \<Rightarrow> uint32 \<Rightarrow> nat" where
  "log_slot s b = (case find (\<lambda>i. lh_block s ! i = b) [0..<nat (lh_n s)] of Some i \<Rightarrow> i | None \<Rightarrow> nat (lh_n s))"

definition log_write :: "nat \<Rightarrow> unit kroutine" where
  "log_write b =
    bind (gets (\<lambda>s. lh_n s \<ge> LOGSIZE \<or> lh_n s \<ge> log_size s - 1)) (\<lambda>full.
    andthen (panic_if full ''too big a transaction'')
    (bind (gets (\<lambda>s. log_outstanding s < 1)) (\<lambda>outside.
    andthen (panic_if outside ''log_write outside of trans'')
    (andthen (acquire L_log)
    (bind (gets (\<lambda>s. log_slot s (b_blockno (bufs s ! b)))) (\<lambda>i.
    andthen (modify (\<lambda>s. s\<lparr>lh_block := (lh_block s)[i := b_blockno (bufs s ! b)]\<rparr>))
    (andthen (modify (\<lambda>s. if int i = lh_n s then s\<lparr>lh_n := lh_n s + 1\<rparr> else s))
    (andthen (modify (pin b))
    (release L_log)))))))))"

section \<open>The log header\<close>

lemma put_heads:
  assumes "4 + 4 * k \<le> length d"
  shows "length (fold (\<lambda>i d. put32 d (4 + 4 * i) (bs ! i)) [0..<k] d) = length d"
    "get32 (fold (\<lambda>i d. put32 d (4 + 4 * i) (bs ! i)) [0..<k] d) 0 = get32 d 0"
    "j < k \<Longrightarrow> get32 (fold (\<lambda>i d. put32 d (4 + 4 * i) (bs ! i)) [0..<k] d) (4 + 4 * j) = bs ! j"
  using assms
proof (induction k arbitrary: j)
  case 0
  {
    case 1 then show ?case by simp
  next
    case 2 then show ?case by simp
  next
    case 3 then show ?case by simp
  }
next
  case (Suc k)
  let ?e = "fold (\<lambda>i d. put32 d (4 + 4 * i) (bs ! i)) [0..<k] d"
  {
    case 1
    then show ?case using Suc.IH(1) by simp
  next
    case 2
    have "get32 (put32 ?e (4 + 4 * k) (bs ! k)) 0 = get32 ?e 0" by (rule get32_put32_other) simp
    then show ?case using Suc.IH(2) 2 by simp
  next
    case 3
    have len: "length ?e = length d" using Suc.IH(1) 3 by simp
    show ?case
    proof (cases "j = k")
      case True
      then show ?thesis using 3 len by simp
    next
      case False
      then have "get32 (put32 ?e (4 + 4 * k) (bs ! k)) (4 + 4 * j) = get32 ?e (4 + 4 * j)"
        using 3 by (intro get32_put32_other) simp
      then show ?thesis using Suc.IH(3) [of j] 3 False by simp
    qed
  }
qed

lemma sint_of_int_small: "- (2 ^ 31) \<le> n \<Longrightarrow> n < 2 ^ 31 \<Longrightarrow> sint (of_int n :: uint32) = n"
  by (simp add: sint_sbintrunc' signed_take_bit_int_eq_self_iff)

lemma put_head_facts:
  assumes "length d = BSIZE" "0 \<le> n" "n \<le> LOGSIZE"
  shows "length (put_head n bs d) = BSIZE" "head_n (put_head n bs d) = n"
    "i < nat n \<Longrightarrow> head_block (put_head n bs d) i = bs ! i"
proof -
  have b: "4 + 4 * nat n \<le> length (put32 d 0 (of_int n))" using assms by (simp add: layout_simps)
  show "length (put_head n bs d) = BSIZE" using put_heads(1) [OF b] assms by (simp add: put_head_def)
  show "head_n (put_head n bs d) = n"
    using put_heads(2) [OF b] assms by (simp add: put_head_def head_n_def sint_of_int_small layout_simps)
  show "i < nat n \<Longrightarrow> head_block (put_head n bs d) i = bs ! i"
    using put_heads(3) [OF b] by (simp add: put_head_def head_block_def)
qed

section \<open>Sequences of disk writes\<close>

definition apply_writes :: "(uint32 \<times> byte list) list \<Rightarrow> (uint32 \<Rightarrow> byte list) \<Rightarrow> uint32 \<Rightarrow> byte list" where
  "apply_writes ws d = fold (\<lambda>(b, x) d. d(b := x)) ws d"

definition writes_all :: "(uint32 \<times> byte list) list \<Rightarrow> kernel \<Rightarrow> kernel" where
  "writes_all ws s = s\<lparr>disk := apply_writes ws (disk s), dwrites := dwrites s @ ws\<rparr>"

lemma apply_writes_simps [simp]:
  "apply_writes [] d = d" "apply_writes ((b, x) # ws) d = apply_writes ws (d(b := x))"
  "apply_writes (ws @ vs) d = apply_writes vs (apply_writes ws d)"
  by (simp_all add: apply_writes_def)

lemma writes_all_nil [simp]: "writes_all [] s = s"
  by (simp add: writes_all_def)

lemma writes_all_writes: "writes b x (writes_all ws s) = writes_all (ws @ [(b, x)]) s"
  by (simp add: writes_all_def writes_def)

lemma writes_all_append: "writes_all vs (writes_all ws s) = writes_all (ws @ vs) s"
  by (simp add: writes_all_def)

lemma apply_writes_other: "b \<notin> fst ` set ws \<Longrightarrow> apply_writes ws d b = d b"
  by (induction ws arbitrary: d) auto

lemma apply_writes_nth:
  assumes "distinct (map fst ws)" "i < length ws"
  shows "apply_writes ws d (fst (ws ! i)) = snd (ws ! i)"
  using assms
proof (induction ws arbitrary: d i)
  case (Cons w ws)
  obtain b x where w: "w = (b, x)" by force
  show ?case
  proof (cases i)
    case 0
    have "b \<notin> fst ` set ws" using Cons.prems(1) w by auto
    then show ?thesis using 0 w apply_writes_other [of b ws "d(b := x)"] by simp
  next
    case (Suc j)
    then show ?thesis using Cons w by simp
  qed
qed simp

lemma apply_writes_length:
  assumes "\<forall>b. length (d b) = n" "\<forall>x \<in> set ws. length (snd x) = n"
  shows "length (apply_writes ws d b) = n"
  using assms
proof (induction ws arbitrary: d)
  case (Cons w ws)
  obtain c x where "w = (c, x)" by force
  moreover from this Cons.prems have "\<forall>b. length ((d(c := x)) b) = n" by simp
  ultimately show ?case using Cons by simp
qed simp

section \<open>Updating a block\<close>

context block_cache
begin

text \<open>Read, modify and write back: the new content may depend on the rest of the state.\<close>

lemma update_block:
  assumes "bio_ok s" "b < disksize s" "b \<notin> held s" "b \<in> pinned s \<or> card (held s \<union> pinned s) < NBUF"
    and f: "\<And>t. core t = core s \<Longrightarrow> f t = f s" and len: "length (f s (view s b)) = BSIZE"
  shows "returns (bind (get b) (\<lambda>i. bind (gets (\<lambda>t. f t (b_data (bufs t ! i)))) (\<lambda>d. andthen (put i d) (give i)))) s
     (\<lambda>_ t. core t = writes b (f s (view s b)) (core s) \<and> bio_ok t \<and> view t = (view s)(b := f s (view s b))
        \<and> held t = held s \<and> pinned t = pinned s - {b})"
proof -
  from get_law [OF assms(1-4)] obtain i t where t: "get b s = Ok i t" "core t = core s" "bio_ok t" "buf_for t i b"
    "b_data (bufs t ! i) = view s b" "view t = view s" "held t = insert b (held s)" "pinned t = pinned s"
    by (auto elim!: returnsE)
  let ?d = "f s (view s b)"
  have d: "f t (b_data (bufs t ! i)) = ?d" using f [OF t(2)] t(5) by simp
  from put_law [OF t(3,4) len] obtain u where u: "put i ?d t = Ok () u" "core u = writes b ?d (core t)" "bio_ok u"
    "buf_for u i b" "view u = (view t)(b := ?d)" "held u = held t" "pinned u = pinned t - {b}" by (auto elim!: returnsE)
  have "view u b = disk u b"
    using arg_cong [OF u(2), of disk] u(5) by (simp add: writes_def core_sel)
  then obtain v where "give i u = Ok () v" "core v = core u" "bio_ok v" "view v = view u"
    "held v = held u - {b}" "pinned v = pinned u" using give_law [OF u(3,4)] by (auto elim!: returnsE)
  then show ?thesis using t u d assms(3) by (auto simp: returns_def)
qed

end

section \<open>Geometry of the log\<close>

definition log_geom :: "kernel \<Rightarrow> bool" where
  "log_geom s \<longleftrightarrow> log_dev s = 1 \<and> 2 \<le> log_size s \<and> log_size s \<le> LOGSIZE
     \<and> unat (log_start s) + nat (log_size s) \<le> unat (disksize s)"

definition log_area :: "kernel \<Rightarrow> uint32 set" where
  "log_area s = {b. unat (log_start s) \<le> unat b \<and> unat b < unat (log_start s) + nat (log_size s)}"

text \<open>The blocks of the current transaction, in the order in which they were logged.\<close>

definition txn :: "kernel \<Rightarrow> uint32 list" where
  "txn s = take (nat (lh_n s)) (lh_block s)"

definition trans_ok :: "kernel \<Rightarrow> bool" where
  "trans_ok s \<longleftrightarrow> 0 \<le> lh_n s \<and> lh_n s < log_size s \<and> length (lh_block s) = nat LOGSIZE \<and> distinct (txn s)
     \<and> (\<forall>b \<in> set (txn s). b < disksize s \<and> b \<notin> log_area s)"

lemma log_core:
  assumes "core t = core s"
  shows "log_geom t = log_geom s" "log_area t = log_area s" "txn t = txn s" "trans_ok t = trans_ok s"
    "log_block t i = log_block s i"
  using coreD [OF assms] by (simp_all add: log_geom_def log_area_def txn_def trans_ok_def log_block_def)

lemma length_trans: "log_geom s \<Longrightarrow> trans_ok s \<Longrightarrow> length (txn s) = nat (lh_n s)"
  by (simp add: trans_ok_def log_geom_def txn_def)

lemma nth_trans: "log_geom s \<Longrightarrow> trans_ok s \<Longrightarrow> i < nat (lh_n s) \<Longrightarrow> lh_block s ! i = txn s ! i"
  by (simp add: txn_def)

lemma log_geomE:
  assumes "log_geom s"
  obtains m where "log_size s = int m" "2 \<le> m" "unat (log_start s) + m \<le> unat (disksize s)" "m \<le> nat LOGSIZE"
proof -
  have a: "2 \<le> log_size s" "log_size s \<le> LOGSIZE" "unat (log_start s) + nat (log_size s) \<le> unat (disksize s)"
    using assms by (simp_all add: log_geom_def)
  show ?thesis
  proof (rule that [of "nat (log_size s)"])
    show "log_size s = int (nat (log_size s))" "2 \<le> nat (log_size s)" using a(1) by linarith+
    show "nat (log_size s) \<le> nat LOGSIZE" using a(2) by (rule nat_mono)
  qed (rule a(3))
qed

lemma log_block_facts:
  assumes g: "log_geom s" and i: "int i < log_size s - 1"
  shows "unat (log_block s i) = unat (log_start s) + i + 1" "log_block s i \<in> log_area s" "log_block s i < disksize s"
    "log_block s i \<noteq> log_start s"
proof -
  obtain m where m: "log_size s = int m" "2 \<le> m" "unat (log_start s) + m \<le> unat (disksize s)" by (rule log_geomE [OF g])
  then have im: "i + 1 < m" using i by linarith
  then have b: "unat (log_start s) + i + 1 < 2 ^ 32"
    using m unat_lt_2p32 [of "disksize s"] by linarith
  then have "i + 1 < 2 ^ 32" by linarith
  then have "unat (of_nat (i + 1) :: uint32) = i + 1" by (simp only: unat_of_nat) simp
  moreover have "log_block s i = log_start s + of_nat (i + 1)" by (simp add: log_block_def)
  ultimately show u: "unat (log_block s i) = unat (log_start s) + i + 1"
    using b by (simp only: unat_word_ariths) simp
  show "log_block s i \<in> log_area s" using u m im by (simp add: log_area_def)
  show "log_block s i < disksize s" using u m im by (simp add: word_less_nat_alt)
  show "log_block s i \<noteq> log_start s" using u by auto
qed

lemma log_block_inj:
  assumes "log_geom s" "int i < log_size s - 1" "int j < log_size s - 1" "log_block s i = log_block s j"
  shows "i = j"
proof -
  have "unat (log_block s i) = unat (log_block s j)" unfolding assms(4) ..
  then show ?thesis
    unfolding log_block_facts(1) [OF assms(1,2)] log_block_facts(1) [OF assms(1,3)] by simp
qed

lemma log_start_area:
  assumes "log_geom s"
  shows "log_start s \<in> log_area s" "log_start s < disksize s"
  by (rule log_geomE [OF assms], simp add: log_area_def word_less_nat_alt)+

section \<open>The parts of a commit\<close>

lemma card_trans:
  assumes "log_geom s" "trans_ok s" "P \<subseteq> set (txn s)"
  shows "card P < NBUF"
proof -
  have "card P \<le> length (txn s)" using assms(3) card_mono [of "set (txn s)" P] card_length [of "txn s"] by force
  also have "\<dots> < NBUF"
    using length_trans [OF assms(1,2)] assms(1,2) by (auto simp: trans_ok_def log_geom_def layout_simps)
  finally show ?thesis .
qed

lemma write_head_returns:
  assumes inv: "bio_ok s" "held s = {}" "log_geom s" "trans_ok s" "pinned s \<subseteq> set (txn s)"
    and n: "0 \<le> lh_n s" "lh_n s \<le> LOGSIZE"
  shows "returns write_head s (\<lambda>_ t. core t = writes (log_start s) (put_head (lh_n s) (lh_block s) (view s (log_start s))) (core s)
     \<and> bio_ok t \<and> view t = (view s)(log_start s := put_head (lh_n s) (lh_block s) (view s (log_start s)))
     \<and> held t = {} \<and> pinned t = pinned s)"
proof -
  let ?f = "\<lambda>t. put_head (lh_n t) (lh_block t)"
  have card: "card (held s \<union> pinned s) < NBUF" using card_trans [OF inv(3-5)] inv(2) by simp
  have "returns (bind (bread 1 (log_start s)) (\<lambda>i. bind (gets (\<lambda>t. ?f t (b_data (bufs t ! i)))) (\<lambda>d. andthen (store_block i d) (brelse i)))) s
     (\<lambda>_ t. core t = writes (log_start s) (?f s (view s (log_start s))) (core s) \<and> bio_ok t
        \<and> view t = (view s)(log_start s := ?f s (view s (log_start s))) \<and> held t = held s \<and> pinned t = pinned s - {log_start s})"
  proof (rule bcache.update_block [OF inv(1) log_start_area(2) [OF inv(3)]])
    show "?f t = ?f s" if "core t = core s" for t using coreD [OF that] by simp
    show "length (?f s (view s (log_start s))) = BSIZE" using inv(1) n by (simp add: put_head_facts)
  qed (use inv(2) card in simp_all)
  moreover have "log_start s \<notin> pinned s" using inv(4,5) log_start_area [OF inv(3)] by (auto simp: trans_ok_def)
  ultimately show ?thesis
    using inv(2,3) by (simp add: write_head_def store_block_def andthen_assoc log_geom_def returns_bind)
qed

text \<open>Holding two blocks.\<close>

lemma bread_two:
  assumes inv: "bio_ok s" "held s = {}" and a: "a < disksize s" "b < disksize s" "a \<noteq> b"
    and room: "card (pinned s) < NBUF" "b \<in> pinned s \<or> card (insert a (pinned s)) < NBUF"
  shows "\<exists>i t j u. bread 1 a s = Ok i t \<and> core t = core s \<and> bread 1 b t = Ok j u \<and> core u = core s \<and> bio_ok u
    \<and> buf_for u i a \<and> buf_for u j b \<and> b_data (bufs u ! i) = view s a \<and> b_data (bufs u ! j) = view s b
    \<and> view u = view s \<and> held u = {a, b} \<and> pinned u = pinned s"
proof -
  have "a \<notin> held s" "a \<in> pinned s \<or> card (held s \<union> pinned s) < NBUF" using inv room by simp_all
  from bcache.get_law [OF inv(1) a(1) this] obtain i t where t: "bread 1 a s = Ok i t" "core t = core s" "bio_ok t" "buf_for t i a"
    "b_data (bufs t ! i) = view s a" "view t = view s" "held t = insert a (held s)" "pinned t = pinned s"
    by (auto elim!: returnsE)
  have "b < disksize t" "b \<notin> held t" "b \<in> pinned t \<or> card (held t \<union> pinned t) < NBUF"
    using t a inv room coreD [OF t(2)] by simp_all
  from bcache.get_law [OF t(3) this] obtain j u where u: "bread 1 b t = Ok j u" "core u = core t" "bio_ok u" "buf_for u j b"
    "b_data (bufs u ! j) = view t b" "view u = view t" "held u = insert b (held t)" "pinned u = pinned t" "keeps_bufs t NBUF u"
    by (auto elim!: returnsE)
  have ui: "buf_for u i a \<and> b_data (bufs u ! i) = b_data (bufs t ! i)"
    by (rule keeps_bufsD [OF u(9) t(4)]) (use t(4) in \<open>simp add: buf_for_def\<close>)
  show ?thesis
    by (rule exI [of _ i], rule exI [of _ t], rule exI [of _ j], rule exI [of _ u])
      (use t u ui inv(2) in \<open>auto simp: insert_commute\<close>)
qed

lemma write_log_body:
  assumes inv: "bio_ok s" "held s = {}" and a: "to < disksize s" "from < disksize s" "to \<noteq> from"
    and room: "card (pinned s) < NBUF" "from \<in> pinned s \<or> card (insert to (pinned s)) < NBUF"
    and g: "\<And>t. core t = core s \<Longrightarrow> g t = from"
  shows "returns (bind (bread 1 to) (\<lambda>i. bind (gets g) (\<lambda>c. bind (bread 1 c) (\<lambda>j. bind (gets (\<lambda>s. b_data (bufs s ! j))) (\<lambda>d.
      andthen (modify (set_data i d)) (andthen (bwrite i) (andthen (brelse j) (brelse i)))))))) s
     (\<lambda>_ t. core t = writes to (view s from) (core s) \<and> bio_ok t \<and> view t = (view s)(to := view s from) \<and> held t = {}
        \<and> pinned t = pinned s - {to})"
proof -
  from bread_two [OF inv a room] obtain i t j u where t: "core t = core s"
    and u: "bread 1 to s = Ok i t" "bread 1 from t = Ok j u" "core u = core s"
    "bio_ok u" "buf_for u i to" "buf_for u j from" "b_data (bufs u ! j) = view s from" "view u = view s"
    "held u = {to, from}" "pinned u = pinned s" by blast
  have "returns (andthen (store_block i (view s from)) (andthen (brelse j) (brelse i))) u
     (\<lambda>_ w. core w = writes to (view s from) (core s) \<and> bio_ok w \<and> view w = (view s)(to := view s from) \<and> held w = held s
        \<and> pinned w = pinned s - {to})"
    by (rule bcache.copy_block) (use inv a u in auto)
  then show ?thesis using u inv(2) g [OF t] by (simp add: store_block_def andthen_assoc returns_def)
qed

lemma install_body:
  assumes inv: "bio_ok s" "held s = {}" and a: "from < disksize s" "to < disksize s" "from \<noteq> to"
    and room: "card (pinned s) < NBUF" "to \<in> pinned s \<or> card (insert from (pinned s)) < NBUF"
    and g: "\<And>t. core t = core s \<Longrightarrow> g t = to"
  shows "returns (bind (bread 1 from) (\<lambda>j. bind (gets g) (\<lambda>c. bind (bread 1 c) (\<lambda>i. bind (gets (\<lambda>s. b_data (bufs s ! j))) (\<lambda>d.
      andthen (modify (set_data i d)) (andthen (bwrite i) (andthen (brelse j) (brelse i)))))))) s
     (\<lambda>_ t. core t = writes to (view s from) (core s) \<and> bio_ok t \<and> view t = (view s)(to := view s from) \<and> held t = {}
        \<and> pinned t = pinned s - {to})"
proof -
  from bread_two [OF inv a room] obtain j t i u where t: "core t = core s"
    and u: "bread 1 from s = Ok j t" "bread 1 to t = Ok i u" "core u = core s"
    "bio_ok u" "buf_for u j from" "buf_for u i to" "b_data (bufs u ! j) = view s from" "view u = view s"
    "held u = {from, to}" "pinned u = pinned s" by blast
  have "returns (andthen (store_block i (view s from)) (andthen (brelse j) (brelse i))) u
     (\<lambda>_ w. core w = writes to (view s from) (core s) \<and> bio_ok w \<and> view w = (view s)(to := view s from) \<and> held w = held s
        \<and> pinned w = pinned s - {to})"
    by (rule bcache.copy_block) (use inv a u in auto)
  then show ?thesis using u inv(2) g [OF t] by (simp add: store_block_def andthen_assoc returns_def)
qed

text \<open>The writes of \<open>write_log\<close> and of \<open>install_trans\<close>, in order.\<close>

definition log_writes :: "kernel \<Rightarrow> (uint32 \<times> byte list) list" where
  "log_writes s = map (\<lambda>i. (log_block s i, view s (txn s ! i))) [0..<nat (lh_n s)]"

definition home_writes :: "kernel \<Rightarrow> (uint32 \<times> byte list) list" where
  "home_writes s = map (\<lambda>i. (txn s ! i, view s (log_block s i))) [0..<nat (lh_n s)]"

lemma take_Suc_map_upt: "k < n \<Longrightarrow> take (Suc k) (map f [0..<n]) = take k (map f [0..<n]) @ [f k]"
  by (simp add: take_Suc_conv_app_nth)

lemma core_writes: "core t = writes_all ws (core s) \<Longrightarrow> core (t\<lparr>disk := disk s, dwrites := dwrites s\<rparr>) = core s"
  by (simp add: writes_all_def) (simp add: core_def)

lemma writes_allD:
  assumes "core t = writes_all ws (core s)"
  shows "log_dev t = log_dev s" "log_start t = log_start s" "log_size t = log_size s" "disksize t = disksize s"
    "lh_n t = lh_n s" "lh_block t = lh_block s" "disk t = apply_writes ws (disk s)" "dwrites t = dwrites s @ ws"
    "log_block t i = log_block s i" "txn t = txn s" "log_geom t = log_geom s" "trans_ok t = trans_ok s"
    "log_area t = log_area s" "sb t = sb s"
proof -
  have e: "\<And>f. f (core t) = f (writes_all ws (core s))" using assms by simp
  show b: "log_dev t = log_dev s" "log_start t = log_start s" "log_size t = log_size s" "disksize t = disksize s"
    "lh_n t = lh_n s" "lh_block t = lh_block s" "disk t = apply_writes ws (disk s)" "dwrites t = dwrites s @ ws" "sb t = sb s"
    using e [of log_dev] e [of log_start] e [of log_size] e [of disksize] e [of lh_n] e [of lh_block] e [of disk] e [of dwrites]
      e [of sb]
    by (simp_all add: writes_all_def core_sel)
  show "log_block t i = log_block s i" "txn t = txn s" using b by (simp_all add: log_block_def txn_def)
  then show "log_geom t = log_geom s" "trans_ok t = trans_ok s" "log_area t = log_area s"
    using b by (simp_all add: log_geom_def trans_ok_def log_area_def)
qed

lemma write_log_returns:
  assumes inv: "bio_ok s" "held s = {}" "log_geom s" "trans_ok s" "pinned s = set (txn s)"
  shows "returns write_log s (\<lambda>_ t. core t = writes_all (log_writes s) (core s) \<and> bio_ok t
     \<and> view t = apply_writes (log_writes s) (view s) \<and> held t = {} \<and> pinned t = pinned s)"
proof -
  let ?n = "nat (lh_n s)"
  let ?I = "\<lambda>k t. core t = writes_all (take k (log_writes s)) (core s) \<and> bio_ok t
     \<and> view t = apply_writes (take k (log_writes s)) (view s) \<and> held t = {} \<and> pinned t = pinned s"
  let ?body = "\<lambda>tail. bind (gets (\<lambda>s. log_block s tail)) (\<lambda>lb. bind (gets log_dev) (\<lambda>dev. bind (bread dev lb) (\<lambda>to.
      bind (gets (\<lambda>s. lh_block s ! tail)) (\<lambda>cb. bind (bread dev cb) (\<lambda>from.
      bind (gets (\<lambda>s. b_data (bufs s ! from))) (\<lambda>d. andthen (modify (set_data to d))
      (andthen (bwrite to) (andthen (brelse from) (brelse to)))))))))"
  have step: "returns (?body k) t (\<lambda>_ u. ?I (Suc k) u)" if k: "k < ?n" and t: "?I k t" for k t
  proof -
    note tD = writes_allD [OF conjunct1 [OF t]]
    have kl: "int k < log_size s - 1" using k inv(4) unfolding trans_ok_def by linarith
    note lb = log_block_facts [OF inv(3) kl]
    have tr: "txn s ! k \<in> set (txn s)" using k length_trans [OF inv(3,4)] by simp
    then have c: "txn s ! k < disksize s" "txn s ! k \<notin> log_area s" using inv(4) by (auto simp: trans_ok_def)
    have vk: "view t (txn s ! k) = view s (txn s ! k)"
    proof -
      have "txn s ! k \<notin> fst ` set (take k (log_writes s))"
        using c(2) log_block_facts(2) [OF inv(3)] inv(4) by (auto simp: log_writes_def trans_ok_def dest!: in_set_takeD)
      then show ?thesis using t apply_writes_other by simp
    qed
    have ne: "log_block s k \<noteq> txn s ! k" using lb(2) c(2) by auto
    have card: "card (pinned t) < NBUF" using card_trans [OF inv(3,4)] t inv(5) by simp
    have "returns (bind (bread 1 (log_block s k)) (\<lambda>i. bind (gets (\<lambda>s. lh_block s ! k)) (\<lambda>c. bind (bread 1 c) (\<lambda>j. bind (gets (\<lambda>s. b_data (bufs s ! j))) (\<lambda>d.
        andthen (modify (set_data i d)) (andthen (bwrite i) (andthen (brelse j) (brelse i)))))))) t
      (\<lambda>_ u. core u = writes (log_block s k) (view t (txn s ! k)) (core t) \<and> bio_ok u \<and> view u = (view t)(log_block s k := view t (txn s ! k)) \<and> held u = {}
        \<and> pinned u = pinned t - {log_block s k})"
    proof (rule write_log_body)
      show "lh_block u ! k = txn s ! k" if "core u = core t" for u
        using nth_trans [OF inv(3,4) k] tD(6) coreD [OF that] by simp
    qed (use t lb c ne card tD tr inv(5) in simp_all)
    moreover have "log_block s k \<notin> pinned s" using lb(2) inv(4,5) by (auto simp: trans_ok_def)
    moreover have "take (Suc k) (log_writes s) = take k (log_writes s) @ [(log_block s k, view s (txn s ! k))]"
      using k unfolding log_writes_def by (rule take_Suc_map_upt)
    ultimately show ?thesis
      using t vk tD inv(3) by (simp add: returns_bind writes_all_writes log_geom_def)
  qed
  have "returns (foreach [0..<?n] ?body) s (\<lambda>_ t. ?I (length [0..<?n]) t)"
  proof (rule foreach_returns)
    show "?I 0 s" using inv by simp
    show "returns (?body ([0..<?n] ! k)) t (\<lambda>_ u. ?I (Suc k) u)" if "k < length [0..<?n]" "?I k t" for k t
      using step [of k t] that by simp
  qed
  then show ?thesis by (simp add: write_log_def log_writes_def returns_bind)
qed

lemma log_block_notin_trans: "log_geom s \<Longrightarrow> trans_ok s \<Longrightarrow> k < nat (lh_n s) \<Longrightarrow> log_block s k \<notin> set (txn s)"
  using log_block_facts(2) [of s k] unfolding trans_ok_def by force

lemma install_trans_returns:
  assumes inv: "bio_ok s" "held s = {}" "log_geom s" "trans_ok s" "pinned s = {} \<or> pinned s = set (txn s)"
  shows "returns install_trans s (\<lambda>_ t. core t = writes_all (home_writes s) (core s) \<and> bio_ok t
     \<and> view t = apply_writes (home_writes s) (view s) \<and> held t = {} \<and> pinned t = {})"
proof -
  let ?n = "nat (lh_n s)"
  let ?I = "\<lambda>k t. core t = writes_all (take k (home_writes s)) (core s) \<and> bio_ok t
     \<and> view t = apply_writes (take k (home_writes s)) (view s) \<and> held t = {} \<and> pinned t = pinned s - set (take k (txn s))"
  let ?body = "\<lambda>tail. bind (gets (\<lambda>s. log_block s tail)) (\<lambda>lb. bind (gets log_dev) (\<lambda>dev. bind (bread dev lb) (\<lambda>lbuf.
      bind (gets (\<lambda>s. lh_block s ! tail)) (\<lambda>db. bind (bread dev db) (\<lambda>dbuf.
      bind (gets (\<lambda>s. b_data (bufs s ! lbuf))) (\<lambda>d. andthen (modify (set_data dbuf d))
      (andthen (bwrite dbuf) (andthen (brelse lbuf) (brelse dbuf)))))))))"
  note len = length_trans [OF inv(3,4)]
  have step: "returns (?body k) t (\<lambda>_ u. ?I (Suc k) u)" if k: "k < ?n" and t: "?I k t" for k t
  proof -
    note tD = writes_allD [OF conjunct1 [OF t]]
    have kl: "int k < log_size s - 1" using k inv(4) unfolding trans_ok_def by linarith
    note lb = log_block_facts [OF inv(3) kl]
    have tr: "txn s ! k \<in> set (txn s)" using k len by simp
    then have c: "txn s ! k < disksize s" "txn s ! k \<notin> log_area s" using inv(4) by (auto simp: trans_ok_def)
    have vk: "view t (log_block s k) = view s (log_block s k)"
    proof -
      have "log_block s k \<notin> fst ` set (take k (home_writes s))"
        using log_block_notin_trans [OF inv(3,4) k] len by (auto simp: home_writes_def dest!: in_set_takeD)
      then show ?thesis using t apply_writes_other by simp
    qed
    have ne: "log_block s k \<noteq> txn s ! k" using lb(2) c(2) by auto
    have sub: "pinned t \<subseteq> set (txn s)" using t inv(5) by auto
    have tk: "txn s ! k \<notin> set (take k (txn s))"
      using k len inv(4) by (auto simp: trans_ok_def in_set_conv_nth nth_eq_iff_index_eq)
    have room: "txn s ! k \<in> pinned t \<or> card (insert (log_block s k) (pinned t)) < NBUF"
      using inv(5)
    proof
      assume "pinned s = {}"
      then show ?thesis using t by (simp add: layout_simps)
    next
      assume "pinned s = set (txn s)"
      then show ?thesis using t tr tk by simp
    qed
    have "returns (bind (bread 1 (log_block s k)) (\<lambda>j. bind (gets (\<lambda>s. lh_block s ! k)) (\<lambda>c. bind (bread 1 c) (\<lambda>i. bind (gets (\<lambda>s. b_data (bufs s ! j))) (\<lambda>d.
        andthen (modify (set_data i d)) (andthen (bwrite i) (andthen (brelse j) (brelse i)))))))) t
      (\<lambda>_ u. core u = writes (txn s ! k) (view t (log_block s k)) (core t) \<and> bio_ok u \<and> view u = (view t)(txn s ! k := view t (log_block s k)) \<and> held u = {}
        \<and> pinned u = pinned t - {txn s ! k})"
    proof (rule install_body)
      show "lh_block u ! k = txn s ! k" if "core u = core t" for u
        using nth_trans [OF inv(3,4) k] tD(6) coreD [OF that] by simp
      show "card (pinned t) < NBUF" by (rule card_trans [OF inv(3,4) sub])
    qed (use t lb c ne room tD in simp_all)
    moreover have "take (Suc k) (home_writes s) = take k (home_writes s) @ [(txn s ! k, view s (log_block s k))]"
      using k unfolding home_writes_def by (rule take_Suc_map_upt)
    moreover have "take (Suc k) (txn s) = take k (txn s) @ [txn s ! k]"
      using k len by (simp add: take_Suc_conv_app_nth)
    moreover have "pinned s - set (take k (txn s)) - {txn s ! k} = pinned s - insert (txn s ! k) (set (take k (txn s)))"
      by blast
    ultimately show ?thesis
      using t vk tD inv(3) by (simp add: returns_bind writes_all_writes log_geom_def)
  qed
  have "returns (foreach [0..<?n] ?body) s (\<lambda>_ t. ?I (length [0..<?n]) t)"
  proof (rule foreach_returns)
    show "?I 0 s" using inv by simp
    show "returns (?body ([0..<?n] ! k)) t (\<lambda>_ u. ?I (Suc k) u)" if "k < length [0..<?n]" "?I k t" for k t
      using step [of k t] that by simp
  qed
  then show ?thesis using inv(5) len by (auto simp add: install_trans_def home_writes_def returns_bind elim!: returns_mono)
qed

end
