(* ===== verification/Recovery.thy ===== *)
theory Recovery
  imports Log
begin

text \<open>
  What the log guarantees: the disk writes of \<open>commit\<close> in their order, what
  \<open>recover_from_log\<close> makes of a disk, and that a crash between any two of these writes,
  and between any two writes of the recovery itself, leaves the transaction done or not
  done.
\<close>

section \<open>The writes of a commit\<close>

definition commit_head :: "kernel \<Rightarrow> byte list" where
  "commit_head s = put_head (lh_n s) (lh_block s) (view s (log_start s))"

definition commit_writes :: "kernel \<Rightarrow> (uint32 \<times> byte list) list" where
  "commit_writes s = log_writes s @ (log_start s, commit_head s) # map (\<lambda>b. (b, view s b)) (txn s)
     @ [(log_start s, put_head 0 (lh_block s) (commit_head s))]"

lemma apply_writes_values:
  "apply_writes (map (\<lambda>b. (b, f b)) bs) d c = (if c \<in> set bs then f c else d c)"
  by (induction bs arbitrary: d) auto

lemma log_writes_fst:
  assumes "log_geom s" "trans_ok s"
  shows "fst ` set (log_writes s) \<subseteq> log_area s - {log_start s}"
  using log_block_facts(2,4) [OF assms(1)] assms(2) by (auto simp: log_writes_def trans_ok_def)

lemma log_writes_distinct:
  assumes "log_geom s" "trans_ok s"
  shows "distinct (map fst (log_writes s))"
proof -
  have "inj_on (log_block s) {0..<nat (lh_n s)}"
    using log_block_inj [OF assms(1)] assms(2) by (auto simp: inj_on_def trans_ok_def)
  then show ?thesis by (simp add: log_writes_def distinct_map comp_def)
qed

lemma log_writes_block:
  assumes "log_geom s" "trans_ok s" "i < nat (lh_n s)"
  shows "apply_writes (log_writes s) d (log_block s i) = view s (txn s ! i)"
  using apply_writes_nth [OF log_writes_distinct [OF assms(1,2)], of i d] assms(3) by (simp add: log_writes_def)

lemma commit_writes_log:
  assumes inv: "log_geom s" "trans_ok s" and i: "i < nat (lh_n s)"
  shows "apply_writes (map (\<lambda>b. (b, view s b)) (take m (txn s))) ((apply_writes (log_writes s) d)(log_start s := h)) (log_block s i)
     = view s (txn s ! i)"
proof -
  have "log_block s i \<notin> set (take m (txn s))" using log_block_notin_trans [OF inv i] by (auto dest: in_set_takeD)
  moreover have "log_block s i \<noteq> log_start s" using log_block_facts(4) [OF inv(1)] inv(2) i by (auto simp: trans_ok_def)
  ultimately show ?thesis using log_writes_block [OF inv i] by (simp add: apply_writes_values)
qed

lemma view_log_start:
  assumes "log_geom s" "trans_ok s"
  shows "apply_writes (log_writes s) d (log_start s) = d (log_start s)"
  by (rule apply_writes_other) (use log_writes_fst [OF assms] in auto)

lemma start_notin_txn: "log_geom s \<Longrightarrow> trans_ok s \<Longrightarrow> log_start s \<notin> set (txn s)"
  using log_start_area(1) by (auto simp: trans_ok_def)

lemma length_commit_head: "bio_ok s \<Longrightarrow> log_geom s \<Longrightarrow> trans_ok s \<Longrightarrow> length (commit_head s) = BSIZE"
  by (simp add: commit_head_def put_head_facts trans_ok_def log_geom_def)

lemma home_writes_map:
  assumes "log_geom s" "trans_ok s" "\<And>i. i < nat (lh_n s) \<Longrightarrow> view s (log_block s i) = f (txn s ! i)"
  shows "home_writes s = map (\<lambda>b. (b, f b)) (txn s)"
  using assms(3) length_trans [OF assms(1,2)] by (intro nth_equalityI) (simp_all add: home_writes_def)

lemma commit_returns:
  assumes inv: "bio_ok s" "held s = {}" "log_geom s" "trans_ok s" "pinned s = set (txn s)" and n: "0 < lh_n s"
  shows "returns commit s (\<lambda>_ t. core t = (writes_all (commit_writes s) (core s))\<lparr>lh_n := 0\<rparr> \<and> bio_ok t \<and> held t = {} \<and> pinned t = {}
     \<and> view t = apply_writes (commit_writes s) (view s))"
proof -
  let ?H = "commit_head s" and ?T = "map (\<lambda>b. (b, view s b)) (txn s)"
  have nL: "lh_n s \<le> LOGSIZE" using inv(3,4) by (simp add: log_geom_def trans_ok_def)
  from write_log_returns [OF inv(1-5)] obtain t1 where t1: "write_log s = Ok () t1" "core t1 = writes_all (log_writes s) (core s)" "bio_ok t1"
    "view t1 = apply_writes (log_writes s) (view s)" "held t1 = {}" "pinned t1 = pinned s" by (auto elim!: returnsE)
  note d1 = writes_allD [OF t1(2)]
  have "returns write_head t1 (\<lambda>_ t. core t = writes (log_start t1) (put_head (lh_n t1) (lh_block t1) (view t1 (log_start t1))) (core t1)
     \<and> bio_ok t \<and> view t = (view t1)(log_start t1 := put_head (lh_n t1) (lh_block t1) (view t1 (log_start t1)))
     \<and> held t = {} \<and> pinned t = pinned t1)"
    by (rule write_head_returns) (use t1 d1 inv n nL in simp_all)
  then obtain t2 where t2: "write_head t1 = Ok () t2" "core t2 = writes (log_start s) ?H (core t1)" "bio_ok t2"
    "view t2 = (view t1)(log_start s := ?H)" "held t2 = {}" "pinned t2 = pinned s"
    using view_log_start [OF inv(3,4), of "view s"] t1(4,6) d1(2,5,6) by (auto simp: commit_head_def elim!: returnsE)
  have c2: "core t2 = writes_all (log_writes s @ [(log_start s, ?H)]) (core s)"
    using t2(2) t1(2) by (simp add: writes_all_writes)
  note d2 = writes_allD [OF c2]
  from install_trans_returns [of t2] obtain t3 where t3: "install_trans t2 = Ok () t3" "core t3 = writes_all (home_writes t2) (core t2)"
    "bio_ok t3" "view t3 = apply_writes (home_writes t2) (view t2)" "held t3 = {}" "pinned t3 = {}"
    using t2 d2 inv by (auto elim!: returnsE)
  have hw: "home_writes t2 = ?T"
    using home_writes_map [of t2 "view s"] commit_writes_log [OF inv(3,4), where m = 0 and d = "view s"] d2 inv(3,4) t2(4) t1(4)
    by simp
  have c3: "core t3 = writes_all (log_writes s @ (log_start s, ?H) # ?T) (core s)"
    using t3(2) c2 hw by (simp add: writes_all_append)
  note d3 = writes_allD [OF c3]
  let ?t = "t3\<lparr>lh_n := 0\<rparr>"
  have v3: "view t3 (log_start s) = ?H" using t3(4) t2(4) hw start_notin_txn [OF inv(3,4)] by (simp add: apply_writes_values)
  have g: "log_geom ?t" "trans_ok ?t"
    using inv(3,4) d3(1-6) by (simp_all add: log_geom_def trans_ok_def txn_def)
  have "returns write_head ?t (\<lambda>_ t. core t = writes (log_start ?t) (put_head (lh_n ?t) (lh_block ?t) (view ?t (log_start ?t))) (core ?t)
     \<and> bio_ok t \<and> view t = (view ?t)(log_start ?t := put_head (lh_n ?t) (lh_block ?t) (view ?t (log_start ?t)))
     \<and> held t = {} \<and> pinned t = pinned ?t)"
    by (rule write_head_returns) (use t3 g in \<open>simp_all add: layout_simps\<close>)
  then obtain t4 where t4: "write_head ?t = Ok () t4" "core t4 = writes (log_start s) (put_head 0 (lh_block s) ?H) (core ?t)" "bio_ok t4"
    "view t4 = (view t3)(log_start s := put_head 0 (lh_block s) ?H)" "held t4 = {}" "pinned t4 = {}"
    using d3(2,6) v3 t3(6) by (auto elim!: returnsE)
  have "core t4 = (writes_all (commit_writes s) (core s))\<lparr>lh_n := 0\<rparr>"
    unfolding t4(2) core_update c3 by (simp add: writes_def writes_all_def commit_writes_def)
  moreover have "view t4 = apply_writes (commit_writes s) (view s)"
    using t4(4) t3(4) hw t2(4) t1(4) by (simp add: commit_writes_def)
  ultimately show ?thesis
    using t1(1) t2(1) t3(1) t4 n by (simp add: commit_def returns_def)
qed

section \<open>Recovery\<close>

text \<open>The committed blocks of a disk, as the header names them and the log holds them.\<close>

definition log_contents :: "kernel \<Rightarrow> (uint32 \<Rightarrow> byte list) \<Rightarrow> (uint32 \<times> byte list) list" where
  "log_contents s d = map (\<lambda>i. (head_block (d (log_start s)) i, d (log_block s i))) [0..<nat (head_n (d (log_start s)))]"

definition recovery_writes :: "kernel \<Rightarrow> (uint32 \<Rightarrow> byte list) \<Rightarrow> (uint32 \<times> byte list) list" where
  "recovery_writes s d = log_contents s d @ [(log_start s, put32 (d (log_start s)) 0 0)]"

definition log_valid :: "kernel \<Rightarrow> (uint32 \<Rightarrow> byte list) \<Rightarrow> bool" where
  "log_valid s d \<longleftrightarrow> 0 \<le> head_n (d (log_start s)) \<and> head_n (d (log_start s)) < log_size s \<and> distinct (map fst (log_contents s d))
     \<and> (\<forall>b \<in> fst ` set (log_contents s d). b < disksize s \<and> b \<notin> log_area s)"

lemma log_valid_le:
  assumes "log_geom s" "log_valid s d"
  shows "head_n (d (log_start s)) \<le> LOGSIZE" "nat (head_n (d (log_start s))) \<le> nat LOGSIZE"
proof -
  show "head_n (d (log_start s)) \<le> LOGSIZE" using assms by (simp add: log_geom_def log_valid_def)
  then show "nat (head_n (d (log_start s))) \<le> nat LOGSIZE" by (rule nat_mono)
qed

lemma put_head_0: "put_head 0 bs d = put32 d 0 0"
  by (simp add: put_head_def)

lemma fold_head_blocks:
  "fold (\<lambda>i s. s\<lparr>lh_block := (lh_block s)[i := f i]\<rparr>) is s = s\<lparr>lh_block := fold (\<lambda>i bs. bs[i := f i]) is (lh_block s)\<rparr>"
  by (induction "is" arbitrary: s) simp_all

lemma fold_list_set:
  "n \<le> length bs \<Longrightarrow> fold (\<lambda>i bs. bs[i := f i]) [0..<n] bs = map f [0..<n] @ drop n bs"
proof (induction n)
  case (Suc n)
  then have "drop n bs = bs ! n # drop (Suc n) bs" by (simp add: Cons_nth_drop_Suc)
  then show ?case using Suc by (simp add: list_update_append)
qed simp

definition loaded :: "kernel \<Rightarrow> kernel \<Rightarrow> kernel" where
  "loaded r s = (let h = disk r (log_start r); n = nat (head_n h) in
     s\<lparr>lh_n := head_n h, lh_block := map (head_block h) [0..<n] @ drop n (lh_block r)\<rparr>)"

lemma read_head_returns:
  assumes inv: "bio_ok s" "held s = {}" "pinned s = {}" "log_geom s" "length (lh_block s) = nat LOGSIZE" "log_valid s (disk s)"
  shows "returns read_head s (\<lambda>_ t. core t = loaded s (core s) \<and> bio_ok t \<and> view t = view s \<and> held t = {} \<and> pinned t = {})"
proof -
  let ?ls = "log_start s" and ?h = "disk s (log_start s)"
  have "?ls \<notin> held s" "?ls \<in> pinned s \<or> card (held s \<union> pinned s) < NBUF" using inv by (simp_all add: layout_simps)
  from bcache.get_law [OF inv(1) log_start_area(2) [OF inv(4)] this] obtain i t where t: "bread 1 ?ls s = Ok i t" "core t = core s" "bio_ok t"
    "buf_for t i ?ls" "b_data (bufs t ! i) = view s ?ls" "view t = view s" "held t = insert ?ls (held s)" "pinned t = pinned s"
    by (auto elim!: returnsE)
  have v: "view s ?ls = ?h" using view_clean [OF inv(1)] inv by simp
  have n: "nat (head_n ?h) \<le> length (lh_block s)" "head_n ?h \<le> LOGSIZE" using inv(5) log_valid_le [OF inv(4,6)] by simp_all
  let ?u = "loaded s t"
  have lb: "lh_block t = lh_block s" using coreD [OF t(2)] by simp
  have u: "foreach [0..<nat (head_n ?h)] (\<lambda>i. modify (\<lambda>s. s\<lparr>lh_block := (lh_block s)[i := head_block ?h i]\<rparr>)) (t\<lparr>lh_n := head_n ?h\<rparr>) = Ok () ?u"
    using n lb by (subst foreach_fold [where g = "\<lambda>i s. s\<lparr>lh_block := (lh_block s)[i := head_block ?h i]\<rparr>"])
      (simp_all add: modify_def fold_head_blocks fold_list_set loaded_def Let_def)
  have f: "bio_ok ?u" "buf_for ?u i ?ls" "view ?u = view s" "held ?u = held t" "pinned ?u = pinned t" "core ?u = loaded s (core s)"
    using t by (simp_all add: loaded_def Let_def)
  moreover have "disk ?u ?ls = disk t ?ls" by (simp add: loaded_def Let_def)
  ultimately have "view ?u ?ls = disk ?u ?ls" using v coreD [OF t(2)] by simp
  from bcache.give_law [OF f(1,2) disjI2 [OF this]] obtain w where w: "brelse i ?u = Ok () w" "core w = core ?u" "bio_ok w" "view w = view ?u"
    "held w = held ?u - {?ls}" "pinned w = pinned ?u" by (auto elim!: returnsE)
  then have "core w = loaded s (core s) \<and> bio_ok w \<and> view w = view s \<and> held w = {} \<and> pinned w = {}"
    using f t inv by simp
  then show ?thesis
    using t(1,5) v n u w(1) inv(4) by (simp add: read_head_def log_geom_def returns_def)
qed

lemma loaded_facts:
  assumes inv: "log_geom r" "length (lh_block r) = nat LOGSIZE" "log_valid r (disk r)" and t: "core t = loaded r (core r)"
  shows "log_geom t" "trans_ok t" "log_start t = log_start r" "log_block t i = log_block r i" "disk t = disk r"
    "lh_n t = head_n (disk r (log_start r))" "txn t = map fst (log_contents r (disk r))"
proof -
  have e: "\<And>f. f (core t) = f (loaded r (core r))" using t by simp
  have b: "log_dev t = log_dev r" "log_start t = log_start r" "log_size t = log_size r" "disksize t = disksize r"
    "lh_n t = head_n (disk r (log_start r))" "disk t = disk r"
    "lh_block t = map (head_block (disk r (log_start r))) [0..<nat (head_n (disk r (log_start r)))] @ drop (nat (head_n (disk r (log_start r)))) (lh_block r)"
    using e [of log_dev] e [of log_start] e [of log_size] e [of disksize] e [of lh_n] e [of disk] e [of lh_block]
    by (simp_all add: loaded_def Let_def core_sel)
  show g: "log_geom t" and "log_start t = log_start r" "log_block t i = log_block r i" "disk t = disk r" "lh_n t = head_n (disk r (log_start r))"
    using inv(1) b(1-6) by (simp_all add: log_geom_def log_block_def)
  show x: "txn t = map fst (log_contents r (disk r))" by (simp add: txn_def b(5,7) log_contents_def comp_def)
  have "log_area t = log_area r" using b by (simp add: log_area_def)
  moreover have "length (lh_block t) = nat LOGSIZE" using inv(2) b(7) log_valid_le [OF inv(1,3)] by simp
  ultimately show "trans_ok t" using inv(3) b x by (auto simp: trans_ok_def log_valid_def)
qed

text \<open>What recovery does to the disk.\<close>

lemma recover_returns:
  assumes inv: "bio_ok r" "held r = {}" "pinned r = {}" "log_geom r" "length (lh_block r) = nat LOGSIZE" "log_valid r (disk r)"
  shows "returns recover_from_log r (\<lambda>_ t. core t = (writes_all (recovery_writes r (disk r)) (loaded r (core r)))\<lparr>lh_n := 0\<rparr>
     \<and> bio_ok t \<and> held t = {} \<and> pinned t = {})"
proof -
  let ?h = "disk r (log_start r)"
  from read_head_returns [OF inv] obtain t1 where t1: "read_head r = Ok () t1" "core t1 = loaded r (core r)" "bio_ok t1" "view t1 = view r"
    "held t1 = {}" "pinned t1 = {}" by (auto elim!: returnsE)
  note f1 = loaded_facts [OF inv(4-6) t1(2)]
  have vr: "view r b = disk r b" for b using view_clean [OF inv(1)] inv by simp
  from install_trans_returns [OF t1(3,5) f1(1,2)] obtain t2 where t2: "install_trans t1 = Ok () t2"
    "core t2 = writes_all (home_writes t1) (core t1)" "bio_ok t2" "view t2 = apply_writes (home_writes t1) (view t1)" "held t2 = {}" "pinned t2 = {}"
    using t1(6) by (auto elim!: returnsE)
  note d2 = writes_allD [OF t2(2)]
  have hw: "home_writes t1 = log_contents r (disk r)"
    unfolding home_writes_def by (simp add: f1 t1(4) vr log_contents_def)
  have v2: "view t2 (log_start r) = ?h"
  proof -
    have "log_start r \<notin> fst ` set (log_contents r (disk r))"
      using inv(6) log_start_area(1) [OF inv(4)] unfolding log_valid_def by blast
    then show ?thesis using t2(4) hw t1(4) vr by (simp add: apply_writes_other)
  qed
  let ?t = "t2\<lparr>lh_n := 0\<rparr>"
  have g: "log_geom ?t" "trans_ok ?t"
    using f1(1,2) d2(1-6) by (simp_all add: log_geom_def trans_ok_def txn_def)
  have "returns write_head ?t (\<lambda>_ t. core t = writes (log_start ?t) (put_head (lh_n ?t) (lh_block ?t) (view ?t (log_start ?t))) (core ?t)
     \<and> bio_ok t \<and> view t = (view ?t)(log_start ?t := put_head (lh_n ?t) (lh_block ?t) (view ?t (log_start ?t)))
     \<and> held t = {} \<and> pinned t = pinned ?t)"
    by (rule write_head_returns) (use t2 g in \<open>simp_all add: layout_simps\<close>)
  then obtain t3 where t3: "write_head ?t = Ok () t3" "core t3 = writes (log_start r) (put32 ?h 0 0) (core ?t)" "bio_ok t3"
    "held t3 = {}" "pinned t3 = {}"
    using d2(2) f1(3) v2 t2(6) by (auto simp: put_head_0 elim!: returnsE)
  have "core t3 = (writes_all (recovery_writes r (disk r)) (loaded r (core r)))\<lparr>lh_n := 0\<rparr>"
    unfolding t3(2) core_update t2(2) hw t1(2) by (simp add: writes_def writes_all_def recovery_writes_def)
  then show ?thesis
    using t1(1) t2(1) t3 by (simp add: recover_from_log_def returns_def)
qed

section \<open>Crashes\<close>

text \<open>A state in which the machine has come up again with the disk \<open>d\<close>: the super block
  gives the same log, and the cache is empty.\<close>

definition rebooted :: "kernel \<Rightarrow> (uint32 \<Rightarrow> byte list) \<Rightarrow> kernel \<Rightarrow> bool" where
  "rebooted s d r \<longleftrightarrow> disk r = d \<and> bio_ok r \<and> held r = {} \<and> pinned r = {} \<and> length (lh_block r) = nat LOGSIZE
     \<and> log_dev r = log_dev s \<and> log_start r = log_start s \<and> log_size r = log_size s \<and> disksize r = disksize s"

lemma rebootedD:
  assumes "rebooted s d r"
  shows "bio_ok r" "held r = {}" "pinned r = {}" "log_geom r = log_geom s" "length (lh_block r) = nat LOGSIZE" "log_valid r = log_valid s"
    "log_contents r = log_contents s" "recovery_writes r = recovery_writes s" "log_area r = log_area s" "disk r = d" "log_start r = log_start s"
proof -
  show a: "bio_ok r" "held r = {}" "pinned r = {}" "length (lh_block r) = nat LOGSIZE" "disk r = d" "log_start r = log_start s"
    using assms by (simp_all add: rebooted_def)
  have b: "log_dev r = log_dev s" "log_size r = log_size s" "disksize r = disksize s" using assms by (simp_all add: rebooted_def)
  show c: "log_geom r = log_geom s" "log_area r = log_area s" using a b by (simp_all add: log_geom_def log_area_def)
  show d: "log_contents r = log_contents s" using a(6) by (simp add: log_contents_def fun_eq_iff log_block_def)
  show "log_valid r = log_valid s" "recovery_writes r = recovery_writes s"
    using a(6) b c d by (simp_all add: log_valid_def recovery_writes_def fun_eq_iff)
qed

lemma recover_disk:
  assumes g: "log_geom s" and r: "rebooted s d r" and v: "log_valid s d"
  shows "returns recover_from_log r (\<lambda>_ t. disk t = apply_writes (recovery_writes s d) d \<and> dwrites t = dwrites r @ recovery_writes s d
     \<and> lh_n t = 0 \<and> bio_ok t \<and> held t = {} \<and> pinned t = {})"
proof -
  note D = rebootedD [OF r]
  have "returns recover_from_log r (\<lambda>_ t. core t = (writes_all (recovery_writes r (disk r)) (loaded r (core r)))\<lparr>lh_n := 0\<rparr>
     \<and> bio_ok t \<and> held t = {} \<and> pinned t = {})"
    by (rule recover_returns) (use D g v in simp_all)
  then show ?thesis
  proof (rule returns_mono)
    fix t assume t: "core t = (writes_all (recovery_writes r (disk r)) (loaded r (core r)))\<lparr>lh_n := 0\<rparr> \<and> bio_ok t \<and> held t = {} \<and> pinned t = {}"
    then have e: "\<And>f. f (core t) = f ((writes_all (recovery_writes r (disk r)) (loaded r (core r)))\<lparr>lh_n := 0\<rparr>)" by simp
    show "disk t = apply_writes (recovery_writes s d) d \<and> dwrites t = dwrites r @ recovery_writes s d
       \<and> lh_n t = 0 \<and> bio_ok t \<and> held t = {} \<and> pinned t = {}"
      using conjunct2 [OF t] e [of disk] e [of dwrites] e [of lh_n] D by (simp add: core_sel writes_all_def loaded_def Let_def)
  qed
qed

text \<open>The log as a crash of \<open>commit\<close> leaves it.\<close>

lemma log_empty:
  assumes "log_geom s" "head_n (d (log_start s)) = 0"
  shows "log_contents s d = []" "log_valid s d"
  using assms by (simp_all add: log_contents_def log_valid_def log_geom_def)

lemma crash_before:
  assumes inv: "bio_ok s" "log_geom s" "trans_ok s" "head_n (disk s (log_start s)) = 0" and k: "k \<le> nat (lh_n s)"
    and d: "d = apply_writes (take k (commit_writes s)) (disk s)"
  shows "log_valid s d" "log_contents s d = []" "b \<notin> log_area s \<Longrightarrow> d b = disk s b"
proof -
  have t: "take k (commit_writes s) = take k (log_writes s)" using k by (simp add: commit_writes_def log_writes_def)
  have f: "d b = disk s b" if "b \<notin> log_area s \<or> b = log_start s" for b
    unfolding d t by (rule apply_writes_other) (use that log_writes_fst [OF inv(2,3)] in \<open>auto dest!: in_set_takeD\<close>)
  then show "b \<notin> log_area s \<Longrightarrow> d b = disk s b" by blast
  have "head_n (d (log_start s)) = 0" using f inv(4) by simp
  then show "log_valid s d" "log_contents s d = []" using log_empty inv(2) by auto
qed

lemma crash_during:
  assumes inv: "bio_ok s" "log_geom s" "trans_ok s"
    and d: "d = apply_writes (map (\<lambda>b. (b, view s b)) (take m (txn s))) ((apply_writes (log_writes s) (disk s))(log_start s := commit_head s))"
  shows "log_valid s d" "log_contents s d = map (\<lambda>b. (b, view s b)) (txn s)"
    "b \<notin> log_area s \<Longrightarrow> d b = (if b \<in> set (take m (txn s)) then view s b else disk s b)"
proof -
  note len = length_trans [OF inv(2,3)]
  have n: "0 \<le> lh_n s" "lh_n s \<le> LOGSIZE" "lh_n s < log_size s" using inv(2,3) by (simp_all add: log_geom_def trans_ok_def)
  have ls: "d (log_start s) = commit_head s"
    unfolding d using start_notin_txn [OF inv(2,3)] by (simp add: apply_writes_values) (auto dest: in_set_takeD)
  have hn: "head_n (d (log_start s)) = lh_n s"
    using ls n inv(1) by (simp add: commit_head_def put_head_facts)
  have hb: "head_block (d (log_start s)) i = txn s ! i" if "i < nat (lh_n s)" for i
    using ls n inv(1) that nth_trans [OF inv(2,3) that] by (simp add: commit_head_def put_head_facts)
  show c: "log_contents s d = map (\<lambda>b. (b, view s b)) (txn s)"
    using hn hb len commit_writes_log [OF inv(2,3), where m = m and d = "disk s"] d
    by (intro nth_equalityI) (simp_all add: log_contents_def)
  show "log_valid s d" using n hn c inv(3) by (auto simp: log_valid_def trans_ok_def comp_def)
  show "d b = (if b \<in> set (take m (txn s)) then view s b else disk s b)" if "b \<notin> log_area s"
  proof -
    have "apply_writes (log_writes s) (disk s) b = disk s b" "b \<noteq> log_start s"
      using that log_writes_fst [OF inv(2,3)] log_start_area [OF inv(2)] by (auto intro!: apply_writes_other)
    then show ?thesis unfolding d by (simp add: apply_writes_values)
  qed
qed

lemma crash_after:
  assumes inv: "bio_ok s" "log_geom s" "trans_ok s" and d: "d = apply_writes (commit_writes s) (disk s)"
  shows "log_valid s d" "log_contents s d = []" "b \<notin> log_area s \<Longrightarrow> d b = (if b \<in> set (txn s) then view s b else disk s b)"
proof -
  let ?d = "apply_writes (map (\<lambda>b. (b, view s b)) (take (length (txn s)) (txn s))) ((apply_writes (log_writes s) (disk s))(log_start s := commit_head s))"
  have e: "d = ?d(log_start s := put_head 0 (lh_block s) (commit_head s))" unfolding d by (simp add: commit_writes_def)
  have "head_n (d (log_start s)) = 0"
    unfolding e using put_head_facts(2) [OF length_commit_head [OF inv], of 0 "lh_block s"] by (simp add: layout_simps)
  then show "log_valid s d" "log_contents s d = []" using log_empty inv(2) by auto
  show "d b = (if b \<in> set (txn s) then view s b else disk s b)" if "b \<notin> log_area s"
    using crash_during(3) [OF inv refl that, of "length (txn s)"] that log_start_area(1) [OF inv(2)] unfolding e by auto
qed

lemma take_commit:
  assumes "log_geom s" "trans_ok s"
  obtains "k \<le> nat (lh_n s)"
  | m where "nat (lh_n s) < k" "apply_writes (take k (commit_writes s)) d
      = apply_writes (map (\<lambda>b. (b, view s b)) (take m (txn s))) ((apply_writes (log_writes s) d)(log_start s := commit_head s))"
  | "nat (lh_n s) < k" "take k (commit_writes s) = commit_writes s"
proof -
  let ?n = "nat (lh_n s)"
  have len: "length (log_writes s) = ?n" "length (txn s) = ?n" using length_trans [OF assms] by (simp_all add: log_writes_def)
  consider "k \<le> ?n" | "?n < k" "k \<le> Suc (?n + ?n)" | "Suc (?n + ?n) < k" by linarith
  then show ?thesis
  proof cases
    case 1
    then show ?thesis by (rule that(1))
  next
    case 2
    then obtain m where m: "k - ?n = Suc m" "m \<le> ?n" by (cases "k - ?n") auto
    show ?thesis by (rule that(2) [of m]) (use 2 m len in \<open>simp_all add: commit_writes_def take_map\<close>)
  next
    case 3
    then show ?thesis by (intro that(3)) (use len in \<open>simp_all add: commit_writes_def\<close>)
  qed
qed

lemma recovery_writes_apply:
  assumes "log_geom s" "log_valid s d" "b \<notin> log_area s"
  shows "apply_writes (recovery_writes s d) d b = apply_writes (log_contents s d) d b"
  using assms(3) log_start_area(1) [OF assms(1)] by (auto simp: recovery_writes_def)

lemma recovered_commit:
  assumes inv: "bio_ok s" "held s = {}" "log_geom s" "trans_ok s" "pinned s = set (txn s)" "head_n (disk s (log_start s)) = 0"
    and d: "d = apply_writes (take k (commit_writes s)) (disk s)"
  shows "log_valid s d" "b \<notin> log_area s \<Longrightarrow>
    apply_writes (recovery_writes s d) d b = (if k \<le> nat (lh_n s) then disk s b else view s b)"
proof -
  have clean: "b \<notin> set (txn s) \<Longrightarrow> view s b = disk s b" for b using view_clean [OF inv(1)] inv(2,5) by simp
  have "log_valid s d \<and> (b \<notin> log_area s \<longrightarrow> apply_writes (log_contents s d) d b = (if k \<le> nat (lh_n s) then disk s b else view s b))" for b
    using inv(3,4)
  proof (cases rule: take_commit [where k = k and d = "disk s"])
    case 1
    then show ?thesis using crash_before [OF inv(1,3,4,6) 1 d] by simp
  next
    case (2 m)
    have e: "d = apply_writes (map (\<lambda>b. (b, view s b)) (take m (txn s))) ((apply_writes (log_writes s) (disk s))(log_start s := commit_head s))"
      unfolding d by (rule 2)
    show ?thesis using crash_during [OF inv(1,3,4) e] 2(1) clean by (auto simp: apply_writes_values dest: in_set_takeD)
  next
    case 3
    have e: "d = apply_writes (commit_writes s) (disk s)" unfolding d 3(2) ..
    show ?thesis using crash_after [OF inv(1,3,4) e] 3(1) clean by auto
  qed
  then show "log_valid s d" "b \<notin> log_area s \<Longrightarrow>
    apply_writes (recovery_writes s d) d b = (if k \<le> nat (lh_n s) then disk s b else view s b)"
    using recovery_writes_apply [OF inv(3)] by auto
qed

text \<open>A prefix of the writes, made again before the whole, changes nothing.\<close>

lemma apply_writes_mem: "b \<in> fst ` set ws \<Longrightarrow> apply_writes ws d b = apply_writes ws e b"
proof (induction ws arbitrary: d e)
  case (Cons w ws)
  obtain c x where w: "w = (c, x)" by force
  show ?case
  proof (cases "b \<in> fst ` set ws")
    case True
    then show ?thesis using Cons.IH w by simp
  next
    case False
    then have "b = c" using Cons.prems w by auto
    then show ?thesis using False w by (simp add: apply_writes_other)
  qed
qed simp

lemma apply_writes_redo: "apply_writes ws (apply_writes (take k ws) d) = apply_writes ws d"
proof
  fix b
  show "apply_writes ws (apply_writes (take k ws) d) b = apply_writes ws d b"
  proof (cases "b \<in> fst ` set ws")
    case True
    then show ?thesis by (rule apply_writes_mem)
  next
    case False
    moreover from this have "b \<notin> fst ` set (take k ws)" by (auto dest: in_set_takeD)
    ultimately show ?thesis by (simp add: apply_writes_other)
  qed
qed

lemma recovered_again:
  assumes g: "log_geom s" and v: "log_valid s d" and len: "\<forall>b. length (d b) = BSIZE"
    and e: "e = apply_writes (take k (recovery_writes s d)) d"
  shows "log_valid s e" "b \<notin> log_area s \<Longrightarrow> apply_writes (recovery_writes s e) e b = apply_writes (recovery_writes s d) d b"
proof -
  let ?c = "log_contents s d"
  have "log_valid s e \<and> (b \<notin> log_area s \<longrightarrow> apply_writes (log_contents s e) e b = apply_writes ?c d b)" for b
  proof (cases "k \<le> length ?c")
    case True
    then have e: "e = apply_writes (take k ?c) d" unfolding e recovery_writes_def by simp
    have same: "e b = d b" if "b \<in> log_area s" for b
      unfolding e by (rule apply_writes_other) (use that v in \<open>auto simp: log_valid_def dest!: in_set_takeD\<close>)
    have h: "e (log_start s) = d (log_start s)" using same log_start_area(1) [OF g] by blast
    have "e (log_block s i) = d (log_block s i)" if "i < nat (head_n (d (log_start s)))" for i
      using same log_block_facts(2) [OF g, of i] v that by (auto simp: log_valid_def)
    then have c: "log_contents s e = ?c" using h by (simp add: log_contents_def)
    then have "log_valid s e" using v h by (simp add: log_valid_def)
    moreover have "apply_writes ?c e = apply_writes ?c d" unfolding e apply_writes_redo ..
    ultimately show ?thesis unfolding c by simp
  next
    case False
    then have e: "e = (apply_writes ?c d)(log_start s := put32 (d (log_start s)) 0 0)"
      unfolding e recovery_writes_def by simp
    have "head_n (e (log_start s)) = 0"
      unfolding e using put_head_facts(2) [of "d (log_start s)" 0 "[]"] len by (simp add: put_head_0 layout_simps)
    then have "log_valid s e" "log_contents s e = []" using log_empty g by auto
    then show ?thesis using log_start_area(1) [OF g] unfolding e by auto
  qed
  then show "log_valid s e" "b \<notin> log_area s \<Longrightarrow> apply_writes (recovery_writes s e) e b = apply_writes (recovery_writes s d) d b"
    using recovery_writes_apply [OF g] v by auto
qed

section \<open>Logging a write\<close>

definition logged :: "uint32 \<Rightarrow> kernel \<Rightarrow> kernel" where
  "logged b s = (let i = log_slot s b in
     s\<lparr>lh_block := (lh_block s)[i := b], lh_n := (if int i = lh_n s then lh_n s + 1 else lh_n s)\<rparr>)"

definition log_room :: "kernel \<Rightarrow> bool" where
  "log_room s \<longleftrightarrow> lh_n s < log_size s - 1 \<and> 1 \<le> log_outstanding s \<and> lock_free L_log s"

lemma log_slot_facts:
  assumes "log_geom s" "trans_ok s"
  shows "b \<in> set (txn s) \<Longrightarrow> log_slot s b < nat (lh_n s) \<and> txn s ! log_slot s b = b"
    "b \<notin> set (txn s) \<Longrightarrow> log_slot s b = nat (lh_n s)"
proof -
  note len = length_trans [OF assms]
  show "log_slot s b < nat (lh_n s) \<and> txn s ! log_slot s b = b" if "b \<in> set (txn s)"
  proof (cases "find (\<lambda>i. lh_block s ! i = b) [0..<nat (lh_n s)]")
    case None
    then show ?thesis using that len nth_trans [OF assms] by (auto simp: find_None_iff in_set_conv_nth)
  next
    case (Some i)
    then have "i < nat (lh_n s)" "lh_block s ! i = b" by (auto simp: find_Some_iff)
    then show ?thesis using Some nth_trans [OF assms] by (simp add: log_slot_def)
  qed
  show "log_slot s b = nat (lh_n s)" if "b \<notin> set (txn s)"
  proof (cases "find (\<lambda>i. lh_block s ! i = b) [0..<nat (lh_n s)]")
    case None
    then show ?thesis by (simp add: log_slot_def)
  next
    case (Some i)
    then have "i < nat (lh_n s)" "lh_block s ! i = b" by (auto simp: find_Some_iff)
    then show ?thesis using that len nth_trans [OF assms] by (auto simp: in_set_conv_nth)
  qed
qed

lemma logged_facts:
  assumes inv: "log_geom s" "trans_ok s" "lh_n s < log_size s - 1" and b: "b < disksize s" "b \<notin> log_area s"
  shows "txn (logged b s) = (if b \<in> set (txn s) then txn s else txn s @ [b])" "log_geom (logged b s)" "trans_ok (logged b s)"
    "lh_n (logged b s) = int (length (txn (logged b s)))"
proof -
  let ?i = "log_slot s b"
  note len = length_trans [OF inv(1,2)]
  have n: "0 \<le> lh_n s" "nat (lh_n s) < length (lh_block s)"
    using inv by (simp_all add: trans_ok_def log_geom_def)
  show g: "log_geom (logged b s)" using inv(1) by (simp add: log_geom_def logged_def Let_def)
  have t: "txn (logged b s) = (if b \<in> set (txn s) then txn s else txn s @ [b]) \<and> lh_n (logged b s) = int (length (txn (logged b s)))"
  proof (cases "b \<in> set (txn s)")
    case True
    then have i: "?i < nat (lh_n s)" "txn s ! ?i = b" using log_slot_facts(1) [OF inv(1,2)] by auto
    then have "(lh_block s)[?i := b] = lh_block s" using nth_trans [OF inv(1,2) i(1)] by (metis list_update_id)
    then show ?thesis using True i n len by (simp add: logged_def Let_def txn_def)
  next
    case False
    then have "?i = nat (lh_n s)" by (rule log_slot_facts(2) [OF inv(1,2)])
    then show ?thesis using False n len by (simp add: logged_def Let_def txn_def nat_add_distrib take_Suc_conv_app_nth)
  qed
  then show "txn (logged b s) = (if b \<in> set (txn s) then txn s else txn s @ [b])" "lh_n (logged b s) = int (length (txn (logged b s)))" by blast+
  then show "trans_ok (logged b s)"
    using inv b n len by (auto simp: trans_ok_def logged_def Let_def log_area_def)
qed

lemma set_buf_acq: "acq lk (set_buf i f s) = set_buf i f (acq lk s)" "touch (set_buf i f s) = set_buf i f (touch s)"
  by (simp_all add: set_buf_def)

lemma log_write_ok:
  assumes inv: "bio_ok s" "log_geom s" "log_room s" and i: "buf_for s i b"
  shows "log_write i s = Ok () (touch (pin i (logged b s)))"
proof -
  let ?j = "log_slot s b"
  have b: "b_blockno (bufs s ! i) = b" using i by (simp add: buf_for_def)
  have ok: "lock_free L_log s" "cpu_ok s" "\<not> (lh_n s \<ge> LOGSIZE \<or> lh_n s \<ge> log_size s - 1)" "\<not> log_outstanding s < 1"
    using inv by (auto simp: log_room_def bio_ok_def log_geom_def)
  have sl: "log_slot (acq L_log s) b = ?j" by (simp add: log_slot_def cong: option.case_cong)
  have e: "touch (pin i (logged b s)) = rel L_log (acq L_log (pin i (logged b s)))"
    using ok by (simp add: pin_def set_buf_def logged_def Let_def)
  show ?thesis
    unfolding e using ok b by (simp add: log_write_def acquire_ok release_ok sl logged_def Let_def pin_def set_buf_def cong: if_cong)
qed

lemma logged_core: "core (logged b s) = logged b (core s)"
  by (simp add: logged_def Let_def log_slot_def core_sel cong: option.case_cong)

lemma logged_frame [simp]:
  "bio_ok (logged b s) = bio_ok s" "view (logged b s) = view s" "held (logged b s) = held s" "pinned (logged b s) = pinned s"
  "buf_for (logged b s) i c = buf_for s i c" "bufs (logged b s) = bufs s" "disk (logged b s) = disk s"
  "disksize (logged b s) = disksize s" "log_size (logged b s) = log_size s" "log_outstanding (logged b s) = log_outstanding s"
  "log_committing (logged b s) = log_committing s" "log_start (logged b s) = log_start s" "lock_free lk (logged b s) = lock_free lk s"
  "log_dev (logged b s) = log_dev s" "log_area (logged b s) = log_area s" "dwrites (logged b s) = dwrites s"
  by (simp_all add: logged_def Let_def log_area_def)

text \<open>The pattern of every change to the file system: read a block, change it, log it,
  release it.\<close>

lemma log_update:
  assumes inv: "bio_ok s" "log_geom s" "log_room s" and b: "b < disksize s" "b \<notin> held s" "b \<in> pinned s \<or> card (held s \<union> pinned s) < NBUF"
    and f: "\<And>t. core t = core s \<Longrightarrow> f t = f s" and len: "length (f s (view s b)) = BSIZE"
  shows "returns (bind (bread 1 b) (\<lambda>i. bind (gets (\<lambda>t. f t (b_data (bufs t ! i)))) (\<lambda>d. andthen (modify (set_data i d))
       (andthen (log_write i) (brelse i))))) s
     (\<lambda>_ t. core t = logged b (core s) \<and> bio_ok t \<and> view t = (view s)(b := f s (view s b)) \<and> held t = held s \<and> pinned t = insert b (pinned s))"
proof -
  from bcache.get_law [OF inv(1) b] obtain i t where t: "bread 1 b s = Ok i t" "core t = core s" "bio_ok t" "buf_for t i b"
    "b_data (bufs t ! i) = view s b" "view t = view s" "held t = insert b (held s)" "pinned t = pinned s"
    by (auto elim!: returnsE)
  let ?d = "f s (view s b)" and ?u = "set_data i (f s (view s b)) t"
  have d: "f t (b_data (bufs t ! i)) = ?d" using f [OF t(2)] t(5) by simp
  note u = set_data_spec [OF t(3,4) len]
  have cu: "core ?u = core s" using u(6) t(2) by simp
  have g: "log_geom ?u" "log_room ?u"
    using inv(2,3) coreD [OF cu] core_derived [OF cu] by (simp_all add: log_geom_def log_room_def)
  note w = log_write_ok [OF u(1) g u(2)]
  let ?v = "pin i (logged b ?u)"
  have bv: "bio_ok (logged b ?u)" "buf_for (logged b ?u) i b" using u(1,2) by simp_all
  note v = pin_spec [OF bv]
  have "bio_ok (touch ?v)" "buf_for (touch ?v) i b" "b \<in> pinned (touch ?v) \<or> view (touch ?v) b = disk (touch ?v) b"
    using v(1,2,5) by simp_all
  from bcache.give_law [OF this] obtain x where x: "brelse i (touch ?v) = Ok () x" "core x = core (touch ?v)" "bio_ok x"
    "view x = view (touch ?v)" "held x = held (touch ?v) - {b}" "pinned x = pinned (touch ?v)" by (auto elim!: returnsE)
  have "core x = logged b (core s)" using x(2) v(6) cu by (simp add: logged_core)
  then show ?thesis using t d w x v u b(2) by (auto simp: returns_def)
qed

section \<open>Transactions\<close>

lemma begin_op_ok:
  assumes "lock_free L_log s" "cpu_ok s" "\<not> log_committing s" "lh_n s + (log_outstanding s + 1) * MAXOPBLOCKS \<le> LOGSIZE"
  shows "begin_op s = Ok () (touch (s\<lparr>log_outstanding := log_outstanding s + 1\<rparr>))"
  using assms by (simp add: begin_op_def begin_op_loop_def acquire_ok release_ok)

text \<open>The state between file system operations: nothing is logged and the log on disk is
  empty.\<close>

definition log_idle :: "kernel \<Rightarrow> bool" where
  "log_idle s \<longleftrightarrow> bio_ok s \<and> held s = {} \<and> pinned s = {} \<and> log_geom s \<and> length (lh_block s) = nat LOGSIZE \<and> lh_n s = 0
     \<and> log_outstanding s = 0 \<and> \<not> log_committing s \<and> lock_free L_log s \<and> head_n (disk s (log_start s)) = 0"

text \<open>The state inside the only operation of the system.\<close>

definition in_op :: "kernel \<Rightarrow> bool" where
  "in_op s \<longleftrightarrow> bio_ok s \<and> log_geom s \<and> trans_ok s \<and> pinned s = set (txn s) \<and> log_outstanding s = 1
     \<and> \<not> log_committing s \<and> lock_free L_log s \<and> head_n (disk s (log_start s)) = 0"

lemma begin_op_returns:
  assumes "log_idle s"
  shows "returns begin_op s (\<lambda>_ t. in_op t \<and> txn t = [] \<and> held t = {} \<and> view t = view s
     \<and> core t = (core s)\<lparr>log_outstanding := 1\<rparr>)"
proof -
  have "begin_op s = Ok () (touch (s\<lparr>log_outstanding := log_outstanding s + 1\<rparr>))"
    by (rule begin_op_ok) (use assms in \<open>simp_all add: log_idle_def bio_ok_def layout_simps\<close>)
  then show ?thesis
    using assms by (simp add: returns_def log_idle_def in_op_def trans_ok_def log_geom_def txn_def log_area_def)
qed

lemma in_op_core:
  assumes "in_op s" "core t = core s" "bio_ok t" "pinned t = pinned s"
  shows "in_op t"
  using assms log_core [OF assms(2)] coreD [OF assms(2)] core_derived [OF assms(2)] by (simp add: in_op_def)

lemma in_op_update:
  assumes inv: "in_op s" "lh_n s < log_size s - 1" and b: "b < disksize s" "b \<notin> log_area s" "b \<notin> held s"
    "b \<in> pinned s \<or> card (held s \<union> pinned s) < NBUF"
    and f: "\<And>t. core t = core s \<Longrightarrow> f t = f s" and len: "length (f s (view s b)) = BSIZE"
  shows "returns (bind (bread 1 b) (\<lambda>i. bind (gets (\<lambda>t. f t (b_data (bufs t ! i)))) (\<lambda>d. andthen (modify (set_data i d))
       (andthen (log_write i) (brelse i))))) s
     (\<lambda>_ t. core t = logged b (core s) \<and> in_op t \<and> txn t = (if b \<in> set (txn s) then txn s else txn s @ [b])
        \<and> lh_n t = int (length (txn t)) \<and> view t = (view s)(b := f s (view s b)) \<and> held t = held s)"
proof -
  have a: "bio_ok s" "log_geom s" "trans_ok s" "log_room s" using inv by (simp_all add: in_op_def log_room_def)
  from log_update [where f = f, OF a(1,2,4) b(1,3,4) f len] show ?thesis
  proof (rule returns_mono)
    fix t assume t: "core t = logged b (core s) \<and> bio_ok t \<and> view t = (view s)(b := f s (view s b)) \<and> held t = held s
      \<and> pinned t = insert b (pinned s)"
    note l = logged_facts [OF a(2,3) inv(2) b(1,2)]
    have "core t = core (logged b s)" using t by (simp add: logged_core)
    note c = log_core [OF this] coreD [OF this] core_derived [OF this]
    have "in_op t" using inv(1) t l c by (auto simp: in_op_def)
    then show "core t = logged b (core s) \<and> in_op t \<and> txn t = (if b \<in> set (txn s) then txn s else txn s @ [b])
        \<and> lh_n t = int (length (txn t)) \<and> view t = (view s)(b := f s (view s b)) \<and> held t = held s"
      using t l c by simp
  qed
qed

definition op_writes :: "kernel \<Rightarrow> (uint32 \<times> byte list) list" where
  "op_writes s = (if lh_n s = 0 then [] else commit_writes s)"

lemma commit_writes_cong:
  assumes "lh_n t = lh_n s" "lh_block t = lh_block s" "log_start t = log_start s" "view t = view s"
  shows "commit_writes t = commit_writes s"
  using assms by (simp add: commit_writes_def commit_head_def log_writes_def txn_def log_block_def)

lemma commit_op:
  assumes "bio_ok s" "held s = {}" "log_geom s" "trans_ok s" "pinned s = set (txn s)"
  shows "returns commit s (\<lambda>_ t. core t = (writes_all (op_writes s) (core s))\<lparr>lh_n := 0\<rparr> \<and> bio_ok t \<and> held t = {} \<and> pinned t = {}
     \<and> view t = apply_writes (op_writes s) (view s))"
proof (cases "lh_n s = 0")
  case True
  have "lh_n (core s) = 0" using True by (simp add: core_sel)
  then have "(core s)\<lparr>lh_n := 0\<rparr> = core s" by (cases "core s") simp
  then show ?thesis using True assms by (simp add: commit_def op_writes_def returns_def txn_def do_if_def)
next
  case False
  then have "0 < lh_n s" using assms(4) by (simp add: trans_ok_def)
  then show ?thesis using commit_returns [OF assms] by (simp add: op_writes_def)
qed

lemma commit_writes_view:
  assumes "log_geom s" "trans_ok s" "b \<notin> log_area s"
  shows "apply_writes (op_writes s) (view s) b = view s b"
proof -
  have "b \<noteq> log_start s" using log_start_area(1) [OF assms(1)] assms(3) by auto
  moreover have "apply_writes (log_writes s) (view s) b = view s b"
    by (rule apply_writes_other) (use log_writes_fst [OF assms(1,2)] assms(3) in auto)
  ultimately show ?thesis by (simp add: op_writes_def commit_writes_def apply_writes_values)
qed

lemma op_writes_head:
  assumes "bio_ok s" "log_geom s" "trans_ok s" "head_n (d (log_start s)) = 0"
  shows "head_n (apply_writes (op_writes s) d (log_start s)) = 0"
proof (cases "lh_n s = 0")
  case False
  then show ?thesis
    using put_head_facts(2) [OF length_commit_head [OF assms(1-3)], of 0 "lh_block s"]
    by (simp add: op_writes_def commit_writes_def layout_simps)
qed (simp add: op_writes_def assms(4))

lemma uncommit: "\<not> log_committing s \<Longrightarrow> s\<lparr>log_outstanding := n, log_committing := False, lh_n := m\<rparr> = s\<lparr>lh_n := m, log_outstanding := n\<rparr>"
  by (cases s) simp

lemma end_op_returns:
  assumes s: "in_op s" "held s = {}"
  shows "returns end_op s (\<lambda>_ t. log_idle t \<and> core t = (writes_all (op_writes s) (core s))\<lparr>lh_n := 0, log_outstanding := 0\<rparr>
     \<and> view t = apply_writes (op_writes s) (view s))"
proof -
  let ?s = "touch (s\<lparr>log_outstanding := 0, log_committing := True\<rparr>)"
  have inv: "bio_ok s" "log_geom s" "trans_ok s" "pinned s = set (txn s)" "log_outstanding s = 1" "\<not> log_committing s" "lock_free L_log s"
    "head_n (disk s (log_start s)) = 0" using s by (simp_all add: in_op_def)
  have ok: "cpu_ok s" using inv(1) by (simp add: bio_ok_def)
  have e: "op_writes ?s = op_writes s" using commit_writes_cong [of ?s s] by (simp add: op_writes_def)
  have "returns commit ?s (\<lambda>_ t. core t = (writes_all (op_writes ?s) (core ?s))\<lparr>lh_n := 0\<rparr> \<and> bio_ok t \<and> held t = {} \<and> pinned t = {}
     \<and> view t = apply_writes (op_writes ?s) (view ?s))"
    by (rule commit_op) (use inv s(2) in \<open>simp_all add: log_geom_def trans_ok_def txn_def log_area_def\<close>)
  then obtain t where t: "commit ?s = Ok () t" "core t = (writes_all (op_writes s) (core ?s))\<lparr>lh_n := 0\<rparr>" "bio_ok t" "held t = {}" "pinned t = {}"
    "view t = apply_writes (op_writes s) (view s)" using e by (auto elim!: returnsE)
  have ct: "core t = (writes_all (op_writes s) (core s))\<lparr>log_outstanding := 0, log_committing := True, lh_n := 0\<rparr>"
    using t(2) by (simp add: writes_all_def)
  have f: "\<And>f. f (core t) = f ((writes_all (op_writes s) (core s))\<lparr>log_outstanding := 0, log_committing := True, lh_n := 0\<rparr>)" using ct by simp
  have d: "log_dev t = log_dev s" "log_start t = log_start s" "log_size t = log_size s" "disksize t = disksize s" "lh_block t = lh_block s"
    "disk t = apply_writes (op_writes s) (disk s)" "locks t = locks s" "lh_n t = 0"  "log_outstanding t = 0"
    using f [of log_dev] f [of log_start] f [of log_size] f [of disksize] f [of lh_block] f [of disk] f [of locks] f [of lh_n] f [of log_outstanding]
    by (simp_all add: writes_all_def core_sel)
  have lk: "lock_free L_log t" using inv(7) d(7) by (simp add: lock_free_def)
  have okt: "cpu_ok t" "lock_free L_ptable t" "length (procs t) = NPROC" using t(3) by (simp_all add: bio_ok_def)
  let ?u = "wake_all (Some Ch_log) (touch (t\<lparr>log_committing := False\<rparr>))"
  have run: "end_op s = Ok () ?u"
  proof -
    have "wakeup Ch_log ((acq L_log t)\<lparr>log_committing := False\<rparr>) = Ok () (touch (wake_all (Some Ch_log) ((acq L_log t)\<lparr>log_committing := False\<rparr>)))"
      by (rule wakeup_ok) (use okt in simp_all)
    then show ?thesis
      using inv(5-7) ok t(1) lk okt(1) by (simp add: end_op_def acquire_ok release_ok do_if_def wake_all_def)
  qed
  have "core ?u = (writes_all (op_writes s) (core s))\<lparr>lh_n := 0, log_outstanding := 0\<rparr>"
    using ct inv(6) uncommit [of "writes_all (op_writes s) (core s)"] by (simp add: writes_all_def core_sel)
  moreover have "head_n (disk t (log_start t)) = 0" using op_writes_head [OF inv(1-3)] inv(8) d(2,6) by simp
  then have "log_idle ?u"
    using t lk d inv(2,3) 
    by (simp add: log_idle_def log_geom_def trans_ok_def coreD [OF core_wake_all] core_derived [OF core_wake_all])
  ultimately show ?thesis using run t(6) by (simp add: returns_def)
qed

text \<open>A sequence of logged writes as one operation.\<close>

definition log_put :: "uint32 \<times> byte list \<Rightarrow> unit kroutine" where
  "log_put w = bind (bread 1 (fst w)) (\<lambda>i. andthen (modify (set_data i (snd w))) (andthen (log_write i) (brelse i)))"

definition transaction :: "(uint32 \<times> byte list) list \<Rightarrow> unit kroutine" where
  "transaction ws = andthen begin_op (andthen (foreach ws log_put) end_op)"

definition loggable :: "kernel \<Rightarrow> (uint32 \<times> byte list) list \<Rightarrow> bool" where
  "loggable s ws \<longleftrightarrow> (\<forall>w \<in> set ws. fst w < disksize s \<and> fst w \<notin> log_area s \<and> length (snd w) = BSIZE)
     \<and> int (card (fst ` set ws)) < log_size s - 1"

lemma in_op_card:
  assumes "in_op s" "held s = {}"
  shows "card (held s \<union> pinned s) < NBUF"
  using card_trans [of s "set (txn s)"] assms by (simp add: in_op_def)

lemma in_op_length: "in_op s \<Longrightarrow> lh_n s = int (length (txn s))"
  using length_trans [of s] by (simp add: in_op_def trans_ok_def)

lemma log_put_returns:
  assumes s: "in_op s" "held s = {}" "lh_n s < log_size s - 1" and w: "fst w < disksize s" "fst w \<notin> log_area s" "length (snd w) = BSIZE"
  shows "returns (log_put w) s (\<lambda>_ t. core t = logged (fst w) (core s) \<and> in_op t
      \<and> txn t = (if fst w \<in> set (txn s) then txn s else txn s @ [fst w])
      \<and> view t = (view s)(fst w := snd w) \<and> held t = {})"
proof -
  have "fst w \<notin> held s" "fst w \<in> pinned s \<or> card (held s \<union> pinned s) < NBUF" using s in_op_card by simp_all
  note in_op_update [where f = "\<lambda>_ _. snd w", OF s(1,3) w(1,2) this refl w(3)]
  then show ?thesis using s(2) by (auto simp: log_put_def returns_bind elim!: returns_mono)
qed

lemma log_puts_return:
  assumes "in_op s" "held s = {}" "txn s = []" "loggable s ws"
  shows "returns (foreach ws log_put) s (\<lambda>_ t. in_op t \<and> held t = {} \<and> set (txn t) = fst ` set ws
     \<and> view t = apply_writes ws (view s) \<and> disk t = disk s \<and> log_start t = log_start s \<and> log_size t = log_size s \<and> disksize t = disksize s
     \<and> dwrites t = dwrites s)"
proof -
  let ?I = "\<lambda>k t. in_op t \<and> held t = {} \<and> set (txn t) = fst ` set (take k ws)
     \<and> view t = apply_writes (take k ws) (view s) \<and> disk t = disk s \<and> log_start t = log_start s \<and> log_size t = log_size s \<and> disksize t = disksize s
     \<and> dwrites t = dwrites s"
  have "returns (foreach ws log_put) s (\<lambda>_ t. ?I (length ws) t)"
  proof (rule foreach_returns)
    show "?I 0 s" using assms by simp
    show "returns (log_put (ws ! k)) t (\<lambda>_ u. ?I (Suc k) u)" if k: "k < length ws" and t: "?I k t" for k t
    proof -
      have tk: "take (Suc k) ws = take k ws @ [ws ! k]" using k by (rule take_Suc_conv_app_nth)
      have wk: "ws ! k \<in> set ws" using k by simp
      have area: "log_area t = log_area s" using t by (simp add: log_area_def)
      have "distinct (txn t)" using t by (simp add: in_op_def trans_ok_def)
      then have "length (txn t) = card (fst ` set (take k ws))" using t distinct_card [of "txn t"] by simp
      also have "\<dots> \<le> card (fst ` set ws)" by (intro card_mono image_mono) (auto dest: in_set_takeD)
      finally have "lh_n t < log_size t - 1" using assms(4) t in_op_length [of t] by (simp add: loggable_def)
      then have "returns (log_put (ws ! k)) t (\<lambda>_ u. core u = logged (fst (ws ! k)) (core t) \<and> in_op u
          \<and> txn u = (if fst (ws ! k) \<in> set (txn t) then txn t else txn t @ [fst (ws ! k)])
          \<and> view u = (view t)(fst (ws ! k) := snd (ws ! k)) \<and> held u = {})"
        by (intro log_put_returns) (use t wk area assms(4) in \<open>auto simp: loggable_def\<close>)
      then show ?thesis
      proof (rule returns_mono)
        fix u assume u: "core u = logged (fst (ws ! k)) (core t) \<and> in_op u
          \<and> txn u = (if fst (ws ! k) \<in> set (txn t) then txn t else txn t @ [fst (ws ! k)])
          \<and> view u = (view t)(fst (ws ! k) := snd (ws ! k)) \<and> held u = {}"
        then have "core u = core (logged (fst (ws ! k)) t)" by (simp add: logged_core)
        note c = coreD [OF this]
        have "apply_writes [ws ! k] d = d(fst (ws ! k) := snd (ws ! k))" for d by (cases "ws ! k") simp
        then show "?I (Suc k) u" unfolding tk using u t c by auto
      qed
    qed
  qed
  then show ?thesis by simp
qed

lemma op_recovered:
  assumes s: "in_op s" "held s = {}" and r: "rebooted s (apply_writes (take k (op_writes s)) (disk s)) r"
  shows "returns recover_from_log r (\<lambda>_ u. \<forall>b. b \<notin> log_area s \<longrightarrow> disk u b = (if k \<le> nat (lh_n s) then disk s b else view s b))"
proof -
  let ?d = "apply_writes (take k (op_writes s)) (disk s)"
  have inv: "bio_ok s" "log_geom s" "trans_ok s" "pinned s = set (txn s)" "head_n (disk s (log_start s)) = 0"
    using s by (simp_all add: in_op_def)
  have "log_valid s ?d \<and> (\<forall>b. b \<notin> log_area s \<longrightarrow> apply_writes (recovery_writes s ?d) ?d b = (if k \<le> nat (lh_n s) then disk s b else view s b))"
  proof (cases "lh_n s = 0")
    case True
    then have "view s b = disk s b" for b using view_clean [OF inv(1)] s(2) inv(4) by (simp add: txn_def)
    then show ?thesis
      using True log_empty [where d = "disk s", OF inv(2,5)] recovery_writes_apply [OF inv(2), of "disk s"] by (simp add: op_writes_def)
  next
    case False
    then show ?thesis
      using recovered_commit [OF inv(1) s(2) inv(2-5) refl, where k = k] by (simp add: op_writes_def)
  qed
  then show ?thesis using recover_disk [OF inv(2) r] by (auto elim!: returns_mono)
qed

text \<open>
  C1. A transaction is atomic. A sequence of logged writes between \<open>begin_op\<close> and
  \<open>end_op\<close> is on the disk when \<open>end_op\<close> returns; and if the machine stops after
  any number of the disk writes that this takes, then \<open>recover_from_log\<close>, run on the
  disk that is left, makes a disk that has, outside the log, none of the writes or all of
  them.
\<close>

theorem transaction_atomic:
  assumes "log_idle s" "loggable s ws"
  shows "returns (transaction ws) s (\<lambda>_ t. log_idle t \<and> (\<forall>b. b \<notin> log_area s \<longrightarrow> disk t b = apply_writes ws (disk s) b)
     \<and> (\<exists>ds. dwrites t = dwrites s @ ds \<and> (\<forall>k r. rebooted s (apply_writes (take k ds) (disk s)) r \<longrightarrow>
          returns recover_from_log r (\<lambda>_ u. (\<forall>b. b \<notin> log_area s \<longrightarrow> disk u b = disk s b)
             \<or> (\<forall>b. b \<notin> log_area s \<longrightarrow> disk u b = apply_writes ws (disk s) b)))))"
proof -
  have idle: "bio_ok s" "held s = {}" "pinned s = {}" "log_geom s" using assms(1) by (simp_all add: log_idle_def)
  have vs: "view s = disk s" using view_clean [OF idle(1)] idle(2,3) by auto
  from begin_op_returns [OF assms(1)] obtain t1 where t1: "begin_op s = Ok () t1" "in_op t1" "txn t1 = []" "held t1 = {}" "view t1 = view s"
    "core t1 = (core s)\<lparr>log_outstanding := 1\<rparr>" by (auto elim!: returnsE)
  then have "core t1 = core (s\<lparr>log_outstanding := 1\<rparr>)" by simp
  note c1 = coreD [OF this]
  have "loggable t1 ws" using assms(2) c1 by (simp add: loggable_def log_area_def)
  from log_puts_return [OF t1(2,4,3) this] obtain t2 where t2: "foreach ws log_put t1 = Ok () t2" "in_op t2" "held t2 = {}"
    "view t2 = apply_writes ws (disk s)" "disk t2 = disk s" "log_start t2 = log_start s" "log_size t2 = log_size s"
    "disksize t2 = disksize s" "dwrites t2 = dwrites s" using c1 t1(5) vs by (auto elim!: returnsE)
  have g2: "bio_ok t2" "log_geom t2" "trans_ok t2" "log_dev t2 = log_dev s" "log_area t2 = log_area s"
    using t2 idle(4) by (simp_all add: in_op_def log_geom_def log_area_def)
  from end_op_returns [OF t2(2,3)] obtain t3 where t3: "end_op t2 = Ok () t3" "log_idle t3" "view t3 = apply_writes (op_writes t2) (view t2)"
    "core t3 = (writes_all (op_writes t2) (core t2))\<lparr>lh_n := 0, log_outstanding := 0\<rparr>" by (auto elim!: returnsE)
  have v3: "view t3 = disk t3" using t3(2) view_clean [of t3] by (auto simp: log_idle_def)
  have w3: "dwrites t3 = dwrites s @ op_writes t2"
    using arg_cong [OF t3(4), of dwrites] t2(9) by (simp add: writes_all_def core_sel)
  have rb: "rebooted t2 d r" if "rebooted s d r" for d r using that t2 g2 by (simp add: rebooted_def)
  have "returns recover_from_log r (\<lambda>_ u. (\<forall>b. b \<notin> log_area s \<longrightarrow> disk u b = disk s b)
     \<or> (\<forall>b. b \<notin> log_area s \<longrightarrow> disk u b = apply_writes ws (disk s) b))"
    if r: "rebooted s (apply_writes (take k (op_writes t2)) (disk s)) r" for k r
  proof -
    have "rebooted t2 (apply_writes (take k (op_writes t2)) (disk t2)) r" using rb [OF r] t2(5) by simp
    from op_recovered [OF t2(2,3) this] show ?thesis
      unfolding t2(4,5) g2(5) by (rule returns_mono) (cases "k \<le> nat (lh_n t2)", auto)
  qed
  moreover have "disk t3 b = apply_writes ws (disk s) b" if "b \<notin> log_area s" for b
    using commit_writes_view [OF g2(2,3), of b] that t3(3) v3 g2(5) t2(4) by simp
  ultimately show ?thesis using t1(1) t2(1) t3(1,2) w3 by (auto simp: transaction_def returns_def)
qed

text \<open>
  C2. Recovery can itself be interrupted: if the machine stops after any number of the disk
  writes of \<open>recover_from_log\<close>, running it again gives the disk that the first run would
  have given, outside the log.
\<close>

theorem recovery_restarts:
  assumes "log_geom s" "rebooted s d r" "log_valid s d"
  shows "returns recover_from_log r (\<lambda>_ t. \<exists>ds. dwrites t = dwrites r @ ds \<and> disk t = apply_writes ds d
     \<and> (\<forall>k q. rebooted s (apply_writes (take k ds) d) q \<longrightarrow>
          returns recover_from_log q (\<lambda>_ u. \<forall>b. b \<notin> log_area s \<longrightarrow> disk u b = disk t b)))"
proof -
  let ?ds = "recovery_writes s d"
  have len: "\<forall>b. length (d b) = BSIZE" using assms(2) by (auto simp: rebooted_def bio_ok_def)
  have again: "returns recover_from_log q (\<lambda>_ u. \<forall>b. b \<notin> log_area s \<longrightarrow> disk u b = apply_writes ?ds d b)"
    if q: "rebooted s (apply_writes (take k ?ds) d) q" for k q
  proof -
    note a = recovered_again [OF assms(1,3) len refl, where k = k]
    show ?thesis using recover_disk [OF assms(1) q a(1)] a(2) by (auto elim!: returns_mono)
  qed
  show ?thesis using recover_disk [OF assms] by (rule returns_mono) (use again in auto)
qed

section \<open>Witnesses\<close>

text \<open>The machine after \<open>binit\<close> on the disk \<open>d\<close>, with a log of 30 blocks from
  block 2.\<close>

definition booted :: "(uint32 \<Rightarrow> byte list) \<Rightarrow> kernel" where
  "booted d = (case binit (boot0\<lparr>disk := d\<rparr>) of Ok _ t \<Rightarrow> t | _ \<Rightarrow> boot0)\<lparr>log_dev := 1, log_start := 2, log_size := 30\<rparr>"

lemma booted_binit:
  assumes "\<And>b. length (d b) = BSIZE"
  obtains t where "bio_ok t" "held t = {}" "pinned t = {}" "binit_frame (boot0\<lparr>disk := d\<rparr>) t"
    "booted d = t\<lparr>log_dev := 1, log_start := 2, log_size := 30\<rparr>"
proof -
  let ?s = "boot0\<lparr>disk := d\<rparr>"
  have "returns binit ?s (\<lambda>_ t. bio_ok t \<and> view t = disk ?s \<and> held t = {} \<and> pinned t = {}
     \<and> binit_frame ?s t \<and> cache_list t (rev [0..<NBUF]) \<and> (\<forall>b. cached t b = None))"
    by (rule binit_returns)
      (use assms in \<open>simp_all add: boot0_def boot_kernel_def zero_defs bufs_unused_def lock_free_def cpu_ok_def mycpu_def
        del: replicate_Suc\<close>)
  then obtain t where t: "binit ?s = Ok () t" "bio_ok t" "held t = {}" "pinned t = {}" "binit_frame ?s t"
    unfolding returns_iff by (elim exE conjE) simp
  then show ?thesis using that [OF t(2-5)] by (simp add: booted_def)
qed

lemma booted_facts:
  assumes "\<And>b. length (d b) = BSIZE"
  shows "bio_ok (booted d)" "held (booted d) = {}" "pinned (booted d) = {}" "disk (booted d) = d" "lock_free L_log (booted d)"
    "log_dev (booted d) = 1" "log_start (booted d) = 2" "log_size (booted d) = 30" "disksize (booted d) = 1000"
    "lh_n (booted d) = 0" "length (lh_block (booted d)) = nat LOGSIZE" "log_outstanding (booted d) = 0" "\<not> log_committing (booted d)"
    "lk \<noteq> L_bcache \<Longrightarrow> lock_free lk (booted d)"
proof -
  obtain t where t: "bio_ok t" "held t = {}" "pinned t = {}" "binit_frame (boot0\<lparr>disk := d\<rparr>) t"
    and b: "booted d = t\<lparr>log_dev := 1, log_start := 2, log_size := 30\<rparr>"
    by (rule booted_binit [of d, OF assms])
  note f = binit_frameD [OF t(4)]
  have lk: "lock_free lk t = lock_free lk (boot0\<lparr>disk := d\<rparr>)" if "lk \<noteq> L_bcache" for lk using that by (simp add: f)
  show "bio_ok (booted d)" "held (booted d) = {}" "pinned (booted d) = {}" "disk (booted d) = d" "lock_free L_log (booted d)"
    "log_dev (booted d) = 1" "log_start (booted d) = 2" "log_size (booted d) = 30" "disksize (booted d) = 1000"
    "lh_n (booted d) = 0" "length (lh_block (booted d)) = nat LOGSIZE" "log_outstanding (booted d) = 0" "\<not> log_committing (booted d)"
    using t lk [of L_log] unfolding b
    by (simp_all add: f boot0_def boot_kernel_def lock_free_def zero_spinlock_def del: replicate_Suc)
  show "lock_free lk (booted d)" if "lk \<noteq> L_bcache"
    using lk [OF that] unfolding b by (simp add: boot0_def boot_kernel_def lock_free_def zero_spinlock_def del: replicate_Suc)
qed

lemma booted_geom: "(\<And>b. length (d b) = BSIZE) \<Longrightarrow> log_geom (booted d)"
  by (simp add: log_geom_def booted_facts layout_simps)

lemma booted_area: "(\<And>b. length (d b) = BSIZE) \<Longrightarrow> b \<notin> log_area (booted d) \<longleftrightarrow> unat b < 2 \<or> 32 \<le> unat b"
  by (auto simp: log_area_def booted_facts)

lemma head_n_zeros: "head_n (replicate BSIZE 0) = 0"
  by (simp add: head_n_def get32_def layout_simps numeral_eq_Suc)

lemma transaction_atomic_witness:
  "returns (transaction [(100, replicate BSIZE 65), (200, replicate BSIZE 66)]) (booted (\<lambda>_. replicate BSIZE 0))
     (\<lambda>_ t. disk t 100 = replicate BSIZE 65 \<and> disk t 200 = replicate BSIZE 66 \<and> disk t 300 = replicate BSIZE 0)"
proof -
  let ?s = "booted (\<lambda>_. replicate BSIZE 0)" and ?ws = "[(100, replicate BSIZE 65), (200, replicate BSIZE 66)]"
  have l: "length ((\<lambda>_. replicate BSIZE 0) b) = BSIZE" for b :: uint32 by simp
  note f = booted_facts [OF l] booted_area [OF l] booted_geom [OF l]
  have "log_idle ?s" by (simp add: log_idle_def f head_n_zeros)
  moreover have "loggable ?s ?ws" by (simp add: loggable_def f word_less_nat_alt card_insert_if)
  ultimately show ?thesis
    using transaction_atomic [of ?s ?ws] by (auto simp: f elim!: returns_mono)
qed

text \<open>A disk whose log holds one committed block.\<close>

definition committed :: "uint32 \<Rightarrow> byte list" where
  "committed = (\<lambda>_. replicate BSIZE 0)(2 := put_head 1 [100] (replicate BSIZE 0), 3 := replicate BSIZE 65)"

lemma committed_facts:
  "length (committed b) = BSIZE" "log_contents (booted committed) committed = [(100, replicate BSIZE 65)]"
  "log_valid (booted committed) committed"
proof -
  have len: "length (replicate BSIZE (0 :: byte)) = BSIZE" by simp
  note h = put_head_facts [where n = 1 and bs = "[100]", OF len]
  show l: "length (committed b) = BSIZE" for b using h(1) by (simp add: committed_def layout_simps del: replicate_Suc)
  note f = booted_facts [OF l] booted_area [OF l]
  have "head_n (committed 2) = 1" "head_block (committed 2) 0 = 100" "committed 3 = replicate BSIZE 65"
    using h(2,3) by (simp_all add: committed_def layout_simps del: replicate_Suc)
  then show "log_contents (booted committed) committed = [(100, replicate BSIZE 65)]"
    by (simp add: log_contents_def f log_block_def)
  then show "log_valid (booted committed) committed"
    using \<open>head_n (committed 2) = 1\<close> by (simp add: log_valid_def f word_less_nat_alt)
qed

lemma booted_rebooted: "(\<And>b. length (d b) = BSIZE) \<Longrightarrow> (\<And>b. length (e b) = BSIZE) \<Longrightarrow> rebooted (booted d) e (booted e)"
  by (simp add: rebooted_def booted_facts)

lemma recovery_restarts_witness:
  "returns recover_from_log (booted committed) (\<lambda>_ t. disk t 100 = replicate BSIZE 65 \<and> (\<exists>ds. dwrites t = dwrites (booted committed) @ ds
     \<and> (\<forall>k. returns recover_from_log (booted (apply_writes (take k ds) committed)) (\<lambda>_ u. disk u 100 = replicate BSIZE 65))))"
proof -
  let ?r = "booted committed"
  note c = committed_facts
  have rb: "rebooted ?r e (booted e)" if "\<And>b. length (e b) = BSIZE" for e by (rule booted_rebooted [OF c(1) that])
  note a = booted_geom [OF c(1)] rb [OF c(1)] c(3)
  from recover_disk [OF a] obtain t where t: "recover_from_log ?r = Ok () t" "disk t = apply_writes (recovery_writes ?r committed) committed"
    "dwrites t = dwrites ?r @ recovery_writes ?r committed" by (auto elim!: returnsE)
  have w: "\<forall>x \<in> set (recovery_writes ?r committed). length (snd x) = BSIZE"
    using c(1) by (simp add: recovery_writes_def c(2) booted_facts)
  have l: "length (apply_writes (take k (recovery_writes ?r committed)) committed b) = BSIZE" for k b
    by (rule apply_writes_length) (use c(1) w in \<open>auto dest: in_set_takeD\<close>)
  have d: "disk t 100 = replicate BSIZE 65" unfolding t(2) by (simp add: recovery_writes_def c booted_facts)
  have area: "100 \<notin> log_area ?r" by (simp add: booted_area c(1))
  have "returns recover_from_log q (\<lambda>_ u. disk u 100 = replicate BSIZE 65)"
    if "rebooted ?r (apply_writes (take k (recovery_writes ?r committed)) committed) q" for k q
  proof -
    have "returns recover_from_log q (\<lambda>_ u. \<forall>b. b \<notin> log_area ?r \<longrightarrow> disk u b = disk t b)"
      using recovery_restarts [OF a] t(1,3) that by (auto simp: returns_def [of recover_from_log ?r])
    then show ?thesis by (rule returns_mono) (use area d in simp)
  qed
  then have "returns recover_from_log (booted (apply_writes (take k (recovery_writes ?r committed)) committed))
      (\<lambda>_ u. disk u 100 = replicate BSIZE 65)" for k
    using rb [of "apply_writes (take k (recovery_writes ?r committed)) committed", OF l] by blast
  then show ?thesis using t d by (simp add: returns_def)
qed

end
