(* ===== verification/Uart.thy ===== *)
theory Uart
  imports Sched
begin

text \<open>
  Port i/o and the small drivers below the console: the interrupt controllers
  (\<^verbatim>\<open>picirq.c\<close>, and the register access of \<^verbatim>\<open>ioapic.c\<close>), the timer
  (\<^verbatim>\<open>timer.c\<close>) and the serial port (\<^verbatim>\<open>uart.c\<close>). What a driver writes is appended to
  \<open>ios\<close>; what it reads comes from the front of \<open>ins\<close>, and from a device that has no
  more to say it reads zeroes. The cursor register of the screen is kept as state, because
  the console reads back what it has written there.
\<close>

unbundle bit_operations_syntax

section \<open>Ports\<close>

definition CRTPORT :: ushort where
  "CRTPORT = 0x3D4"

definition outb :: "ushort \<Rightarrow> byte \<Rightarrow> unit kroutine" where
  "outb port v = modify (\<lambda>s. s\<lparr>ios := ios s @ [Outb port v],
     cons := (if port = CRTPORT then (cons s)\<lparr>crt_index := v\<rparr>
              else if port = CRTPORT + 1 then (cons s)\<lparr>crt_reg := (crt_reg (cons s))(crt_index (cons s) := v)\<rparr>
              else cons s)\<rparr>)"

definition outsl :: "ushort \<Rightarrow> byte list \<Rightarrow> unit kroutine" where
  "outsl port bs = modify (\<lambda>s. s\<lparr>ios := ios s @ [Outsl port bs]\<rparr>)"

text \<open>The next \<open>n\<close> bytes that the devices deliver.\<close>

definition dev_in :: "nat \<Rightarrow> byte list kroutine" where
  "dev_in n = bind (gets (\<lambda>s. take n (ins s @ replicate n 0))) (\<lambda>bs.
     andthen (modify (\<lambda>s. s\<lparr>ins := drop n (ins s)\<rparr>)) (return bs))"

definition inb :: "ushort \<Rightarrow> byte kroutine" where
  "inb port =
    (if port = CRTPORT + 1 then gets (\<lambda>s. crt_reg (cons s) (crt_index (cons s)))
     else bind (dev_in 1) (\<lambda>bs. return (hd bs)))"

definition insl :: "ushort \<Rightarrow> nat \<Rightarrow> byte list kroutine" where
  "insl port cnt = dev_in (4 * cnt)"

text \<open>
  To read a register until a condition holds. Once \<open>ins\<close> is used up every further read
  gives the same zeroes, so that one turn more than there are bytes decides whether the
  loop ends.
\<close>

fun poll :: "nat \<Rightarrow> 'a kroutine \<Rightarrow> ('a \<Rightarrow> bool) \<Rightarrow> 'a kroutine" where
  "poll 0 rd P = (\<lambda>s. Spin s)"
| "poll (Suc k) rd P = bind rd (\<lambda>x. if P x then return x else poll k rd P)"

definition poll_until :: "'a kroutine \<Rightarrow> ('a \<Rightarrow> bool) \<Rightarrow> 'a kroutine" where
  "poll_until rd P = bind (gets (\<lambda>s. length (ins s))) (\<lambda>n. poll (Suc n) rd P)"

section \<open>Interrupt controllers\<close>

definition T_IRQ0 :: nat where "T_IRQ0 = 32"
definition IRQ_TIMER :: nat where "IRQ_TIMER = 0"
definition IRQ_KBD :: nat where "IRQ_KBD = 1"
definition IRQ_COM1 :: nat where "IRQ_COM1 = 4"
definition IRQ_IDE :: nat where "IRQ_IDE = 14"
definition IRQ_ERROR :: nat where "IRQ_ERROR = 19"
definition IRQ_SPURIOUS :: nat where "IRQ_SPURIOUS = 31"

definition IO_PIC1 :: ushort where "IO_PIC1 = 0x20"
definition IO_PIC2 :: ushort where "IO_PIC2 = 0xA0"
definition IRQ_SLAVE :: nat where "IRQ_SLAVE = 2"

definition picsetmask :: "ushort \<Rightarrow> unit kroutine" where
  "picsetmask msk =
    andthen (modify (\<lambda>s. s\<lparr>irqmask := msk\<rparr>))
    (andthen (outb (IO_PIC1 + 1) (ucast msk))
    (outb (IO_PIC2 + 1) (ucast (drop_bit 8 msk))))"

definition picenable :: "nat \<Rightarrow> unit kroutine" where
  "picenable irq = bind (gets irqmask) (\<lambda>m. picsetmask (m AND NOT (push_bit irq 1)))"

definition picinit :: "unit kroutine" where
  "picinit =
    andthen (outb (IO_PIC1 + 1) 0xFF)
    (andthen (outb (IO_PIC2 + 1) 0xFF)
    (andthen (outb IO_PIC1 0x11)
    (andthen (outb (IO_PIC1 + 1) (of_nat T_IRQ0))
    (andthen (outb (IO_PIC1 + 1) (push_bit IRQ_SLAVE 1))
    (andthen (outb (IO_PIC1 + 1) 0x3)
    (andthen (outb IO_PIC2 0x11)
    (andthen (outb (IO_PIC2 + 1) (of_nat (T_IRQ0 + 8)))
    (andthen (outb (IO_PIC2 + 1) (of_nat IRQ_SLAVE))
    (andthen (outb (IO_PIC2 + 1) 0x3)
    (andthen (outb IO_PIC1 0x68)
    (andthen (outb IO_PIC1 0x0a)
    (andthen (outb IO_PIC2 0x68)
    (andthen (outb IO_PIC2 0x0a)
    (bind (gets irqmask) (\<lambda>m.
    do_if (m \<noteq> 0xFFFF) (picsetmask m))))))))))))))))"

definition REG_ID :: nat where "REG_ID = 0x00"
definition REG_VER :: nat where "REG_VER = 0x01"
definition REG_TABLE :: nat where "REG_TABLE = 0x10"

definition ioapicread :: "nat \<Rightarrow> uint32 kroutine" where
  "ioapicread reg = bind (dev_in 4) (\<lambda>bs. return (get32 bs 0))"

definition ioapicwrite :: "nat \<Rightarrow> uint32 \<Rightarrow> unit kroutine" where
  "ioapicwrite reg v = modify (\<lambda>s. s\<lparr>ios := ios s @ [Ioapicw reg v]\<rparr>)"

definition ioapicenable :: "nat \<Rightarrow> uint32 \<Rightarrow> unit kroutine" where
  "ioapicenable irq cpunum =
    bind (gets ismp) (\<lambda>mp.
    do_if mp
      (andthen (ioapicwrite (REG_TABLE + 2 * irq) (of_nat (T_IRQ0 + irq)))
      (ioapicwrite (REG_TABLE + 2 * irq + 1) (push_bit 24 cpunum))))"

section \<open>The timer\<close>

definition IO_TIMER1 :: ushort where "IO_TIMER1 = 0x40"

definition TIMER_DIV :: "nat \<Rightarrow> nat" where
  "TIMER_DIV x = (1193182 + x div 2) div x"

definition timerinit :: "unit kroutine" where
  "timerinit =
    andthen (outb (IO_TIMER1 + 3) (0x00 OR 0x04 OR 0x30))
    (andthen (outb IO_TIMER1 (of_nat (TIMER_DIV 100 mod 256)))
    (andthen (outb IO_TIMER1 (of_nat (TIMER_DIV 100 div 256)))
    (picenable IRQ_TIMER)))"

section \<open>The serial port\<close>

definition COM1 :: ushort where "COM1 = 0x3f8"

text \<open>The wait of \<open>uartputc\<close>: at most 128 reads of the line status. \<open>microdelay\<close> does
  nothing.\<close>

fun uart_wait :: "nat \<Rightarrow> unit kroutine" where
  "uart_wait 0 = return ()"
| "uart_wait (Suc k) = bind (inb (COM1 + 5)) (\<lambda>st. if st AND 0x20 \<noteq> 0 then return () else uart_wait k)"

definition uartputc :: "byte \<Rightarrow> unit kroutine" where
  "uartputc c =
    bind (gets uart) (\<lambda>u.
    do_if u
      (andthen (uart_wait 128)
      (outb (COM1 + 0) c)))"

definition uartinit :: "unit kroutine" where
  "uartinit =
    andthen (outb (COM1 + 2) 0)
    (andthen (outb (COM1 + 3) 0x80)
    (andthen (outb (COM1 + 0) (of_nat (115200 div 9600)))
    (andthen (outb (COM1 + 1) 0)
    (andthen (outb (COM1 + 3) 0x03)
    (andthen (outb (COM1 + 4) 0)
    (andthen (outb (COM1 + 1) 0x01)
    (bind (inb (COM1 + 5)) (\<lambda>st.
    if st = 0xFF then return ()
    else
      andthen (modify (\<lambda>s. s\<lparr>uart := True\<rparr>))
      (bind (inb (COM1 + 2)) (\<lambda>_.
      (bind (inb (COM1 + 0)) (\<lambda>_.
      andthen (picenable IRQ_COM1)
      (andthen (ioapicenable IRQ_COM1 0)
      (foreach (map of_char ''xv6...\<newline>'') uartputc))))))))))))))"

definition uartgetc :: "int kroutine" where
  "uartgetc =
    bind (gets uart) (\<lambda>u.
    if \<not> u then return (- 1)
    else bind (inb (COM1 + 5)) (\<lambda>st.
      if st AND 0x01 = 0 then return (- 1)
      else bind (inb (COM1 + 0)) (\<lambda>c. return (uint c))))"

end
