(* ===== verification/Console.thy ===== *)
theory Console
  imports Uart
begin

text \<open>
  \<^verbatim>\<open>console.c\<close> and \<^verbatim>\<open>kbd.c\<close>: formatted output to the screen and the serial port, the
  input line editor, the keyboard driver, and the process listing of \<^verbatim>\<open>proc.c\<close> that the
  console prints. \<open>consoleread\<close> and \<open>consolewrite\<close>, which lock inodes, are with the
  inodes.
\<close>

section \<open>Output\<close>

definition BACKSPACE :: int where
  "BACKSPACE = 0x100"

text \<open>The screen has 25 rows of 80 characters; the code never leaves the cursor on the last
  row. A store past the screen is a fault.\<close>

definition set_crt :: "nat \<Rightarrow> ushort \<Rightarrow> unit kroutine" where
  "set_crt pos w =
    bind (gets (\<lambda>s. length (crt (cons s)))) (\<lambda>n.
    if pos < n then modify (\<lambda>s. s\<lparr>cons := (cons s)\<lparr>crt := (crt (cons s))[pos := w]\<rparr>\<rparr>)
    else fault ''crt'')"

definition scroll :: "nat \<Rightarrow> ushort list \<Rightarrow> ushort list" where
  "scroll pos sc = (let up = take (23 * 80) (drop 80 sc) @ drop (23 * 80) sc in
     take pos up @ replicate (24 * 80 - pos) 0 @ drop (24 * 80) up)"

definition cga_pos :: "nat kroutine" where
  "cga_pos =
    andthen (outb CRTPORT 14)
    (bind (inb (CRTPORT + 1)) (\<lambda>hi.
    andthen (outb CRTPORT 15)
    (bind (inb (CRTPORT + 1)) (\<lambda>lo.
    return (unat hi * 256 + unat lo)))))"

definition cga_char :: "int \<Rightarrow> nat \<Rightarrow> nat kroutine" where
  "cga_char c pos =
    (if c = 10 then return (pos + (80 - pos mod 80))
     else if c = BACKSPACE then return (if pos > 0 then pos - 1 else pos)
     else andthen (set_crt pos ((of_int c AND 0xff) OR 0x0700)) (return (pos + 1)))"

definition cga_scroll :: "nat \<Rightarrow> nat kroutine" where
  "cga_scroll pos =
    (if pos div 80 \<ge> 24 then
       (if pos - 80 > 24 * 80 then fault ''crt''
        else andthen (modify (\<lambda>s. s\<lparr>cons := (cons s)\<lparr>crt := scroll (pos - 80) (crt (cons s))\<rparr>\<rparr>)) (return (pos - 80)))
     else return pos)"

definition cga_cursor :: "nat \<Rightarrow> unit kroutine" where
  "cga_cursor pos =
    andthen (outb CRTPORT 14)
    (andthen (outb (CRTPORT + 1) (of_nat (pos div 256)))
    (andthen (outb CRTPORT 15)
    (andthen (outb (CRTPORT + 1) (of_nat pos))
    (set_crt pos (0x20 OR 0x0700)))))"

definition cgaputc :: "int \<Rightarrow> unit kroutine" where
  "cgaputc c = bind cga_pos (\<lambda>pos. bind (cga_char c pos) (\<lambda>pos. bind (cga_scroll pos) cga_cursor))"

definition consputc :: "int \<Rightarrow> unit kroutine" where
  "consputc c =
    bind (gets (\<lambda>s. con_panicked (cons s))) (\<lambda>p.
    if p then andthen cli (\<lambda>s. Spin s)
    else
      andthen
        (if c = BACKSPACE then andthen (uartputc 8) (andthen (uartputc 0x20) (uartputc 8))
         else uartputc (of_int c))
      (cgaputc c))"

text \<open>
  The digits of \<open>printint\<close> in the order of its buffer, lowest first. The callers pass the
  bases 10 and 16.
\<close>

definition digit :: "nat \<Rightarrow> byte" where
  "digit d = of_char (''0123456789abcdef'' ! d)"

function digits_rev :: "nat \<Rightarrow> nat \<Rightarrow> byte list" where
  "digits_rev base x = digit (x mod base) # (if x div base = 0 \<or> base < 2 then [] else digits_rev base (x div base))"
  by pat_completeness auto

termination digits_rev
  by (relation "measure snd") (auto simp: div_greater_zero_iff intro!: div_less_dividend)

definition int_digits :: "uint32 \<Rightarrow> nat \<Rightarrow> bool \<Rightarrow> byte list" where
  "int_digits xx base sg =
    (let neg = (sg \<and> sint xx < 0); x = (if neg then - xx else xx) in
     rev (digits_rev base (unat x) @ (if neg then [of_char (CHR ''-'')] else [])))"

definition printint :: "uint32 \<Rightarrow> nat \<Rightarrow> bool \<Rightarrow> unit kroutine" where
  "printint xx base sg = foreach (int_digits xx base sg) (\<lambda>c. consputc (uint c))"

text \<open>An argument of \<open>cprintf\<close>: a word, or the address of a string (\<open>None\<close> for the null
  pointer). A conversion that finds no argument of its kind is a fault.\<close>

datatype carg = CWord uint32 | CStr "byte list option"

fun cprintf_loop :: "string \<Rightarrow> carg list \<Rightarrow> unit kroutine" where
  "cprintf_loop [] args = return ()"
| "cprintf_loop (c # fmt) args =
    (if c \<noteq> CHR ''%'' then andthen (consputc (of_char c)) (cprintf_loop fmt args)
     else case fmt of
       [] \<Rightarrow> return ()
     | c # fmt' \<Rightarrow>
         if c = CHR ''d'' then
           (case args of CWord w # as \<Rightarrow> andthen (printint w 10 True) (cprintf_loop fmt' as) | _ \<Rightarrow> fault ''cprintf'')
         else if c = CHR ''x'' \<or> c = CHR ''p'' then
           (case args of CWord w # as \<Rightarrow> andthen (printint w 16 False) (cprintf_loop fmt' as) | _ \<Rightarrow> fault ''cprintf'')
         else if c = CHR ''s'' then
           (case args of
              CStr r # as \<Rightarrow>
                andthen (foreach (case r of None \<Rightarrow> map of_char ''(null)'' | Some b \<Rightarrow> takeWhile (\<lambda>x. x \<noteq> 0) b) (\<lambda>x. consputc (uint x)))
                (cprintf_loop fmt' as)
            | _ \<Rightarrow> fault ''cprintf'')
         else if c = CHR ''%'' then andthen (consputc (of_char CHR ''%'')) (cprintf_loop fmt' args)
         else andthen (consputc (of_char CHR ''%'')) (andthen (consputc (of_char c)) (cprintf_loop fmt' args)))"

definition cprintf :: "string option \<Rightarrow> carg list \<Rightarrow> unit kroutine" where
  "cprintf fmt args =
    bind (gets (\<lambda>s. con_locking (cons s))) (\<lambda>locking.
    andthen (do_if locking (acquire L_cons))
    (case fmt of
       None \<Rightarrow> panic ''null fmt''
     | Some f \<Rightarrow>
         andthen (cprintf_loop f args)
         (do_if locking (release L_cons))))"

text \<open>\<open>getcallerpcs\<close> of \<^verbatim>\<open>spinlock.c\<close>: up to ten return addresses along the chain of
  frame pointers.\<close>

fun frame_pcs :: "nat \<Rightarrow> (uint32 \<Rightarrow> byte) \<Rightarrow> uint32 \<Rightarrow> uint32 list" where
  "frame_pcs 0 m ebp = []"
| "frame_pcs (Suc k) m ebp =
    (if ebp = 0 \<or> ebp < KERNBASE \<or> ebp = 0xffffffff then replicate (Suc k) 0
     else load32 m (ebp + 4) # frame_pcs k m (load32 m ebp))"

definition getcallerpcs :: "(uint32 \<Rightarrow> byte) \<Rightarrow> uint32 \<Rightarrow> uint32 list" where
  "getcallerpcs m v = frame_pcs 10 m (v - 8)"

definition state_name :: "procstate \<Rightarrow> string" where
  "state_name st = (case st of UNUSED \<Rightarrow> ''unused'' | EMBRYO \<Rightarrow> ''embryo'' | SLEEPING \<Rightarrow> ''sleep ''
     | RUNNABLE \<Rightarrow> ''runble'' | RUNNING \<Rightarrow> ''run   '' | ZOMBIE \<Rightarrow> ''zombie'')"

definition procdump :: "unit kroutine" where
  "procdump = foreach [0..<NPROC] (\<lambda>i.
    bind (gets (\<lambda>s. procs s ! i)) (\<lambda>p.
    if p_state p = UNUSED then return ()
    else
      andthen (cprintf (Some ''%d %s %s'') [CWord (of_int (p_pid p)), CStr (Some (map of_char (state_name (p_state p)))), CStr (Some (p_name p))])
      (andthen
        (do_if (p_state p = SLEEPING)
          (bind (gets (\<lambda>s. getcallerpcs (mem s) (ctx_ebp (p_context p) + 8))) (\<lambda>pcs.
          foreach (takeWhile (\<lambda>pc. pc \<noteq> 0) pcs) (\<lambda>pc. cprintf (Some '' %p'') [CWord pc]))))
      (cprintf (Some ''\<newline>'') []))))"

section \<open>Input\<close>

definition INPUT_BUF :: nat where
  "INPUT_BUF = 128"

definition set_input :: "(console \<Rightarrow> console) \<Rightarrow> unit kroutine" where
  "set_input f = modify (\<lambda>s. s\<lparr>cons := f (cons s)\<rparr>)"

definition input_at :: "console \<Rightarrow> uint32 \<Rightarrow> byte" where
  "input_at c i = in_buf c ! (unat i mod INPUT_BUF)"

text \<open>Killing a line: the loop runs down from \<open>e\<close> to \<open>w\<close>.\<close>

fun kill_line :: "nat \<Rightarrow> unit kroutine" where
  "kill_line 0 = (\<lambda>s. Spin s)"
| "kill_line (Suc k) =
    bind (gets cons) (\<lambda>c.
    if in_e c \<noteq> in_w c \<and> input_at c (in_e c - 1) \<noteq> 10 then
      andthen (set_input (\<lambda>c. c\<lparr>in_e := in_e c - 1\<rparr>))
      (andthen (consputc BACKSPACE) (kill_line k))
    else return ())"

definition console_char :: "int \<Rightarrow> unit kroutine" where
  "console_char c =
    (if c = 0x10 then procdump
     else if c = 0x15 then bind (gets (\<lambda>s. unat (in_e (cons s) - in_w (cons s)))) (\<lambda>n. kill_line (Suc n))
     else if c = 8 \<or> c = 0x7f then
       bind (gets cons) (\<lambda>con.
       do_if (in_e con \<noteq> in_w con)
         (andthen (set_input (\<lambda>c. c\<lparr>in_e := in_e c - 1\<rparr>))
         (consputc BACKSPACE)))
     else
       bind (gets cons) (\<lambda>con.
       do_if (c \<noteq> 0 \<and> in_e con - in_r con < of_nat INPUT_BUF)
         (let c' = (if c = 13 then 10 else c) in
          andthen (set_input (\<lambda>x. x\<lparr>in_buf := (in_buf x)[unat (in_e x) mod INPUT_BUF := of_int c']\<rparr>))
          (andthen (set_input (\<lambda>x. x\<lparr>in_e := in_e x + 1\<rparr>))
          (andthen (consputc c')
          (bind (gets cons) (\<lambda>con.
          do_if (c' = 10 \<or> c' = 4 \<or> in_e con = in_r con + of_nat INPUT_BUF)
            (andthen (set_input (\<lambda>x. x\<lparr>in_w := in_e x\<rparr>))
            (wakeup Ch_input)))))))))"

text \<open>Characters from the device until it has no more; each that is not negative used up
  input.\<close>

fun console_loop :: "nat \<Rightarrow> int kroutine \<Rightarrow> unit kroutine" where
  "console_loop 0 getc = (\<lambda>s. Spin s)"
| "console_loop (Suc k) getc = bind getc (\<lambda>c. if c \<ge> 0 then andthen (console_char c) (console_loop k getc) else return ())"

definition consoleintr :: "int kroutine \<Rightarrow> unit kroutine" where
  "consoleintr getc =
    andthen (acquire L_input)
    (bind (gets (\<lambda>s. length (ins s))) (\<lambda>n.
    andthen (console_loop (Suc n) getc)
    (release L_input)))"

definition uartintr :: "unit kroutine" where
  "uartintr = consoleintr uartgetc"

section \<open>The keyboard\<close>

definition KBSTATP :: ushort where "KBSTATP = 0x64"
definition KBDATAP :: ushort where "KBDATAP = 0x60"
definition SHIFT :: uint32 where "SHIFT = push_bit 0 1"
definition CTL :: uint32 where "CTL = push_bit 1 1"
definition ALT :: uint32 where "ALT = push_bit 2 1"
definition CAPSLOCK :: uint32 where "CAPSLOCK = push_bit 3 1"
definition NUMLOCK :: uint32 where "NUMLOCK = push_bit 4 1"
definition SCROLLLOCK :: uint32 where "SCROLLLOCK = push_bit 5 1"
definition E0ESC :: uint32 where "E0ESC = push_bit 6 1"

definition shiftcode :: "nat \<Rightarrow> uint32" where
  "shiftcode i = (if i = 0x1D \<or> i = 0x9D then CTL else if i = 0x2A \<or> i = 0x36 then SHIFT
     else if i = 0x38 \<or> i = 0xB8 then ALT else 0)"

definition togglecode :: "nat \<Rightarrow> uint32" where
  "togglecode i = (if i = 0x3A then CAPSLOCK else if i = 0x45 then NUMLOCK else if i = 0x46 then SCROLLLOCK else 0)"

text \<open>A table given by its first entries and some designated ones; the rest is \<open>NO\<close>.\<close>

definition keytable :: "byte list \<Rightarrow> (nat \<times> byte) list \<Rightarrow> nat \<Rightarrow> byte" where
  "keytable rows desig i = (case map_of desig i of Some c \<Rightarrow> c | None \<Rightarrow> if i < length rows then rows ! i else 0)"

definition keypad :: "(nat \<times> byte) list" where
  "keypad = [(0xC8, 0xE2), (0xD0, 0xE3), (0xC9, 0xE6), (0xD1, 0xE7), (0xCB, 0xE4), (0xCD, 0xE5),
     (0x97, 0xE0), (0xCF, 0xE1), (0xD2, 0xE8), (0xD3, 0xE9)]"

abbreviation chars :: "string \<Rightarrow> byte list" where
  "chars cs \<equiv> map of_char cs"

definition normalmap :: "nat \<Rightarrow> byte" where
  "normalmap = keytable
    ([0, 0x1B] @ chars ''1234567890-='' @ [8, 9] @ chars ''qwertyuiop[]'' @ [10, 0] @ chars ''asdfghjkl;''
     @ [0x27, 0x60, 0, 0x5C] @ chars ''zxcvbnm,./'' @ [0, 0x2A, 0, 0x20] @ replicate 13 0 @ chars ''789-456+1230.'')
    ([(0x9C, 10), (0xB5, 0x2F)] @ keypad)"

definition shiftmap :: "nat \<Rightarrow> byte" where
  "shiftmap = keytable
    ([0, 0x1B] @ chars ''!@#$%^&*()_+'' @ [8, 9] @ chars ''QWERTYUIOP{}'' @ [10, 0] @ chars ''ASDFGHJKL:''
     @ [0x22, 0x7E, 0, 0x7C] @ chars ''ZXCVBNM<>?'' @ [0, 0x2A, 0, 0x20] @ replicate 13 0 @ chars ''789-456+1230.'')
    ([(0x9C, 10), (0xB5, 0x2F)] @ keypad)"

definition ctl :: "string \<Rightarrow> byte list" where
  "ctl cs = map (\<lambda>c. of_char c - 0x40) cs"

definition ctlmap :: "nat \<Rightarrow> byte" where
  "ctlmap = keytable
    (replicate 16 0 @ ctl ''QWERTYUIOP'' @ [0, 0, 13, 0] @ ctl ''ASDFGHJKL'' @ replicate 4 0 @ [0x1C] @ ctl ''ZXCVBNM''
     @ [0, 0, 0x2F - 0x40, 0, 0])
    ([(0x9C, 13), (0xB5, 0x2F - 0x40)] @ keypad)"

definition charcode :: "uint32 \<Rightarrow> nat \<Rightarrow> byte" where
  "charcode m = (if m = 0 then normalmap else if m = 1 then shiftmap else ctlmap)"

text \<open>What a scan code does to the modifiers, and the character it stands for (0 for none).\<close>

definition kbd_step :: "uint32 \<Rightarrow> uint32 \<Rightarrow> uint32 \<times> int" where
  "kbd_step shift code =
    (if code = 0xE0 then (shift OR E0ESC, 0)
     else if code AND 0x80 \<noteq> 0 then
       (let code = (if shift AND E0ESC \<noteq> 0 then code else code AND 0x7F) in
        (shift AND NOT (shiftcode (unat code) OR E0ESC), 0))
     else
       (let (code, shift) = (if shift AND E0ESC \<noteq> 0 then (code OR 0x80, shift AND NOT E0ESC) else (code, shift));
            shift = (shift OR shiftcode (unat code)) XOR togglecode (unat code);
            c = uint (charcode (shift AND (CTL OR SHIFT)) (unat code)) in
        (shift,
         if shift AND CAPSLOCK \<noteq> 0 then
           (if 0x61 \<le> c \<and> c \<le> 0x7A then c - 32 else if 0x41 \<le> c \<and> c \<le> 0x5A then c + 32 else c)
         else c)))"

definition kbdgetc :: "int kroutine" where
  "kbdgetc =
    bind (inb KBSTATP) (\<lambda>st.
    if st AND 0x01 = 0 then return (- 1)
    else
      bind (inb KBDATAP) (\<lambda>code.
      bind (gets (\<lambda>s. kbd_step (kbd_shift (cons s)) (ucast code))) (\<lambda>(shift, c).
      andthen (set_input (\<lambda>k. k\<lparr>kbd_shift := shift\<rparr>))
      (return c))))"

definition kbdintr :: "unit kroutine" where
  "kbdintr = consoleintr kbdgetc"

end
