(* ===== verification/Inode.thy ===== *)
theory Inode
  imports Recovery Console
begin

text \<open>
  The lower layers of \<^verbatim>\<open>fs.c\<close>: blocks on the free map, inodes on disk and the table of
  inodes in memory, the blocks of a file, and reading and writing its bytes. A device file
  is read and written through the console (\<open>consoleread\<close>, \<open>consolewrite\<close> of
  \<^verbatim>\<open>console.c\<close>). A routine that copies to a buffer of its caller returns the bytes it
  copies, with \<open>None\<close> for the error value \<open>-1\<close>.
\<close>

unbundle bit_operations_syntax

section \<open>Blocks\<close>

definition BBLOCK :: "uint32 \<Rightarrow> superblock \<Rightarrow> uint32" where
  "BBLOCK b sblk = b div of_nat BPB + sb_bmapstart sblk"

definition IBLOCK :: "uint32 \<Rightarrow> superblock \<Rightarrow> uint32" where
  "IBLOCK i sblk = i div of_nat IPB + sb_inodestart sblk"

definition bzero :: "uint32 \<Rightarrow> uint32 \<Rightarrow> unit kroutine" where
  "bzero dev bno =
    bind (bread dev bno) (\<lambda>bp.
    andthen (modify (set_data bp (replicate BSIZE 0)))
    (andthen (log_write bp)
    (brelse bp)))"

text \<open>The bit of the free map for the \<open>bi\<close>-th block of its group.\<close>

definition map_bit :: "byte list \<Rightarrow> nat \<Rightarrow> bool" where
  "map_bit d bi \<longleftrightarrow> d ! (bi div 8) AND push_bit (bi mod 8) 1 \<noteq> 0"

definition set_map_bit :: "nat \<Rightarrow> byte list \<Rightarrow> byte list" where
  "set_map_bit bi d = d[bi div 8 := d ! (bi div 8) OR push_bit (bi mod 8) 1]"

definition clear_map_bit :: "nat \<Rightarrow> byte list \<Rightarrow> byte list" where
  "clear_map_bit bi d = d[bi div 8 := d ! (bi div 8) AND NOT (push_bit (bi mod 8) 1)]"

definition edit_data :: "nat \<Rightarrow> (byte list \<Rightarrow> byte list) \<Rightarrow> unit kroutine" where
  "edit_data bp f = modify (\<lambda>s. set_data bp (f (b_data (bufs s ! bp))) s)"

text \<open>\<open>balloc\<close> from the group of blocks that starts at the head of the list.\<close>

fun balloc_loop :: "uint32 \<Rightarrow> nat list \<Rightarrow> uint32 kroutine" where
  "balloc_loop dev [] = panic ''balloc: out of blocks''"
| "balloc_loop dev (b # bs) =
    bind (gets sb) (\<lambda>sblk.
    bind (bread dev (BBLOCK (of_nat b) sblk)) (\<lambda>bp.
    bind (gets (\<lambda>s. find (\<lambda>bi. \<not> map_bit (b_data (bufs s ! bp)) bi) [0..<min BPB (unat (sb_size sblk) - b)])) (\<lambda>r.
    case r of
      Some bi \<Rightarrow>
        andthen (edit_data bp (set_map_bit bi))
        (andthen (log_write bp)
        (andthen (brelse bp)
        (andthen (bzero dev (of_nat (b + bi)))
        (return (of_nat (b + bi))))))
    | None \<Rightarrow> andthen (brelse bp) (balloc_loop dev bs))))"

definition map_groups :: "superblock \<Rightarrow> nat list" where
  "map_groups sblk = map (\<lambda>k. k * BPB) [0..<(unat (sb_size sblk) + BPB - 1) div BPB]"

definition balloc :: "uint32 \<Rightarrow> uint32 kroutine" where
  "balloc dev = bind (gets (\<lambda>s. map_groups (sb s))) (balloc_loop dev)"

definition bfree :: "uint32 \<Rightarrow> uint32 \<Rightarrow> unit kroutine" where
  "bfree dev b =
    bind (readsb dev) (\<lambda>sblk.
    andthen (modify (\<lambda>s. s\<lparr>sb := sblk\<rparr>))
    (bind (bread dev (BBLOCK b sblk)) (\<lambda>bp.
    let bi = unat b mod BPB in
    bind (gets (\<lambda>s. map_bit (b_data (bufs s ! bp)) bi)) (\<lambda>used.
    andthen (panic_if (\<not> used) ''freeing free block'')
    (andthen (edit_data bp (clear_map_bit bi))
    (andthen (log_write bp)
    (brelse bp)))))))"

section \<open>Inodes\<close>

definition T_DIR :: ushort where "T_DIR = 1"
definition T_FILE :: ushort where "T_FILE = 2"
definition T_DEV :: ushort where "T_DEV = 3"

definition iinit :: "uint32 \<Rightarrow> unit kroutine" where
  "iinit dev =
    andthen (initlock L_icache ''icache'')
    (bind (readsb dev) (\<lambda>sblk.
    andthen (modify (\<lambda>s. s\<lparr>sb := sblk\<rparr>))
    (cprintf (Some ''sb: size %d nblocks %d ninodes %d nlog %d logstart %d inodestart %d bmap start %d\<newline>'')
      [CWord (sb_size sblk), CWord (sb_nblocks sblk), CWord (sb_ninodes sblk), CWord (sb_nlog sblk),
       CWord (sb_logstart sblk), CWord (sb_inodestart sblk), CWord (sb_bmapstart sblk)])))"

definition set_inode :: "nat \<Rightarrow> (inode \<Rightarrow> inode) \<Rightarrow> kernel \<Rightarrow> kernel" where
  "set_inode i f s = s\<lparr>inodes := (inodes s)[i := f (inodes s ! i)]\<rparr>"

definition iget :: "uint32 \<Rightarrow> uint32 \<Rightarrow> nat kroutine" where
  "iget dev inum =
    andthen (acquire L_icache)
    (bind (gets (\<lambda>s. find (\<lambda>i. i_ref (inodes s ! i) > 0 \<and> i_dev (inodes s ! i) = dev \<and> i_inum (inodes s ! i) = inum) [0..<NINODE])) (\<lambda>hit.
    case hit of
      Some ip \<Rightarrow>
        andthen (modify (set_inode ip (\<lambda>n. n\<lparr>i_ref := i_ref n + 1\<rparr>)))
        (andthen (release L_icache) (return ip))
    | None \<Rightarrow>
        bind (gets (\<lambda>s. find (\<lambda>i. i_ref (inodes s ! i) = 0) [0..<NINODE])) (\<lambda>empty.
        case empty of
          None \<Rightarrow> panic ''iget: no inodes''
        | Some ip \<Rightarrow>
            andthen (modify (set_inode ip (\<lambda>n. n\<lparr>i_dev := dev\<rparr>)))
            (andthen (modify (set_inode ip (\<lambda>n. n\<lparr>i_inum := inum\<rparr>)))
            (andthen (modify (set_inode ip (\<lambda>n. n\<lparr>i_ref := 1\<rparr>)))
            (andthen (modify (set_inode ip (\<lambda>n. n\<lparr>i_busy := False, i_valid := False\<rparr>)))
            (andthen (release L_icache)
            (return ip))))))))"

text \<open>An inode in a block of inodes: a \<open>struct dinode\<close> has 64 bytes.\<close>

definition dip_off :: "uint32 \<Rightarrow> nat" where
  "dip_off inum = (unat inum mod IPB) * dinode_size"

definition load_dinode :: "byte list \<Rightarrow> nat \<Rightarrow> inode \<Rightarrow> inode" where
  "load_dinode d off n = n\<lparr>i_type := get16 d off, i_major := get16 d (off + 2), i_minor := get16 d (off + 4),
     i_nlink := get16 d (off + 6), i_size := get32 d (off + 8),
     i_addrs := map (\<lambda>k. get32 d (off + 12 + 4 * k)) [0..<NDIRECT + 1]\<rparr>"

definition store_dinode :: "inode \<Rightarrow> nat \<Rightarrow> byte list \<Rightarrow> byte list" where
  "store_dinode n off d =
    fold (\<lambda>k d. put32 d (off + 12 + 4 * k) (i_addrs n ! k)) [0..<NDIRECT + 1]
      (put32 (put16 (put16 (put16 (put16 d off (i_type n)) (off + 2) (i_major n)) (off + 4) (i_minor n))
        (off + 6) (i_nlink n)) (off + 8) (i_size n))"

text \<open>\<open>ialloc\<close> from the inode numbers in the list.\<close>

fun ialloc_loop :: "uint32 \<Rightarrow> ushort \<Rightarrow> nat list \<Rightarrow> nat kroutine" where
  "ialloc_loop dev type [] = panic ''ialloc: no inodes''"
| "ialloc_loop dev type (inum # inums) =
    bind (gets (\<lambda>s. IBLOCK (of_nat inum) (sb s))) (\<lambda>blk.
    bind (bread dev blk) (\<lambda>bp.
    let off = dip_off (of_nat inum) in
    bind (gets (\<lambda>s. get16 (b_data (bufs s ! bp)) off)) (\<lambda>ty.
    if ty = 0 then
      andthen (edit_data bp (\<lambda>d. put16 (splice d off (replicate dinode_size 0)) off type))
      (andthen (log_write bp)
      (andthen (brelse bp)
      (iget dev (of_nat inum))))
    else andthen (brelse bp) (ialloc_loop dev type inums))))"

definition ialloc :: "uint32 \<Rightarrow> ushort \<Rightarrow> nat kroutine" where
  "ialloc dev type = bind (gets (\<lambda>s. [1..<unat (sb_ninodes (sb s))])) (ialloc_loop dev type)"

definition iupdate :: "nat \<Rightarrow> unit kroutine" where
  "iupdate ip =
    bind (gets (\<lambda>s. inodes s ! ip)) (\<lambda>n.
    bind (gets (\<lambda>s. IBLOCK (i_inum n) (sb s))) (\<lambda>blk.
    bind (bread (i_dev n) blk) (\<lambda>bp.
    andthen (edit_data bp (store_dinode n (dip_off (i_inum n))))
    (andthen (log_write bp)
    (brelse bp)))))"

definition idup :: "nat \<Rightarrow> nat kroutine" where
  "idup ip =
    andthen (acquire L_icache)
    (andthen (modify (set_inode ip (\<lambda>n. n\<lparr>i_ref := i_ref n + 1\<rparr>)))
    (andthen (release L_icache)
    (return ip)))"

text \<open>\<open>ilock\<close> from the head of its loop, with the lock of the table held.\<close>

definition ilock_load :: "nat \<Rightarrow> unit kroutine" where
  "ilock_load ip =
    bind (gets (\<lambda>s. inodes s ! ip)) (\<lambda>n.
    do_if (\<not> i_valid n)
      (bind (gets (\<lambda>s. IBLOCK (i_inum n) (sb s))) (\<lambda>blk.
      bind (bread (i_dev n) blk) (\<lambda>bp.
      andthen (modify (\<lambda>s. set_inode ip (load_dinode (b_data (bufs s ! bp)) (dip_off (i_inum n))) s))
      (andthen (brelse bp)
      (andthen (modify (set_inode ip (\<lambda>n. n\<lparr>i_valid := True\<rparr>)))
      (bind (gets (\<lambda>s. i_type (inodes s ! ip))) (\<lambda>ty.
      panic_if (ty = 0) ''ilock: no type''))))))))"

definition ilock_loop :: "nat \<Rightarrow> unit kroutine" where
  "ilock_loop ip =
    bind (gets (\<lambda>s. i_busy (inodes s ! ip))) (\<lambda>busy.
    if busy then sleep_again (Ch_inode ip) L_icache
    else
      andthen (modify (set_inode ip (\<lambda>n. n\<lparr>i_busy := True\<rparr>)))
      (andthen (release L_icache)
      (ilock_load ip)))"

definition ilock :: "nat option \<Rightarrow> unit kroutine" where
  "ilock p =
    (case p of
       None \<Rightarrow> panic ''ilock''
     | Some ip \<Rightarrow>
         bind (gets (\<lambda>s. i_ref (inodes s ! ip))) (\<lambda>ref.
         andthen (panic_if (ref < 1) ''ilock'')
         (andthen (acquire L_icache)
         (ilock_loop ip))))"

definition iunlock :: "nat option \<Rightarrow> unit kroutine" where
  "iunlock p =
    (case p of
       None \<Rightarrow> panic ''iunlock''
     | Some ip \<Rightarrow>
         bind (gets (\<lambda>s. inodes s ! ip)) (\<lambda>n.
         andthen (panic_if (\<not> i_busy n \<or> i_ref n < 1) ''iunlock'')
         (andthen (acquire L_icache)
         (andthen (modify (set_inode ip (\<lambda>n. n\<lparr>i_busy := False\<rparr>)))
         (andthen (wakeup (Ch_inode ip))
         (release L_icache))))))"

section \<open>The blocks of a file\<close>

definition bmap_direct :: "nat \<Rightarrow> nat \<Rightarrow> uint32 kroutine" where
  "bmap_direct ip k =
    bind (gets (\<lambda>s. i_addrs (inodes s ! ip) ! k)) (\<lambda>addr.
    if addr = 0 then
      bind (gets (\<lambda>s. i_dev (inodes s ! ip))) (\<lambda>dev.
      bind (balloc dev) (\<lambda>addr.
      andthen (modify (set_inode ip (\<lambda>n. n\<lparr>i_addrs := (i_addrs n)[k := addr]\<rparr>)))
      (return addr)))
    else return addr)"

definition bmap :: "nat \<Rightarrow> nat \<Rightarrow> uint32 kroutine" where
  "bmap ip bn =
    (if bn < NDIRECT then bmap_direct ip bn
     else if bn - NDIRECT < NINDIRECT then
       bind (bmap_direct ip NDIRECT) (\<lambda>addr.
       bind (gets (\<lambda>s. i_dev (inodes s ! ip))) (\<lambda>dev.
       bind (bread dev addr) (\<lambda>bp.
       bind (gets (\<lambda>s. get32 (b_data (bufs s ! bp)) (4 * (bn - NDIRECT)))) (\<lambda>addr.
       bind (if addr = 0 then
               bind (balloc dev) (\<lambda>addr.
               andthen (edit_data bp (\<lambda>d. put32 d (4 * (bn - NDIRECT)) addr))
               (andthen (log_write bp)
               (return addr)))
             else return addr) (\<lambda>addr.
       andthen (brelse bp)
       (return addr))))))
     else panic ''bmap: out of range'')"

definition itrunc :: "nat \<Rightarrow> unit kroutine" where
  "itrunc ip =
    andthen (foreach [0..<NDIRECT] (\<lambda>i.
      bind (gets (\<lambda>s. inodes s ! ip)) (\<lambda>n.
      do_if (i_addrs n ! i \<noteq> 0)
        (andthen (bfree (i_dev n) (i_addrs n ! i))
        (modify (set_inode ip (\<lambda>n. n\<lparr>i_addrs := (i_addrs n)[i := 0]\<rparr>)))))))
    (andthen
      (bind (gets (\<lambda>s. inodes s ! ip)) (\<lambda>n.
      do_if (i_addrs n ! NDIRECT \<noteq> 0)
        (bind (bread (i_dev n) (i_addrs n ! NDIRECT)) (\<lambda>bp.
        andthen (foreach [0..<NINDIRECT] (\<lambda>j.
          bind (gets (\<lambda>s. get32 (b_data (bufs s ! bp)) (4 * j))) (\<lambda>a.
          do_if (a \<noteq> 0) (bfree (i_dev n) a))))
        (andthen (brelse bp)
        (andthen (bfree (i_dev n) (i_addrs n ! NDIRECT))
        (modify (set_inode ip (\<lambda>n. n\<lparr>i_addrs := (i_addrs n)[NDIRECT := 0]\<rparr>)))))))))
    (andthen (modify (set_inode ip (\<lambda>n. n\<lparr>i_size := 0\<rparr>)))
    (iupdate ip)))"

definition iput :: "nat \<Rightarrow> unit kroutine" where
  "iput ip =
    andthen (acquire L_icache)
    (andthen
      (bind (gets (\<lambda>s. inodes s ! ip)) (\<lambda>n.
      do_if (i_ref n = 1 \<and> i_valid n \<and> i_nlink n = 0)
        (andthen (panic_if (i_busy n) ''iput busy'')
        (andthen (modify (set_inode ip (\<lambda>n. n\<lparr>i_busy := True\<rparr>)))
        (andthen (release L_icache)
        (andthen (itrunc ip)
        (andthen (modify (set_inode ip (\<lambda>n. n\<lparr>i_type := 0\<rparr>)))
        (andthen (iupdate ip)
        (andthen (acquire L_icache)
        (andthen (modify (set_inode ip (\<lambda>n. n\<lparr>i_busy := False, i_valid := False\<rparr>)))
        (wakeup (Ch_inode ip))))))))))))
    (andthen (modify (set_inode ip (\<lambda>n. n\<lparr>i_ref := i_ref n - 1\<rparr>)))
    (release L_icache)))"

definition iunlockput :: "nat \<Rightarrow> unit kroutine" where
  "iunlockput ip = andthen (iunlock (Some ip)) (iput ip)"

record stat =
  st_type :: ushort
  st_dev :: uint32
  st_ino :: uint32
  st_nlink :: ushort
  st_size :: uint32

definition stati :: "nat \<Rightarrow> stat kroutine" where
  "stati ip = gets (\<lambda>s. let n = inodes s ! ip in
     \<lparr>st_type = i_type n, st_dev = i_dev n, st_ino = i_inum n, st_nlink = i_nlink n, st_size = i_size n\<rparr>)"

section \<open>The console as a device\<close>

definition CONSOLE :: ushort where "CONSOLE = 1"

text \<open>
  \<open>consoleread\<close> from the head of its loop with the input lock held: \<open>n\<close> more bytes
  are wanted and \<open>acc\<close> has been delivered.
\<close>

fun consoleread_loop :: "nat \<Rightarrow> uint32 \<Rightarrow> nat \<Rightarrow> byte list \<Rightarrow> byte list option kroutine" where
  "consoleread_loop ip target 0 acc =
    andthen (release L_input) (andthen (ilock (Some ip)) (return (Some acc)))"
| "consoleread_loop ip target (Suc n) acc =
    bind (gets cons) (\<lambda>c.
    if in_r c = in_w c then
      with_proc (\<lambda>p.
      bind (gets (\<lambda>s. p_killed (procs s ! p))) (\<lambda>killed.
      if killed then andthen (release L_input) (andthen (ilock (Some ip)) (return None))
      else sleep_again Ch_input L_input))
    else
      let ch = input_at c (in_r c) in
      andthen (set_input (\<lambda>c. c\<lparr>in_r := in_r c + 1\<rparr>))
      (if ch = 4 then
         andthen (do_if (of_nat (Suc n) < target) (set_input (\<lambda>c. c\<lparr>in_r := in_r c - 1\<rparr>)))
         (andthen (release L_input) (andthen (ilock (Some ip)) (return (Some acc))))
       else if ch = 10 then
         andthen (release L_input) (andthen (ilock (Some ip)) (return (Some (acc @ [ch]))))
       else consoleread_loop ip target n (acc @ [ch])))"

definition consoleread :: "nat \<Rightarrow> int \<Rightarrow> byte list option kroutine" where
  "consoleread ip n =
    andthen (iunlock (Some ip))
    (andthen (acquire L_input)
    (consoleread_loop ip (of_int n) (nat n) []))"

definition consolewrite :: "nat \<Rightarrow> byte list \<Rightarrow> int \<Rightarrow> int kroutine" where
  "consolewrite ip buf n =
    andthen (iunlock (Some ip))
    (andthen (acquire L_cons)
    (andthen (foreach [0..<nat n] (\<lambda>i. consputc (uint (buf ! i))))
    (andthen (release L_cons)
    (andthen (ilock (Some ip))
    (return n)))))"

text \<open>\<open>consoleinit\<close>; the table \<open>devsw\<close> has the console's functions at \<open>CONSOLE\<close>
  and is empty elsewhere, see \<open>dev_present\<close>.\<close>

definition consoleinit :: "unit kroutine" where
  "consoleinit =
    andthen (initlock L_cons ''console'')
    (andthen (initlock L_input ''input'')
    (andthen (modify (\<lambda>s. s\<lparr>cons := (cons s)\<lparr>con_locking := True\<rparr>\<rparr>))
    (andthen (picenable IRQ_KBD)
    (ioapicenable IRQ_KBD 0))))"

definition dev_present :: "ushort \<Rightarrow> bool" where
  "dev_present major \<longleftrightarrow> \<not> (sint major < 0 \<or> sint major \<ge> int NDEV) \<and> major = CONSOLE"

section \<open>Reading and writing\<close>

text \<open>The pieces of the byte range \<open>off\<close>, \<open>off + n\<close> that lie in one block each.\<close>

function chunks :: "nat \<Rightarrow> nat \<Rightarrow> (nat \<times> nat) list" where
  "chunks off n =
    (if n = 0 then [] else let m = min n (BSIZE - off mod BSIZE) in (off, m) # chunks (off + m) (n - m))"
  by pat_completeness auto

termination chunks
  by (relation "measure snd") (auto simp: Let_def layout_simps)

fun read_chunks :: "nat \<Rightarrow> (nat \<times> nat) list \<Rightarrow> byte list kroutine" where
  "read_chunks ip [] = return []"
| "read_chunks ip ((off, m) # cs) =
    bind (bmap ip (off div BSIZE)) (\<lambda>addr.
    bind (gets (\<lambda>s. i_dev (inodes s ! ip))) (\<lambda>dev.
    bind (bread dev addr) (\<lambda>bp.
    bind (gets (\<lambda>s. slice (off mod BSIZE) m (b_data (bufs s ! bp)))) (\<lambda>bs.
    andthen (brelse bp)
    (bind (read_chunks ip cs) (\<lambda>rest.
    return (bs @ rest)))))))"

definition readi :: "nat \<Rightarrow> uint32 \<Rightarrow> uint32 \<Rightarrow> byte list option kroutine" where
  "readi ip off n =
    bind (gets (\<lambda>s. inodes s ! ip)) (\<lambda>nd.
    if i_type nd = T_DEV then
      (if \<not> dev_present (i_major nd) then return None
       else consoleread ip (sint n))
    else if off > i_size nd \<or> off + n < off then return None
    else
      let n = (if off + n > i_size nd then i_size nd - off else n) in
      bind (read_chunks ip (chunks (unat off) (unat n))) (\<lambda>bs.
      return (Some bs)))"

fun write_chunks :: "nat \<Rightarrow> byte list \<Rightarrow> (nat \<times> nat) list \<Rightarrow> unit kroutine" where
  "write_chunks ip src [] = return ()"
| "write_chunks ip src ((off, m) # cs) =
    bind (bmap ip (off div BSIZE)) (\<lambda>addr.
    bind (gets (\<lambda>s. i_dev (inodes s ! ip))) (\<lambda>dev.
    bind (bread dev addr) (\<lambda>bp.
    andthen (edit_data bp (\<lambda>d. splice d (off mod BSIZE) (take m src)))
    (andthen (log_write bp)
    (andthen (brelse bp)
    (write_chunks ip (drop m src) cs))))))"

definition writei :: "nat \<Rightarrow> byte list \<Rightarrow> uint32 \<Rightarrow> uint32 \<Rightarrow> int kroutine" where
  "writei ip src off n =
    bind (gets (\<lambda>s. inodes s ! ip)) (\<lambda>nd.
    if i_type nd = T_DEV then
      (if \<not> dev_present (i_major nd) then return (- 1)
       else consolewrite ip src (sint n))
    else if off > i_size nd \<or> off + n < off then return (- 1)
    else if off + n > of_nat (MAXFILE * BSIZE) then return (- 1)
    else
      andthen (write_chunks ip src (chunks (unat off) (unat n)))
      (bind (gets (\<lambda>s. i_size (inodes s ! ip))) (\<lambda>size.
      andthen (do_if (n > 0 \<and> off + n > size)
        (andthen (modify (set_inode ip (\<lambda>k. k\<lparr>i_size := off + n\<rparr>)))
        (iupdate ip)))
      (return (sint n)))))"

section \<open>Directories\<close>

text \<open>\<open>namecmp\<close> compares at most \<open>DIRSIZ\<close> bytes; reading past an array is a fault.\<close>

definition namecmp :: "byte list \<Rightarrow> byte list \<Rightarrow> int kroutine" where
  "namecmp s t = (case strncmp s t DIRSIZ of None \<Rightarrow> fault ''namecmp'' | Some r \<Rightarrow> return r)"

definition de_inum :: "byte list \<Rightarrow> ushort" where
  "de_inum de = get16 de 0"

definition de_name :: "byte list \<Rightarrow> byte list" where
  "de_name de = slice 2 DIRSIZ de"

text \<open>The offsets of the entries of a directory of the given size.\<close>

definition dir_offs :: "uint32 \<Rightarrow> nat list" where
  "dir_offs n = map (\<lambda>k. k * dirent_size) [0..<(unat n + dirent_size - 1) div dirent_size]"

text \<open>One turn of the loops: read the entry at an offset.\<close>

definition dir_entry :: "nat \<Rightarrow> nat \<Rightarrow> byte list kroutine" where
  "dir_entry dp off =
    bind (readi dp (of_nat off) (of_nat dirent_size)) (\<lambda>r.
    case r of
      None \<Rightarrow> panic ''dirlink read''
    | Some de \<Rightarrow> if length de \<noteq> dirent_size then panic ''dirlink read'' else return de)"

fun dirlookup_loop :: "nat \<Rightarrow> byte list \<Rightarrow> nat list \<Rightarrow> (nat \<times> nat) option kroutine" where
  "dirlookup_loop dp name [] = return None"
| "dirlookup_loop dp name (off # offs) =
    bind (dir_entry dp off) (\<lambda>de.
    if de_inum de = 0 then dirlookup_loop dp name offs
    else bind (namecmp name (de_name de)) (\<lambda>c.
      if c = 0 then
        bind (gets (\<lambda>s. i_dev (inodes s ! dp))) (\<lambda>dev.
        bind (iget dev (ucast (de_inum de))) (\<lambda>ip.
        return (Some (ip, off))))
      else dirlookup_loop dp name offs))"

text \<open>\<open>dirlookup\<close> returns the inode with the offset that it stores through \<open>poff\<close>.\<close>

definition dirlookup :: "nat \<Rightarrow> byte list \<Rightarrow> (nat \<times> nat) option kroutine" where
  "dirlookup dp name =
    bind (gets (\<lambda>s. inodes s ! dp)) (\<lambda>n.
    andthen (panic_if (i_type n \<noteq> T_DIR) ''dirlookup not DIR'')
    (dirlookup_loop dp name (dir_offs (i_size n))))"

fun empty_slot :: "nat \<Rightarrow> nat list \<Rightarrow> nat \<Rightarrow> nat kroutine" where
  "empty_slot dp [] over = return over"
| "empty_slot dp (off # offs) over =
    bind (dir_entry dp off) (\<lambda>de.
    if de_inum de = 0 then return off else empty_slot dp offs over)"

definition dirlink :: "nat \<Rightarrow> byte list \<Rightarrow> uint32 \<Rightarrow> int kroutine" where
  "dirlink dp name inum =
    bind (dirlookup dp name) (\<lambda>r.
    case r of
      Some (ip, _) \<Rightarrow> andthen (iput ip) (return (- 1))
    | None \<Rightarrow>
        bind (gets (\<lambda>s. dir_offs (i_size (inodes s ! dp)))) (\<lambda>offs.
        bind (empty_slot dp offs (length offs * dirent_size)) (\<lambda>off.
        case strncpy (replicate DIRSIZ 0) name DIRSIZ of
          None \<Rightarrow> fault ''dirlink''
        | Some nm \<Rightarrow>
            bind (writei dp (put16 (replicate 2 0) 0 (ucast inum) @ nm) (of_nat off) (of_nat dirent_size)) (\<lambda>w.
            andthen (panic_if (w \<noteq> int dirent_size) ''dirlink'')
            (return 0)))))"

section \<open>Path names\<close>

text \<open>
  \<open>skipelem\<close> on the bytes of a path: the next element, cut to \<open>DIRSIZ\<close> bytes, and the
  path after it. The name is the array of \<open>DIRSIZ\<close> bytes after the copy into \<open>old\<close>.
\<close>

definition path_elem :: "byte list \<Rightarrow> (byte list \<times> byte list) option" where
  "path_elem path =
    (let p = dropWhile (\<lambda>c. c = 0x2F) (takeWhile (\<lambda>c. c \<noteq> 0) path) in
     if p = [] then None
     else Some (takeWhile (\<lambda>c. c \<noteq> 0x2F) p, dropWhile (\<lambda>c. c = 0x2F) (dropWhile (\<lambda>c. c \<noteq> 0x2F) p)))"

definition copy_name :: "byte list \<Rightarrow> byte list \<Rightarrow> byte list" where
  "copy_name old el = (if length el \<ge> DIRSIZ then take DIRSIZ el else splice old 0 (el @ [0]))"

definition skipelem :: "byte list \<Rightarrow> byte list \<Rightarrow> (byte list \<times> byte list) option" where
  "skipelem path name = map_option (\<lambda>(el, rest). (rest, copy_name name el)) (path_elem path)"

lemma path_elem_shorter:
  assumes "path_elem path = Some (el, rest)"
  shows "length rest < length path"
proof (cases "dropWhile (\<lambda>c. c = 0x2F) (takeWhile (\<lambda>c. c \<noteq> 0) path)")
  case Nil
  then show ?thesis using assms by (simp add: path_elem_def Let_def)
next
  case (Cons c p)
  then have r: "rest = dropWhile (\<lambda>c. c = 0x2F) (dropWhile (\<lambda>c. c \<noteq> 0x2F) (c # p))"
    using assms by (simp add: path_elem_def Let_def)
  have c: "c \<noteq> 0x2F" using Cons by (simp add: dropWhile_eq_Cons_conv)
  have "length rest \<le> length (dropWhile (\<lambda>c. c \<noteq> 0x2F) (c # p))" unfolding r by (rule length_dropWhile_le)
  also have "\<dots> = length (dropWhile (\<lambda>c. c \<noteq> 0x2F) p)" using c by simp
  also have "\<dots> \<le> length p" by (rule length_dropWhile_le)
  also have "\<dots> < length (c # p)" by simp
  also have "\<dots> \<le> length (takeWhile (\<lambda>c. c \<noteq> 0) path)" unfolding Cons [symmetric] by (rule length_dropWhile_le)
  also have "\<dots> \<le> length path" by (rule length_takeWhile_le)
  finally show ?thesis .
qed

text \<open>The loop of \<open>namex\<close>: the inode reached, the rest of the path and the last name.\<close>

function namex_loop :: "nat \<Rightarrow> byte list \<Rightarrow> bool \<Rightarrow> byte list \<Rightarrow> (nat \<times> byte list) option kroutine" where
  "namex_loop ip path parent name =
    (case skipelem path name of
       None \<Rightarrow>
         if parent then andthen (iput ip) (return None) else return (Some (ip, name))
     | Some (path', name') \<Rightarrow>
         andthen (ilock (Some ip))
         (bind (gets (\<lambda>s. i_type (inodes s ! ip))) (\<lambda>ty.
         if ty \<noteq> T_DIR then andthen (iunlockput ip) (return None)
         else if parent \<and> path' = [] then andthen (iunlock (Some ip)) (return (Some (ip, name')))
         else
           bind (dirlookup ip name') (\<lambda>r.
           case r of
             None \<Rightarrow> andthen (iunlockput ip) (return None)
           | Some (next, _) \<Rightarrow> andthen (iunlockput ip) (namex_loop next path' parent name')))))"
  by pat_completeness auto

termination namex_loop
  by (relation "measure (\<lambda>(_, path, _). length path)") (auto simp: skipelem_def dest: path_elem_shorter)

definition namex :: "byte list \<Rightarrow> bool \<Rightarrow> (nat \<times> byte list) option kroutine" where
  "namex path parent =
    bind (if takeWhile (\<lambda>c. c \<noteq> 0) path \<noteq> [] \<and> hd path = 0x2F then iget ROOTDEV ROOTINO
          else with_proc (\<lambda>p. bind (gets (\<lambda>s. p_cwd (procs s ! p))) (\<lambda>cwd.
            case cwd of None \<Rightarrow> fault ''cwd'' | Some d \<Rightarrow> idup d))) (\<lambda>ip.
    namex_loop ip path parent (replicate DIRSIZ 0))"

definition namei :: "byte list \<Rightarrow> nat option kroutine" where
  "namei path = bind (namex path False) (\<lambda>r. return (map_option fst r))"

definition nameiparent :: "byte list \<Rightarrow> (nat \<times> byte list) option kroutine" where
  "nameiparent path = namex path True"

end
