(* ===== verification/File.thy ===== *)
theory File
  imports Inode
begin

text \<open>
  \<^verbatim>\<open>pipe.c\<close> and \<^verbatim>\<open>file.c\<close>: pipes, which are pages of memory known by their address,
  and the table of open files, whose entries refer to a pipe or to an inode.
\<close>

section \<open>Pipes\<close>

definition PIPESIZE :: nat where
  "PIPESIZE = 512"

definition set_pipe :: "uint32 \<Rightarrow> (pipe \<Rightarrow> pipe) \<Rightarrow> kernel \<Rightarrow> kernel" where
  "set_pipe p f s = s\<lparr>pipes := (pipes s)(p := f (pipes s p))\<rparr>"

definition set_file :: "nat \<Rightarrow> (filestruct \<Rightarrow> filestruct) \<Rightarrow> kernel \<Rightarrow> kernel" where
  "set_file f g s = s\<lparr>files := (files s)[f := g (files s ! f)]\<rparr>"

definition pipeclose :: "uint32 \<Rightarrow> bool \<Rightarrow> unit kroutine" where
  "pipeclose p writable =
    andthen (acquire (L_pipe p))
    (andthen
      (if writable then
         andthen (modify (set_pipe p (\<lambda>x. x\<lparr>pi_writeopen := False\<rparr>))) (wakeup (Ch_nread p))
       else
         andthen (modify (set_pipe p (\<lambda>x. x\<lparr>pi_readopen := False\<rparr>))) (wakeup (Ch_nwrite p)))
    (bind (gets (\<lambda>s. pipes s p)) (\<lambda>x.
    if \<not> pi_readopen x \<and> \<not> pi_writeopen x then andthen (release (L_pipe p)) (kfree p)
    else release (L_pipe p))))"

text \<open>\<open>pipewrite\<close> from the head of its loops with the lock of the pipe held; the list
  holds the bytes that are left to write.\<close>

definition pipe_killed :: "bool kroutine" where
  "pipe_killed = with_proc (\<lambda>i. gets (\<lambda>s. p_killed (procs s ! i)))"

fun pipewrite_loop :: "uint32 \<Rightarrow> byte list \<Rightarrow> int \<Rightarrow> int kroutine" where
  "pipewrite_loop p [] n =
    andthen (wakeup (Ch_nread p))
    (andthen (release (L_pipe p))
    (return n))"
| "pipewrite_loop p (c # cs) n =
    bind (gets (\<lambda>s. pipes s p)) (\<lambda>x.
    if pi_nwrite x = pi_nread x + of_nat PIPESIZE then
      bind (if \<not> pi_readopen x then return True else pipe_killed) (\<lambda>stop.
      if stop then andthen (release (L_pipe p)) (return (- 1))
      else andthen (wakeup (Ch_nread p)) (sleep_again (Ch_nwrite p) (L_pipe p)))
    else
      andthen (modify (set_pipe p (\<lambda>x. x\<lparr>pi_data := (pi_data x)[unat (pi_nwrite x) mod PIPESIZE := c]\<rparr>)))
      (andthen (modify (set_pipe p (\<lambda>x. x\<lparr>pi_nwrite := pi_nwrite x + 1\<rparr>)))
      (pipewrite_loop p cs n)))"

definition pipewrite :: "uint32 \<Rightarrow> byte list \<Rightarrow> int \<Rightarrow> int kroutine" where
  "pipewrite p addr n =
    andthen (acquire (L_pipe p))
    (pipewrite_loop p (take (nat n) addr) n)"

fun piperead_copy :: "uint32 \<Rightarrow> nat \<Rightarrow> byte list kroutine" where
  "piperead_copy p 0 = return []"
| "piperead_copy p (Suc n) =
    bind (gets (\<lambda>s. pipes s p)) (\<lambda>x.
    if pi_nread x = pi_nwrite x then return []
    else
      andthen (modify (set_pipe p (\<lambda>x. x\<lparr>pi_nread := pi_nread x + 1\<rparr>)))
      (bind (piperead_copy p n) (\<lambda>cs.
      return (pi_data x ! (unat (pi_nread x) mod PIPESIZE) # cs))))"

definition piperead_loop :: "uint32 \<Rightarrow> int \<Rightarrow> byte list option kroutine" where
  "piperead_loop p n =
    bind (gets (\<lambda>s. pipes s p)) (\<lambda>x.
    if pi_nread x = pi_nwrite x \<and> pi_writeopen x then
      bind pipe_killed (\<lambda>killed.
      if killed then andthen (release (L_pipe p)) (return None)
      else sleep_again (Ch_nread p) (L_pipe p))
    else
      bind (piperead_copy p (nat n)) (\<lambda>cs.
      andthen (wakeup (Ch_nwrite p))
      (andthen (release (L_pipe p))
      (return (Some cs)))))"

definition piperead :: "uint32 \<Rightarrow> int \<Rightarrow> byte list option kroutine" where
  "piperead p n = andthen (acquire (L_pipe p)) (piperead_loop p n)"

section \<open>Open files\<close>

definition fileinit :: "unit kroutine" where
  "fileinit = initlock L_ftable ''ftable''"

definition filealloc :: "nat option kroutine" where
  "filealloc =
    andthen (acquire L_ftable)
    (bind (gets (\<lambda>s. find (\<lambda>i. f_ref (files s ! i) = 0) [0..<NFILE])) (\<lambda>r.
    case r of
      Some f \<Rightarrow>
        andthen (modify (set_file f (\<lambda>x. x\<lparr>f_ref := 1\<rparr>)))
        (andthen (release L_ftable) (return (Some f)))
    | None \<Rightarrow> andthen (release L_ftable) (return None)))"

definition filedup :: "nat \<Rightarrow> nat kroutine" where
  "filedup f =
    andthen (acquire L_ftable)
    (bind (gets (\<lambda>s. f_ref (files s ! f))) (\<lambda>ref.
    andthen (panic_if (ref < 1) ''filedup'')
    (andthen (modify (set_file f (\<lambda>x. x\<lparr>f_ref := f_ref x + 1\<rparr>)))
    (andthen (release L_ftable)
    (return f)))))"

definition fileclose :: "nat \<Rightarrow> unit kroutine" where
  "fileclose f =
    andthen (acquire L_ftable)
    (bind (gets (\<lambda>s. f_ref (files s ! f))) (\<lambda>ref.
    andthen (panic_if (ref < 1) ''fileclose'')
    (andthen (modify (set_file f (\<lambda>x. x\<lparr>f_ref := f_ref x - 1\<rparr>)))
    (bind (gets (\<lambda>s. files s ! f)) (\<lambda>ff.
    if f_ref ff > 0 then release L_ftable
    else
      andthen (modify (set_file f (\<lambda>x. x\<lparr>f_ref := 0\<rparr>)))
      (andthen (modify (set_file f (\<lambda>x. x\<lparr>f_type := FD_NONE\<rparr>)))
      (andthen (release L_ftable)
      (case f_type ff of
         FD_PIPE \<Rightarrow> pipeclose (f_pipe ff) (f_writable ff)
       | FD_INODE \<Rightarrow> andthen begin_op (andthen (iput (f_ip ff)) end_op)
       | FD_NONE \<Rightarrow> return ()))))))))"

text \<open>\<open>pipealloc\<close> gives both file structures or none.\<close>

definition pipe_file :: "uint32 \<Rightarrow> bool \<Rightarrow> nat \<Rightarrow> unit kroutine" where
  "pipe_file p writable f =
    andthen (modify (set_file f (\<lambda>x. x\<lparr>f_type := FD_PIPE\<rparr>)))
    (andthen (modify (set_file f (\<lambda>x. x\<lparr>f_readable := \<not> writable\<rparr>)))
    (andthen (modify (set_file f (\<lambda>x. x\<lparr>f_writable := writable\<rparr>)))
    (modify (set_file f (\<lambda>x. x\<lparr>f_pipe := p\<rparr>)))))"

definition pipe_bad :: "nat option \<Rightarrow> nat option \<Rightarrow> (nat \<times> nat) option kroutine" where
  "pipe_bad f0 f1 =
    andthen (case f0 of None \<Rightarrow> return () | Some f \<Rightarrow> fileclose f)
    (andthen (case f1 of None \<Rightarrow> return () | Some f \<Rightarrow> fileclose f)
    (return None))"

definition pipealloc :: "(nat \<times> nat) option kroutine" where
  "pipealloc =
    bind filealloc (\<lambda>r0. case r0 of None \<Rightarrow> pipe_bad None None | Some f0 \<Rightarrow>
    bind filealloc (\<lambda>r1. case r1 of None \<Rightarrow> pipe_bad (Some f0) None | Some f1 \<Rightarrow>
    bind kalloc (\<lambda>p. if p = 0 then pipe_bad (Some f0) (Some f1) else
    andthen (modify (set_pipe p (\<lambda>x. x\<lparr>pi_readopen := True\<rparr>)))
    (andthen (modify (set_pipe p (\<lambda>x. x\<lparr>pi_writeopen := True\<rparr>)))
    (andthen (modify (set_pipe p (\<lambda>x. x\<lparr>pi_nwrite := 0\<rparr>)))
    (andthen (modify (set_pipe p (\<lambda>x. x\<lparr>pi_nread := 0\<rparr>)))
    (andthen (initlock (L_pipe p) ''pipe'')
    (andthen (pipe_file p False f0)
    (andthen (pipe_file p True f1)
    (return (Some (f0, f1))))))))))))"

definition filestat :: "nat \<Rightarrow> stat option kroutine" where
  "filestat f =
    bind (gets (\<lambda>s. files s ! f)) (\<lambda>x.
    if f_type x = FD_INODE then
      andthen (ilock (Some (f_ip x)))
      (bind (stati (f_ip x)) (\<lambda>st.
      andthen (iunlock (Some (f_ip x)))
      (return (Some st))))
    else return None)"

definition fileread :: "nat \<Rightarrow> int \<Rightarrow> byte list option kroutine" where
  "fileread f n =
    bind (gets (\<lambda>s. files s ! f)) (\<lambda>x.
    if \<not> f_readable x then return None
    else case f_type x of
      FD_PIPE \<Rightarrow> piperead (f_pipe x) n
    | FD_INODE \<Rightarrow>
        andthen (ilock (Some (f_ip x)))
        (bind (gets (\<lambda>s. f_off (files s ! f))) (\<lambda>off.
        bind (readi (f_ip x) off (of_int n)) (\<lambda>r.
        andthen (case r of
            Some bs \<Rightarrow> do_if (bs \<noteq> []) (modify (set_file f (\<lambda>x. x\<lparr>f_off := f_off x + of_nat (length bs)\<rparr>)))
          | None \<Rightarrow> return ())
        (andthen (iunlock (Some (f_ip x)))
        (return r)))))
    | FD_NONE \<Rightarrow> panic ''fileread'')"

definition max_write :: nat where
  "max_write = nat (((LOGSIZE - 1 - 1 - 2) div 2) * 512)"

text \<open>The loop of \<open>filewrite\<close> on the bytes that are left; \<open>False\<close> when a write fails.\<close>

function filewrite_loop :: "nat \<Rightarrow> nat \<Rightarrow> byte list \<Rightarrow> bool kroutine" where
  "filewrite_loop f ip rest =
    (if rest = [] then return True
     else
       let n1 = min (length rest) max_write in
       andthen begin_op
       (andthen (ilock (Some ip))
       (bind (gets (\<lambda>s. f_off (files s ! f))) (\<lambda>off.
       bind (writei ip (take n1 rest) off (of_nat n1)) (\<lambda>r.
       andthen (do_if (r > 0) (modify (set_file f (\<lambda>x. x\<lparr>f_off := f_off x + of_int r\<rparr>))))
       (andthen (iunlock (Some ip))
       (andthen end_op
       (if r < 0 then return False
        else andthen (panic_if (r \<noteq> int n1) ''short filewrite'')
          (filewrite_loop f ip (drop n1 rest))))))))))"
  by pat_completeness auto

termination filewrite_loop
  by (relation "measure (\<lambda>(_, _, rest). length rest)") (auto simp: max_write_def layout_simps)

definition filewrite :: "nat \<Rightarrow> byte list \<Rightarrow> int \<Rightarrow> int kroutine" where
  "filewrite f addr n =
    bind (gets (\<lambda>s. files s ! f)) (\<lambda>x.
    if \<not> f_writable x then return (- 1)
    else case f_type x of
      FD_PIPE \<Rightarrow> pipewrite (f_pipe x) addr n
    | FD_INODE \<Rightarrow>
        bind (filewrite_loop f (f_ip x) (take (nat n) addr)) (\<lambda>ok.
        return (if ok \<and> n \<ge> 0 then n else - 1))
    | FD_NONE \<Rightarrow> panic ''filewrite'')"

end
