(* ===== verification/Vm.thy ===== *)
theory Vm
  imports Inode
begin

text \<open>
  \<^verbatim>\<open>vm.c\<close>: page tables in memory. A page directory is the address of its page, an entry
  a word of memory. \<open>switchuvm\<close> and \<open>switchkvm\<close> load the page table register of the
  processor.
\<close>

unbundle bit_operations_syntax

section \<open>Memory words and byte sequences\<close>

definition pte_load :: "uint32 \<Rightarrow> uint32 kroutine" where
  "pte_load a = gets (\<lambda>s. load32 (mem s) a)"

definition poke :: "uint32 \<Rightarrow> uint32 \<Rightarrow> unit kroutine" where
  "poke a w = modify (\<lambda>s. s\<lparr>mem := store32 (mem s) a w\<rparr>)"

fun store_bytes :: "(uint32 \<Rightarrow> byte) \<Rightarrow> uint32 \<Rightarrow> byte list \<Rightarrow> (uint32 \<Rightarrow> byte)" where
  "store_bytes m a [] = m"
| "store_bytes m a (b # bs) = store_bytes (m(a := b)) (a + 1) bs"

definition zero_page :: "uint32 \<Rightarrow> unit kroutine" where
  "zero_page a = modify (\<lambda>s. s\<lparr>mem := memset (mem s) a 0 PGSIZE\<rparr>)"

section \<open>Page tables\<close>

definition walkpgdir :: "uint32 \<Rightarrow> uint32 \<Rightarrow> bool \<Rightarrow> uint32 option kroutine" where
  "walkpgdir pgdir va alloc =
    (let pde = pgdir + 4 * PDX va in
     bind (pte_load pde) (\<lambda>e.
     if e AND PTE_P \<noteq> 0 then return (Some (p2v (PTE_ADDR e) + 4 * PTX va))
     else if \<not> alloc then return None
     else
       bind kalloc (\<lambda>pgtab.
       if pgtab = 0 then return None
       else
         andthen (zero_page pgtab)
         (andthen (poke pde (v2p pgtab OR PTE_P OR PTE_W OR PTE_U))
         (return (Some (pgtab + 4 * PTX va)))))))"

text \<open>The loop of \<open>mappages\<close> advances page by page until it has mapped \<open>final\<close>; the
  count is one more than the number of pages between.\<close>

fun mappages_loop :: "nat \<Rightarrow> uint32 \<Rightarrow> uint32 \<Rightarrow> uint32 \<Rightarrow> uint32 \<Rightarrow> uint32 \<Rightarrow> int kroutine" where
  "mappages_loop 0 pgdir a final pa perm = (\<lambda>s. Spin s)"
| "mappages_loop (Suc k) pgdir a final pa perm =
    bind (walkpgdir pgdir a True) (\<lambda>r.
    case r of
      None \<Rightarrow> return (- 1)
    | Some pte \<Rightarrow>
        bind (pte_load pte) (\<lambda>e.
        andthen (panic_if (e AND PTE_P \<noteq> 0) ''remap'')
        (andthen (poke pte (pa OR perm OR PTE_P))
        (if a = final then return 0
         else mappages_loop k pgdir (a + PGSIZE) final (pa + PGSIZE) perm))))"

definition mappages :: "uint32 \<Rightarrow> uint32 \<Rightarrow> uint32 \<Rightarrow> uint32 \<Rightarrow> uint32 \<Rightarrow> int kroutine" where
  "mappages pgdir va sz pa perm =
    (let a = PGROUNDDOWN va; final = PGROUNDDOWN (va + sz - 1) in
     mappages_loop (Suc (unat ((final - a) div PGSIZE))) pgdir a final pa perm)"

text \<open>The table \<open>kmap\<close>: virtual address, physical start and end, permissions.\<close>

definition kmap :: "uint32 \<Rightarrow> (uint32 \<times> uint32 \<times> uint32 \<times> uint32) list" where
  "kmap data =
    [(KERNBASE, 0, EXTMEM, PTE_W),
     (KERNLINK, v2p KERNLINK, v2p data, 0),
     (data, v2p data, PHYSTOP, PTE_W),
     (DEVSPACE, DEVSPACE, 0, PTE_W)]"

fun map_all :: "uint32 \<Rightarrow> (uint32 \<times> uint32 \<times> uint32 \<times> uint32) list \<Rightarrow> uint32 kroutine" where
  "map_all pgdir [] = return pgdir"
| "map_all pgdir ((virt, phys_start, phys_end, perm) # ks) =
    bind (mappages pgdir virt (phys_end - phys_start) phys_start perm) (\<lambda>r.
    if r < 0 then return 0 else map_all pgdir ks)"

definition setupkvm :: "uint32 kroutine" where
  "setupkvm =
    bind kalloc (\<lambda>pgdir.
    if pgdir = 0 then return 0
    else
      andthen (zero_page pgdir)
      (andthen (panic_if (p2v PHYSTOP > DEVSPACE) ''PHYSTOP too high'')
      (bind (gets (\<lambda>s. kmap (im_data (k_image s)))) (map_all pgdir))))"

definition lcr3 :: "uint32 \<Rightarrow> unit kroutine" where
  "lcr3 a = modify (set_mycpu (\<lambda>c. c\<lparr>c_cr3 := a\<rparr>))"

definition switchkvm :: "unit kroutine" where
  "switchkvm = bind (gets kpgdir) (\<lambda>d. lcr3 (v2p d))"

definition kvmalloc :: "unit kroutine" where
  "kvmalloc = bind setupkvm (\<lambda>d. andthen (modify (\<lambda>s. s\<lparr>kpgdir := d\<rparr>)) switchkvm)"

definition SEG_KCODE :: nat where "SEG_KCODE = 1"
definition SEG_KDATA :: nat where "SEG_KDATA = 2"
definition SEG_KCPU :: nat where "SEG_KCPU = 3"
definition SEG_UCODE :: nat where "SEG_UCODE = 4"
definition SEG_UDATA :: nat where "SEG_UDATA = 5"
definition SEG_TSS :: nat where "SEG_TSS = 6"
definition DPL_USER :: uint32 where "DPL_USER = 3"
definition STA_X :: uint32 where "STA_X = 8"
definition STA_W :: uint32 where "STA_W = 2"
definition STA_R :: uint32 where "STA_R = 2"
definition STS_T32A :: uint32 where "STS_T32A = 9"

text \<open>The address of a \<open>struct cpu\<close>, which has 188 bytes; its task state is at offset 8
  and has 104 bytes.\<close>

definition cpu_addr :: "kernel \<Rightarrow> uint32" where
  "cpu_addr s = im_cpus (k_image s) + 188 * of_nat (cpuid s)"

definition switchuvm :: "nat \<Rightarrow> unit kroutine" where
  "switchuvm p =
    andthen pushcli
    (andthen (modify (\<lambda>s. set_mycpu (\<lambda>c. c\<lparr>c_gdt := (c_gdt c)(SEG_TSS := SEG16 STS_T32A (cpu_addr s + 8) (104 - 1) 0)\<rparr>) s))
    (andthen (modify (set_mycpu (\<lambda>c. c\<lparr>c_gdt := (c_gdt c)(SEG_TSS := (c_gdt c SEG_TSS)\<lparr>seg_s := 0\<rparr>)\<rparr>)))
    (andthen (modify (set_mycpu (\<lambda>c. c\<lparr>c_ts_ss0 := push_bit 3 (of_nat SEG_KDATA)\<rparr>)))
    (andthen (with_proc (\<lambda>i. modify (\<lambda>s. set_mycpu (\<lambda>c. c\<lparr>c_ts_esp0 := p_kstack (procs s ! i) + KSTACKSIZE\<rparr>) s)))
    (andthen (modify (set_mycpu (\<lambda>c. c\<lparr>c_tr := push_bit 3 (of_nat SEG_TSS)\<rparr>)))
    (bind (gets (\<lambda>s. p_pgdir (procs s ! p))) (\<lambda>pgdir.
    andthen (panic_if (pgdir = 0) ''switchuvm: no pgdir'')
    (andthen (lcr3 (v2p pgdir))
    popcli))))))))"

section \<open>User memory\<close>

text \<open>\<open>inituvm\<close>; it uses the page without testing for a null pointer.\<close>

definition inituvm :: "uint32 \<Rightarrow> byte list \<Rightarrow> uint32 \<Rightarrow> unit kroutine" where
  "inituvm pgdir init sz =
    andthen (panic_if (sz \<ge> PGSIZE) ''inituvm: more than a page'')
    (bind kalloc (\<lambda>m.
    if m = 0 then fault ''inituvm''
    else
      andthen (zero_page m)
      (bind (mappages pgdir 0 PGSIZE (v2p m) (PTE_W OR PTE_U)) (\<lambda>_.
      modify (\<lambda>s. s\<lparr>mem := store_bytes (mem s) m (take (unat sz) init)\<rparr>)))))"

text \<open>The loop of \<open>loaduvm\<close> over the page offsets.\<close>

fun loaduvm_loop :: "uint32 \<Rightarrow> uint32 \<Rightarrow> nat \<Rightarrow> uint32 \<Rightarrow> uint32 \<Rightarrow> nat list \<Rightarrow> int kroutine" where
  "loaduvm_loop pgdir addr ip offset sz [] = return 0"
| "loaduvm_loop pgdir addr ip offset sz (i # is) =
    bind (walkpgdir pgdir (addr + of_nat i) False) (\<lambda>r.
    case r of
      None \<Rightarrow> panic ''loaduvm: address should exist''
    | Some pte \<Rightarrow>
        bind (pte_load pte) (\<lambda>e.
        let pa = PTE_ADDR e; n = (if sz - of_nat i < PGSIZE then sz - of_nat i else PGSIZE) in
        bind (readi ip (offset + of_nat i) n) (\<lambda>r.
        case r of
          None \<Rightarrow> return (- 1)
        | Some bs \<Rightarrow>
            andthen (modify (\<lambda>s. s\<lparr>mem := store_bytes (mem s) (p2v pa) bs\<rparr>))
            (if length bs \<noteq> unat n then return (- 1)
             else loaduvm_loop pgdir addr ip offset sz is))))"

definition page_offs :: "uint32 \<Rightarrow> nat list" where
  "page_offs sz = map (\<lambda>k. k * 4096) [0..<(unat sz + 4095) div 4096]"

definition loaduvm :: "uint32 \<Rightarrow> uint32 \<Rightarrow> nat \<Rightarrow> uint32 \<Rightarrow> uint32 \<Rightarrow> int kroutine" where
  "loaduvm pgdir addr ip offset sz =
    andthen (panic_if (addr mod PGSIZE \<noteq> 0) ''loaduvm: addr must be page aligned'')
    (loaduvm_loop pgdir addr ip offset sz (page_offs sz))"

text \<open>
  The loop of \<open>deallocuvm\<close>; a page directory entry that is not present skips the pages of
  a whole table. With sizes up to \<open>KERNBASE\<close> the address does not wrap around, and there
  are at most as many turns as pages.
\<close>

fun deallocuvm_loop :: "nat \<Rightarrow> uint32 \<Rightarrow> uint32 \<Rightarrow> uint32 \<Rightarrow> unit kroutine" where
  "deallocuvm_loop 0 pgdir oldsz a = (\<lambda>s. if a < oldsz then Spin s else Ok () s)"
| "deallocuvm_loop (Suc k) pgdir oldsz a =
    (if a < oldsz then
       bind (walkpgdir pgdir a False) (\<lambda>r.
       case r of
         None \<Rightarrow> deallocuvm_loop k pgdir oldsz (a + of_nat (NPTENTRIES - 1) * PGSIZE + PGSIZE)
       | Some pte \<Rightarrow>
           bind (pte_load pte) (\<lambda>e.
           andthen
             (do_if (e AND PTE_P \<noteq> 0)
               (let pa = PTE_ADDR e in
                andthen (panic_if (pa = 0) ''kfree'')
                (andthen (kfree (p2v pa))
                (poke pte 0))))
           (deallocuvm_loop k pgdir oldsz (a + PGSIZE))))
     else return ())"

definition deallocuvm :: "uint32 \<Rightarrow> uint32 \<Rightarrow> uint32 \<Rightarrow> uint32 kroutine" where
  "deallocuvm pgdir oldsz newsz =
    (if newsz \<ge> oldsz then return oldsz
     else
       let a = PGROUNDUP newsz in
       andthen (deallocuvm_loop (Suc (unat ((oldsz - a) div PGSIZE))) pgdir oldsz a)
       (return newsz))"

fun allocuvm_loop :: "nat \<Rightarrow> uint32 \<Rightarrow> uint32 \<Rightarrow> uint32 \<Rightarrow> uint32 \<Rightarrow> uint32 kroutine" where
  "allocuvm_loop 0 pgdir oldsz newsz a = (\<lambda>s. if a < newsz then Spin s else Ok newsz s)"
| "allocuvm_loop (Suc k) pgdir oldsz newsz a =
    (if a < newsz then
       bind kalloc (\<lambda>m.
       if m = 0 then
         andthen (cprintf (Some ''allocuvm out of memory\<newline>'') [])
         (bind (deallocuvm pgdir newsz oldsz) (\<lambda>_.
         return 0))
       else
         andthen (zero_page m)
         (bind (mappages pgdir a PGSIZE (v2p m) (PTE_W OR PTE_U)) (\<lambda>_.
         allocuvm_loop k pgdir oldsz newsz (a + PGSIZE))))
     else return newsz)"

definition allocuvm :: "uint32 \<Rightarrow> uint32 \<Rightarrow> uint32 \<Rightarrow> uint32 kroutine" where
  "allocuvm pgdir oldsz newsz =
    (if newsz \<ge> KERNBASE then return 0
     else if newsz < oldsz then return oldsz
     else
       let a = PGROUNDUP oldsz in
       allocuvm_loop (Suc (unat ((newsz - a) div PGSIZE))) pgdir oldsz newsz a)"

definition freevm :: "uint32 \<Rightarrow> unit kroutine" where
  "freevm pgdir =
    andthen (panic_if (pgdir = 0) ''freevm: no pgdir'')
    (bind (deallocuvm pgdir KERNBASE 0) (\<lambda>_.
    andthen (foreach [0..<NPDENTRIES] (\<lambda>i.
      bind (pte_load (pgdir + 4 * of_nat i)) (\<lambda>e.
      do_if (e AND PTE_P \<noteq> 0) (kfree (p2v (PTE_ADDR e))))))
    (kfree pgdir)))"

definition clearpteu :: "uint32 \<Rightarrow> uint32 \<Rightarrow> unit kroutine" where
  "clearpteu pgdir uva =
    bind (walkpgdir pgdir uva False) (\<lambda>r.
    case r of
      None \<Rightarrow> panic ''clearpteu''
    | Some pte \<Rightarrow> bind (pte_load pte) (\<lambda>e. poke pte (e AND NOT PTE_U)))"

fun copyuvm_loop :: "uint32 \<Rightarrow> uint32 \<Rightarrow> nat list \<Rightarrow> uint32 kroutine" where
  "copyuvm_loop pgdir d [] = return d"
| "copyuvm_loop pgdir d (i # is) =
    bind (walkpgdir pgdir (of_nat i) False) (\<lambda>r.
    case r of
      None \<Rightarrow> panic ''copyuvm: pte should exist''
    | Some pte \<Rightarrow>
        bind (pte_load pte) (\<lambda>e.
        andthen (panic_if (e AND PTE_P = 0) ''copyuvm: page not present'')
        (let pa = PTE_ADDR e; flags = PTE_FLAGS e in
         bind kalloc (\<lambda>m.
         if m = 0 then andthen (freevm d) (return 0)
         else
           andthen (modify (\<lambda>s. s\<lparr>mem := memmove (mem s) m (p2v pa) PGSIZE\<rparr>))
           (bind (mappages d (of_nat i) PGSIZE (v2p m) flags) (\<lambda>r.
           if r < 0 then andthen (freevm d) (return 0)
           else copyuvm_loop pgdir d is))))))"

definition copyuvm :: "uint32 \<Rightarrow> uint32 \<Rightarrow> uint32 kroutine" where
  "copyuvm pgdir sz =
    bind setupkvm (\<lambda>d.
    if d = 0 then return 0
    else copyuvm_loop pgdir d (page_offs sz))"

text \<open>\<open>uva2ka\<close>; without a page table for the address the code reads through a null
  pointer.\<close>

definition uva2ka :: "uint32 \<Rightarrow> uint32 \<Rightarrow> uint32 kroutine" where
  "uva2ka pgdir uva =
    bind (walkpgdir pgdir uva False) (\<lambda>r.
    case r of
      None \<Rightarrow> fault ''uva2ka''
    | Some pte \<Rightarrow>
        bind (pte_load pte) (\<lambda>e.
        return (if e AND PTE_P = 0 then 0 else if e AND PTE_U = 0 then 0 else p2v (PTE_ADDR e))))"

function copyout :: "uint32 \<Rightarrow> uint32 \<Rightarrow> byte list \<Rightarrow> int kroutine" where
  "copyout pgdir va buf =
    (if buf = [] then return 0
     else
       let va0 = PGROUNDDOWN va in
       bind (uva2ka pgdir va0) (\<lambda>pa0.
       if pa0 = 0 then return (- 1)
       else
         let n = min (length buf) (4096 - unat (va - va0)) in
         andthen (modify (\<lambda>s. s\<lparr>mem := store_bytes (mem s) (pa0 + (va - va0)) (take n buf)\<rparr>))
         (copyout pgdir (va0 + PGSIZE) (drop n buf))))"
  by pat_completeness auto

lemma page_offset_less: "unat (va - PGROUNDDOWN va) < 4096"
proof -
  have "va - PGROUNDDOWN va = va AND mask 12" by (simp add: PGROUNDDOWN_eq word_and_not_mask)
  then show ?thesis by (simp add: unat_and_mask)
qed

termination copyout
  by (relation "measure (\<lambda>(_, _, buf). length buf)") (use page_offset_less in \<open>auto simp: Let_def\<close>)

text \<open>
  An access by the kernel to a user address goes through the page table; in kernel mode the
  bit \<open>PTE_U\<close> does not matter. An address without a page is a fault in the kernel.
\<close>

definition user_ka :: "uint32 \<Rightarrow> uint32 \<Rightarrow> uint32 kroutine" where
  "user_ka pgdir va =
    bind (walkpgdir pgdir va False) (\<lambda>r.
    case r of
      None \<Rightarrow> fault ''page fault''
    | Some pte \<Rightarrow>
        bind (pte_load pte) (\<lambda>e.
        if e AND PTE_P = 0 then fault ''page fault''
        else return (p2v (PTE_ADDR e) + (va AND 0xFFF))))"

fun user_load :: "uint32 \<Rightarrow> uint32 \<Rightarrow> nat \<Rightarrow> byte list kroutine" where
  "user_load pgdir va 0 = return []"
| "user_load pgdir va (Suc n) =
    bind (user_ka pgdir va) (\<lambda>a.
    bind (gets (\<lambda>s. mem s a)) (\<lambda>b.
    bind (user_load pgdir (va + 1) n) (\<lambda>bs.
    return (b # bs))))"

fun user_store :: "uint32 \<Rightarrow> uint32 \<Rightarrow> byte list \<Rightarrow> unit kroutine" where
  "user_store pgdir va [] = return ()"
| "user_store pgdir va (b # bs) =
    bind (user_ka pgdir va) (\<lambda>a.
    andthen (modify (\<lambda>s. s\<lparr>mem := (mem s)(a := b)\<rparr>))
    (user_store pgdir (va + 1) bs))"

end
