(* ===== verification/Process.thy ===== *)
theory Process
  imports File Vm
begin

text \<open>
  The life of a process: the rest of \<^verbatim>\<open>proc.c\<close> (creation, growth, exit, wait and the
  scheduler), the access to system call arguments of \<^verbatim>\<open>syscall.c\<close>, and the system calls
  of \<^verbatim>\<open>sysproc.c\<close>. The scheduler is cut at its switch to a process; it goes on with
  \<open>scheduler_resume\<close> when the process switches back.
\<close>

unbundle bit_operations_syntax

section \<open>Creating processes\<close>

definition FL_IF :: uint32 where "FL_IF = 0x200"

text \<open>\<open>userinit\<close>; a null pointer from \<open>allocproc\<close> is not tested for.\<close>

definition userinit :: "unit kroutine" where
  "userinit =
    bind allocproc (\<lambda>r.
    andthen (modify (\<lambda>s. s\<lparr>initproc := r\<rparr>))
    (case r of None \<Rightarrow> fault ''userinit'' | Some p \<Rightarrow>
    bind setupkvm (\<lambda>pgdir.
    andthen (modify (set_proc p (\<lambda>q. q\<lparr>p_pgdir := pgdir\<rparr>)))
    (andthen (panic_if (pgdir = 0) ''userinit: out of memory?'')
    (bind (gets (\<lambda>s. im_initcode (k_image s))) (\<lambda>code.
    andthen (inituvm pgdir code (of_nat (length code)))
    (andthen (modify (set_proc p (\<lambda>q. q\<lparr>p_sz := PGSIZE\<rparr>)))
    (andthen (modify (set_proc p (\<lambda>q. q\<lparr>p_tf := zero_trapframe
        \<lparr>tf_cs := push_bit 3 (of_nat SEG_UCODE) OR ucast DPL_USER,
         tf_ds := push_bit 3 (of_nat SEG_UDATA) OR ucast DPL_USER,
         tf_es := push_bit 3 (of_nat SEG_UDATA) OR ucast DPL_USER,
         tf_ss := push_bit 3 (of_nat SEG_UDATA) OR ucast DPL_USER,
         tf_eflags := FL_IF, tf_esp := PGSIZE, tf_eip := 0\<rparr>\<rparr>)))
    (andthen (modify (set_proc p (\<lambda>q. q\<lparr>p_name := the (safestrcpy (p_name q) (chars ''initcode'' @ [0]) 16)\<rparr>)))
    (bind (namei (chars ''/'')) (\<lambda>cwd.
    andthen (modify (set_proc p (\<lambda>q. q\<lparr>p_cwd := cwd\<rparr>)))
    (modify (set_proc p (\<lambda>q. q\<lparr>p_state := RUNNABLE\<rparr>))))))))))))))"

definition growproc :: "int \<Rightarrow> int kroutine" where
  "growproc n =
    with_proc (\<lambda>i.
    bind (gets (\<lambda>s. procs s ! i)) (\<lambda>p.
    bind (if n > 0 then allocuvm (p_pgdir p) (p_sz p) (p_sz p + of_int n)
          else if n < 0 then deallocuvm (p_pgdir p) (p_sz p) (p_sz p + of_int n)
          else return (p_sz p)) (\<lambda>sz.
    if n \<noteq> 0 \<and> sz = 0 then return (- 1)
    else
      andthen (modify (set_proc i (\<lambda>q. q\<lparr>p_sz := sz\<rparr>)))
      (andthen (switchuvm i)
      (return 0)))))"

definition fork_files :: "nat \<Rightarrow> nat \<Rightarrow> unit kroutine" where
  "fork_files i np = foreach [0..<NOFILE] (\<lambda>k.
    bind (gets (\<lambda>s. p_ofile (procs s ! i) ! k)) (\<lambda>r.
    case r of
      None \<Rightarrow> return ()
    | Some f \<Rightarrow> bind (filedup f) (\<lambda>f. modify (set_proc np (\<lambda>q. q\<lparr>p_ofile := (p_ofile q)[k := Some f]\<rparr>)))))"

definition fork :: "int kroutine" where
  "fork =
    bind allocproc (\<lambda>r.
    case r of None \<Rightarrow> return (- 1) | Some np \<Rightarrow>
    with_proc (\<lambda>i.
    bind (gets (\<lambda>s. procs s ! i)) (\<lambda>p.
    bind (copyuvm (p_pgdir p) (p_sz p)) (\<lambda>pgdir.
    andthen (modify (set_proc np (\<lambda>q. q\<lparr>p_pgdir := pgdir\<rparr>)))
    (if pgdir = 0 then
       bind (gets (\<lambda>s. p_kstack (procs s ! np))) (\<lambda>kst.
       andthen (kfree kst)
       (andthen (modify (set_proc np (\<lambda>q. q\<lparr>p_kstack := 0\<rparr>)))
       (andthen (modify (set_proc np (\<lambda>q. q\<lparr>p_state := UNUSED\<rparr>)))
       (return (- 1)))))
     else
       andthen (modify (\<lambda>s. set_proc np (\<lambda>q. q\<lparr>p_sz := p_sz (procs s ! i)\<rparr>) s))
       (andthen (modify (set_proc np (\<lambda>q. q\<lparr>p_parent := Some i\<rparr>)))
       (andthen (modify (\<lambda>s. set_proc np (\<lambda>q. q\<lparr>p_tf := p_tf (procs s ! i)\<rparr>) s))
       (andthen (modify (set_proc np (\<lambda>q. q\<lparr>p_tf := (p_tf q)\<lparr>tf_eax := 0\<rparr>\<rparr>)))
       (andthen (fork_files i np)
       (bind (gets (\<lambda>s. p_cwd (procs s ! i))) (\<lambda>c.
       case c of None \<Rightarrow> fault ''cwd'' | Some d \<Rightarrow>
       bind (idup d) (\<lambda>d.
       andthen (modify (set_proc np (\<lambda>q. q\<lparr>p_cwd := Some d\<rparr>)))
       (andthen (modify (\<lambda>s. set_proc np (\<lambda>q. q\<lparr>p_name := the (safestrcpy (p_name q) (p_name (procs s ! i)) 16)\<rparr>) s))
       (bind (gets (\<lambda>s. p_pid (procs s ! np))) (\<lambda>pid.
       andthen (acquire L_ptable)
       (andthen (modify (set_proc np (\<lambda>q. q\<lparr>p_state := RUNNABLE\<rparr>)))
       (andthen (release L_ptable)
       (return pid))))))))))))))))))"

section \<open>Exit and wait\<close>

definition exit_files :: "nat \<Rightarrow> unit kroutine" where
  "exit_files i = foreach [0..<NOFILE] (\<lambda>fd.
    bind (gets (\<lambda>s. p_ofile (procs s ! i) ! fd)) (\<lambda>r.
    case r of
      None \<Rightarrow> return ()
    | Some f \<Rightarrow> andthen (fileclose f) (modify (set_proc i (\<lambda>q. q\<lparr>p_ofile := (p_ofile q)[fd := None]\<rparr>)))))"

text \<open>The children of a process go to \<open>initproc\<close>.\<close>

definition reparent :: "nat \<Rightarrow> unit kroutine" where
  "reparent i = foreach [0..<NPROC] (\<lambda>c.
    bind (gets (\<lambda>s. procs s ! c)) (\<lambda>q.
    do_if (p_parent q = Some i)
      (bind (gets initproc) (\<lambda>ip.
      andthen (modify (set_proc c (\<lambda>q. q\<lparr>p_parent := ip\<rparr>)))
      (do_if (p_state q = ZOMBIE) (wakeup1 (map_option Ch_proc ip)))))))"

definition exit :: "unit kroutine" where
  "exit =
    bind (gets curproc) (\<lambda>cp.
    bind (gets initproc) (\<lambda>ip.
    andthen (panic_if (cp = ip) ''init exiting'')
    (with_proc (\<lambda>i.
    andthen (exit_files i)
    (andthen begin_op
    (bind (gets (\<lambda>s. p_cwd (procs s ! i))) (\<lambda>c.
    case c of None \<Rightarrow> fault ''cwd'' | Some d \<Rightarrow>
    andthen (iput d)
    (andthen end_op
    (andthen (modify (set_proc i (\<lambda>q. q\<lparr>p_cwd := None\<rparr>)))
    (andthen (acquire L_ptable)
    (bind (gets (\<lambda>s. p_parent (procs s ! i))) (\<lambda>par.
    andthen (wakeup1 (map_option Ch_proc par))
    (andthen (reparent i)
    (andthen (modify (set_proc i (\<lambda>q. q\<lparr>p_state := ZOMBIE\<rparr>)))
    (andthen sched
    (panic ''zombie exit''))))))))))))))))"

text \<open>\<open>wait\<close> from the head of its loop, with the lock of the table held.\<close>

definition reap :: "nat \<Rightarrow> int kroutine" where
  "reap c =
    bind (gets (\<lambda>s. procs s ! c)) (\<lambda>q.
    andthen (kfree (p_kstack q))
    (andthen (modify (set_proc c (\<lambda>q. q\<lparr>p_kstack := 0\<rparr>)))
    (andthen (freevm (p_pgdir q))
    (andthen (modify (set_proc c (\<lambda>q. q\<lparr>p_state := UNUSED\<rparr>)))
    (andthen (modify (set_proc c (\<lambda>q. q\<lparr>p_pid := 0\<rparr>)))
    (andthen (modify (set_proc c (\<lambda>q. q\<lparr>p_parent := None\<rparr>)))
    (andthen (modify (set_proc c (\<lambda>q. q\<lparr>p_name := (p_name q)[0 := 0]\<rparr>)))
    (andthen (modify (set_proc c (\<lambda>q. q\<lparr>p_killed := False\<rparr>)))
    (andthen (release L_ptable)
    (return (p_pid q)))))))))))"

definition wait_loop :: "int kroutine" where
  "wait_loop =
    with_proc (\<lambda>i.
    bind (gets (\<lambda>s. find (\<lambda>c. p_parent (procs s ! c) = Some i \<and> p_state (procs s ! c) = ZOMBIE) [0..<NPROC])) (\<lambda>z.
    case z of
      Some c \<Rightarrow> reap c
    | None \<Rightarrow>
        bind (gets (\<lambda>s. (\<exists>c \<in> set [0..<NPROC]. p_parent (procs s ! c) = Some i) \<and> \<not> p_killed (procs s ! i))) (\<lambda>go_on.
        if \<not> go_on then andthen (release L_ptable) (return (- 1))
        else sleep_again (Ch_proc i) L_ptable)))"

definition wait :: "int kroutine" where
  "wait = andthen (acquire L_ptable) wait_loop"

section \<open>The scheduler\<close>

definition set_curproc :: "nat option \<Rightarrow> unit kroutine" where
  "set_curproc p = modify (set_mycpu (\<lambda>c. c\<lparr>c_proc := p\<rparr>))"

text \<open>The scan of the table from slot \<open>k\<close> on; it ends with the release of the lock, after
  which the scheduler begins again.\<close>

definition scheduler_from :: "nat \<Rightarrow> unit kroutine" where
  "scheduler_from k =
    bind (gets (\<lambda>s. find (\<lambda>i. p_state (procs s ! i) = RUNNABLE) [k..<NPROC])) (\<lambda>r.
    case r of
      None \<Rightarrow> release L_ptable
    | Some p \<Rightarrow>
        andthen (set_curproc (Some p))
        (andthen (switchuvm p)
        (andthen (modify (set_proc p (\<lambda>q. q\<lparr>p_state := RUNNING\<rparr>)))
        (\<lambda>s. Swtch s))))"

definition scheduler_resume :: "nat \<Rightarrow> unit kroutine" where
  "scheduler_resume p =
    andthen switchkvm
    (andthen (set_curproc None)
    (scheduler_from (Suc p)))"

definition scheduler :: "unit kroutine" where
  "scheduler =
    andthen sti
    (andthen (acquire L_ptable)
    (scheduler_from 0))"

definition forkret :: "unit kroutine" where
  "forkret =
    andthen (release L_ptable)
    (bind (gets forkret_first) (\<lambda>first.
    do_if first
      (andthen (modify (\<lambda>s. s\<lparr>forkret_first := False\<rparr>))
      (andthen (iinit ROOTDEV)
      (initlog ROOTDEV)))))"

section \<open>System call arguments\<close>

text \<open>A failed fetch is \<open>None\<close>.\<close>

definition fetchint :: "uint32 \<Rightarrow> uint32 option kroutine" where
  "fetchint addr =
    with_proc (\<lambda>i.
    bind (gets (\<lambda>s. procs s ! i)) (\<lambda>p.
    if addr \<ge> p_sz p \<or> addr + 4 > p_sz p then return None
    else bind (user_load (p_pgdir p) addr 4) (\<lambda>bs. return (Some (get32 bs 0)))))"

text \<open>The scan of \<open>fetchstr\<close> over \<open>n\<close> bytes; the string is returned without its NUL.\<close>

fun fetchstr_loop :: "uint32 \<Rightarrow> uint32 \<Rightarrow> nat \<Rightarrow> byte list option kroutine" where
  "fetchstr_loop pgdir a 0 = return None"
| "fetchstr_loop pgdir a (Suc n) =
    bind (user_load pgdir a 1) (\<lambda>bs.
    if hd bs = 0 then return (Some [])
    else bind (fetchstr_loop pgdir (a + 1) n) (\<lambda>r. return (map_option (Cons (hd bs)) r)))"

definition fetchstr :: "uint32 \<Rightarrow> byte list option kroutine" where
  "fetchstr addr =
    with_proc (\<lambda>i.
    bind (gets (\<lambda>s. procs s ! i)) (\<lambda>p.
    if addr \<ge> p_sz p then return None
    else fetchstr_loop (p_pgdir p) addr (unat (p_sz p - addr))))"

definition argint :: "nat \<Rightarrow> uint32 option kroutine" where
  "argint n =
    with_proc (\<lambda>i.
    bind (gets (\<lambda>s. tf_esp (p_tf (procs s ! i)))) (\<lambda>esp.
    fetchint (esp + 4 + 4 * of_nat n)))"

definition argptr :: "nat \<Rightarrow> uint32 \<Rightarrow> uint32 option kroutine" where
  "argptr n sz =
    bind (argint n) (\<lambda>r.
    case r of None \<Rightarrow> return None | Some a \<Rightarrow>
    with_proc (\<lambda>i.
    bind (gets (\<lambda>s. p_sz (procs s ! i))) (\<lambda>psz.
    return (if a \<ge> psz \<or> a + sz > psz then None else Some a))))"

definition argstr :: "nat \<Rightarrow> byte list option kroutine" where
  "argstr n =
    bind (argint n) (\<lambda>r.
    case r of None \<Rightarrow> return None | Some a \<Rightarrow> fetchstr a)"

section \<open>System calls on processes\<close>

definition sys_getpcount :: "int kroutine" where
  "sys_getpcount =
    andthen (acquire L_ptable)
    (bind (gets (\<lambda>s. length (filter (\<lambda>i. case p_state (procs s ! i) of
        EMBRYO \<Rightarrow> True | SLEEPING \<Rightarrow> True | RUNNABLE \<Rightarrow> True | RUNNING \<Rightarrow> True | ZOMBIE \<Rightarrow> True | UNUSED \<Rightarrow> False) [0..<NPROC]))) (\<lambda>count.
    andthen (release L_ptable)
    (return (int count))))"

definition sys_fork :: "int kroutine" where
  "sys_fork = fork"

definition sys_exit :: "int kroutine" where
  "sys_exit = andthen exit (return 0)"

definition sys_wait :: "int kroutine" where
  "sys_wait = wait"

definition sys_kill :: "int kroutine" where
  "sys_kill =
    bind (argint 0) (\<lambda>r.
    case r of None \<Rightarrow> return (- 1) | Some pid \<Rightarrow> kill (sint pid))"

definition sys_getpid :: "int kroutine" where
  "sys_getpid = with_proc (\<lambda>i. gets (\<lambda>s. p_pid (procs s ! i)))"

definition sys_sbrk :: "int kroutine" where
  "sys_sbrk =
    bind (argint 0) (\<lambda>r.
    case r of None \<Rightarrow> return (- 1) | Some n \<Rightarrow>
    with_proc (\<lambda>i.
    bind (gets (\<lambda>s. p_sz (procs s ! i))) (\<lambda>addr.
    bind (growproc (sint n)) (\<lambda>g.
    return (if g < 0 then - 1 else sint addr)))))"

text \<open>\<open>sys_sleep\<close> from the head of its loop; the comparison is between unsigned numbers.\<close>

definition sys_sleep_loop :: "uint32 \<Rightarrow> uint32 \<Rightarrow> int kroutine" where
  "sys_sleep_loop ticks0 n =
    bind (gets ticks) (\<lambda>t.
    if t - ticks0 < n then
      with_proc (\<lambda>i.
      bind (gets (\<lambda>s. p_killed (procs s ! i))) (\<lambda>killed.
      if killed then andthen (release L_ticks) (return (- 1))
      else sleep_again Ch_ticks L_ticks))
    else andthen (release L_ticks) (return 0))"

definition sys_sleep :: "int kroutine" where
  "sys_sleep =
    bind (argint 0) (\<lambda>r.
    case r of None \<Rightarrow> return (- 1) | Some n \<Rightarrow>
    andthen (acquire L_ticks)
    (bind (gets ticks) (\<lambda>ticks0.
    sys_sleep_loop ticks0 n)))"

definition sys_uptime :: "int kroutine" where
  "sys_uptime =
    andthen (acquire L_ticks)
    (bind (gets ticks) (\<lambda>xticks.
    andthen (release L_ticks)
    (return (sint xticks))))"

end
