(* ===== verification/Sysfile.thy ===== *)
theory Sysfile
  imports Process
begin

text \<open>
  \<^verbatim>\<open>exec.c\<close>, the system calls on files of \<^verbatim>\<open>sysfile.c\<close>, and the dispatcher of
  \<^verbatim>\<open>syscall.c\<close>. A buffer of the calling process is read and written through its page
  table.
\<close>

unbundle bit_operations_syntax

section \<open>Running a program\<close>

definition ELF_MAGIC :: uint32 where "ELF_MAGIC = 0x464C457F"
definition ELF_PROG_LOAD :: uint32 where "ELF_PROG_LOAD = 1"

text \<open>The fields of \<open>struct elfhdr\<close> (52 bytes) and \<open>struct proghdr\<close> (32 bytes).\<close>

definition elf_magic :: "byte list \<Rightarrow> uint32" where "elf_magic h = get32 h 0"
definition elf_entry :: "byte list \<Rightarrow> uint32" where "elf_entry h = get32 h 24"
definition elf_phoff :: "byte list \<Rightarrow> uint32" where "elf_phoff h = get32 h 28"
definition elf_phnum :: "byte list \<Rightarrow> ushort" where "elf_phnum h = get16 h 44"

record proghdr =
  ph_type :: uint32
  ph_off :: uint32
  ph_vaddr :: uint32
  ph_paddr :: uint32
  ph_filesz :: uint32
  ph_memsz :: uint32

definition proghdr_of :: "byte list \<Rightarrow> proghdr" where
  "proghdr_of d = \<lparr>ph_type = get32 d 0, ph_off = get32 d 4, ph_vaddr = get32 d 8, ph_paddr = get32 d 12,
     ph_filesz = get32 d 16, ph_memsz = get32 d 20\<rparr>"

text \<open>The label \<open>bad\<close>.\<close>

definition exec_bad :: "uint32 \<Rightarrow> nat option \<Rightarrow> int kroutine" where
  "exec_bad pgdir ip =
    andthen (do_if (pgdir \<noteq> 0) (freevm pgdir))
    (andthen (case ip of None \<Rightarrow> return () | Some i \<Rightarrow> andthen (iunlockput i) end_op)
    (return (- 1)))"

text \<open>The segments from the program header at \<open>off\<close> on; \<open>None\<close> is the jump to \<open>bad\<close>.\<close>

fun exec_load :: "nat \<Rightarrow> nat \<Rightarrow> uint32 \<Rightarrow> uint32 \<Rightarrow> uint32 \<Rightarrow> uint32 option kroutine" where
  "exec_load 0 ip pgdir off sz = return (Some sz)"
| "exec_load (Suc n) ip pgdir off sz =
    bind (readi ip off 32) (\<lambda>r.
    case r of None \<Rightarrow> return None | Some d \<Rightarrow>
    if length d \<noteq> 32 then return None
    else
      let ph = proghdr_of d in
      if ph_type ph \<noteq> ELF_PROG_LOAD then exec_load n ip pgdir (off + 32) sz
      else if ph_memsz ph < ph_filesz ph then return None
      else
        bind (allocuvm pgdir sz (ph_vaddr ph + ph_memsz ph)) (\<lambda>sz.
        if sz = 0 then return None
        else
          bind (loaduvm pgdir (ph_vaddr ph) ip (ph_off ph) (ph_filesz ph)) (\<lambda>l.
          if l < 0 then return None
          else exec_load n ip pgdir (off + 32) sz)))"

text \<open>Push the argument strings; the result is the stack pointer with the addresses of the
  strings.\<close>

fun push_args :: "uint32 \<Rightarrow> nat \<Rightarrow> uint32 \<Rightarrow> byte list list \<Rightarrow> (uint32 \<times> uint32 list) option kroutine" where
  "push_args pgdir argc sp [] = return (Some (sp, []))"
| "push_args pgdir argc sp (a # as) =
    (if argc \<ge> MAXARG then return None
     else
       let sp = (sp - (of_nat (length a) + 1)) AND NOT 3 in
       bind (copyout pgdir sp (a @ [0])) (\<lambda>r.
       if r < 0 then return None
       else bind (push_args pgdir (Suc argc) sp as) (\<lambda>q.
         return (map_option (\<lambda>(sp', us). (sp', sp # us)) q))))"

definition words_bytes :: "uint32 list \<Rightarrow> byte list" where
  "words_bytes ws = concat (map (\<lambda>w. put32 [0, 0, 0, 0] 0 w) ws)"

definition base_name :: "byte list \<Rightarrow> byte list" where
  "base_name path = rev (takeWhile (\<lambda>c. c \<noteq> 0x2F) (rev path))"

text \<open>The rest of \<open>exec\<close> after the segments are loaded.\<close>

definition exec_stack :: "byte list \<Rightarrow> byte list list \<Rightarrow> uint32 \<Rightarrow> uint32 \<Rightarrow> uint32 \<Rightarrow> int kroutine" where
  "exec_stack path argv pgdir entry sz0 =
    (let sz1 = PGROUNDUP sz0 in
     bind (allocuvm pgdir sz1 (sz1 + 2 * PGSIZE)) (\<lambda>sz.
     if sz = 0 then exec_bad pgdir None
     else
       andthen (clearpteu pgdir (sz - 2 * PGSIZE))
       (bind (push_args pgdir 0 sz argv) (\<lambda>r.
       case r of None \<Rightarrow> exec_bad pgdir None | Some (sp, us) \<Rightarrow>
       let argc = of_nat (length argv);
           ustack = [0xffffffff, argc, sp - (argc + 1) * 4] @ us @ [0];
           sp = sp - (3 + argc + 1) * 4 in
       bind (copyout pgdir sp (words_bytes ustack)) (\<lambda>c.
       if c < 0 then exec_bad pgdir None
       else
         with_proc (\<lambda>i.
         andthen (modify (set_proc i (\<lambda>q. q\<lparr>p_name := the (safestrcpy (p_name q) (base_name path @ [0]) 16)\<rparr>)))
         (bind (gets (\<lambda>s. p_pgdir (procs s ! i))) (\<lambda>oldpgdir.
         andthen (modify (set_proc i (\<lambda>q. q\<lparr>p_pgdir := pgdir\<rparr>)))
         (andthen (modify (set_proc i (\<lambda>q. q\<lparr>p_sz := sz\<rparr>)))
         (andthen (modify (set_proc i (\<lambda>q. q\<lparr>p_tf := (p_tf q)\<lparr>tf_eip := entry\<rparr>\<rparr>)))
         (andthen (modify (set_proc i (\<lambda>q. q\<lparr>p_tf := (p_tf q)\<lparr>tf_esp := sp\<rparr>\<rparr>)))
         (andthen (switchuvm i)
         (andthen (freevm oldpgdir)
         (return 0))))))))))))))"

definition exec :: "byte list \<Rightarrow> byte list list \<Rightarrow> int kroutine" where
  "exec path argv =
    andthen begin_op
    (bind (namei path) (\<lambda>r.
    case r of None \<Rightarrow> andthen end_op (return (- 1)) | Some ip \<Rightarrow>
    andthen (ilock (Some ip))
    (bind (readi ip 0 52) (\<lambda>h.
    case h of None \<Rightarrow> exec_bad 0 (Some ip) | Some elf \<Rightarrow>
    if length elf < 52 \<or> elf_magic elf \<noteq> ELF_MAGIC then exec_bad 0 (Some ip)
    else
      bind setupkvm (\<lambda>pgdir.
      if pgdir = 0 then exec_bad 0 (Some ip)
      else
        bind (exec_load (unat (elf_phnum elf)) ip pgdir (elf_phoff elf) 0) (\<lambda>l.
        case l of None \<Rightarrow> exec_bad pgdir (Some ip) | Some sz \<Rightarrow>
        andthen (iunlockput ip)
        (andthen end_op
        (exec_stack path argv pgdir (elf_entry elf) sz))))))))"

section \<open>File descriptors\<close>

definition argfd :: "nat \<Rightarrow> (nat \<times> nat) option kroutine" where
  "argfd n =
    bind (argint n) (\<lambda>r.
    case r of None \<Rightarrow> return None | Some w \<Rightarrow>
    let fd = sint w in
    if fd < 0 \<or> fd \<ge> int NOFILE then return None
    else
      with_proc (\<lambda>i.
      bind (gets (\<lambda>s. p_ofile (procs s ! i) ! nat fd)) (\<lambda>f.
      return (map_option (\<lambda>f. (nat fd, f)) f))))"

definition set_ofile :: "nat \<Rightarrow> nat option \<Rightarrow> unit kroutine" where
  "set_ofile fd f = with_proc (\<lambda>i. modify (set_proc i (\<lambda>q. q\<lparr>p_ofile := (p_ofile q)[fd := f]\<rparr>)))"

definition fdalloc :: "nat \<Rightarrow> nat option kroutine" where
  "fdalloc f =
    with_proc (\<lambda>i.
    bind (gets (\<lambda>s. find (\<lambda>fd. p_ofile (procs s ! i) ! fd = None) [0..<NOFILE])) (\<lambda>r.
    case r of
      None \<Rightarrow> return None
    | Some fd \<Rightarrow> andthen (set_ofile fd (Some f)) (return (Some fd))))"

definition sys_dup :: "int kroutine" where
  "sys_dup =
    bind (argfd 0) (\<lambda>r.
    case r of None \<Rightarrow> return (- 1) | Some (_, f) \<Rightarrow>
    bind (fdalloc f) (\<lambda>d.
    case d of None \<Rightarrow> return (- 1) | Some fd \<Rightarrow>
    bind (filedup f) (\<lambda>_.
    return (int fd))))"

definition cur_pgdir :: "uint32 kroutine" where
  "cur_pgdir = with_proc (\<lambda>i. gets (\<lambda>s. p_pgdir (procs s ! i)))"

text \<open>The arguments of \<open>read\<close> and \<open>write\<close>: file, size, address.\<close>

definition rw_args :: "(nat \<times> uint32 \<times> uint32) option kroutine" where
  "rw_args =
    bind (argfd 0) (\<lambda>r.
    case r of None \<Rightarrow> return None | Some (_, f) \<Rightarrow>
    bind (argint 2) (\<lambda>r.
    case r of None \<Rightarrow> return None | Some n \<Rightarrow>
    bind (argptr 1 n) (\<lambda>r.
    case r of None \<Rightarrow> return None | Some p \<Rightarrow>
    return (Some (f, n, p)))))"

definition sys_read :: "int kroutine" where
  "sys_read =
    bind rw_args (\<lambda>r.
    case r of None \<Rightarrow> return (- 1) | Some (f, n, p) \<Rightarrow>
    bind (fileread f (sint n)) (\<lambda>r.
    case r of None \<Rightarrow> return (- 1) | Some bs \<Rightarrow>
    bind cur_pgdir (\<lambda>pgdir.
    andthen (user_store pgdir p bs)
    (return (int (length bs))))))"

definition sys_write :: "int kroutine" where
  "sys_write =
    bind rw_args (\<lambda>r.
    case r of None \<Rightarrow> return (- 1) | Some (f, n, p) \<Rightarrow>
    bind cur_pgdir (\<lambda>pgdir.
    bind (user_load pgdir p (nat (sint n))) (\<lambda>bs.
    filewrite f bs (sint n))))"

definition sys_close :: "int kroutine" where
  "sys_close =
    bind (argfd 0) (\<lambda>r.
    case r of None \<Rightarrow> return (- 1) | Some (fd, f) \<Rightarrow>
    andthen (set_ofile fd None)
    (andthen (fileclose f)
    (return 0)))"

text \<open>\<open>struct stat\<close> in memory: 20 bytes with padding after the two short fields; the
  bytes of the padding are not written.\<close>

definition store_stat :: "uint32 \<Rightarrow> uint32 \<Rightarrow> stat \<Rightarrow> unit kroutine" where
  "store_stat pgdir a st =
    andthen (user_store pgdir (a + 4) (put32 [0, 0, 0, 0] 0 (st_dev st)))
    (andthen (user_store pgdir (a + 8) (put32 [0, 0, 0, 0] 0 (st_ino st)))
    (andthen (user_store pgdir a (put16 [0, 0] 0 (st_type st)))
    (andthen (user_store pgdir (a + 12) (put16 [0, 0] 0 (st_nlink st)))
    (user_store pgdir (a + 16) (put32 [0, 0, 0, 0] 0 (st_size st))))))"

definition sys_fstat :: "int kroutine" where
  "sys_fstat =
    bind (argfd 0) (\<lambda>r.
    case r of None \<Rightarrow> return (- 1) | Some (_, f) \<Rightarrow>
    bind (argptr 1 20) (\<lambda>r.
    case r of None \<Rightarrow> return (- 1) | Some p \<Rightarrow>
    bind (filestat f) (\<lambda>r.
    case r of None \<Rightarrow> return (- 1) | Some st \<Rightarrow>
    bind cur_pgdir (\<lambda>pgdir.
    andthen (store_stat pgdir p st)
    (return 0)))))"

section \<open>Links\<close>

definition inc_nlink :: "nat \<Rightarrow> int \<Rightarrow> unit kroutine" where
  "inc_nlink ip d =
    andthen (modify (set_inode ip (\<lambda>n. n\<lparr>i_nlink := i_nlink n + of_int d\<rparr>)))
    (iupdate ip)"

definition link_bad :: "nat \<Rightarrow> int kroutine" where
  "link_bad ip =
    andthen (ilock (Some ip))
    (andthen (inc_nlink ip (- 1))
    (andthen (iunlockput ip)
    (andthen end_op
    (return (- 1)))))"

definition sys_link :: "int kroutine" where
  "sys_link =
    bind (argstr 0) (\<lambda>r. case r of None \<Rightarrow> return (- 1) | Some old \<Rightarrow>
    bind (argstr 1) (\<lambda>r. case r of None \<Rightarrow> return (- 1) | Some new \<Rightarrow>
    andthen begin_op
    (bind (namei old) (\<lambda>r. case r of None \<Rightarrow> andthen end_op (return (- 1)) | Some ip \<Rightarrow>
    andthen (ilock (Some ip))
    (bind (gets (\<lambda>s. i_type (inodes s ! ip))) (\<lambda>ty.
    if ty = T_DIR then andthen (iunlockput ip) (andthen end_op (return (- 1)))
    else
      andthen (inc_nlink ip 1)
      (andthen (iunlock (Some ip))
      (bind (nameiparent new) (\<lambda>r. case r of None \<Rightarrow> link_bad ip | Some (dp, name) \<Rightarrow>
      andthen (ilock (Some dp))
      (bind (gets (\<lambda>s. (i_dev (inodes s ! dp) = i_dev (inodes s ! ip), i_inum (inodes s ! ip)))) (\<lambda>(same, inum).
      bind (if \<not> same then return (- 1) else dirlink dp name inum) (\<lambda>l.
      if l < 0 then andthen (iunlockput dp) (link_bad ip)
      else
        andthen (iunlockput dp)
        (andthen (iput ip)
        (andthen end_op
        (return 0)))))))))))))))"

text \<open>The offsets from the third entry on.\<close>

fun isdirempty_loop :: "nat \<Rightarrow> nat list \<Rightarrow> bool kroutine" where
  "isdirempty_loop dp [] = return True"
| "isdirempty_loop dp (off # offs) =
    bind (readi dp (of_nat off) (of_nat dirent_size)) (\<lambda>r.
    case r of
      None \<Rightarrow> panic ''isdirempty: readi''
    | Some de \<Rightarrow>
        if length de \<noteq> dirent_size then panic ''isdirempty: readi''
        else if de_inum de \<noteq> 0 then return False
        else isdirempty_loop dp offs)"

definition isdirempty :: "nat \<Rightarrow> bool kroutine" where
  "isdirempty dp = bind (gets (\<lambda>s. drop 2 (dir_offs (i_size (inodes s ! dp))))) (isdirempty_loop dp)"

definition unlink_bad :: "nat \<Rightarrow> int kroutine" where
  "unlink_bad dp = andthen (iunlockput dp) (andthen end_op (return (- 1)))"

definition sys_unlink :: "int kroutine" where
  "sys_unlink =
    bind (argstr 0) (\<lambda>r. case r of None \<Rightarrow> return (- 1) | Some path \<Rightarrow>
    andthen begin_op
    (bind (nameiparent path) (\<lambda>r. case r of None \<Rightarrow> andthen end_op (return (- 1)) | Some (dp, name) \<Rightarrow>
    andthen (ilock (Some dp))
    (bind (namecmp name (chars ''.'' @ [0])) (\<lambda>c1.
    bind (if c1 = 0 then return 0 else namecmp name (chars ''..'' @ [0])) (\<lambda>c2.
    if c1 = 0 \<or> c2 = 0 then unlink_bad dp
    else
      bind (dirlookup dp name) (\<lambda>r. case r of None \<Rightarrow> unlink_bad dp | Some (ip, off) \<Rightarrow>
      andthen (ilock (Some ip))
      (bind (gets (\<lambda>s. inodes s ! ip)) (\<lambda>n.
      andthen (panic_if (sint (i_nlink n) < 1) ''unlink: nlink < 1'')
      (bind (if i_type n = T_DIR then isdirempty ip else return True) (\<lambda>empty.
      if \<not> empty then andthen (iunlockput ip) (unlink_bad dp)
      else
        bind (writei dp (replicate dirent_size 0) (of_nat off) (of_nat dirent_size)) (\<lambda>w.
        andthen (panic_if (w \<noteq> int dirent_size) ''unlink: writei'')
        (andthen (do_if (i_type n = T_DIR) (inc_nlink dp (- 1)))
        (andthen (iunlockput dp)
        (andthen (inc_nlink ip (- 1))
        (andthen (iunlockput ip)
        (andthen end_op
        (return 0))))))))))))))))))"

section \<open>Creating and opening\<close>

definition create :: "byte list \<Rightarrow> ushort \<Rightarrow> ushort \<Rightarrow> ushort \<Rightarrow> nat option kroutine" where
  "create path type major minor =
    bind (nameiparent path) (\<lambda>r. case r of None \<Rightarrow> return None | Some (dp, name) \<Rightarrow>
    andthen (ilock (Some dp))
    (bind (dirlookup dp name) (\<lambda>r. case r of
      Some (ip, _) \<Rightarrow>
        andthen (iunlockput dp)
        (andthen (ilock (Some ip))
        (bind (gets (\<lambda>s. i_type (inodes s ! ip))) (\<lambda>ty.
        if type = T_FILE \<and> ty = T_FILE then return (Some ip)
        else andthen (iunlockput ip) (return None))))
    | None \<Rightarrow>
        bind (gets (\<lambda>s. i_dev (inodes s ! dp))) (\<lambda>dev.
        bind (ialloc dev type) (\<lambda>ip.
        andthen (ilock (Some ip))
        (andthen (modify (set_inode ip (\<lambda>n. n\<lparr>i_major := major\<rparr>)))
        (andthen (modify (set_inode ip (\<lambda>n. n\<lparr>i_minor := minor\<rparr>)))
        (andthen (modify (set_inode ip (\<lambda>n. n\<lparr>i_nlink := 1\<rparr>)))
        (andthen (iupdate ip)
        (bind (gets (\<lambda>s. (i_inum (inodes s ! ip), i_inum (inodes s ! dp)))) (\<lambda>(inum, dinum).
        andthen (do_if (type = T_DIR)
          (andthen (inc_nlink dp 1)
          (bind (dirlink ip (chars ''.'' @ [0]) inum) (\<lambda>d1.
          bind (if d1 < 0 then return d1 else dirlink ip (chars ''..'' @ [0]) dinum) (\<lambda>d2.
          panic_if (d1 < 0 \<or> d2 < 0) ''create dots'')))))
        (bind (dirlink dp name inum) (\<lambda>d.
        andthen (panic_if (d < 0) ''create: dirlink'')
        (andthen (iunlockput dp)
        (return (Some ip))))))))))))))))"

definition O_RDONLY :: uint32 where "O_RDONLY = 0x000"
definition O_WRONLY :: uint32 where "O_WRONLY = 0x001"
definition O_RDWR :: uint32 where "O_RDWR = 0x002"
definition O_CREATE :: uint32 where "O_CREATE = 0x200"

text \<open>The inode that \<open>open\<close> opens, locked, or \<open>None\<close>.\<close>

definition open_inode :: "byte list \<Rightarrow> uint32 \<Rightarrow> nat option kroutine" where
  "open_inode path omode =
    (if omode AND O_CREATE \<noteq> 0 then create path T_FILE 0 0
     else
       bind (namei path) (\<lambda>r. case r of None \<Rightarrow> return None | Some ip \<Rightarrow>
       andthen (ilock (Some ip))
       (bind (gets (\<lambda>s. i_type (inodes s ! ip))) (\<lambda>ty.
       if ty = T_DIR \<and> omode \<noteq> O_RDONLY then andthen (iunlockput ip) (return None)
       else return (Some ip)))))"

definition open_fail :: "nat option \<Rightarrow> nat \<Rightarrow> int kroutine" where
  "open_fail f ip =
    andthen (case f of None \<Rightarrow> return () | Some g \<Rightarrow> fileclose g)
    (andthen (iunlockput ip)
    (andthen end_op
    (return (- 1))))"

definition sys_open :: "int kroutine" where
  "sys_open =
    bind (argstr 0) (\<lambda>r. case r of None \<Rightarrow> return (- 1) | Some path \<Rightarrow>
    bind (argint 1) (\<lambda>r. case r of None \<Rightarrow> return (- 1) | Some omode \<Rightarrow>
    andthen begin_op
    (bind (open_inode path omode) (\<lambda>r. case r of None \<Rightarrow> andthen end_op (return (- 1)) | Some ip \<Rightarrow>
    bind filealloc (\<lambda>r. case r of None \<Rightarrow> open_fail None ip | Some f \<Rightarrow>
    bind (fdalloc f) (\<lambda>r. case r of None \<Rightarrow> open_fail (Some f) ip | Some fd \<Rightarrow>
    andthen (iunlock (Some ip))
    (andthen end_op
    (andthen (modify (set_file f (\<lambda>x. x\<lparr>f_type := FD_INODE\<rparr>)))
    (andthen (modify (set_file f (\<lambda>x. x\<lparr>f_ip := ip\<rparr>)))
    (andthen (modify (set_file f (\<lambda>x. x\<lparr>f_off := 0\<rparr>)))
    (andthen (modify (set_file f (\<lambda>x. x\<lparr>f_readable := (omode AND O_WRONLY = 0)\<rparr>)))
    (andthen (modify (set_file f (\<lambda>x. x\<lparr>f_writable := (omode AND O_WRONLY \<noteq> 0 \<or> omode AND O_RDWR \<noteq> 0)\<rparr>)))
    (return (int fd))))))))))))))"

definition create_op :: "byte list option \<Rightarrow> ushort \<Rightarrow> ushort \<Rightarrow> ushort \<Rightarrow> int kroutine" where
  "create_op path type major minor =
    bind (case path of None \<Rightarrow> return None | Some p \<Rightarrow> create p type major minor) (\<lambda>r.
    case r of
      None \<Rightarrow> andthen end_op (return (- 1))
    | Some ip \<Rightarrow> andthen (iunlockput ip) (andthen end_op (return 0)))"

definition sys_mkdir :: "int kroutine" where
  "sys_mkdir =
    andthen begin_op
    (bind (argstr 0) (\<lambda>path.
    create_op path T_DIR 0 0))"

definition sys_mknod :: "int kroutine" where
  "sys_mknod =
    andthen begin_op
    (bind (argstr 0) (\<lambda>path.
    bind (if path = None then return None else argint 1) (\<lambda>major.
    bind (if major = None then return None else argint 2) (\<lambda>minor.
    case (major, minor) of
      (Some mj, Some mn) \<Rightarrow> create_op path T_DEV (ucast mj) (ucast mn)
    | _ \<Rightarrow> create_op None T_DEV 0 0))))"

definition sys_chdir :: "int kroutine" where
  "sys_chdir =
    andthen begin_op
    (bind (argstr 0) (\<lambda>path.
    bind (case path of None \<Rightarrow> return None | Some p \<Rightarrow> namei p) (\<lambda>r.
    case r of None \<Rightarrow> andthen end_op (return (- 1)) | Some ip \<Rightarrow>
    andthen (ilock (Some ip))
    (bind (gets (\<lambda>s. i_type (inodes s ! ip))) (\<lambda>ty.
    if ty \<noteq> T_DIR then andthen (iunlockput ip) (andthen end_op (return (- 1)))
    else
      andthen (iunlock (Some ip))
      (with_proc (\<lambda>i.
      bind (gets (\<lambda>s. p_cwd (procs s ! i))) (\<lambda>c. case c of None \<Rightarrow> fault ''cwd'' | Some d \<Rightarrow>
      andthen (iput d)
      (andthen end_op
      (andthen (modify (set_proc i (\<lambda>q. q\<lparr>p_cwd := Some ip\<rparr>)))
      (return 0)))))))))))"

text \<open>The argument strings of \<open>exec\<close> from the \<open>i\<close>-th on; at most \<open>MAXARG\<close> places
  are scanned.\<close>

fun exec_args :: "nat \<Rightarrow> nat \<Rightarrow> uint32 \<Rightarrow> byte list list option kroutine" where
  "exec_args 0 i uargv = return None"
| "exec_args (Suc k) i uargv =
    bind (fetchint (uargv + 4 * of_nat i)) (\<lambda>r. case r of None \<Rightarrow> return None | Some uarg \<Rightarrow>
    if uarg = 0 then return (Some [])
    else
      bind (fetchstr uarg) (\<lambda>r. case r of None \<Rightarrow> return None | Some a \<Rightarrow>
      bind (exec_args k (Suc i) uargv) (\<lambda>r. return (map_option (Cons a) r))))"

definition sys_exec :: "int kroutine" where
  "sys_exec =
    bind (argstr 0) (\<lambda>r. case r of None \<Rightarrow> return (- 1) | Some path \<Rightarrow>
    bind (argint 1) (\<lambda>r. case r of None \<Rightarrow> return (- 1) | Some uargv \<Rightarrow>
    bind (exec_args MAXARG 0 uargv) (\<lambda>r. case r of None \<Rightarrow> return (- 1) | Some argv \<Rightarrow>
    exec path argv)))"

definition sys_pipe :: "int kroutine" where
  "sys_pipe =
    bind (argptr 0 8) (\<lambda>r. case r of None \<Rightarrow> return (- 1) | Some fd \<Rightarrow>
    bind pipealloc (\<lambda>r. case r of None \<Rightarrow> return (- 1) | Some (rfile, wfile) \<Rightarrow>
    bind (fdalloc rfile) (\<lambda>r. case r of
      None \<Rightarrow> andthen (fileclose rfile) (andthen (fileclose wfile) (return (- 1)))
    | Some fd0 \<Rightarrow>
        bind (fdalloc wfile) (\<lambda>r. case r of
          None \<Rightarrow>
            andthen (set_ofile fd0 None)
            (andthen (fileclose rfile) (andthen (fileclose wfile) (return (- 1))))
        | Some fd1 \<Rightarrow>
            bind cur_pgdir (\<lambda>pgdir.
            andthen (user_store pgdir fd (words_bytes [of_nat fd0]))
            (andthen (user_store pgdir (fd + 4) (words_bytes [of_nat fd1]))
            (return 0)))))))"

section \<open>The dispatcher\<close>

definition syscalls :: "nat \<Rightarrow> int kroutine option" where
  "syscalls num =
    (if num = 1 then Some sys_fork else if num = 2 then Some sys_exit
     else if num = 3 then Some sys_wait else if num = 4 then Some sys_pipe
     else if num = 5 then Some sys_read else if num = 6 then Some sys_kill
     else if num = 7 then Some sys_exec else if num = 8 then Some sys_fstat
     else if num = 9 then Some sys_chdir else if num = 10 then Some sys_dup
     else if num = 11 then Some sys_getpid else if num = 12 then Some sys_sbrk
     else if num = 13 then Some sys_sleep else if num = 14 then Some sys_uptime
     else if num = 15 then Some sys_open else if num = 16 then Some sys_write
     else if num = 17 then Some sys_mknod else if num = 18 then Some sys_unlink
     else if num = 19 then Some sys_link else if num = 20 then Some sys_mkdir
     else if num = 21 then Some sys_close else if num = 22 then Some sys_getpcount
     else None)"

definition set_eax :: "int \<Rightarrow> unit kroutine" where
  "set_eax r = with_proc (\<lambda>i. modify (set_proc i (\<lambda>q. q\<lparr>p_tf := (p_tf q)\<lparr>tf_eax := of_int r\<rparr>\<rparr>)))"

definition syscall :: "unit kroutine" where
  "syscall =
    with_proc (\<lambda>i.
    bind (gets (\<lambda>s. procs s ! i)) (\<lambda>p.
    let num = tf_eax (p_tf p) in
    case (if sint num > 0 then syscalls (unat num) else None) of
      Some call \<Rightarrow> bind call set_eax
    | None \<Rightarrow>
        andthen (cprintf (Some ''%d %s: unknown sys call %d\<newline>'') [CWord (of_int (p_pid p)), CStr (Some (p_name p)), CWord num])
        (set_eax (- 1))))"

end
