(* ===== verification/Apic.thy ===== *)
theory Apic
  imports Console Vm
begin

text \<open>
  Finding and starting processors: \<^verbatim>\<open>mp.c\<close>, \<^verbatim>\<open>lapic.c\<close>, the initialisation of
  \<^verbatim>\<open>ioapic.c\<close>, and \<open>seginit\<close> of \<^verbatim>\<open>vm.c\<close>. The tables that the firmware leaves
  in memory are read from memory; a read of a register of an interrupt controller takes
  four bytes of device input.
\<close>

unbundle bit_operations_syntax

section \<open>The local interrupt controller\<close>

definition LA_ID :: nat where "LA_ID = 0x0020 div 4"
definition LA_VER :: nat where "LA_VER = 0x0030 div 4"
definition LA_TPR :: nat where "LA_TPR = 0x0080 div 4"
definition LA_EOI :: nat where "LA_EOI = 0x00B0 div 4"
definition LA_SVR :: nat where "LA_SVR = 0x00F0 div 4"
definition LA_ESR :: nat where "LA_ESR = 0x0280 div 4"
definition LA_ICRLO :: nat where "LA_ICRLO = 0x0300 div 4"
definition LA_ICRHI :: nat where "LA_ICRHI = 0x0310 div 4"
definition LA_TIMER :: nat where "LA_TIMER = 0x0320 div 4"
definition LA_PCINT :: nat where "LA_PCINT = 0x0340 div 4"
definition LA_LINT0 :: nat where "LA_LINT0 = 0x0350 div 4"
definition LA_LINT1 :: nat where "LA_LINT1 = 0x0360 div 4"
definition LA_ERROR :: nat where "LA_ERROR = 0x0370 div 4"
definition LA_TICR :: nat where "LA_TICR = 0x0380 div 4"
definition LA_TDCR :: nat where "LA_TDCR = 0x03E0 div 4"

definition LA_ENABLE :: uint32 where "LA_ENABLE = 0x00000100"
definition LA_INIT :: uint32 where "LA_INIT = 0x00000500"
definition LA_STARTUP :: uint32 where "LA_STARTUP = 0x00000600"
definition LA_DELIVS :: uint32 where "LA_DELIVS = 0x00001000"
definition LA_ASSERT :: uint32 where "LA_ASSERT = 0x00004000"
definition LA_LEVEL :: uint32 where "LA_LEVEL = 0x00008000"
definition LA_BCAST :: uint32 where "LA_BCAST = 0x00080000"
definition LA_X1 :: uint32 where "LA_X1 = 0x0000000B"
definition LA_PERIODIC :: uint32 where "LA_PERIODIC = 0x00020000"
definition LA_MASKED :: uint32 where "LA_MASKED = 0x00010000"

definition lapicw :: "nat \<Rightarrow> uint32 \<Rightarrow> unit kroutine" where
  "lapicw index val = modify (\<lambda>s. s\<lparr>ios := ios s @ [Lapicw index val]\<rparr>)"

definition lapicr :: "nat \<Rightarrow> uint32 kroutine" where
  "lapicr index = bind (dev_in 4) (\<lambda>bs. return (get32 bs 0))"

definition lapicinit :: "unit kroutine" where
  "lapicinit =
    bind (gets lapic) (\<lambda>present.
    if \<not> present then return ()
    else
      andthen (lapicw LA_SVR (LA_ENABLE OR of_nat (T_IRQ0 + IRQ_SPURIOUS)))
      (andthen (lapicw LA_TDCR LA_X1)
      (andthen (lapicw LA_TIMER (LA_PERIODIC OR of_nat (T_IRQ0 + IRQ_TIMER)))
      (andthen (lapicw LA_TICR 10000000)
      (andthen (lapicw LA_LINT0 LA_MASKED)
      (andthen (lapicw LA_LINT1 LA_MASKED)
      (bind (lapicr LA_VER) (\<lambda>ver.
      andthen (do_if (drop_bit 16 ver AND 0xFF \<ge> 4) (lapicw LA_PCINT LA_MASKED))
      (andthen (lapicw LA_ERROR (of_nat (T_IRQ0 + IRQ_ERROR)))
      (andthen (lapicw LA_ESR 0)
      (andthen (lapicw LA_ESR 0)
      (andthen (lapicw LA_EOI 0)
      (andthen (lapicw LA_ICRHI 0)
      (andthen (lapicw LA_ICRLO (LA_BCAST OR LA_INIT OR LA_LEVEL))
      (bind (poll_until (lapicr LA_ICRLO) (\<lambda>v. v AND LA_DELIVS = 0)) (\<lambda>_.
      lapicw LA_TPR 0))))))))))))))))"

text \<open>\<open>cpunum\<close> without its warning for calls with interrupts on: the identifier of the
  processor's own controller.\<close>

definition cpunum :: "nat kroutine" where
  "cpunum = gets (\<lambda>s. if lapic s then unat (c_apicid (mycpu s)) else 0)"

definition lapiceoi :: "unit kroutine" where
  "lapiceoi = bind (gets lapic) (\<lambda>present. do_if present (lapicw LA_EOI 0))"

definition CMOS_PORT :: ushort where "CMOS_PORT = 0x70"

definition lapicstartap :: "byte \<Rightarrow> uint32 \<Rightarrow> unit kroutine" where
  "lapicstartap apicid addr =
    andthen (outb CMOS_PORT 0xF)
    (andthen (outb (CMOS_PORT + 1) 0x0A)
    (let wrv = p2v (push_bit 4 0x40 OR 0x67) in
    andthen (modify (\<lambda>s. s\<lparr>mem := store_bytes (mem s) wrv [0, 0]\<rparr>))
    (andthen (modify (\<lambda>s. s\<lparr>mem := store_bytes (mem s) (wrv + 2) (put16 [0, 0] 0 (ucast (drop_bit 4 addr)))\<rparr>))
    (andthen (lapicw LA_ICRHI (push_bit 24 (ucast apicid)))
    (andthen (lapicw LA_ICRLO (LA_INIT OR LA_LEVEL OR LA_ASSERT))
    (andthen (lapicw LA_ICRLO (LA_INIT OR LA_LEVEL))
    (foreach [0..<2 :: nat] (\<lambda>i.
      andthen (lapicw LA_ICRHI (push_bit 24 (ucast apicid)))
      (lapicw LA_ICRLO (LA_STARTUP OR drop_bit 12 addr))))))))))"

section \<open>The clock\<close>

definition cmos_read :: "byte \<Rightarrow> byte kroutine" where
  "cmos_read reg = andthen (outb CMOS_PORT reg) (inb (CMOS_PORT + 1))"

record rtcdate =
  rtc_second :: uint32
  rtc_minute :: uint32
  rtc_hour :: uint32
  rtc_day :: uint32
  rtc_month :: uint32
  rtc_year :: uint32

definition fill_rtcdate :: "rtcdate kroutine" where
  "fill_rtcdate =
    bind (cmos_read 0x00) (\<lambda>sec.
    bind (cmos_read 0x02) (\<lambda>min.
    bind (cmos_read 0x04) (\<lambda>hr.
    bind (cmos_read 0x07) (\<lambda>day.
    bind (cmos_read 0x08) (\<lambda>mon.
    bind (cmos_read 0x09) (\<lambda>yr.
    return \<lparr>rtc_second = ucast sec, rtc_minute = ucast min, rtc_hour = ucast hr, rtc_day = ucast day,
      rtc_month = ucast mon, rtc_year = ucast yr\<rparr>))))))"

text \<open>One turn of the loop of \<open>cmostime\<close>; \<open>None\<close> to go round again.\<close>

definition cmos_turn :: "rtcdate option kroutine" where
  "cmos_turn =
    bind fill_rtcdate (\<lambda>t1.
    bind (cmos_read 0x0a) (\<lambda>sta.
    if sta AND 0x80 \<noteq> 0 then return None
    else bind fill_rtcdate (\<lambda>t2. return (if t1 = t2 then Some t1 else None))))"

definition bcd_conv :: "uint32 \<Rightarrow> uint32" where
  "bcd_conv x = drop_bit 4 x * 10 + (x AND 0xf)"

definition cmostime :: "rtcdate kroutine" where
  "cmostime =
    bind (cmos_read 0x0b) (\<lambda>sb.
    bind (poll_until cmos_turn (\<lambda>r. r \<noteq> None)) (\<lambda>r.
    let t = the r;
        c = (if sb AND 0x04 = 0 then bcd_conv else id) in
    return \<lparr>rtc_second = c (rtc_second t), rtc_minute = c (rtc_minute t), rtc_hour = c (rtc_hour t),
      rtc_day = c (rtc_day t), rtc_month = c (rtc_month t), rtc_year = c (rtc_year t) + 2000\<rparr>))"

section \<open>The i/o interrupt controller\<close>

definition ioapicinit :: "unit kroutine" where
  "ioapicinit =
    bind (gets ismp) (\<lambda>mp.
    if \<not> mp then return ()
    else
      bind (ioapicread REG_VER) (\<lambda>ver.
      bind (ioapicread REG_ID) (\<lambda>idr.
      bind (gets ioapicid) (\<lambda>known.
      andthen (do_if (drop_bit 24 idr \<noteq> ucast known)
        (cprintf (Some ''ioapicinit: id isn't equal to ioapicid; not a MP\<newline>'') []))
      (foreach [0..<Suc (unat (drop_bit 16 ver AND 0xFF))] (\<lambda>i.
        andthen (ioapicwrite (REG_TABLE + 2 * i) (0x00010000 OR of_nat (T_IRQ0 + i)))
        (ioapicwrite (REG_TABLE + 2 * i + 1) 0)))))))"

section \<open>The tables of the firmware\<close>

definition load8 :: "(uint32 \<Rightarrow> byte) \<Rightarrow> uint32 \<Rightarrow> byte" where
  "load8 m a = m a"

definition load16 :: "(uint32 \<Rightarrow> byte) \<Rightarrow> uint32 \<Rightarrow> ushort" where
  "load16 m a = get16 (bytes_at m a 2) 0"

definition mp_sum :: "(uint32 \<Rightarrow> byte) \<Rightarrow> uint32 \<Rightarrow> nat \<Rightarrow> byte" where
  "mp_sum m addr len = sum_list (bytes_at m addr len)"

text \<open>A \<open>struct mp\<close> has 16 bytes.\<close>

definition mpsearch1 :: "(uint32 \<Rightarrow> byte) \<Rightarrow> uint32 \<Rightarrow> nat \<Rightarrow> uint32 option" where
  "mpsearch1 m a len =
    find (\<lambda>p. bytes_at m p 4 = chars ''_MP_'' \<and> mp_sum m p 16 = 0)
      (map (\<lambda>k. p2v a + 16 * of_nat k) [0..<(len + 15) div 16])"

definition mpsearch :: "(uint32 \<Rightarrow> byte) \<Rightarrow> uint32 option" where
  "mpsearch m =
    (let bda = p2v 0x400;
         p = push_bit 4 (push_bit 8 (ucast (m (bda + 0x0F))) OR ucast (m (bda + 0x0E)));
         first = (if p \<noteq> 0 then mpsearch1 m p 1024
                  else let p = (push_bit 8 (ucast (m (bda + 0x14))) OR ucast (m (bda + 0x13))) * 1024 in
                    mpsearch1 m (p - 1024) 1024) in
     case first of Some mp \<Rightarrow> Some mp | None \<Rightarrow> mpsearch1 m 0xF0000 0x10000)"

text \<open>The configuration table with the floating pointer that leads to it.\<close>

definition mpconfig :: "(uint32 \<Rightarrow> byte) \<Rightarrow> (uint32 \<times> uint32) option" where
  "mpconfig m =
    (case mpsearch m of None \<Rightarrow> None | Some mp \<Rightarrow>
     let physaddr = load32 m (mp + 4); conf = p2v physaddr in
     if physaddr = 0 then None
     else if bytes_at m conf 4 \<noteq> chars ''PCMP'' then None
     else if m (conf + 6) \<noteq> 1 \<and> m (conf + 6) \<noteq> 4 then None
     else if mp_sum m conf (unat (load16 m (conf + 4))) \<noteq> 0 then None
     else Some (mp, conf))"

definition MPPROC :: byte where "MPPROC = 0"
definition MPBUS :: byte where "MPBUS = 1"
definition MPIOAPIC :: byte where "MPIOAPIC = 2"
definition MPIOINTR :: byte where "MPIOINTR = 3"
definition MPLINTR :: byte where "MPLINTR = 4"

text \<open>
  The entries from \<open>p\<close> to \<open>e\<close>. An entry of another type is reported, but the loop
  does not move past it: it goes round for ever.
\<close>

fun mp_entries :: "nat \<Rightarrow> uint32 \<Rightarrow> uint32 \<Rightarrow> unit kroutine" where
  "mp_entries 0 p e = (\<lambda>s. if p < e then Spin s else Ok () s)"
| "mp_entries (Suc k) p e =
    (if p < e then
       bind (gets (\<lambda>s. mem s p)) (\<lambda>ty.
       if ty = MPPROC then
         bind (gets (\<lambda>s. mem s (p + 1))) (\<lambda>apicid.
         bind (gets ncpu) (\<lambda>n.
         andthen (do_if (n \<noteq> unat apicid)
           (andthen (cprintf (Some ''mpinit: ncpu=%d apicid=%d\<newline>'') [CWord (of_nat n), CWord (ucast apicid)])
           (modify (\<lambda>s. s\<lparr>ismp := False\<rparr>))))
         (if n \<ge> NCPU then fault ''cpus''
          else
            andthen (modify (\<lambda>s. s\<lparr>cpus := (cpus s)(n := (cpus s n)\<lparr>c_apicid := of_nat n\<rparr>)\<rparr>))
            (andthen (modify (\<lambda>s. s\<lparr>ncpu := ncpu s + 1\<rparr>))
            (mp_entries k (p + 20) e)))))
       else if ty = MPIOAPIC then
         andthen (modify (\<lambda>s. s\<lparr>ioapicid := mem s (p + 1)\<rparr>))
         (mp_entries k (p + 8) e)
       else if ty = MPBUS \<or> ty = MPIOINTR \<or> ty = MPLINTR then mp_entries k (p + 8) e
       else
         andthen (cprintf (Some ''mpinit: unknown config type %x\<newline>'') [CWord (ucast ty)])
         (andthen (modify (\<lambda>s. s\<lparr>ismp := False\<rparr>))
         (mp_entries k p e)))
     else return ())"

text \<open>The header of the table has 44 bytes; an entry has at least 8, so that a table has
  at most 8191 entries.\<close>

definition mpinit :: "unit kroutine" where
  "mpinit =
    bind (gets (\<lambda>s. mpconfig (mem s))) (\<lambda>r.
    case r of None \<Rightarrow> return () | Some (mp, conf) \<Rightarrow>
    andthen (modify (\<lambda>s. s\<lparr>ismp := True\<rparr>))
    (andthen (modify (\<lambda>s. s\<lparr>lapic := (load32 (mem s) (conf + 36) \<noteq> 0)\<rparr>))
    (bind (gets (\<lambda>s. conf + ucast (load16 (mem s) (conf + 4)))) (\<lambda>e.
    andthen (mp_entries 8192 (conf + 44) e)
    (bind (gets ismp) (\<lambda>mp_ok.
    if \<not> mp_ok then
      andthen (modify (\<lambda>s. s\<lparr>ncpu := 1\<rparr>))
      (andthen (modify (\<lambda>s. s\<lparr>lapic := False\<rparr>))
      (modify (\<lambda>s. s\<lparr>ioapicid := 0\<rparr>)))
    else
      bind (gets (\<lambda>s. mem s (mp + 12))) (\<lambda>imcrp.
      do_if (imcrp \<noteq> 0)
        (andthen (outb 0x22 0x70)
        (bind (inb 0x23) (\<lambda>v.
        outb 0x23 (v OR 1)))))))))))"

section \<open>Segments\<close>

definition set_gdt :: "nat \<Rightarrow> nat \<Rightarrow> segdesc \<Rightarrow> unit kroutine" where
  "set_gdt c i d = modify (\<lambda>s. s\<lparr>cpus := (cpus s)(c := (cpus s c)\<lparr>c_gdt := (c_gdt (cpus s c))(i := d)\<rparr>)\<rparr>)"

text \<open>\<open>seginit\<close> runs on the processor it sets up.\<close>

definition seginit :: "unit kroutine" where
  "seginit =
    bind cpunum (\<lambda>c.
    andthen (set_gdt c SEG_KCODE (SEG (STA_X OR STA_R) 0 0xffffffff 0))
    (andthen (set_gdt c SEG_KDATA (SEG STA_W 0 0xffffffff 0))
    (andthen (set_gdt c SEG_UCODE (SEG (STA_X OR STA_R) 0 0xffffffff DPL_USER))
    (andthen (set_gdt c SEG_UDATA (SEG STA_W 0 0xffffffff DPL_USER))
    (bind (gets (\<lambda>s. im_cpus (k_image s) + 188 * of_nat c + 180)) (\<lambda>a.
    andthen (set_gdt c SEG_KCPU (SEG STA_W a 8 0))
    (andthen (modify (\<lambda>s. s\<lparr>cpuid := c\<rparr>))
    (modify (\<lambda>s. s\<lparr>cpus := (cpus s)(c := (cpus s c)\<lparr>c_proc := None\<rparr>)\<rparr>)))))))))"

end
