(* ===== verification/Boot.thy ===== *)
theory Boot
  imports Sysfile Apic
begin

text \<open>
  Traps (\<^verbatim>\<open>trap.c\<close>), the start of the kernel (\<^verbatim>\<open>main.c\<close>) and the boot loader
  (\<^verbatim>\<open>bootmain.c\<close>).
\<close>

unbundle bit_operations_syntax

section \<open>Traps\<close>

definition T_SYSCALL :: nat where "T_SYSCALL = 64"

definition tvinit :: "unit kroutine" where
  "tvinit =
    andthen (foreach [0..<256] (\<lambda>i.
      modify (\<lambda>s. s\<lparr>idt := (idt s)(i := SETGATE False (push_bit 3 (of_nat SEG_KCODE)) (im_vectors (k_image s) i) 0)\<rparr>)))
    (andthen (modify (\<lambda>s. s\<lparr>idt := (idt s)(T_SYSCALL :=
       SETGATE True (push_bit 3 (of_nat SEG_KCODE)) (im_vectors (k_image s) T_SYSCALL) (ucast DPL_USER))\<rparr>))
    (initlock L_ticks ''time''))"

text \<open>A system call: the trap frame becomes that of the process.\<close>

definition trap_syscall :: "trapframe \<Rightarrow> unit kroutine" where
  "trap_syscall tf =
    with_proc (\<lambda>i.
    bind (gets (\<lambda>s. p_killed (procs s ! i))) (\<lambda>killed.
    andthen (do_if killed exit)
    (andthen (modify (set_proc i (\<lambda>q. q\<lparr>p_tf := tf\<rparr>)))
    (andthen syscall
    (bind (gets (\<lambda>s. p_killed (procs s ! i))) (\<lambda>killed.
    do_if killed exit))))))"

definition timer_tick :: "unit kroutine" where
  "timer_tick =
    bind (gets cpuid) (\<lambda>c.
    do_if (c = 0)
      (andthen (acquire L_ticks)
      (andthen (modify (\<lambda>s. s\<lparr>ticks := ticks s + 1\<rparr>))
      (andthen (wakeup Ch_ticks)
      (release L_ticks)))))"

text \<open>The kinds of trap that are not system calls; \<open>cr2\<close> is the address register of the
  page fault. The disk of the model is \<^verbatim>\<open>memide.c\<close>, whose interrupt routine does
  nothing.\<close>

definition trap_cause :: "trapframe \<Rightarrow> uint32 \<Rightarrow> unit kroutine" where
  "trap_cause tf cr2 =
    (let n = unat (tf_trapno tf) in
     if n = T_IRQ0 + IRQ_TIMER then andthen timer_tick lapiceoi
     else if n = T_IRQ0 + IRQ_IDE then lapiceoi
     else if n = T_IRQ0 + IRQ_IDE + 1 then return ()
     else if n = T_IRQ0 + IRQ_KBD then andthen kbdintr lapiceoi
     else if n = T_IRQ0 + IRQ_COM1 then andthen uartintr lapiceoi
     else if n = T_IRQ0 + 7 \<or> n = T_IRQ0 + IRQ_SPURIOUS then
       bind (gets cpuid) (\<lambda>c.
       andthen (cprintf (Some ''cpu%d: spurious interrupt at %x:%x\<newline>'') [CWord (of_nat c), CWord (ucast (tf_cs tf)), CWord (tf_eip tf)])
       lapiceoi)
     else
       bind (gets cpuid) (\<lambda>c.
       bind (gets curproc) (\<lambda>p.
       if p = None \<or> tf_cs tf AND 3 = 0 then
         andthen (cprintf (Some ''unexpected trap %d from cpu %d eip %x (cr2=0x%x)\<newline>'')
           [CWord (tf_trapno tf), CWord (of_nat c), CWord (tf_eip tf), CWord cr2])
         (panic ''trap'')
       else
         with_proc (\<lambda>i.
         bind (gets (\<lambda>s. procs s ! i)) (\<lambda>q.
         andthen (cprintf (Some ''pid %d %s: trap %d err %d on cpu %d eip 0x%x addr 0x%x--kill proc\<newline>'')
           [CWord (of_int (p_pid q)), CStr (Some (p_name q)), CWord (tf_trapno tf), CWord (tf_err tf), CWord (of_nat c),
            CWord (tf_eip tf), CWord cr2])
         (modify (set_proc i (\<lambda>q. q\<lparr>p_killed := True\<rparr>))))))))"

definition exit_if_killed :: "trapframe \<Rightarrow> unit kroutine" where
  "exit_if_killed tf =
    bind (gets curproc) (\<lambda>p.
    case p of None \<Rightarrow> return () | Some i \<Rightarrow>
    bind (gets (\<lambda>s. p_killed (procs s ! i))) (\<lambda>killed.
    do_if (killed \<and> tf_cs tf AND 3 = ucast DPL_USER) exit))"

text \<open>\<open>trap\<close>; when \<open>yield\<close> has switched away, the rest is \<open>trap_resume\<close>.\<close>

definition trap :: "trapframe \<Rightarrow> uint32 \<Rightarrow> unit kroutine" where
  "trap tf cr2 =
    (if unat (tf_trapno tf) = T_SYSCALL then trap_syscall tf
     else
       andthen (trap_cause tf cr2)
       (andthen (exit_if_killed tf)
       (bind (gets curproc) (\<lambda>p.
       bind (gets (\<lambda>s. case p of None \<Rightarrow> False | Some i \<Rightarrow> p_state (procs s ! i) = RUNNING)) (\<lambda>running.
       andthen (do_if (running \<and> unat (tf_trapno tf) = T_IRQ0 + IRQ_TIMER) yield)
       (exit_if_killed tf))))))"

definition trap_resume :: "trapframe \<Rightarrow> bool \<Rightarrow> unit kroutine" where
  "trap_resume tf intena = andthen (yield_resume intena) (exit_if_killed tf)"

section \<open>Starting the kernel\<close>

definition mpmain :: "unit kroutine" where
  "mpmain =
    bind (gets cpuid) (\<lambda>c.
    andthen (cprintf (Some ''cpu%d: starting\<newline>'') [CWord (of_nat c)])
    (andthen (modify (set_mycpu (\<lambda>c. c\<lparr>c_started := True\<rparr>)))
    scheduler))"

definition mpenter :: "unit kroutine" where
  "mpenter = andthen switchkvm (andthen seginit (andthen lapicinit mpmain))"

text \<open>The linker provides the code for the other processors and the addresses of
  \<open>mpenter\<close> and \<open>entrypgdir\<close>. The wait for a processor ends in a turn that finds it
  started.\<close>

definition startothers :: "byte list \<Rightarrow> uint32 \<Rightarrow> uint32 \<Rightarrow> unit kroutine" where
  "startothers entryother mpenter_addr entrypgdir =
    (let code = p2v 0x7000 in
     andthen (modify (\<lambda>s. s\<lparr>mem := store_bytes (mem s) code entryother\<rparr>))
     (bind (gets ncpu) (\<lambda>n.
     foreach [0..<n] (\<lambda>c.
       bind cpunum (\<lambda>me.
       if c = me then return ()
       else
         bind kalloc (\<lambda>stack.
         andthen (poke (code - 4) (stack + KSTACKSIZE))
         (andthen (poke (code - 8) mpenter_addr)
         (andthen (poke (code - 12) (v2p entrypgdir))
         (bind (gets (\<lambda>s. c_apicid (cpus s c))) (\<lambda>apicid.
         andthen (lapicstartap apicid (v2p code))
         (bind (gets (\<lambda>s. c_started (cpus s c))) (\<lambda>up.
         if up then return () else (\<lambda>s. Spin s)))))))))))))"

definition main :: "byte list \<Rightarrow> uint32 \<Rightarrow> uint32 \<Rightarrow> (uint32 \<Rightarrow> byte list) \<Rightarrow> uint32 \<Rightarrow> unit kroutine" where
  "main entryother mpenter_addr entrypgdir fsimg fsblocks =
    bind (gets k_end) (\<lambda>e.
    andthen (kinit1 e (p2v (4 * 1024 * 1024)))
    (andthen kvmalloc
    (andthen mpinit
    (andthen lapicinit
    (andthen seginit
    (bind (gets cpuid) (\<lambda>c.
    andthen (cprintf (Some ''\<newline>cpu%d: starting xv6\<newline>\<newline>'') [CWord (of_nat c)])
    (andthen picinit
    (andthen ioapicinit
    (andthen consoleinit
    (andthen uartinit
    (andthen pinit
    (andthen tvinit
    (andthen binit
    (andthen fileinit
    (andthen (memide_init fsimg fsblocks)
    (bind (gets ismp) (\<lambda>mp.
    andthen (do_if (\<not> mp) timerinit)
    (andthen (startothers entryother mpenter_addr entrypgdir)
    (andthen (kinit2 (p2v (4 * 1024 * 1024)) (p2v PHYSTOP))
    (andthen userinit
    mpmain)))))))))))))))))))))"

section \<open>The boot loader\<close>

definition SECTSIZE :: nat where "SECTSIZE = 512"

definition waitdisk :: "unit kroutine" where
  "waitdisk = bind (poll_until (inb 0x1F7) (\<lambda>v. v AND 0xC0 = 0x40)) (\<lambda>_. return ())"

definition readsect :: "uint32 \<Rightarrow> uint32 \<Rightarrow> unit kroutine" where
  "readsect dst offset =
    andthen waitdisk
    (andthen (outb 0x1F2 1)
    (andthen (outb 0x1F3 (ucast offset))
    (andthen (outb 0x1F4 (ucast (drop_bit 8 offset)))
    (andthen (outb 0x1F5 (ucast (drop_bit 16 offset)))
    (andthen (outb 0x1F6 (ucast (drop_bit 24 offset OR 0xE0)))
    (andthen (outb 0x1F7 0x20)
    (andthen waitdisk
    (bind (insl 0x1F0 (SECTSIZE div 4)) (\<lambda>d.
    modify (\<lambda>s. s\<lparr>mem := store_bytes (mem s) dst d\<rparr>))))))))))"

text \<open>The loop of \<open>readseg\<close>; an end address that the sector size does not reach without
  wrapping around is outside the memory a kernel is loaded to.\<close>

fun readseg_loop :: "nat \<Rightarrow> uint32 \<Rightarrow> uint32 \<Rightarrow> uint32 \<Rightarrow> unit kroutine" where
  "readseg_loop 0 pa epa offset = (\<lambda>s. if pa < epa then Spin s else Ok () s)"
| "readseg_loop (Suc k) pa epa offset =
    (if pa < epa then andthen (readsect pa offset) (readseg_loop k (pa + of_nat SECTSIZE) epa (offset + 1))
     else return ())"

definition readseg :: "uint32 \<Rightarrow> uint32 \<Rightarrow> uint32 \<Rightarrow> unit kroutine" where
  "readseg pa count offset =
    (let epa = pa + count; pa = pa - offset mod of_nat SECTSIZE in
     readseg_loop (Suc (unat (epa - pa) div SECTSIZE)) pa epa (offset div of_nat SECTSIZE + 1))"

text \<open>\<open>bootmain\<close> runs with physical addresses; it returns the entry point it jumps to,
  \<open>None\<close> where the code returns to the assembly code.\<close>

definition bootmain :: "uint32 option kroutine" where
  "bootmain =
    andthen (readseg 0x10000 4096 0)
    (bind (gets (\<lambda>s. bytes_at (mem s) 0x10000 52)) (\<lambda>elf.
    if elf_magic elf \<noteq> ELF_MAGIC then return None
    else
      andthen (foreach [0..<unat (elf_phnum elf)] (\<lambda>i.
        bind (gets (\<lambda>s. proghdr_of (bytes_at (mem s) (0x10000 + elf_phoff elf + 32 * of_nat i) 32))) (\<lambda>ph.
        andthen (readseg (ph_paddr ph) (ph_filesz ph) (ph_off ph))
        (do_if (ph_memsz ph > ph_filesz ph)
          (modify (\<lambda>s. s\<lparr>mem := stosb (mem s) (ph_paddr ph + ph_filesz ph) 0 (unat (ph_memsz ph - ph_filesz ph))\<rparr>))))))
      (gets (\<lambda>s. Some (elf_entry (bytes_at (mem s) 0x10000 52))))))"

end
