(* ===== verification/Ide.thy ===== *)
theory Ide
  imports Bio Uart
begin

text \<open>
  \<^verbatim>\<open>ide.c\<close>, the driver of a real disk, which can take the place of the memory disk: a
  queue of buffers, linked through \<open>qnext\<close>, whose first one the disk works on. The names
  have an underscore to tell them from the routines of \<^verbatim>\<open>memide.c\<close>.
\<close>

unbundle bit_operations_syntax

section \<open>The driver\<close>

definition SECTOR_SIZE :: nat where "SECTOR_SIZE = 512"
definition IDE_BSY :: byte where "IDE_BSY = 0x80"
definition IDE_DRDY :: byte where "IDE_DRDY = 0x40"
definition IDE_DF :: byte where "IDE_DF = 0x20"
definition IDE_ERR :: byte where "IDE_ERR = 0x01"
definition IDE_CMD_READ :: byte where "IDE_CMD_READ = 0x20"
definition IDE_CMD_WRITE :: byte where "IDE_CMD_WRITE = 0x30"

definition idewait :: "bool \<Rightarrow> int kroutine" where
  "idewait checkerr =
    bind (poll_until (inb 0x1f7) (\<lambda>r. r AND (IDE_BSY OR IDE_DRDY) = IDE_DRDY)) (\<lambda>r.
    return (if checkerr \<and> r AND (IDE_DF OR IDE_ERR) \<noteq> 0 then - 1 else 0))"

fun probe_disk1 :: "nat \<Rightarrow> unit kroutine" where
  "probe_disk1 0 = return ()"
| "probe_disk1 (Suc k) =
    bind (inb 0x1f7) (\<lambda>v.
    if v \<noteq> 0 then modify (\<lambda>s. s\<lparr>havedisk1 := True\<rparr>) else probe_disk1 k)"

definition ide_init :: "unit kroutine" where
  "ide_init =
    andthen (initlock L_ide ''ide'')
    (andthen (picenable IRQ_IDE)
    (bind (gets (\<lambda>s. of_int (int (ncpu s) - 1))) (\<lambda>c.
    andthen (ioapicenable IRQ_IDE c)
    (bind (idewait False) (\<lambda>_.
    andthen (outb 0x1f6 (0xe0 OR push_bit 4 1))
    (andthen (probe_disk1 1000)
    (outb 0x1f6 (0xe0 OR push_bit 4 0))))))))"

definition ide_start :: "nat option \<Rightarrow> unit kroutine" where
  "ide_start b =
    (case b of None \<Rightarrow> panic ''idestart'' | Some i \<Rightarrow>
     bind (gets (\<lambda>s. bufs s ! i)) (\<lambda>x.
     andthen (panic_if (b_blockno x \<ge> of_int FSSIZE) ''incorrect blockno'')
     (let spb = BSIZE div SECTOR_SIZE; sector = b_blockno x * of_nat spb in
      andthen (panic_if (spb > 7) ''idestart'')
      (bind (idewait False) (\<lambda>_.
      andthen (outb 0x3f6 0)
      (andthen (outb 0x1f2 (of_nat spb))
      (andthen (outb 0x1f3 (ucast (sector AND 0xff)))
      (andthen (outb 0x1f4 (ucast (drop_bit 8 sector AND 0xff)))
      (andthen (outb 0x1f5 (ucast (drop_bit 16 sector AND 0xff)))
      (andthen (outb 0x1f6 (0xe0 OR push_bit 4 (ucast (b_dev x AND 1)) OR ucast (drop_bit 24 sector AND 0x0f)))
      (if b_dirty x then andthen (outb 0x1f7 IDE_CMD_WRITE) (outsl 0x1f0 (b_data x))
       else outb 0x1f7 IDE_CMD_READ)))))))))))"

definition ide_intr :: "unit kroutine" where
  "ide_intr =
    andthen (acquire L_ide)
    (bind (gets idequeue) (\<lambda>q.
    case q of
      None \<Rightarrow> release L_ide
    | Some b \<Rightarrow>
        andthen (modify (\<lambda>s. s\<lparr>idequeue := b_qnext (bufs s ! b)\<rparr>))
        (bind (gets (\<lambda>s. b_dirty (bufs s ! b))) (\<lambda>dirty.
        andthen
          (do_if (\<not> dirty)
            (bind (idewait True) (\<lambda>r.
            do_if (r \<ge> 0)
              (bind (insl 0x1f0 (BSIZE div 4)) (\<lambda>d.
              modify (set_buf b (\<lambda>x. x\<lparr>b_data := d\<rparr>)))))))
        (andthen (modify (set_buf b (\<lambda>x. x\<lparr>b_valid := True\<rparr>)))
        (andthen (modify (set_buf b (\<lambda>x. x\<lparr>b_dirty := False\<rparr>)))
        (andthen (wakeup (Ch_buf b))
        (bind (gets idequeue) (\<lambda>q.
        andthen (do_if (q \<noteq> None) (ide_start q))
        (release L_ide))))))))))"

text \<open>The walk to the end of the queue: the last buffer of it, if there is one.\<close>

fun queue_end :: "nat \<Rightarrow> nat option \<Rightarrow> nat option \<Rightarrow> nat option kroutine" where
  "queue_end 0 prev p = (\<lambda>s. Spin s)"
| "queue_end (Suc k) prev p =
    (case p of None \<Rightarrow> return prev | Some b \<Rightarrow>
     bind (gets (\<lambda>s. b_qnext (bufs s ! b))) (\<lambda>n. queue_end k (Some b) n))"

definition ide_append :: "nat \<Rightarrow> unit kroutine" where
  "ide_append b =
    andthen (modify (set_buf b (\<lambda>x. x\<lparr>b_qnext := None\<rparr>)))
    (bind (gets idequeue) (\<lambda>q.
    bind (queue_end (Suc NBUF) None q) (\<lambda>last.
    case last of
      None \<Rightarrow> modify (\<lambda>s. s\<lparr>idequeue := Some b\<rparr>)
    | Some l \<Rightarrow> modify (set_buf l (\<lambda>x. x\<lparr>b_qnext := Some b\<rparr>)))))"

text \<open>\<open>iderw\<close> from the head of its last loop, with the lock held.\<close>

definition ide_rw_loop :: "nat \<Rightarrow> unit kroutine" where
  "ide_rw_loop b =
    bind (gets (\<lambda>s. bufs s ! b)) (\<lambda>x.
    if \<not> (b_valid x \<and> \<not> b_dirty x) then sleep_again (Ch_buf b) L_ide
    else release L_ide)"

definition ide_rw :: "nat \<Rightarrow> unit kroutine" where
  "ide_rw b =
    bind (gets (\<lambda>s. bufs s ! b)) (\<lambda>x.
    andthen (panic_if (\<not> b_busy x) ''iderw: buf not busy'')
    (andthen (panic_if (b_valid x \<and> \<not> b_dirty x) ''iderw: nothing to do'')
    (bind (gets havedisk1) (\<lambda>h.
    andthen (panic_if (b_dev x \<noteq> 0 \<and> \<not> h) ''iderw: ide disk 1 not present'')
    (andthen (acquire L_ide)
    (andthen (ide_append b)
    (bind (gets idequeue) (\<lambda>q.
    andthen (do_if (q = Some b) (ide_start q))
    (ide_rw_loop b)))))))))"

end
