(* ===== verification/Ring.thy ===== *)
theory Ring
  imports Prelude
begin

text \<open>
  Circular buffers as the kernel has them: an array and two free-running 32-bit counters
  that are reduced modulo the size of the array when the array is accessed. The counters
  wrap around; the lemmas need that the size divides \<open>2 ^ 32\<close>. The locale \<open>byte_queue\<close> is the
  interface of such a buffer to its users, who see a queue.
\<close>

section \<open>Counters\<close>

definition ring_ok :: "nat \<Rightarrow> byte list \<Rightarrow> uint32 \<Rightarrow> uint32 \<Rightarrow> bool" where
  "ring_ok n d r w \<longleftrightarrow> length d = n \<and> unat (w - r) \<le> n"

definition ring_items :: "nat \<Rightarrow> byte list \<Rightarrow> uint32 \<Rightarrow> uint32 \<Rightarrow> byte list" where
  "ring_items n d r w = map (\<lambda>k. d ! (unat (r + of_nat k) mod n)) [0..<unat (w - r)]"

lemma length_ring_items [simp]: "length (ring_items n d r w) = unat (w - r)"
  by (simp add: ring_items_def)

lemma ring_index:
  assumes "n dvd 2 ^ 32"
  shows "unat (r + of_nat k :: uint32) mod n = (unat r + k) mod n"
proof -
  have "unat (r + of_nat k :: uint32) = (unat r + k) mod 2 ^ 32"
    by (simp add: unat_word_ariths unat_of_nat mod_add_right_eq)
  then show ?thesis using assms by (simp add: mod_mod_cancel)
qed

lemma add_mod_inj:
  assumes "((a :: nat) + i) mod n = (a + j) mod n" "i < n" "j < n"
  shows "i = j"
proof -
  have "int n dvd (int (a + i) - int (a + j))"
    using assms(1) by (metis mod_eq_dvd_iff zmod_int)
  then have "int n dvd (int i - int j)" by simp
  moreover have "\<bar>int i - int j\<bar> < int n" using assms(2,3) by linarith
  ultimately have "int i - int j = 0" using zdvd_imp_le [of "int n" "\<bar>int i - int j\<bar>"] by auto
  then show ?thesis by simp
qed

text \<open>The counters count correctly through their wrap-around.\<close>

lemma ring_count_push:
  assumes "unat (w - r :: uint32) < n" "n \<le> 2 ^ 31"
  shows "unat (w + 1 - r) = Suc (unat (w - r))"
proof -
  have e: "w + 1 - r = (w - r) + 1" by simp
  have "unat ((w - r) + 1) = Suc (unat (w - r))"
    using assms by (simp add: unat_word_ariths(1))
  then show ?thesis unfolding e .
qed

lemma ring_count_pop:
  assumes "r \<noteq> (w :: uint32)"
  shows "unat (w - r) = Suc (unat (w - (r + 1)))"
proof -
  have e: "w - (r + 1) = (w - r) - 1" by simp
  have nz: "w - r \<noteq> 0" using assms by simp
  then have "unat (w - r) \<noteq> 0" by (metis unat_eq_zero)
  then show ?thesis unfolding e using unat_minus_one [OF nz] by simp
qed

lemma ring_items_push:
  assumes ok: "ring_ok n d r w" and room: "unat (w - r) < n" and n: "n dvd 2 ^ 32" "n \<le> 2 ^ 31"
  shows "ring_items n (d[unat w mod n := c]) r (w + 1) = ring_items n d r w @ [c]"
proof -
  let ?k = "unat (w - r)"
  have w: "w = r + of_nat ?k" by simp
  have wi: "unat w mod n = (unat r + ?k) mod n" using ring_index [OF n(1), of r ?k] by simp
  have len: "length d = n" "0 < n" using ok room by (auto simp: ring_ok_def)
  have old: "d[unat w mod n := c] ! (unat (r + of_nat k) mod n) = d ! (unat (r + of_nat k) mod n)" if "k < ?k" for k
  proof -
    have "unat (r + of_nat k) mod n \<noteq> unat w mod n"
      using add_mod_inj [of "unat r" k n ?k] that room wi by (auto simp: ring_index [OF n(1)])
    then show ?thesis by simp
  qed
  have "[0..<unat (w + 1 - r)] = [0..<?k] @ [?k]" using ring_count_push [OF room n(2)] by simp
  then show ?thesis using old len by (simp add: ring_items_def)
qed

lemma ring_items_pop:
  assumes "r \<noteq> w"
  shows "ring_items n d r w = d ! (unat r mod n) # ring_items n d (r + 1) w"
proof -
  have e: "[0..<unat (w - r)] = 0 # map Suc [0..<unat (w - (r + 1))]"
    unfolding ring_count_pop [OF assms] by (simp add: upt_conv_Cons map_Suc_upt del: upt_Suc)
  have s: "r + of_nat (Suc k) = r + 1 + of_nat k" for k by simp
  show ?thesis unfolding ring_items_def e by (simp add: s del: of_nat_Suc)
qed

lemma ring_items_empty: "ring_items n d r w = [] \<longleftrightarrow> r = w"
proof -
  have "unat (w - r) = 0 \<longleftrightarrow> r = w" by (metis eq_iff_diff_eq_0 unat_eq_zero)
  then show ?thesis by (simp add: ring_items_def)
qed

lemma unat_of_nat_small: "n < 2 ^ 32 \<Longrightarrow> unat (of_nat n :: uint32) = n"
  by (simp add: unat_of_nat take_bit_nat_eq_self)

lemma ring_full:
  assumes "ring_ok n d r w" "n < 2 ^ 32"
  shows "w = r + of_nat n \<longleftrightarrow> length (ring_items n d r w) = n"
proof -
  have "unat (w - r) = n" if "w = r + of_nat n"
    using that unat_of_nat_small [OF assms(2)] by simp
  moreover have "w = r + of_nat n" if "unat (w - r) = n"
    using that by (auto simp: algebra_simps)
  ultimately show ?thesis by auto
qed

section \<open>A third counter\<close>

lemma ring_sub:
  assumes "unat (w - r) \<le> unat (e - r :: uint32)"
  shows "unat (e - w) = unat (e - r) - unat (w - r)"
proof -
  have "e - w = (e - r) - (w - r)" by simp
  moreover have "w - r \<le> e - r" using assms by (simp add: word_le_nat_alt)
  ultimately show ?thesis using unat_sub [of "w - r" "e - r"] by simp
qed

lemma upt_shift: "[0..<a + b] = [0..<a] @ map (\<lambda>k. a + k) [0..<b]"
  by (rule nth_equalityI) (auto simp: nth_append)

lemma ring_items_split:
  assumes "unat (w - r) \<le> unat (e - r)"
  shows "ring_items n d r e = ring_items n d r w @ ring_items n d w e"
proof -
  let ?a = "unat (w - r)" and ?b = "unat (e - w)"
  have ab: "unat (e - r) = ?a + ?b" using assms ring_sub [OF assms] by simp
  have s: "r + of_nat (?a + k) = w + of_nat k" for k by simp
  have "[0..<?a + ?b] = [0..<?a] @ map (\<lambda>k. ?a + k) [0..<?b]"
    by (rule upt_shift)
  then show ?thesis unfolding ring_items_def ab by (simp only: map_append map_map comp_def s)
qed

lemma ring_items_snoc:
  assumes "r \<noteq> e"
  shows "ring_items n d r e = ring_items n d r (e - 1) @ [d ! (unat (e - 1) mod n)]"
    and "unat (e - r) = Suc (unat (e - 1 - r))"
proof -
  have nz: "e - r \<noteq> 0" using assms by simp
  have c: "e - 1 - r = (e - r) - 1" by simp
  have "unat (e - r) \<noteq> 0" using nz by (metis unat_eq_zero)
  then show u: "unat (e - r) = Suc (unat (e - 1 - r))" unfolding c using unat_minus_one [OF nz] by simp
  have one: "ring_items n d (e - 1) e = [d ! (unat (e - 1) mod n)]" by (simp add: ring_items_def)
  show "ring_items n d r e = ring_items n d r (e - 1) @ [d ! (unat (e - 1) mod n)]"
    using ring_items_split [of "e - 1" r e n d] u one by simp
qed

lemma ring_items_keep:
  assumes "ring_ok n d r e" "unat (w - r) \<le> unat (e - r)" "unat (e - r) < n" "n dvd 2 ^ 32" "n \<le> 2 ^ 31"
  shows "ring_items n (d[unat e mod n := c]) r w = ring_items n d r w"
    and "ring_items n (d[unat e mod n := c]) w (e + 1) = ring_items n d w e @ [c]"
proof -
  let ?d = "d[unat e mod n := c]"
  have we: "ring_ok n d w e" "unat (e - w) < n" using assms ring_sub [OF assms(2)] by (simp_all add: ring_ok_def)
  show push: "ring_items n ?d w (e + 1) = ring_items n d w e @ [c]"
    by (rule ring_items_push [OF we assms(4,5)])
  have "unat (e + 1 - r) = Suc (unat (e - r))" by (rule ring_count_push [OF assms(3,5)])
  then have le: "unat (w - r) \<le> unat (e + 1 - r)" using assms(2) by simp
  have "ring_items n ?d r w @ ring_items n d w e @ [c] = ring_items n d r w @ ring_items n d w e @ [c]"
    using ring_items_split [OF le, of n ?d] ring_items_push [OF assms(1,3,4,5), of c] ring_items_split [OF assms(2), of n d] push
    by simp
  then show "ring_items n ?d r w = ring_items n d r w" by simp
qed

section \<open>The queue its users see\<close>

locale byte_queue =
  fixes ok :: "'s \<Rightarrow> bool"
    and items :: "'s \<Rightarrow> byte list"
    and cap :: nat
    and push :: "byte \<Rightarrow> 's \<Rightarrow> 's"
    and front :: "'s \<Rightarrow> byte"
    and pop :: "'s \<Rightarrow> 's"
  assumes cap_law: "ok s \<Longrightarrow> length (items s) \<le> cap"
    and push_law: "ok s \<Longrightarrow> length (items s) < cap \<Longrightarrow> ok (push c s) \<and> items (push c s) = items s @ [c]"
    and pop_law: "ok s \<Longrightarrow> items s \<noteq> [] \<Longrightarrow> ok (pop s) \<and> items s = front s # items (pop s)"
begin

lemma push_all:
  assumes "ok s" "length (items s) + length cs \<le> cap"
  shows "ok (fold push cs s) \<and> items (fold push cs s) = items s @ cs"
  using assms
proof (induction cs arbitrary: s)
  case (Cons c cs)
  then have "ok (push c s)" "items (push c s) = items s @ [c]" using push_law [of s c] by auto
  with Cons show ?case by simp
qed simp

lemma pop_all:
  assumes "ok s" "n \<le> length (items s)"
  shows "ok ((pop ^^ n) s) \<and> items ((pop ^^ n) s) = drop n (items s)"
  using assms
proof (induction n arbitrary: s)
  case (Suc n)
  have "items s \<noteq> []" using Suc.prems by auto
  then have p: "ok (pop s)" "items s = front s # items (pop s)" using pop_law [OF Suc.prems(1)] by auto
  have "length (items s) = Suc (length (items (pop s)))" using arg_cong [OF p(2), of length] by simp
  then have "ok ((pop ^^ n) (pop s)) \<and> items ((pop ^^ n) (pop s)) = drop n (items (pop s))"
    using Suc.IH [OF p(1)] Suc.prems by simp
  moreover have "drop (Suc n) (items s) = drop n (items (pop s))" by (subst p(2)) simp
  ultimately show ?case by (simp add: funpow_swap1)
qed simp

end

end
