(* ===== verification/Pipe_Queue.thy ===== *)
theory Pipe_Queue
  imports File Ring
begin

text \<open>
  Pipes are queues of bytes. A pipe's array and counters are a circular buffer; \<open>pipewrite\<close>
  appends what fits and then blocks, \<open>piperead\<close> takes from the front. The step relation
  \<open>pipe_turn\<close> has the turns of one writer and one reader at a pipe, with anything else the
  kernel does in between.
\<close>

section \<open>The buffer of a pipe\<close>

definition pipe_ok :: "pipe \<Rightarrow> bool" where
  "pipe_ok x \<longleftrightarrow> ring_ok PIPESIZE (pi_data x) (pi_nread x) (pi_nwrite x)"

definition pipe_items :: "pipe \<Rightarrow> byte list" where
  "pipe_items x = ring_items PIPESIZE (pi_data x) (pi_nread x) (pi_nwrite x)"

definition pipe_push :: "byte \<Rightarrow> pipe \<Rightarrow> pipe" where
  "pipe_push c x = x\<lparr>pi_data := (pi_data x)[unat (pi_nwrite x) mod PIPESIZE := c], pi_nwrite := pi_nwrite x + 1\<rparr>"

definition pipe_front :: "pipe \<Rightarrow> byte" where
  "pipe_front x = pi_data x ! (unat (pi_nread x) mod PIPESIZE)"

definition pipe_pop :: "pipe \<Rightarrow> pipe" where
  "pipe_pop x = x\<lparr>pi_nread := pi_nread x + 1\<rparr>"

lemma PIPESIZE_ring: "PIPESIZE dvd 2 ^ 32" "PIPESIZE \<le> 2 ^ 31" "PIPESIZE < 2 ^ 32"
  by (simp_all add: PIPESIZE_def)

lemmas pipe_defs = pipe_ok_def pipe_items_def pipe_push_def pipe_front_def pipe_pop_def

interpretation pipeq: byte_queue pipe_ok pipe_items PIPESIZE pipe_push pipe_front pipe_pop
proof unfold_locales
  fix x c
  show "length (pipe_items x) \<le> PIPESIZE" if "pipe_ok x"
    using that by (simp add: pipe_defs ring_ok_def)
  show "pipe_ok (pipe_push c x) \<and> pipe_items (pipe_push c x) = pipe_items x @ [c]"
    if "pipe_ok x" "length (pipe_items x) < PIPESIZE"
    using that ring_items_push [of PIPESIZE "pi_data x" "pi_nread x" "pi_nwrite x" c]
      ring_count_push [of "pi_nwrite x" "pi_nread x" PIPESIZE] PIPESIZE_ring
    by (simp add: pipe_defs ring_ok_def)
  show "pipe_ok (pipe_pop x) \<and> pipe_items x = pipe_front x # pipe_items (pipe_pop x)"
    if "pipe_ok x" "pipe_items x \<noteq> []"
  proof -
    have ne: "pi_nread x \<noteq> pi_nwrite x" using that(2) by (simp add: pipe_defs ring_items_empty)
    then show ?thesis
      using that(1) ring_items_pop [OF ne, of PIPESIZE "pi_data x"] ring_count_pop [OF ne]
      by (simp add: pipe_defs ring_ok_def)
  qed
qed

lemma pipe_full: "pipe_ok x \<Longrightarrow> pi_nwrite x = pi_nread x + of_nat PIPESIZE \<longleftrightarrow> length (pipe_items x) = PIPESIZE"
  using ring_full [of PIPESIZE "pi_data x" "pi_nread x" "pi_nwrite x"] PIPESIZE_ring by (simp add: pipe_defs)

lemma pipe_empty: "pi_nread x = pi_nwrite x \<longleftrightarrow> pipe_items x = []"
  by (simp add: pipe_items_def ring_items_empty)

section \<open>The loops\<close>

lemma set_pipe_frame [simp, frame_simps]:
  "locks (set_pipe p f s) = locks s" "mycpu (set_pipe p f s) = mycpu s" "cpuid (set_pipe p f s) = cpuid s"
  "holds lk (set_pipe p f s) = holds lk s" "lock_free lk (set_pipe p f s) = lock_free lk s"
  "cpu_ok (set_pipe p f s) = cpu_ok s" "quiet (set_pipe p f s) = quiet s" "procs (set_pipe p f s) = procs s"
  "acq lk (set_pipe p f s) = set_pipe p f (acq lk s)" "rel lk (set_pipe p f s) = set_pipe p f (rel lk s)"
  "touch (set_pipe p f s) = set_pipe p f (touch s)"
  by (simp_all add: set_pipe_def)

lemma pipes_set_pipe [simp]: "pipes (set_pipe p f s) = (pipes s)(p := f (pipes s p))"
  by (simp add: set_pipe_def)

lemma set_pipe_comp: "set_pipe p g (set_pipe p f s) = set_pipe p (\<lambda>x. g (f x)) s"
  by (simp add: set_pipe_def)

lemma set_pipe_cong: "f (pipes s p) = g (pipes s p) \<Longrightarrow> set_pipe p f s = set_pipe p g s"
  by (simp add: set_pipe_def)

lemma pipewrite_loop_push:
  assumes "pipe_ok (pipes s p)" "length (pipe_items (pipes s p)) < PIPESIZE"
  shows "pipewrite_loop p (c # cs) n s = pipewrite_loop p cs n (set_pipe p (pipe_push c) s)"
  using assms by (simp add: pipe_full set_pipe_comp pipe_push_def [abs_def])

lemma pipewrite_loop_push_all:
  assumes "pipe_ok (pipes s p)" "length (pipe_items (pipes s p)) + length bs \<le> PIPESIZE"
  shows "pipewrite_loop p (bs @ cs) n s = pipewrite_loop p cs n (set_pipe p (fold pipe_push bs) s)"
  using assms
proof (induction bs arbitrary: s)
  case Nil
  then show ?case by (simp add: set_pipe_def)
next
  case (Cons b bs)
  then have p: "pipe_ok (pipe_push b (pipes s p))" "pipe_items (pipe_push b (pipes s p)) = pipe_items (pipes s p) @ [b]"
    using pipeq.push_law [of "pipes s p" b] by auto
  show ?case
    using Cons p by (simp add: pipewrite_loop_push set_pipe_comp del: pipewrite_loop.simps)
qed

lemma piperead_copy_pop:
  "pipe_ok (pipes s p) \<Longrightarrow> piperead_copy p n s
     = Ok (take n (pipe_items (pipes s p))) (set_pipe p (pipe_pop ^^ min n (length (pipe_items (pipes s p)))) s)"
proof (induction n arbitrary: s)
  case 0
  then show ?case by (simp add: set_pipe_def)
next
  case (Suc n)
  show ?case
  proof (cases "pipe_items (pipes s p) = []")
    case True
    then show ?thesis by (simp add: pipe_empty set_pipe_def)
  next
    case False
    let ?x = "pipes s p"
    have p: "pipe_ok (pipe_pop ?x)" "pipe_items ?x = pipe_front ?x # pipe_items (pipe_pop ?x)"
      using pipeq.pop_law [OF Suc.prems False] by auto
    have len: "length (pipe_items ?x) = Suc (length (pipe_items (pipe_pop ?x)))" using arg_cong [OF p(2), of length] by simp
    have "piperead_copy p n (set_pipe p pipe_pop s) = Ok (take n (pipe_items (pipe_pop ?x)))
        (set_pipe p (pipe_pop ^^ min n (length (pipe_items (pipe_pop ?x)))) (set_pipe p pipe_pop s))"
      using Suc.IH [of "set_pipe p pipe_pop s"] p(1) by simp
    moreover have "take (Suc n) (pipe_items ?x) = pipe_front ?x # take n (pipe_items (pipe_pop ?x))"
      by (subst p(2)) simp
    moreover have "set_pipe p (pipe_pop ^^ min n (length (pipe_items (pipe_pop ?x)))) (set_pipe p pipe_pop s)
        = set_pipe p (pipe_pop ^^ min (Suc n) (length (pipe_items ?x))) s"
      unfolding set_pipe_comp by (rule set_pipe_cong) (simp add: len funpow_swap1)
    ultimately show ?thesis
      using False by (simp add: pipe_empty pipe_front_def pipe_pop_def [symmetric])
  qed
qed

section \<open>Reading and writing\<close>

text \<open>A process about to make a system call, with no lock held.\<close>

definition in_call :: "nat \<Rightarrow> kernel \<Rightarrow> bool" where
  "in_call i s \<longleftrightarrow> quiet s \<and> curproc s = Some i \<and> i < NPROC \<and> length (procs s) = NPROC"

lemma in_callD: "in_call i s \<Longrightarrow> quiet s" "in_call i s \<Longrightarrow> curproc s = Some i"
  "in_call i s \<Longrightarrow> i < length (procs s)" "in_call i s \<Longrightarrow> length (procs s) = NPROC" "in_call i s \<Longrightarrow> c_ncli (mycpu s) = 0"
  by (simp_all add: in_call_def quiet_def)

text \<open>A writer's turn: from taking the lock to returning or sleeping, with the bytes \<open>bs\<close> left.\<close>

definition write_turn :: "uint32 \<Rightarrow> byte list \<Rightarrow> int \<Rightarrow> int kroutine" where
  "write_turn p bs n = andthen (acquire (L_pipe p)) (pipewrite_loop p bs n)"

definition pipe_room :: "pipe \<Rightarrow> nat" where
  "pipe_room x = PIPESIZE - length (pipe_items x)"

definition accept :: "uint32 \<Rightarrow> byte list \<Rightarrow> kernel \<Rightarrow> kernel" where
  "accept p bs s = set_pipe p (fold pipe_push bs) s"

lemma wake_all_frame [simp]:
  "locks (wake_all ch s) = locks s" "mycpu (wake_all ch s) = mycpu s" "cpuid (wake_all ch s) = cpuid s"
  "holds lk (wake_all ch s) = holds lk s" "lock_free lk (wake_all ch s) = lock_free lk s"
  "cpu_ok (wake_all ch s) = cpu_ok s" "pipes (wake_all ch s) = pipes s"
  "length (procs (wake_all ch s)) = length (procs s)"
  "acq lk (wake_all ch s) = wake_all ch (acq lk s)" "rel lk (wake_all ch s) = wake_all ch (rel lk s)"
  "touch (wake_all ch s) = wake_all ch (touch s)"
  by (simp_all add: wake_all_def)

lemma wake_all_pipe [simp]: "wake_all ch (set_pipe p f s) = set_pipe p f (wake_all ch s)"
  by (simp add: wake_all_def set_pipe_def)

lemma accept_facts:
  assumes "pipe_ok (pipes s p)"
  shows "pipe_ok (pipes (accept p (take (pipe_room (pipes s p)) bs) s) p)"
    "pipe_items (pipes (accept p (take (pipe_room (pipes s p)) bs) s) p)
       = pipe_items (pipes s p) @ take (pipe_room (pipes s p)) bs"
proof -
  let ?x = "pipes s p"
  have "length (pipe_items ?x) \<le> PIPESIZE" by (rule pipeq.cap_law [OF assms])
  then have "length (pipe_items ?x) + length (take (pipe_room ?x) bs) \<le> PIPESIZE" by (simp add: pipe_room_def)
  from pipeq.push_all [OF assms this] show "pipe_ok (pipes (accept p (take (pipe_room ?x) bs) s) p)"
    "pipe_items (pipes (accept p (take (pipe_room ?x) bs) s) p) = pipe_items ?x @ take (pipe_room ?x) bs"
    by (simp_all add: accept_def)
qed

lemma write_turn_accept:
  assumes "pipe_ok (pipes s p)" "quiet s"
  shows "write_turn p bs n s = pipewrite_loop p (drop (pipe_room (pipes s p)) bs) n
     (acq (L_pipe p) (accept p (take (pipe_room (pipes s p)) bs) s))"
proof -
  let ?k = "pipe_room (pipes s p)"
  have "length (pipe_items (pipes s p)) \<le> PIPESIZE" by (rule pipeq.cap_law [OF assms(1)])
  then have "length (pipe_items (pipes s p)) + length (take ?k bs) \<le> PIPESIZE" by (simp add: pipe_room_def)
  then have "pipewrite_loop p (take ?k bs @ drop ?k bs) n (acq (L_pipe p) s)
      = pipewrite_loop p (drop ?k bs) n (set_pipe p (fold pipe_push (take ?k bs)) (acq (L_pipe p) s))"
    using assms(1) by (intro pipewrite_loop_push_all) simp_all
  then show ?thesis
    using assms(2) by (simp add: write_turn_def acquire_ok accept_def)
qed

lemma quiet_accept [simp]: "quiet (accept p bs s) = quiet s" "procs (accept p bs s) = procs s"
  "mycpu (accept p bs s) = mycpu s" "curproc (accept p bs s) = curproc s"
  by (simp_all add: accept_def curproc_def)

lemma write_turn_returns:
  assumes "pipe_ok (pipes s p)" "in_call i s" "length bs \<le> pipe_room (pipes s p)"
  shows "write_turn p bs n s = Ok n (touch (wake_all (Some (Ch_nread p)) (accept p bs s)))"
  using assms in_callD [OF assms(2)] unfolding write_turn_accept [OF assms(1) in_callD(1) [OF assms(2)]]
  by (simp add: wakeup_ok release_ok)

text \<open>A pipe with no reader left, or a killed writer, ends the call.\<close>

lemma pipe_killed_eq: "curproc s = Some i \<Longrightarrow> pipe_killed s = Ok (p_killed (procs s ! i)) s"
  by (simp add: pipe_killed_def with_proc_def)

lemma open_push [simp]: "pi_readopen (fold pipe_push bs x) = pi_readopen x"
  by (induction bs arbitrary: x) (simp_all add: pipe_push_def)

lemma full_after_accept:
  assumes "pipe_ok (pipes s p)" "pipe_room (pipes s p) < length bs"
  defines "y \<equiv> pipes (accept p (take (pipe_room (pipes s p)) bs) s) p"
  shows "pi_nwrite y = pi_nread y + of_nat PIPESIZE"
  using accept_facts [OF assms(1), of bs] assms(2) pipeq.cap_law [OF assms(1)] pipe_full [of y]
  by (simp add: y_def pipe_room_def)

lemma write_turn_full:
  assumes "pipe_ok (pipes s p)" "in_call i s" "pipe_room (pipes s p) < length bs"
  defines "t \<equiv> accept p (take (pipe_room (pipes s p)) bs) s"
  shows "write_turn p bs n s =
    (if \<not> pi_readopen (pipes s p) \<or> p_killed (procs s ! i) then Ok (- 1) (touch t)
     else sleep_again (Ch_nwrite p) (L_pipe p) (wake_all (Some (Ch_nread p)) (acq (L_pipe p) t)))"
proof -
  let ?k = "pipe_room (pipes s p)"
  obtain c cs where cs: "drop ?k bs = c # cs" using assms(3) by (cases "drop ?k bs") auto
  have full: "pi_nwrite (pipes t p) = pi_nread (pipes t p) + of_nat PIPESIZE"
    unfolding t_def by (rule full_after_accept [OF assms(1,3)])
  have op: "pi_readopen (pipes t p) = pi_readopen (pipes s p)" by (simp add: t_def accept_def)
  have q: "quiet t" "curproc t = Some i" "procs t = procs s" "length (procs t) = NPROC"
    using in_callD [OF assms(2)] by (simp_all add: t_def)
  have cp: "curproc (acq lk t) = Some i" for lk using q(2) by (simp add: curproc_def)
  have "write_turn p bs n s = pipewrite_loop p (c # cs) n (acq (L_pipe p) t)"
    using write_turn_accept [OF assms(1) in_callD(1) [OF assms(2)]] cs by (simp add: t_def)
  also have "\<dots> = (if \<not> pi_readopen (pipes s p) \<or> p_killed (procs s ! i) then Ok (- 1) (touch t)
     else sleep_again (Ch_nwrite p) (L_pipe p) (wake_all (Some (Ch_nread p)) (acq (L_pipe p) t)))"
    using full op q by (simp add: pipe_killed_eq [OF cp] release_ok wakeup_ok)
  finally show ?thesis .
qed

lemma sleep_again_swtch:
  assumes "in_call i s" "l \<noteq> L_ptable"
  shows "sleep_again ch l (acq l s) = Swtch (set_proc i (\<lambda>p. p\<lparr>p_state := SLEEPING\<rparr>)
    (set_proc i (\<lambda>p. p\<lparr>p_chan := Some ch\<rparr>) (rel l (acq L_ptable (acq l s)))))"
proof -
  have "sleep ch (Some l) (acq l s) = Swtch (set_proc i (\<lambda>p. p\<lparr>p_state := SLEEPING\<rparr>)
    (set_proc i (\<lambda>p. p\<lparr>p_chan := Some ch\<rparr>) (rel l (acq L_ptable (acq l s)))))"
    using assms in_callD [OF assms(1)] by (intro sleep_swtch) (simp_all add: curproc_def)
  then show ?thesis by (simp add: sleep_again_def)
qed

lemma read_returns:
  assumes "pipe_ok (pipes s p)" "in_call i s" "pipe_items (pipes s p) \<noteq> [] \<or> \<not> pi_writeopen (pipes s p)"
  shows "piperead p n s = Ok (Some (take (nat n) (pipe_items (pipes s p)))) (touch (wake_all (Some (Ch_nwrite p))
     (set_pipe p (pipe_pop ^^ min (nat n) (length (pipe_items (pipes s p)))) s)))"
  using assms in_callD [OF assms(2)]
  by (auto simp: piperead_def piperead_loop_def acquire_ok piperead_copy_pop pipe_empty wakeup_ok release_ok)

lemma read_empty:
  assumes "in_call i s" "pipe_items (pipes s p) = []" "pi_writeopen (pipes s p)"
  shows "piperead p n s = (if p_killed (procs s ! i) then Ok None (touch s)
     else sleep_again (Ch_nread p) (L_pipe p) (acq (L_pipe p) s))"
proof -
  have cp: "curproc (acq lk s) = Some i" for lk using in_callD(2) [OF assms(1)] by (simp add: curproc_def)
  show ?thesis
    using assms in_callD [OF assms(1)]
    by (simp add: piperead_def piperead_loop_def acquire_ok pipe_empty pipe_killed_eq [OF cp] release_ok)
qed


section \<open>One writer and one reader\<close>

text \<open>
  A configuration has the kernel, the bytes the writer has left and the bytes the reader has
  got. In a writer's turn the part of its bytes is gone by which the pipe's write counter
  has advanced, which is what the loop variable of \<open>pipewrite\<close> counts.
\<close>

definition ends_in :: "'a kroutine \<Rightarrow> kernel \<Rightarrow> kernel \<Rightarrow> bool" where
  "ends_in m s t \<longleftrightarrow> (\<exists>a. m s = Ok a t) \<or> m s = Swtch t"

inductive pipe_turn :: "uint32 \<Rightarrow> kernel \<times> byte list \<times> byte list \<Rightarrow> kernel \<times> byte list \<times> byte list \<Rightarrow> bool" for p where
  writes: "in_call i s \<Longrightarrow> ends_in (write_turn p todo n) s t
     \<Longrightarrow> pipe_turn p (s, todo, got) (t, drop (unat (pi_nwrite (pipes t p) - pi_nwrite (pipes s p))) todo, got)"
| reads: "in_call i s \<Longrightarrow> piperead p n s = Ok (Some cs) t \<Longrightarrow> pipe_turn p (s, todo, got) (t, todo, got @ cs)"
| waits: "in_call i s \<Longrightarrow> piperead p n s = Ok None t \<or> piperead p n s = Swtch t \<Longrightarrow> pipe_turn p (s, todo, got) (t, todo, got)"
| other: "pipes t p = pipes s p \<Longrightarrow> pipe_turn p (s, todo, got) (t, todo, got)"

definition pipe_inv :: "uint32 \<Rightarrow> byte list \<Rightarrow> kernel \<times> byte list \<times> byte list \<Rightarrow> bool" where
  "pipe_inv p data x \<longleftrightarrow> (case x of (s, todo, got) \<Rightarrow>
     pipe_ok (pipes s p) \<and> data = got @ pipe_items (pipes s p) @ todo)"

lemma nwrite_push: "pi_nwrite (fold pipe_push bs x) = pi_nwrite x + of_nat (length bs)"
  by (induction bs arbitrary: x) (simp_all add: pipe_push_def)

lemma write_turn_ends:
  assumes "pipe_ok (pipes s p)" "in_call i s" "ends_in (write_turn p bs n) s t"
  shows "pipes t = pipes (accept p (take (pipe_room (pipes s p)) bs) s)"
proof (cases "length bs \<le> pipe_room (pipes s p)")
  case True
  then show ?thesis
    using assms(3) write_turn_returns [OF assms(1,2) True, of n] by (auto simp: ends_in_def accept_def)
next
  case False
  then have full: "pipe_room (pipes s p) < length bs" by simp
  let ?t = "accept p (take (pipe_room (pipes s p)) bs) s"
  have call: "in_call i (wake_all (Some (Ch_nread p)) ?t)"
    using assms(2) by (simp add: in_call_def wake_all_def quiet_def curproc_def accept_def)
  show ?thesis
    using assms(3) write_turn_full [OF assms(1,2) full, of n]
    by (auto simp: ends_in_def sleep_again_swtch [OF call, of "L_pipe p", simplified] set_proc_def split: if_splits)
qed

lemma write_turn_ended:
  assumes "pipe_ok (pipes s p)" "in_call i s"
  shows "\<exists>t. ends_in (write_turn p bs n) s t"
proof (cases "length bs \<le> pipe_room (pipes s p)")
  case True
  then show ?thesis using write_turn_returns [OF assms True, of n] by (auto simp: ends_in_def)
next
  case False
  then have full: "pipe_room (pipes s p) < length bs" by simp
  let ?t = "accept p (take (pipe_room (pipes s p)) bs) s"
  have call: "in_call i (wake_all (Some (Ch_nread p)) ?t)"
    using assms(2) by (simp add: in_call_def wake_all_def quiet_def curproc_def accept_def)
  show ?thesis
    using write_turn_full [OF assms full, of n]
    by (auto simp: ends_in_def sleep_again_swtch [OF call, of "L_pipe p", simplified])
qed

lemma write_keeps:
  assumes "pipe_inv p data (s, todo, got)" "in_call i s" "ends_in (write_turn p todo n) s t"
  shows "pipe_inv p data (t, drop (unat (pi_nwrite (pipes t p) - pi_nwrite (pipes s p))) todo, got)"
proof -
  let ?k = "pipe_room (pipes s p)"
  have ok: "pipe_ok (pipes s p)" using assms(1) by (simp add: pipe_inv_def)
  have t: "pipes t = pipes (accept p (take ?k todo) s)" by (rule write_turn_ends [OF ok assms(2,3)])
  have "?k \<le> PIPESIZE" by (simp add: pipe_room_def)
  then have "unat (of_nat (length (take ?k todo)) :: uint32) = length (take ?k todo)"
    by (intro unat_of_nat_small) (simp add: PIPESIZE_def)
  then have moved: "unat (pi_nwrite (pipes t p) - pi_nwrite (pipes s p)) = length (take ?k todo)"
    unfolding t by (simp add: accept_def nwrite_push)
  have "drop (length (take ?k todo)) todo = drop ?k todo" by (simp add: min_def)
  then show ?thesis
    unfolding moved using assms(1) accept_facts [OF ok, of todo] t by (simp add: pipe_inv_def)
qed

lemma read_keeps:
  assumes "pipe_inv p data (s, todo, got)" "in_call i s"
  shows "piperead p n s = Ok (Some cs) t \<Longrightarrow> pipe_inv p data (t, todo, got @ cs)"
    and "piperead p n s = Ok None t \<or> piperead p n s = Swtch t \<Longrightarrow> pipe_inv p data (t, todo, got)"
proof -
  let ?x = "pipes s p"
  have ok: "pipe_ok ?x" using assms(1) by (simp add: pipe_inv_def)
  note pop = pipeq.pop_all [OF ok, of "min (nat n) (length (pipe_items ?x))"]
  show "pipe_inv p data (t, todo, got @ cs)" if r: "piperead p n s = Ok (Some cs) t"
  proof (cases "pipe_items ?x \<noteq> [] \<or> \<not> pi_writeopen ?x")
    case True
    have e: "take (nat n) (pipe_items ?x) @ drop (min (nat n) (length (pipe_items ?x))) (pipe_items ?x) = pipe_items ?x"
      by (simp add: min_def)
    show ?thesis using r read_returns [OF ok assms(2) True, of n] assms(1) pop e
      by (auto simp: pipe_inv_def)
  next
    case False
    then show ?thesis using r read_empty [OF assms(2), of p n] by (auto simp: sleep_again_swtch [OF assms(2)] split: if_splits)
  qed
  show "pipe_inv p data (t, todo, got)" if r: "piperead p n s = Ok None t \<or> piperead p n s = Swtch t"
  proof (cases "pipe_items ?x \<noteq> [] \<or> \<not> pi_writeopen ?x")
    case True
    then show ?thesis using r read_returns [OF ok assms(2) True, of n] by auto
  next
    case False
    then show ?thesis using r read_empty [OF assms(2), of p n] assms(1)
      by (auto simp: pipe_inv_def sleep_again_swtch [OF assms(2)] set_proc_def split: if_splits)
  qed
qed

lemma pipe_turn_keeps:
  assumes "pipe_turn p x y" "pipe_inv p data x"
  shows "pipe_inv p data y"
  using assms
proof cases
  case (writes i s todo n t got)
  then show ?thesis using write_keeps assms(2) by blast
next
  case (reads i s n cs t todo got)
  then show ?thesis using read_keeps(1) assms(2) by blast
next
  case (waits i s n t todo got)
  then show ?thesis using read_keeps(2) assms(2) by blast
next
  case (other t s todo got)
  then show ?thesis using assms(2) by (simp add: pipe_inv_def)
qed

lemma pipe_turns_keep: "rtranclp (pipe_turn p) x y \<Longrightarrow> pipe_inv p data x \<Longrightarrow> pipe_inv p data y"
  by (induction rule: rtranclp_induct) (auto intro: pipe_turn_keeps)

text \<open>
  C6. A pipe delivers in order: from an empty pipe, whatever turns a writer of \<open>data\<close> and a
  reader take, of any sizes, blocking or not, and whatever else happens in between that
  does not touch the pipe, what the reader has got, what is in the pipe and what the writer
  has left are together \<open>data\<close>: nothing is lost, repeated or reordered, also when the 32-bit
  counters wrap around.
\<close>

theorem pipe_in_order:
  assumes "pipe_ok (pipes s0 p)" "pipe_items (pipes s0 p) = []"
    and "rtranclp (pipe_turn p) (s0, data, []) (s, todo, got)"
  shows "data = got @ pipe_items (pipes s p) @ todo \<and> length (pipe_items (pipes s p)) \<le> PIPESIZE"
proof -
  have "pipe_inv p data (s0, data, [])" using assms(1,2) by (simp add: pipe_inv_def)
  from pipe_turns_keep [OF assms(3) this] show ?thesis
    by (simp add: pipe_inv_def pipeq.cap_law)
qed

text \<open>
  C17. Writing more than fits: \<open>pipewrite\<close> puts what fits into the pipe, wakes the readers
  and goes to sleep until there is room, with the pipe full and its lock free.
\<close>

theorem pipewrite_blocks:
  assumes "pipe_ok (pipes s p)" "in_call i s" "pi_readopen (pipes s p)" "\<not> p_killed (procs s ! i)"
    and "length bs = nat n" "pipe_room (pipes s p) < length bs"
  shows "\<exists>t. pipewrite p bs n s = Swtch t
     \<and> pipe_items (pipes t p) = pipe_items (pipes s p) @ take (pipe_room (pipes s p)) bs
     \<and> length (pipe_items (pipes t p)) = PIPESIZE \<and> lock_free (L_pipe p) t
     \<and> p_state (procs t ! i) = SLEEPING \<and> p_chan (procs t ! i) = Some (Ch_nwrite p)
     \<and> (\<forall>j < NPROC. j \<noteq> i \<longrightarrow> procs t ! j = wake (Some (Ch_nread p)) (procs s ! j))"
proof -
  let ?a = "accept p (take (pipe_room (pipes s p)) bs) s"
  let ?w = "wake_all (Some (Ch_nread p)) ?a"
  have call: "in_call i ?w"
    using assms(2) by (simp add: in_call_def wake_all_def quiet_def curproc_def accept_def)
  let ?t = "set_proc i (\<lambda>p. p\<lparr>p_state := SLEEPING\<rparr>)
    (set_proc i (\<lambda>q. q\<lparr>p_chan := Some (Ch_nwrite p)\<rparr>) (rel (L_pipe p) (acq L_ptable (acq (L_pipe p) ?w))))"
  have "pipewrite p bs n s = write_turn p bs n s" using assms(5) by (simp add: pipewrite_def write_turn_def)
  also have "\<dots> = Swtch ?t"
    using write_turn_full [OF assms(1,2,6), of n] sleep_again_swtch [OF call, of "L_pipe p" "Ch_nwrite p"] assms(3,4)
    by simp
  finally have e: "pipewrite p bs n s = Swtch ?t" .
  have i: "i < NPROC" "length (procs s) = NPROC" using assms(2) by (simp_all add: in_call_def)
  have pt: "pipes ?t = pipes ?a" by (simp add: set_proc_def)
  have items: "pipe_items (pipes ?t p) = pipe_items (pipes s p) @ take (pipe_room (pipes s p)) bs"
    unfolding pt by (rule accept_facts [OF assms(1)])
  have "length (pipe_items (pipes ?t p)) = PIPESIZE"
    unfolding items using pipeq.cap_law [OF assms(1)] assms(6) by (simp add: pipe_room_def)
  moreover have "lock_free (L_pipe p) ?t" by (simp add: lock_free_def)
  moreover have "p_state (procs ?t ! i) = SLEEPING" "p_chan (procs ?t ! i) = Some (Ch_nwrite p)"
    using i by (simp_all add: wake_all_def)
  moreover have "\<forall>j < NPROC. j \<noteq> i \<longrightarrow> procs ?t ! j = wake (Some (Ch_nread p)) (procs s ! j)"
    using i by (simp add: wake_all_def)
  ultimately show ?thesis using e items by blast
qed

lemma write_turn_wakes:
  assumes "pipe_ok (pipes s p)" "in_call i s" "ends_in (write_turn p bs n) s t" "j < NPROC" "j \<noteq> i"
    and "pi_readopen (pipes s p) \<and> \<not> p_killed (procs s ! i) \<or> length bs \<le> pipe_room (pipes s p)"
  shows "procs t ! j = wake (Some (Ch_nread p)) (procs s ! j)"
proof (cases "length bs \<le> pipe_room (pipes s p)")
  case True
  have "length (procs s) = NPROC" using assms(2) by (simp add: in_call_def)
  then show ?thesis
    using assms(3,4) write_turn_returns [OF assms(1,2) True, of n] by (auto simp: ends_in_def wake_all_def)
next
  case False
  let ?w = "wake_all (Some (Ch_nread p)) (accept p (take (pipe_room (pipes s p)) bs) s)"
  have call: "in_call i ?w"
    using assms(2) by (simp add: in_call_def wake_all_def quiet_def curproc_def accept_def)
  have "write_turn p bs n s = Swtch (set_proc i (\<lambda>p. p\<lparr>p_state := SLEEPING\<rparr>)
    (set_proc i (\<lambda>q. q\<lparr>p_chan := Some (Ch_nwrite p)\<rparr>) (rel (L_pipe p) (acq L_ptable (acq (L_pipe p) ?w)))))"
    using write_turn_full [OF assms(1,2), of bs n] sleep_again_swtch [OF call, of "L_pipe p" "Ch_nwrite p"] False assms(6)
    by simp
  then have "procs t ! j = procs ?w ! j" using assms(3,5) by (auto simp: ends_in_def wake_all_def)
  then show ?thesis using assms(2,4) by (simp add: wake_all_def in_call_def)
qed

text \<open>
  C18. A pipe does not get stuck: as long as a byte is on its way, either the reader's next
  call returns at least one byte and makes every process runnable that sleeps until the
  pipe has room, or the pipe is empty and the writer's next turn ends and leaves at least
  one byte in the pipe; unless the write fails, because the reader has closed its end or
  the writer is killed, that turn makes every process runnable that sleeps until the pipe
  has data.
\<close>

theorem pipe_progress:
  assumes "pipe_ok (pipes s p)" "in_call i s" "pipe_items (pipes s p) \<noteq> [] \<or> todo \<noteq> []" "0 < n"
  shows "if pipe_items (pipes s p) \<noteq> [] then
       returns (piperead p n) s (\<lambda>r t. (\<exists>c cs. r = Some (c # cs))
         \<and> (\<forall>j < NPROC. p_state (procs s ! j) = SLEEPING \<and> p_chan (procs s ! j) = Some (Ch_nwrite p)
              \<longrightarrow> p_state (procs t ! j) = RUNNABLE))
     else \<exists>t. ends_in (write_turn p todo m) s t \<and> pipe_items (pipes t p) \<noteq> []
         \<and> (pi_readopen (pipes s p) \<and> \<not> p_killed (procs s ! i) \<longrightarrow>
             (\<forall>j < NPROC. j \<noteq> i \<and> p_state (procs s ! j) = SLEEPING \<and> p_chan (procs s ! j) = Some (Ch_nread p)
                \<longrightarrow> p_state (procs t ! j) = RUNNABLE))"
proof (cases "pipe_items (pipes s p) = []")
  case True
  have "pipe_room (pipes s p) = PIPESIZE" using True by (simp add: pipe_room_def)
  then have "take (pipe_room (pipes s p)) todo \<noteq> []" using assms(3) True by (simp add: PIPESIZE_def)
  moreover obtain t where t: "ends_in (write_turn p todo m) s t"
    using write_turn_ended [OF assms(1,2), of todo m] by blast
  ultimately have "pipe_items (pipes t p) \<noteq> []"
    using write_turn_ends [OF assms(1,2) t] accept_facts(2) [OF assms(1), of todo] by simp
  moreover have "p_state (procs t ! j) = RUNNABLE"
    if "pi_readopen (pipes s p) \<and> \<not> p_killed (procs s ! i)" "j < NPROC" "j \<noteq> i"
      "p_state (procs s ! j) = SLEEPING" "p_chan (procs s ! j) = Some (Ch_nread p)" for j
    using write_turn_wakes [OF assms(1,2) t that(2,3)] that by (simp add: wake_def)
  ultimately show ?thesis using True t by auto
next
  case False
  then have "take (nat n) (pipe_items (pipes s p)) \<noteq> []" using assms(4) by simp
  then obtain c cs where c: "take (nat n) (pipe_items (pipes s p)) = c # cs" by (meson list.exhaust)
  have "length (procs s) = NPROC" using assms(2) by (simp add: in_call_def)
  then show ?thesis using False c read_returns [OF assms(1,2)] by (simp add: returns_def wake_all_def wake_def)
qed

section \<open>Concrete instances\<close>

text \<open>Process 0 at an open, empty pipe whose counters are about to wrap around.\<close>

definition piped :: kernel where
  "piped = boot0\<lparr>cpus := (\<lambda>_. zero_cpu\<lparr>c_proc := Some 0\<rparr>),
     pipes := (\<lambda>_. zero_pipe\<lparr>pi_nread := 0xFFFFFFFE, pi_nwrite := 0xFFFFFFFE, pi_readopen := True, pi_writeopen := True\<rparr>)\<rparr>"

lemma piped_facts: "in_call 0 piped" "pipe_ok (pipes piped p)" "pipe_items (pipes piped p) = []"
    "pi_readopen (pipes piped p)" "\<not> p_killed (procs piped ! 0)" "pipe_room (pipes piped p) = PIPESIZE"
  by (simp_all add: in_call_def quiet_def lock_free_def curproc_def piped_def boot0_def boot_kernel_def mycpu_def
      zero_spinlock_def zero_cpu_def zero_proc_def zero_pipe_def pipe_ok_def ring_ok_def pipe_items_def ring_items_def
      pipe_room_def PIPESIZE_def NPROC_def)

lemma pipe_in_order_witness:
  "\<exists>t. ends_in (write_turn 0x80200000 [1, 2, 3] 3) piped t \<and>
     [1, 2, 3] = pipe_items (pipes t 0x80200000) @ drop (unat (pi_nwrite (pipes t 0x80200000) + 2)) [1, 2, 3]"
proof -
  have room: "length [1, 2, 3 :: byte] \<le> pipe_room (pipes piped 0x80200000)"
    by (simp add: piped_facts PIPESIZE_def)
  let ?t = "touch (wake_all (Some (Ch_nread 0x80200000)) (accept 0x80200000 [1, 2, 3] piped))"
  have e: "ends_in (write_turn 0x80200000 [1, 2, 3] 3) piped ?t"
    using write_turn_returns [OF piped_facts(2,1) room] by (simp add: ends_in_def)
  have n: "pi_nwrite (pipes piped 0x80200000) = - 2" by (simp add: piped_def)
  from pipe_in_order [OF piped_facts(2,3) r_into_rtranclp [where r = "pipe_turn 0x80200000", OF pipe_turn.writes [OF piped_facts(1) e]]]
  have "[1, 2, 3] = pipe_items (pipes ?t 0x80200000) @ drop (unat (pi_nwrite (pipes ?t 0x80200000) + 2)) [1, 2, 3]"
    unfolding n by simp
  with e show ?thesis by blast
qed

lemma pipewrite_blocks_witness:
  "\<exists>t. pipewrite 0x80200000 (replicate 600 7) 600 piped = Swtch t
     \<and> length (pipe_items (pipes t 0x80200000)) = PIPESIZE \<and> p_state (procs t ! 0) = SLEEPING"
proof -
  have "length (replicate 600 (7 :: byte)) = nat 600" "pipe_room (pipes piped 0x80200000) < length (replicate 600 (7 :: byte))"
    by (simp_all add: piped_facts PIPESIZE_def)
  from pipewrite_blocks [OF piped_facts(2,1,4,5) this] show ?thesis by blast
qed

text \<open>The same with process 1 asleep until the pipe has data; and with a byte in the pipe and
  process 1 asleep until it has room.\<close>

definition sleeper :: "chan \<Rightarrow> kernel" where
  "sleeper ch = piped\<lparr>procs := (procs piped)[1 := zero_proc\<lparr>p_state := SLEEPING, p_chan := Some ch\<rparr>]\<rparr>"

definition one_byte :: kernel where
  "one_byte = (sleeper (Ch_nwrite 0x80200000))\<lparr>pipes := (\<lambda>q. (pipes piped q)\<lparr>pi_nwrite := 0xFFFFFFFF\<rparr>)\<rparr>"

lemma sleeper_facts: "in_call 0 (sleeper ch)" "pipes (sleeper ch) = pipes piped" "\<not> p_killed (procs (sleeper ch) ! 0)"
    "p_state (procs (sleeper ch) ! 1) = SLEEPING" "p_chan (procs (sleeper ch) ! 1) = Some ch" "1 < NPROC"
proof -
  have procs: "procs piped = replicate NPROC zero_proc" by (simp add: piped_def boot0_def boot_kernel_def)
  show "in_call 0 (sleeper ch)"
    using piped_facts(1) by (simp add: sleeper_def in_call_def quiet_def curproc_def lock_free_def)
  show "pipes (sleeper ch) = pipes piped" by (simp add: sleeper_def)
  show "\<not> p_killed (procs (sleeper ch) ! 0)" "p_state (procs (sleeper ch) ! 1) = SLEEPING"
    "p_chan (procs (sleeper ch) ! 1) = Some ch" "1 < NPROC"
    by (simp_all add: sleeper_def procs NPROC_def zero_proc_def)
qed

lemma one_byte_facts: "in_call 0 one_byte" "pipe_ok (pipes one_byte p)" "pipe_items (pipes one_byte p) \<noteq> []"
    "procs one_byte = procs (sleeper (Ch_nwrite 0x80200000))"
  using sleeper_facts(1) by (simp_all add: one_byte_def in_call_def quiet_def curproc_def lock_free_def
      piped_def zero_pipe_def pipe_ok_def ring_ok_def pipe_items_def ring_items_def PIPESIZE_def)

lemma pipe_progress_witness:
  "(\<exists>t. ends_in (write_turn 0x80200000 [9] 1) (sleeper (Ch_nread 0x80200000)) t \<and> pipe_items (pipes t 0x80200000) \<noteq> []
      \<and> p_state (procs t ! 1) = RUNNABLE)
   \<and> returns (piperead 0x80200000 1) one_byte (\<lambda>r t. (\<exists>c cs. r = Some (c # cs)) \<and> p_state (procs t ! 1) = RUNNABLE)"
proof
  have ok: "pipe_ok (pipes (sleeper (Ch_nread 0x80200000)) 0x80200000)" using piped_facts(2) by (simp add: sleeper_facts(2))
  show "\<exists>t. ends_in (write_turn 0x80200000 [9] 1) (sleeper (Ch_nread 0x80200000)) t \<and> pipe_items (pipes t 0x80200000) \<noteq> []
      \<and> p_state (procs t ! 1) = RUNNABLE"
    using pipe_progress [OF ok sleeper_facts(1), of "[9]" 1 1] sleeper_facts(3-6) piped_facts(3,4)
    by (auto simp: sleeper_facts(2))
  show "returns (piperead 0x80200000 1) one_byte (\<lambda>r t. (\<exists>c cs. r = Some (c # cs)) \<and> p_state (procs t ! 1) = RUNNABLE)"
    using pipe_progress [OF one_byte_facts(2,1), of "0x80200000" "[]" 1 1] unfolding if_P [OF one_byte_facts(3)]
    by (rule returns_mono) (use one_byte_facts sleeper_facts(4-6) in auto)
qed

end
