(* ===== verification/Console_Lines.thy ===== *)
theory Console_Lines
  imports Inode Ring
begin

text \<open>
  The console: the cursor stays on the screen, numbers are printed in their usual notation,
  and the input buffer is a queue of finished lines followed by the line being edited.
\<close>

section \<open>Numbers\<close>

declare digits_rev.simps [simp del]

definition dval :: "byte \<Rightarrow> nat" where
  "dval d = (if d \<le> 0x39 then unat d - 48 else unat d - 87)"

text \<open>The number that digits denote, most significant first, and with a sign in front.\<close>

definition read_nat :: "nat \<Rightarrow> byte list \<Rightarrow> nat" where
  "read_nat b ds = foldl (\<lambda>a d. b * a + dval d) 0 ds"

definition read_int :: "nat \<Rightarrow> byte list \<Rightarrow> int" where
  "read_int b ds = (if ds \<noteq> [] \<and> hd ds = 0x2D then - int (read_nat b (tl ds)) else int (read_nat b ds))"

lemma less16: "d < (16::nat) \<longleftrightarrow> d = 0 \<or> d = 1 \<or> d = 2 \<or> d = 3 \<or> d = 4 \<or> d = 5 \<or> d = 6 \<or> d = 7 \<or> d = 8 \<or> d = 9
    \<or> d = 10 \<or> d = 11 \<or> d = 12 \<or> d = 13 \<or> d = 14 \<or> d = 15"
  by presburger

lemma digit_facts: "d < 16 \<Longrightarrow> dval (digit d) = d \<and> digit d \<noteq> 0x2D \<and> (digit d = 0x30 \<longleftrightarrow> d = 0)"
  unfolding less16 by (elim disjE) (simp_all add: dval_def digit_def)

lemma digits_rev_value:
  assumes "2 \<le> b" "b \<le> 16"
  shows "read_nat b (rev (digits_rev b x)) = x \<and> (\<forall>d \<in> set (digits_rev b x). d \<noteq> 0x2D)
    \<and> digits_rev b x \<noteq> [] \<and> (last (digits_rev b x) = 0x30 \<longrightarrow> x = 0)"
proof (induction x rule: less_induct)
  case (less x)
  have d: "x mod b < 16" using assms by (meson less_le_trans mod_less_divisor order_less_le_trans zero_less_numeral)
  note dg = digit_facts [OF d]
  show ?case
  proof (cases "x div b = 0")
    case True
    then have "x mod b = x" using assms by (simp add: div_eq_0_iff)
    then show ?thesis using True dg by (simp add: digits_rev.simps [of b x] read_nat_def)
  next
    case False
    then have e: "digits_rev b x = digit (x mod b) # digits_rev b (x div b)" using assms by (subst digits_rev.simps) simp
    have "x div b < x" using False assms by (cases "x = 0") (auto intro: div_less_dividend)
    from less.IH [OF this] have ih: "read_nat b (rev (digits_rev b (x div b))) = x div b" "digits_rev b (x div b) \<noteq> []"
      "\<forall>d \<in> set (digits_rev b (x div b)). d \<noteq> 0x2D" "last (digits_rev b (x div b)) = 0x30 \<longrightarrow> x div b = 0" by auto
    have "read_nat b (rev (digits_rev b x)) = b * (x div b) + x mod b"
      unfolding e using ih(1) dg by (simp add: read_nat_def)
    then show ?thesis unfolding e using ih dg False by (auto simp: e)
  qed
qed

lemma digits_rev_length:
  assumes "2 \<le> b" "x < b ^ Suc k"
  shows "length (digits_rev b x) \<le> Suc k"
  using assms(2)
proof (induction k arbitrary: x)
  case 0
  then show ?case using assms(1) by (subst digits_rev.simps) simp
next
  case (Suc k)
  have "x div b < b ^ Suc k" using Suc.prems by (simp add: less_mult_imp_div_less mult.commute)
  from Suc.IH [OF this] show ?case by (subst digits_rev.simps) simp
qed

text \<open>
  C21. Printing numbers: what \<open>printint\<close> prints in base 10 or 16 denotes its argument, as a
  signed or as an unsigned number, has no leading zero, and fits into the buffer of 16
  characters.
\<close>

theorem printint_denotes:
  assumes "base = 10 \<or> base = 16"
  shows "read_int base (int_digits xx base sg) = (if sg then sint xx else uint xx)
     \<and> length (int_digits xx base sg) \<le> 16
     \<and> (hd (int_digits xx base sg) = 0x30 \<longrightarrow> int_digits xx base sg = [0x30])"
proof -
  have b: "2 \<le> base" "base \<le> 16" "(2::nat) ^ 32 \<le> base ^ 10" using assms by auto
  define neg where "neg \<longleftrightarrow> sg \<and> sint xx < 0"
  define x where "x = unat (if neg then - xx else xx)"
  note v = digits_rev_value [OF b(1,2), of x]
  have ds: "int_digits xx base sg = (if neg then [0x2D] else []) @ rev (digits_rev base x)"
    by (simp add: int_digits_def Let_def neg_def x_def)
  have hd: "hd (rev (digits_rev base x)) = last (digits_rev base x)" using v by (simp add: hd_rev)
  have nz: "rev (digits_rev base x) \<noteq> []" "last (digits_rev base x) \<noteq> 0x2D" using v last_in_set by auto
  have "sint xx = uint xx" if "\<not> neg" "sg" using that sint_cases [of xx] unsigned_less [where ?'a = int, of xx]
    by (auto simp: neg_def split: if_splits)
  then have "(if neg then - int x else int x) = (if sg then sint xx else uint xx)"
    using neg_word [of xx] by (auto simp: x_def neg_def)
  then have "read_int base (int_digits xx base sg) = (if sg then sint xx else uint xx)"
    unfolding ds using v hd nz by (auto simp: read_int_def)
  moreover have "x < base ^ Suc 9" using unat_lt_2p32 [of "if neg then - xx else xx"] b(3) unfolding x_def by simp
  from digits_rev_length [OF b(1) this] have "length (int_digits xx base sg) \<le> 16" unfolding ds by simp
  moreover have "int_digits xx base sg = [0x30]" if "hd (int_digits xx base sg) = 0x30"
  proof -
    have "\<not> neg" using that ds by auto
    with that hd ds v have "x = 0" by simp
    then show ?thesis using ds \<open>\<not> neg\<close> by (simp add: digits_rev.simps [of base 0] digit_def)
  qed
  ultimately show ?thesis by blast
qed

lemma printint_denotes_witness:
  "read_int 10 (int_digits 0x80000000 10 True) = - 2147483648 \<and> length (int_digits 0x80000000 10 True) \<le> 16"
  using printint_denotes [of 10 "0x80000000" True] by simp

section \<open>The screen\<close>

definition crt_pos :: "console \<Rightarrow> nat" where
  "crt_pos c = unat (crt_reg c 14) * 256 + unat (crt_reg c 15)"

definition crt_ok :: "console \<Rightarrow> bool" where
  "crt_ok c \<longleftrightarrow> length (crt c) = 2000 \<and> crt_pos c < 1920"

text \<open>The state without the devices that the console writes to.\<close>

definition unseen :: "kernel \<Rightarrow> kernel" where
  "unseen s = s\<lparr>ios := [], ins := [], cons := (cons s)\<lparr>crt_index := 0, crt_reg := (\<lambda>_. 0), crt := []\<rparr>\<rparr>"

lemma unseenD:
  assumes "unseen t = unseen s"
  shows "procs t = procs s" "locks t = locks s" "mycpu t = mycpu s" "cpuid t = cpuid s" "cpus t = cpus s"
    "in_buf (cons t) = in_buf (cons s)" "in_r (cons t) = in_r (cons s)" "in_w (cons t) = in_w (cons s)"
    "in_e (cons t) = in_e (cons s)" "con_panicked (cons t) = con_panicked (cons s)" "con_locking (cons t) = con_locking (cons s)"
    "uart t = uart s" "inodes t = inodes s"
proof -
  have f: "\<And>f. f (unseen t) = f (unseen s)" using assms by simp
  show "procs t = procs s" "locks t = locks s" "mycpu t = mycpu s" "cpuid t = cpuid s" "cpus t = cpus s" "uart t = uart s" "inodes t = inodes s"
    using f [of procs] f [of locks] f [of mycpu] f [of cpuid] f [of cpus] f [of uart] f [of inodes]
    by (simp_all add: unseen_def mycpu_def)
  show "in_buf (cons t) = in_buf (cons s)" "in_r (cons t) = in_r (cons s)" "in_w (cons t) = in_w (cons s)"
    "in_e (cons t) = in_e (cons s)" "con_panicked (cons t) = con_panicked (cons s)" "con_locking (cons t) = con_locking (cons s)"
    using f [of "\<lambda>u. in_buf (cons u)"] f [of "\<lambda>u. in_r (cons u)"] f [of "\<lambda>u. in_w (cons u)"] f [of "\<lambda>u. in_e (cons u)"]
      f [of "\<lambda>u. con_panicked (cons u)"] f [of "\<lambda>u. con_locking (cons u)"]
    by (simp_all add: unseen_def)
qed

lemma CRTPORT_simps [simp]: "CRTPORT \<noteq> CRTPORT + 1" "CRTPORT + 1 \<noteq> CRTPORT" "COM1 + 5 \<noteq> CRTPORT + 1" "COM1 \<noteq> CRTPORT" "COM1 \<noteq> CRTPORT + 1"
  by (simp_all add: CRTPORT_def COM1_def)

lemma byte_split: "pos < 65536 \<Longrightarrow> unat (of_nat (pos div 256) :: byte) * 256 + unat (of_nat pos :: byte) = pos"
  by (simp add: unat_of_nat take_bit_eq_mod)

definition set_cursor :: "nat \<Rightarrow> console \<Rightarrow> console" where
  "set_cursor pos c = c\<lparr>crt_index := 15, crt_reg := (crt_reg c)(14 := of_nat (pos div 256), 15 := of_nat pos)\<rparr>"

text \<open>The cursor after a character, before and after scrolling.\<close>

definition step_pos :: "int \<Rightarrow> nat \<Rightarrow> nat" where
  "step_pos c pos = (if c = 10 then pos + (80 - pos mod 80) else if c = BACKSPACE then (if pos > 0 then pos - 1 else pos) else pos + 1)"

definition next_pos :: "int \<Rightarrow> nat \<Rightarrow> nat" where
  "next_pos c pos = (let p = step_pos c pos in if p div 80 \<ge> 24 then p - 80 else p)"

lemma newline_le:
  assumes "(pos :: nat) < 1920"
  shows "pos + (80 - pos mod 80) \<le> 1920"
proof -
  have "pos = 80 * (pos div 80) + pos mod 80" "pos mod 80 < 80" "pos div 80 \<le> 23" using assms by simp_all
  then show ?thesis by linarith
qed

lemma step_pos_le: "pos < 1920 \<Longrightarrow> step_pos c pos \<le> 1920"
  using newline_le [of pos] by (auto simp: step_pos_def)

lemma next_pos_less: "pos < 1920 \<Longrightarrow> next_pos c pos < 1920"
  using step_pos_le [of pos c] by (auto simp: next_pos_def Let_def)

lemma length_scroll: "length sc = 2000 \<Longrightarrow> pos \<le> 1920 \<Longrightarrow> length (scroll pos sc) = 2000"
  by (auto simp: scroll_def Let_def min_def)

definition crt_char :: "int \<Rightarrow> nat \<Rightarrow> console \<Rightarrow> console" where
  "crt_char c pos k = (if c = 10 \<or> c = BACKSPACE then k else k\<lparr>crt := (crt k)[pos := (of_int c AND 0xff) OR 0x0700]\<rparr>)"

definition crt_scroll :: "nat \<Rightarrow> console \<Rightarrow> console" where
  "crt_scroll p k = (if p div 80 \<ge> 24 then k\<lparr>crt := scroll (p - 80) (crt k)\<rparr> else k)"

definition crt_cursor :: "nat \<Rightarrow> console \<Rightarrow> console" where
  "crt_cursor pos k = k\<lparr>crt_index := 15, crt_reg := (crt_reg k)(14 := of_nat (pos div 256), 15 := of_nat pos),
     crt := (crt k)[pos := 0x20 OR 0x0700]\<rparr>"

lemma length_crt_char [simp]: "length (crt (crt_char c pos k)) = length (crt k)"
  by (simp add: crt_char_def)

lemma length_crt_scroll: "length (crt k) = 2000 \<Longrightarrow> p \<le> 1920 \<Longrightarrow> length (crt (crt_scroll p k)) = 2000"
  by (simp add: crt_scroll_def length_scroll)

lemma crt_blank:
  "(crt_char c p k)\<lparr>crt_index := i, crt_reg := r, crt := x\<rparr> = k\<lparr>crt_index := i, crt_reg := r, crt := x\<rparr>"
  "(crt_scroll p k)\<lparr>crt_index := i, crt_reg := r, crt := x\<rparr> = k\<lparr>crt_index := i, crt_reg := r, crt := x\<rparr>"
  "(crt_cursor p k)\<lparr>crt_index := i, crt_reg := r, crt := x\<rparr> = k\<lparr>crt_index := i, crt_reg := r, crt := x\<rparr>"
  by (simp_all add: crt_char_def crt_scroll_def crt_cursor_def)

lemma outb_crt: "outb CRTPORT v s = Ok () (s\<lparr>ios := ios s @ [Outb CRTPORT v], cons := (cons s)\<lparr>crt_index := v\<rparr>\<rparr>)"
  "outb (CRTPORT + 1) v s = Ok () (s\<lparr>ios := ios s @ [Outb (CRTPORT + 1) v],
     cons := (cons s)\<lparr>crt_reg := (crt_reg (cons s))(crt_index (cons s) := v)\<rparr>\<rparr>)"
  by (simp_all add: outb_def)

lemma inb_crt: "inb (CRTPORT + 1) s = Ok (crt_reg (cons s) (crt_index (cons s))) s"
  by (simp add: inb_def)

lemma set_crt_eq: "pos < length (crt (cons s)) \<Longrightarrow> set_crt pos w s = Ok () (s\<lparr>cons := (cons s)\<lparr>crt := (crt (cons s))[pos := w]\<rparr>\<rparr>)"
  by (simp add: set_crt_def)

lemma cga_pos_eq:
  "cga_pos s = Ok (crt_pos (cons s)) (s\<lparr>ios := ios s @ [Outb CRTPORT 14, Outb CRTPORT 15], cons := (cons s)\<lparr>crt_index := 15\<rparr>\<rparr>)"
  by (simp add: cga_pos_def outb_crt inb_crt crt_pos_def)

lemma cga_char_eq:
  assumes "length (crt (cons s)) = 2000" "p < 1920"
  shows "cga_char c p s = Ok (step_pos c p) (s\<lparr>cons := crt_char c p (cons s)\<rparr>)"
  using assms by (auto simp: cga_char_def step_pos_def crt_char_def set_crt_eq)

lemma cga_scroll_eq:
  assumes "p \<le> 1920"
  shows "cga_scroll p s = Ok (if p div 80 \<ge> 24 then p - 80 else p) (s\<lparr>cons := crt_scroll p (cons s)\<rparr>)"
  using assms by (auto simp: cga_scroll_def crt_scroll_def)

lemma cga_cursor_eq:
  assumes "length (crt (cons s)) = 2000" "p < 1920"
  shows "cga_cursor p s = Ok () (s\<lparr>ios := ios s @ [Outb CRTPORT 14, Outb (CRTPORT + 1) (of_nat (p div 256)), Outb CRTPORT 15,
     Outb (CRTPORT + 1) (of_nat p)], cons := crt_cursor p (cons s)\<rparr>)"
  using assms by (simp add: cga_cursor_def outb_crt set_crt_eq crt_cursor_def)

lemma crt_pos_cursor: "pos < 65536 \<Longrightarrow> crt_pos (crt_cursor pos k) = pos"
  using byte_split [of pos] by (simp add: crt_pos_def crt_cursor_def)

lemma cgaputc_returns:
  assumes "crt_ok (cons s)"
  shows "returns (cgaputc c) s (\<lambda>_ t. crt_ok (cons t) \<and> crt_pos (cons t) = next_pos c (crt_pos (cons s)) \<and> unseen t = unseen s)"
proof -
  let ?p = "crt_pos (cons s)"
  have l: "length (crt (cons s)) = 2000" "?p < 1920" using assms by (simp_all add: crt_ok_def)
  have n: "next_pos c ?p < 1920" by (rule next_pos_less [OF l(2)])
  have st: "step_pos c ?p \<le> 1920" by (rule step_pos_le [OF l(2)])
  have np: "(if 24 \<le> step_pos c ?p div 80 then step_pos c ?p - 80 else step_pos c ?p) = next_pos c ?p" by (simp add: next_pos_def Let_def)
  let ?k = "crt_scroll (step_pos c ?p) (crt_char c ?p ((cons s)\<lparr>crt_index := 15\<rparr>))"
  have k: "length (crt ?k) = 2000" using l st by (simp add: length_crt_scroll)
  have pos: "crt_pos (crt_cursor (next_pos c ?p) ?k) = next_pos c ?p"
    using n by (intro crt_pos_cursor) simp
  have "crt_ok (crt_cursor (next_pos c ?p) ?k)" using pos n k by (simp add: crt_ok_def) (simp add: crt_cursor_def)
  then show ?thesis
    using l st n k pos
    by (simp add: returns_def cgaputc_def cga_pos_eq cga_char_eq cga_scroll_eq np cga_cursor_eq crt_blank unseen_def)
qed


lemma unseen_ports: "unseen (s\<lparr>ios := x\<rparr>) = unseen s" "unseen (s\<lparr>ins := y\<rparr>) = unseen s"
  by (simp_all add: unseen_def)

lemma uart_wait_returns: "returns (uart_wait k) s (\<lambda>_ t. cons t = cons s \<and> unseen t = unseen s)"
proof (induction k arbitrary: s)
  case (Suc k)
  show ?case
    using Suc.IH [of "s\<lparr>ins := drop 1 (ins s)\<rparr>"]
    by (auto simp: returns_bind inb_def dev_in_def returns_andthen unseen_ports returns_def)
qed (simp add: returns_def)

lemma uartputc_returns: "returns (uartputc c) s (\<lambda>_ t. cons t = cons s \<and> unseen t = unseen s)"
proof -
  have "returns (andthen (uart_wait 128) (outb (COM1 + 0) c)) s (\<lambda>_ t. cons t = cons s \<and> unseen t = unseen s)"
    unfolding returns_andthen by (rule returns_mono [OF uart_wait_returns]) (simp add: outb_def returns_def unseen_ports)
  then show ?thesis by (simp add: uartputc_def do_if_def returns_def)
qed

lemma consputc_returns:
  assumes "crt_ok (cons s)" "\<not> con_panicked (cons s)"
  shows "returns (consputc c) s (\<lambda>_ t. crt_ok (cons t) \<and> unseen t = unseen s)"
proof -
  let ?u = "if c = BACKSPACE then andthen (uartputc 8) (andthen (uartputc 0x20) (uartputc 8)) else uartputc (of_int c)"
  have "returns ?u s (\<lambda>_ t. cons t = cons s \<and> unseen t = unseen s)"
    using uartputc_returns by (auto simp: returns_andthen intro!: returns_mono [OF uartputc_returns] elim!: returns_mono)
  then obtain t where t: "?u s = Ok () t" "cons t = cons s" "unseen t = unseen s" by (auto elim!: returnsE)
  have "returns (cgaputc c) t (\<lambda>_ u. crt_ok (cons u) \<and> unseen u = unseen s)"
    by (rule returns_mono [OF cgaputc_returns]) (use assms t in auto)
  then show ?thesis using assms(2) t(1) by (simp add: consputc_def returns_def)
qed


section \<open>The input buffer\<close>

text \<open>Between \<open>r\<close> and \<open>w\<close> the finished lines, between \<open>w\<close> and \<open>e\<close> the line being edited.\<close>

definition finished :: "console \<Rightarrow> byte list" where
  "finished c = ring_items INPUT_BUF (in_buf c) (in_r c) (in_w c)"

definition pending :: "console \<Rightarrow> byte list" where
  "pending c = ring_items INPUT_BUF (in_buf c) (in_w c) (in_e c)"

definition inp_ok :: "console \<Rightarrow> bool" where
  "inp_ok c \<longleftrightarrow> ring_ok INPUT_BUF (in_buf c) (in_r c) (in_e c) \<and> unat (in_w c - in_r c) \<le> unat (in_e c - in_r c)
     \<and> 10 \<notin> set (pending c)"

text \<open>What typing a character does to the finished lines and the line being edited.\<close>

definition edit_line :: "int \<Rightarrow> byte list \<times> byte list \<Rightarrow> byte list \<times> byte list" where
  "edit_line c x = (case x of (fin, line) \<Rightarrow>
    if c = 0x15 then (fin, [])
    else if c = 8 \<or> c = 0x7f then (fin, butlast line)
    else if c = 0 \<or> length fin + length line \<ge> INPUT_BUF then (fin, line)
    else let line' = line @ [if c = 13 then 10 else of_int c] in
      if c \<in> {10, 13, 4} \<or> length fin + length line' = INPUT_BUF then (fin @ line', []) else (fin, line'))"

definition con_ok :: "kernel \<Rightarrow> bool" where
  "con_ok s \<longleftrightarrow> crt_ok (cons s) \<and> \<not> con_panicked (cons s) \<and> inp_ok (cons s)
     \<and> lock_free L_ptable s \<and> cpu_ok s \<and> length (procs s) = NPROC"

lemma INPUT_BUF_ring: "INPUT_BUF dvd 2 ^ 32" "INPUT_BUF \<le> 2 ^ 31" "INPUT_BUF < 2 ^ 32"
  by (simp_all add: INPUT_BUF_def)

lemma inp_lengths:
  assumes "inp_ok c"
  shows "unat (in_e c - in_r c) = length (finished c) + length (pending c)" "length (finished c) + length (pending c) \<le> INPUT_BUF"
  using assms ring_sub [of "in_w c" "in_r c" "in_e c"] by (simp_all add: inp_ok_def finished_def pending_def ring_ok_def)

text \<open>Only the counters and the array matter.\<close>

lemma inp_cong:
  assumes "in_buf c = in_buf d" "in_r c = in_r d" "in_w c = in_w d" "in_e c = in_e d"
  shows "finished c = finished d" "pending c = pending d" "inp_ok c = inp_ok d"
  using assms by (simp_all add: finished_def pending_def inp_ok_def)

lemma con_ok_unseen:
  assumes "con_ok s" "unseen t = unseen s" "crt_ok (cons t)"
  shows "con_ok t" "finished (cons t) = finished (cons s)" "pending (cons t) = pending (cons s)" "procs t = procs s"
  using assms(1,3) unseenD [OF assms(2)] inp_cong [of "cons t" "cons s"]
  by (simp_all add: con_ok_def lock_free_def cpu_ok_def)

lemma back_up:
  assumes "inp_ok c" "pending c \<noteq> []"
  defines "d \<equiv> c\<lparr>in_e := in_e c - 1\<rparr>"
  shows "inp_ok d" "finished d = finished c" "pending d = butlast (pending c)" "in_e c \<noteq> in_w c"
    "input_at c (in_e c - 1) = last (pending c)"
proof -
  show ne: "in_e c \<noteq> in_w c" using assms(2) by (auto simp: pending_def ring_items_empty)
  note sn = ring_items_snoc(1) [OF ne [symmetric], of INPUT_BUF "in_buf c"] ring_items_snoc(2) [OF ne [symmetric]]
  have p: "pending c = pending d @ [input_at c (in_e c - 1)]"
    using sn(1) by (simp add: pending_def d_def input_at_def)
  then show "pending d = butlast (pending c)" "input_at c (in_e c - 1) = last (pending c)" by simp_all
  show "finished d = finished c" by (simp add: finished_def d_def)
  have er: "unat (in_e c - in_r c) = unat (in_w c - in_r c) + unat (in_e c - in_w c)"
    using inp_lengths(1) [OF assms(1)] by (simp add: finished_def pending_def)
  then have "in_e c \<noteq> in_r c" using sn(2) by auto
  then have e1: "unat (in_e c - in_r c) = Suc (unat (in_e c - 1 - in_r c))"
    using ring_items_snoc(2) [of "in_r c" "in_e c"] by simp
  have "10 \<notin> set (pending d)" using assms(1) p by (simp add: inp_ok_def)
  then show "inp_ok d" using assms(1) er sn(2) e1 by (simp add: inp_ok_def d_def ring_ok_def)
qed

lemma type_on:
  assumes "inp_ok c" "length (finished c) + length (pending c) < INPUT_BUF" "b \<noteq> 10"
  defines "d \<equiv> c\<lparr>in_buf := (in_buf c)[unat (in_e c) mod INPUT_BUF := b], in_e := in_e c + 1\<rparr>"
  shows "inp_ok d" "finished d = finished c" "pending d = pending c @ [b]"
proof -
  have r: "ring_ok INPUT_BUF (in_buf c) (in_r c) (in_e c)" "unat (in_w c - in_r c) \<le> unat (in_e c - in_r c)"
    "unat (in_e c - in_r c) < INPUT_BUF"
    using assms(1,2) inp_lengths(1) [OF assms(1)] by (simp_all add: inp_ok_def)
  note k = ring_items_keep [OF r INPUT_BUF_ring(1,2), of b]
  show "finished d = finished c" "pending d = pending c @ [b]" using k by (simp_all add: finished_def pending_def d_def)
  moreover have "unat (in_e c + 1 - in_r c) = Suc (unat (in_e c - in_r c))" by (rule ring_count_push [OF r(3) INPUT_BUF_ring(2)])
  ultimately show "inp_ok d" using assms(1,3) r by (simp add: inp_ok_def d_def ring_ok_def)
qed

lemma finish_line:
  fixes b :: byte
  assumes "inp_ok c" "length (finished c) + length (pending c) < INPUT_BUF"
  defines "d \<equiv> c\<lparr>in_buf := (in_buf c)[unat (in_e c) mod INPUT_BUF := b], in_e := in_e c + 1\<rparr>"
  shows "inp_ok (d\<lparr>in_w := in_e d\<rparr>)" "finished (d\<lparr>in_w := in_e d\<rparr>) = finished c @ pending c @ [b]" "pending (d\<lparr>in_w := in_e d\<rparr>) = []"
proof -
  have r: "ring_ok INPUT_BUF (in_buf c) (in_r c) (in_e c)" "unat (in_e c - in_r c) < INPUT_BUF"
    and w: "unat (in_w c - in_r c) \<le> unat (in_e c - in_r c)"
    using assms(1,2) inp_lengths(1) [OF assms(1)] by (simp_all add: inp_ok_def)
  show p: "pending (d\<lparr>in_w := in_e d\<rparr>) = []" by (simp add: pending_def ring_items_def)
  show "finished (d\<lparr>in_w := in_e d\<rparr>) = finished c @ pending c @ [b]"
    using ring_items_push [OF r INPUT_BUF_ring(1,2), of b] ring_items_split [OF w, of INPUT_BUF "in_buf c"]
    by (simp add: finished_def pending_def d_def)
  show "inp_ok (d\<lparr>in_w := in_e d\<rparr>)"
    using p r ring_count_push [OF r(2) INPUT_BUF_ring(2)] by (simp add: inp_ok_def d_def ring_ok_def)
qed


section \<open>Editing\<close>

lemma put_char:
  assumes "con_ok s"
  shows "returns (consputc c) s (\<lambda>_ t. con_ok t \<and> finished (cons t) = finished (cons s) \<and> pending (cons t) = pending (cons s)
     \<and> procs t = procs s \<and> in_buf (cons t) = in_buf (cons s) \<and> in_r (cons t) = in_r (cons s) \<and> in_w (cons t) = in_w (cons s)
     \<and> in_e (cons t) = in_e (cons s))"
proof (rule returns_mono [OF consputc_returns])
  show "crt_ok (cons s)" "\<not> con_panicked (cons s)" using assms by (simp_all add: con_ok_def)
next
  fix t assume t: "crt_ok (cons t) \<and> unseen t = unseen s"
  note u = unseenD [OF conjunct2 [OF t]] and k = con_ok_unseen [OF assms conjunct2 [OF t] conjunct1 [OF t]]
  show "con_ok t \<and> finished (cons t) = finished (cons s) \<and> pending (cons t) = pending (cons s)
     \<and> procs t = procs s \<and> in_buf (cons t) = in_buf (cons s) \<and> in_r (cons t) = in_r (cons s) \<and> in_w (cons t) = in_w (cons s)
     \<and> in_e (cons t) = in_e (cons s)"
    using u k by simp
qed

lemma con_ok_cons: "con_ok (s\<lparr>cons := c\<rparr>) \<longleftrightarrow> crt_ok c \<and> \<not> con_panicked c \<and> inp_ok c
     \<and> lock_free L_ptable s \<and> cpu_ok s \<and> length (procs s) = NPROC"
  by (simp add: con_ok_def)

lemma rub_out:
  assumes "con_ok s" "pending (cons s) \<noteq> []"
  shows "returns (andthen (set_input (\<lambda>c. c\<lparr>in_e := in_e c - 1\<rparr>)) (consputc BACKSPACE)) s
     (\<lambda>_ t. con_ok t \<and> finished (cons t) = finished (cons s) \<and> pending (cons t) = butlast (pending (cons s)) \<and> procs t = procs s)"
proof -
  let ?s = "s\<lparr>cons := (cons s)\<lparr>in_e := in_e (cons s) - 1\<rparr>\<rparr>"
  have inp: "inp_ok (cons s)" using assms(1) by (simp add: con_ok_def)
  note b = back_up [OF inp assms(2)]
  have "con_ok ?s" using assms(1) b(1) by (simp add: con_ok_def crt_ok_def crt_pos_def)
  from put_char [OF this, of BACKSPACE] have "returns (consputc BACKSPACE) ?s
     (\<lambda>_ t. con_ok t \<and> finished (cons t) = finished (cons s) \<and> pending (cons t) = butlast (pending (cons s)) \<and> procs t = procs s)"
    by (rule returns_mono) (use b in simp)
  then show ?thesis by (simp add: set_input_def returns_def)
qed

lemma kill_line_returns:
  assumes "con_ok s" "length (pending (cons s)) < k"
  shows "returns (kill_line k) s (\<lambda>_ t. con_ok t \<and> finished (cons t) = finished (cons s) \<and> pending (cons t) = [] \<and> procs t = procs s)"
  using assms
proof (induction k arbitrary: s)
  case (Suc k)
  have inp: "inp_ok (cons s)" using Suc.prems(1) by (simp add: con_ok_def)
  show ?case
  proof (cases "pending (cons s) = []")
    case True
    then have "in_e (cons s) = in_w (cons s)" by (auto simp: pending_def ring_items_empty)
    then show ?thesis using True Suc.prems(1) by (simp add: returns_def)
  next
    case False
    note b = back_up [OF inp False]
    have nl: "input_at (cons s) (in_e (cons s) - 1) \<noteq> 10"
      using b(5) last_in_set [OF False] inp by (auto simp: inp_ok_def)
    from rub_out [OF Suc.prems(1) False] obtain t where
      t: "andthen (set_input (\<lambda>c. c\<lparr>in_e := in_e c - 1\<rparr>)) (consputc BACKSPACE) s = Ok () t" "con_ok t"
        "finished (cons t) = finished (cons s)" "pending (cons t) = butlast (pending (cons s))" "procs t = procs s" by (auto elim!: returnsE)
    have "length (pending (cons t)) < k" using t(4) False Suc.prems(2) by (cases "pending (cons s)" rule: rev_cases) auto
    from Suc.IH [OF t(2) this] show ?thesis
      using b(4) nl t by (simp add: returns_def andthen_assoc [symmetric])
  qed
qed simp

lemma con_ok_wake: "con_ok s \<Longrightarrow> con_ok (touch (wake_all ch s))"
  by (simp add: con_ok_def wake_all_def)

text \<open>A character that is neither erased nor ignored.\<close>

definition con_frame :: "kernel \<Rightarrow> kernel \<Rightarrow> bool" where
  "con_frame s t \<longleftrightarrow> locks t = locks s \<and> c_ncli (mycpu t) = c_ncli (mycpu s) \<and> inodes t = inodes s"

definition commits :: "int \<Rightarrow> kernel \<Rightarrow> bool" where
  "commits c s \<longleftrightarrow> c = 10 \<or> c = 4 \<or> Suc (length (finished (cons s)) + length (pending (cons s))) = INPUT_BUF"

lemma enter_char:
  assumes "con_ok s" "length (finished (cons s)) + length (pending (cons s)) < INPUT_BUF" "0 < c" "c < 256"
  shows "returns (andthen (set_input (\<lambda>x. x\<lparr>in_buf := (in_buf x)[unat (in_e x) mod INPUT_BUF := of_int c]\<rparr>))
          (andthen (set_input (\<lambda>x. x\<lparr>in_e := in_e x + 1\<rparr>))
          (andthen (consputc c)
          (bind (gets cons) (\<lambda>con.
          do_if (c = 10 \<or> c = 4 \<or> in_e con = in_r con + of_nat INPUT_BUF)
            (andthen (set_input (\<lambda>x. x\<lparr>in_w := in_e x\<rparr>))
            (wakeup Ch_input))))))) s
     (\<lambda>_ t. con_ok t \<and> con_frame s t \<and> (if commits c s
        then finished (cons t) = finished (cons s) @ pending (cons s) @ [of_int c] \<and> pending (cons t) = []
          \<and> procs t = map (wake (Some Ch_input)) (procs s)
        else finished (cons t) = finished (cons s) \<and> pending (cons t) = pending (cons s) @ [of_int c] \<and> procs t = procs s))"
proof -
  let ?b = "of_int c :: byte"
  let ?d = "(cons s)\<lparr>in_buf := (in_buf (cons s))[unat (in_e (cons s)) mod INPUT_BUF := ?b], in_e := in_e (cons s) + 1\<rparr>"
  let ?s = "s\<lparr>cons := ?d\<rparr>"
  have inp: "inp_ok (cons s)" and ok: "crt_ok (cons s)" "\<not> con_panicked (cons s)" "lock_free L_ptable s" "cpu_ok s" "length (procs s) = NPROC"
    using assms(1) by (simp_all add: con_ok_def)
  from consputc_returns [of ?s c] obtain t where t: "consputc c ?s = Ok () t" "crt_ok (cons t)" "unseen t = unseen ?s"
    using ok by (auto simp: crt_ok_def crt_pos_def elim!: returnsE)
  note u = unseenD [OF t(3)]
  have lt: "lock_free L_ptable t" "cpu_ok t" "length (procs t) = NPROC" "\<not> con_panicked (cons t)"
    using ok u by (simp_all add: lock_free_def cpu_ok_def)
  have ring: "ring_ok INPUT_BUF (in_buf (cons s)) (in_r (cons s)) (in_e (cons s))" using inp by (simp add: inp_ok_def)
  have room: "unat (in_e (cons s) - in_r (cons s)) < INPUT_BUF" using inp_lengths(1) [OF inp] assms(2) by simp
  have e1: "unat (in_e (cons s) + 1 - in_r (cons s)) = Suc (length (finished (cons s)) + length (pending (cons s)))"
    using ring_count_push [OF room INPUT_BUF_ring(2)] inp_lengths(1) [OF inp] by simp
  have full: "in_e (cons t) = in_r (cons t) + of_nat INPUT_BUF \<longleftrightarrow> Suc (length (finished (cons s)) + length (pending (cons s))) = INPUT_BUF"
    using ring_full [of INPUT_BUF "in_buf ?d" "in_r (cons s)" "in_e ?d"] ring assms(2) e1 u INPUT_BUF_ring(3)
    by (simp add: ring_ok_def)
  show ?thesis
  proof (cases "commits c s")
    case True
    let ?t = "touch (wake_all (Some Ch_input) (t\<lparr>cons := (cons t)\<lparr>in_w := in_e (cons t)\<rparr>\<rparr>))"
    note f = finish_line [OF inp assms(2), where b = ?b]
    have same: "finished ((cons t)\<lparr>in_w := in_e (cons t)\<rparr>) = finished (?d\<lparr>in_w := in_e ?d\<rparr>)"
      "pending ((cons t)\<lparr>in_w := in_e (cons t)\<rparr>) = pending (?d\<lparr>in_w := in_e ?d\<rparr>)"
      "inp_ok ((cons t)\<lparr>in_w := in_e (cons t)\<rparr>) = inp_ok (?d\<lparr>in_w := in_e ?d\<rparr>)"
      by (intro inp_cong; use u in simp)+
    have "con_ok ?t"
      by (rule con_ok_wake) (use f same lt t(2) in \<open>simp add: con_ok_cons crt_ok_def crt_pos_def\<close>)
    moreover have "wakeup Ch_input (t\<lparr>cons := (cons t)\<lparr>in_w := in_e (cons t)\<rparr>\<rparr>) = Ok () ?t"
      by (rule wakeup_ok) (use lt in simp_all)
    moreover have "c = 10 \<or> c = 4 \<or> in_e (cons t) = in_r (cons t) + of_nat INPUT_BUF"
      using True full by (auto simp: commits_def)
    ultimately show ?thesis
      using True t(1) f same u by (simp add: returns_def set_input_def wake_all_def con_frame_def)
  next
    case False
    have b10: "?b \<noteq> 10"
    proof
      assume "?b = 10"
      then have "uint (of_int c :: byte) = uint (10 :: byte)" by simp
      then show False using assms(3,4) False by (simp add: commits_def uint_word_of_int_eq take_bit_eq_mod)
    qed
    note f = type_on [OF inp assms(2) b10]
    have same: "finished (cons t) = finished ?d" "pending (cons t) = pending ?d" "inp_ok (cons t) = inp_ok ?d"
      by (intro inp_cong; use u in simp)+
    have "\<not> (c = 10 \<or> c = 4 \<or> in_e (cons t) = in_r (cons t) + of_nat INPUT_BUF)"
      using False full by (auto simp: commits_def)
    moreover have "con_ok t" using f same lt t(2) by (simp add: con_ok_def)
    ultimately show ?thesis
      using False t(1) f same u by (simp add: returns_def set_input_def con_frame_def)
  qed
qed


lemma console_char_plain:
  assumes "con_ok s" "length (finished (cons s)) + length (pending (cons s)) < INPUT_BUF" "0 < c" "c < 256"
    and "c \<notin> {0x10, 0x15, 8, 0x7f}"
  defines "b \<equiv> if c = 13 then 10 else c"
  shows "returns (console_char c) s (\<lambda>_ t. con_ok t \<and> con_frame s t \<and> (if commits b s
        then finished (cons t) = finished (cons s) @ pending (cons s) @ [of_int b] \<and> pending (cons t) = []
          \<and> procs t = map (wake (Some Ch_input)) (procs s)
        else finished (cons t) = finished (cons s) \<and> pending (cons t) = pending (cons s) @ [of_int b] \<and> procs t = procs s))"
proof -
  have inp: "inp_ok (cons s)" using assms(1) by (simp add: con_ok_def)
  have "in_e (cons s) - in_r (cons s) < of_nat INPUT_BUF"
    using inp_lengths(1) [OF inp] assms(2) by (simp add: word_less_nat_alt INPUT_BUF_def)
  moreover have "0 < b" "b < 256" using assms(3,4) by (simp_all add: b_def)
  ultimately show ?thesis
    using enter_char [OF assms(1,2), of b] assms(3,5)
    by (simp add: console_char_def returns_def Let_def b_def)
qed

text \<open>
  C19. Editing the input line: for every character but control-P, \<open>consoleintr\<close> changes the
  finished lines and the line being edited exactly as \<open>edit_line\<close> says: control-U drops the
  line, backspace its last character, a full buffer ignores the character, and newline,
  carriage return, control-D or the last free place finish the line and wake the readers.
  The buffer and the screen stay well-formed.
\<close>

theorem console_edits:
  assumes "con_ok s" "0 \<le> c" "c < 256" "c \<noteq> 0x10"
  shows "returns (console_char c) s (\<lambda>_ t. con_ok t
     \<and> (finished (cons t), pending (cons t)) = edit_line c (finished (cons s), pending (cons s))
     \<and> (finished (cons t) \<noteq> finished (cons s) \<longrightarrow> procs t = map (wake (Some Ch_input)) (procs s)))"
proof -
  have inp: "inp_ok (cons s)" using assms(1) by (simp add: con_ok_def)
  have empty: "pending (cons s) = [] \<longleftrightarrow> in_e (cons s) = in_w (cons s)" by (auto simp: pending_def ring_items_empty)
  consider "c = 0x15" | "c = 8 \<or> c = 0x7f" | "c \<notin> {0x15, 8, 0x7f}" "c = 0 \<or> length (finished (cons s)) + length (pending (cons s)) \<ge> INPUT_BUF"
    | "c \<notin> {0x15, 8, 0x7f}" "0 < c" "length (finished (cons s)) + length (pending (cons s)) < INPUT_BUF"
    using assms(2) by force
  then show ?thesis
  proof cases
    case 1
    have "length (pending (cons s)) < Suc (unat (in_e (cons s) - in_w (cons s)))" by (simp add: pending_def)
    from kill_line_returns [OF assms(1) this] show ?thesis
      using 1 by (simp add: console_char_def returns_def edit_line_def del: kill_line.simps split: outcome.splits)
  next
    case 2
    show ?thesis
    proof (cases "pending (cons s) = []")
      case True
      then show ?thesis using 2 assms(1) empty by (auto simp: console_char_def returns_def edit_line_def)
    next
      case False
      have "returns (console_char c) s (\<lambda>_ t. con_ok t \<and> finished (cons t) = finished (cons s)
          \<and> pending (cons t) = butlast (pending (cons s)) \<and> procs t = procs s)"
        using rub_out [OF assms(1) False] 2 False empty by (auto simp: console_char_def returns_def)
      then show ?thesis by (rule returns_mono) (use 2 in \<open>auto simp: edit_line_def\<close>)
    qed
  next
    case 3
    then have "(c \<noteq> 0 \<and> in_e (cons s) - in_r (cons s) < of_nat INPUT_BUF) = False"
      using inp_lengths(1) [OF inp] by (auto simp: word_less_nat_alt INPUT_BUF_def)
    then have "console_char c s = Ok () s" using 3 assms(4) by (cases "c = 0") (simp_all add: console_char_def)
    then show ?thesis using 3 assms by (auto simp: returns_def edit_line_def)
  next
    case 4
    show ?thesis
      by (rule returns_mono [OF console_char_plain [OF assms(1) 4(3,2) assms(3)]])
        (use 4 assms(4) in \<open>auto simp: edit_line_def commits_def Let_def split: if_splits\<close>)
  qed
qed


section \<open>Reading lines\<close>

lemma ilock_valid:
  assumes "lock_free L_icache s" "cpu_ok s" "1 \<le> i_ref (inodes s ! ip)" "\<not> i_busy (inodes s ! ip)" "i_valid (inodes s ! ip)"
  shows "ilock (Some ip) s = Ok () (touch (set_inode ip (\<lambda>n. n\<lparr>i_busy := True\<rparr>) s))"
  using assms by (cases "ip < length (inodes s)")
    (simp_all add: ilock_def ilock_loop_def ilock_load_def acquire_ok release_ok set_inode_def list_update_beyond)

lemma iunlock_ok:
  assumes "lock_free L_icache s" "lock_free L_ptable s" "cpu_ok s" "length (procs s) = NPROC"
    and "1 \<le> i_ref (inodes s ! ip)" "i_busy (inodes s ! ip)"
  shows "iunlock (Some ip) s = Ok () (touch (wake_all (Some (Ch_inode ip)) (set_inode ip (\<lambda>n. n\<lparr>i_busy := False\<rparr>) s)))"
  using assms by (simp add: iunlock_def acquire_ok release_ok wakeup_ok set_inode_def wake_all_def)

lemma take_char:
  assumes "inp_ok c" "finished c = b # q"
  shows "in_r c \<noteq> in_w c" "input_at c (in_r c) = b" "inp_ok (c\<lparr>in_r := in_r c + 1\<rparr>)" "finished (c\<lparr>in_r := in_r c + 1\<rparr>) = q"
    "pending (c\<lparr>in_r := in_r c + 1\<rparr>) = pending c"
proof -
  show ne: "in_r c \<noteq> in_w c" using assms(2) by (auto simp: finished_def ring_items_def)
  note p = ring_items_pop [OF ne, of INPUT_BUF "in_buf c"] ring_count_pop [OF ne]
  show "input_at c (in_r c) = b" "finished (c\<lparr>in_r := in_r c + 1\<rparr>) = q"
    using p(1) assms(2) by (simp_all add: finished_def input_at_def)
  show pe: "pending (c\<lparr>in_r := in_r c + 1\<rparr>) = pending c" by (simp add: pending_def)
  have "unat (in_e c - in_r c) = length (finished c) + length (pending c)" by (rule inp_lengths(1) [OF assms(1)])
  then have "in_r c \<noteq> in_e c" using assms(2) by auto
  from ring_count_pop [OF this] show "inp_ok (c\<lparr>in_r := in_r c + 1\<rparr>)"
    using assms(1) p(2) pe by (simp add: inp_ok_def ring_ok_def)
qed

lemma consoleread_loop_line:
  assumes "inp_ok (cons s)" "finished (cons s) = line @ 10 # rest" "4 \<notin> set line" "10 \<notin> set line" "length line < n"
  shows "\<exists>c. consoleread_loop ip target n acc s
       = andthen (release L_input) (andthen (ilock (Some ip)) (return (Some (acc @ line @ [10])))) (s\<lparr>cons := c\<rparr>)
     \<and> finished c = rest \<and> pending c = pending (cons s) \<and> inp_ok c \<and> crt_ok c = crt_ok (cons s)
     \<and> con_panicked c = con_panicked (cons s)"
  using assms
proof (induction n arbitrary: s line acc)
  case (Suc n)
  show ?case
  proof (cases line)
    case Nil
    note t = take_char [OF Suc.prems(1), of 10 rest]
    show ?thesis
      by (rule exI [of _ "(cons s)\<lparr>in_r := in_r (cons s) + 1\<rparr>"])
        (use Suc.prems Nil t in \<open>simp add: set_input_def Let_def crt_ok_def crt_pos_def return_def\<close>)
  next
    case (Cons b l)
    note t = take_char [OF Suc.prems(1), of b "l @ 10 # rest"]
    let ?s = "s\<lparr>cons := (cons s)\<lparr>in_r := in_r (cons s) + 1\<rparr>\<rparr>"
    have "inp_ok (cons ?s)" "finished (cons ?s) = l @ 10 # rest" using t Suc.prems(2) Cons by simp_all
    moreover have "4 \<notin> set l" "10 \<notin> set l" "length l < n" using Suc.prems Cons by simp_all
    ultimately obtain c where c: "consoleread_loop ip target n (acc @ [b]) ?s
       = andthen (release L_input) (andthen (ilock (Some ip)) (return (Some ((acc @ [b]) @ l @ [10])))) (?s\<lparr>cons := c\<rparr>)"
      "finished c = rest" "pending c = pending (cons ?s)" "inp_ok c" "crt_ok c = crt_ok (cons ?s)"
      "con_panicked c = con_panicked (cons ?s)" using Suc.IH [of ?s l "acc @ [b]"] by blast
    show ?thesis
      by (rule exI [of _ c]) (use c t Suc.prems Cons in \<open>simp add: set_input_def Let_def crt_ok_def crt_pos_def return_def\<close>)
  qed
qed simp

lemma busy_again: "i_busy n \<Longrightarrow> n\<lparr>i_busy := True\<rparr> = n"
  by (cases n) simp

lemma consoleread_returns:
  assumes "con_ok s" "quiet s" "ip < length (inodes s)" "1 \<le> i_ref (inodes s ! ip)" "i_busy (inodes s ! ip)" "i_valid (inodes s ! ip)"
    and "finished (cons s) = line @ 10 # rest" "4 \<notin> set line" "10 \<notin> set line" "length line < nat n"
  shows "returns (consoleread ip n) s (\<lambda>r t. r = Some (line @ [10]) \<and> con_ok t \<and> finished (cons t) = rest
     \<and> pending (cons t) = pending (cons s) \<and> inodes t = inodes s)"
proof -
  let ?s = "touch (wake_all (Some (Ch_inode ip)) (set_inode ip (\<lambda>n. n\<lparr>i_busy := False\<rparr>) s))"
  have len: "length (procs s) = NPROC" "inp_ok (cons s)" using assms(1) by (simp_all add: con_ok_def)
  have un: "iunlock (Some ip) s = Ok () ?s"
    using assms len by (intro iunlock_ok) simp_all
  have cs: "cons (acq L_input ?s) = cons s" by (simp add: wake_all_def set_inode_def)
  have "inp_ok (cons (acq L_input ?s))" "finished (cons (acq L_input ?s)) = line @ 10 # rest" unfolding cs using assms(7) len by simp_all
  from consoleread_loop_line [OF this assms(8-10), of ip "of_int n" "[]", unfolded cs append_Nil] obtain c where
    c: "consoleread_loop ip (of_int n) (nat n) [] (acq L_input ?s)
       = andthen (release L_input) (andthen (ilock (Some ip)) (return (Some (line @ [10])))) ((acq L_input ?s)\<lparr>cons := c\<rparr>)"
    "finished c = rest" "pending c = pending (cons s)" "inp_ok c" "crt_ok c = crt_ok (cons s)" "con_panicked c = con_panicked (cons s)"
    by blast
  let ?t = "?s\<lparr>cons := c\<rparr>"
  have q: "quiet ?s" using assms(2) by (simp add: wake_all_def set_inode_def)
  have ino: "inodes ?s = (inodes s)[ip := (inodes s ! ip)\<lparr>i_busy := False\<rparr>]" by (simp add: wake_all_def set_inode_def)
  have lock: "ilock (Some ip) ?t = Ok () (touch (set_inode ip (\<lambda>n. n\<lparr>i_busy := True\<rparr>) ?t))"
    by (rule ilock_valid) (use q ino assms(3-6) in simp_all)
  have rel: "release L_input ((acq L_input ?s)\<lparr>cons := c\<rparr>) = Ok () ?t"
    using q by (simp add: release_ok)
  have "consoleread ip n s = Ok (Some (line @ [10])) (touch (set_inode ip (\<lambda>n. n\<lparr>i_busy := True\<rparr>) ?t))"
    unfolding consoleread_def using un q c(1) rel lock by (simp add: acquire_ok)
  moreover have "inodes (touch (set_inode ip (\<lambda>n. n\<lparr>i_busy := True\<rparr>) ?t)) = inodes s"
    using ino assms(3) busy_again [OF assms(5)] by (simp add: set_inode_def)
  moreover have "con_ok (touch (set_inode ip (\<lambda>n. n\<lparr>i_busy := True\<rparr>) ?t))"
    using assms(1) c by (simp add: con_ok_def set_inode_def wake_all_def)
  moreover have "cons (touch (set_inode ip (\<lambda>n. n\<lparr>i_busy := True\<rparr>) ?t)) = c" by (simp add: set_inode_def)
  ultimately show ?thesis using c by (simp add: returns_def)
qed


lemma quiet_frame_con: "con_frame s t \<Longrightarrow> quiet t = quiet s"
  by (simp add: con_frame_def quiet_def lock_free_def)

text \<open>Characters with no special meaning.\<close>

definition plain :: "int \<Rightarrow> bool" where
  "plain c \<longleftrightarrow> 0 < c \<and> c < 256 \<and> c \<notin> {4, 8, 10, 13, 0x10, 0x15, 0x7f}"

lemma type_plain:
  assumes "con_ok s" "\<forall>c \<in> set cs. plain c" "length (finished (cons s)) + length (pending (cons s)) + length cs < INPUT_BUF"
  shows "returns (foreach cs console_char) s (\<lambda>_ t. con_ok t \<and> con_frame s t \<and> finished (cons t) = finished (cons s)
     \<and> pending (cons t) = pending (cons s) @ map of_int cs)"
  using assms
proof (induction cs arbitrary: s)
  case Nil
  then show ?case by (simp add: con_frame_def returns_def)
next
  case (Cons c cs)
  have c: "0 < c" "c < 256" "c \<notin> {0x10, 0x15, 8, 0x7f}" "c \<noteq> 13" "\<not> commits c s"
    using Cons.prems by (auto simp: plain_def commits_def)
  have "length (finished (cons s)) + length (pending (cons s)) < INPUT_BUF" using Cons.prems(3) by simp
  from console_char_plain [OF Cons.prems(1) this c(1-3)] c(4,5) obtain t where t: "console_char c s = Ok () t" "con_ok t" "con_frame s t"
    "finished (cons t) = finished (cons s)" "pending (cons t) = pending (cons s) @ [of_int c]" by (auto elim!: returnsE)
  from Cons.IH [OF t(2)] Cons.prems t have "returns (foreach cs console_char) t (\<lambda>_ u. con_ok u \<and> con_frame t u
     \<and> finished (cons u) = finished (cons s) \<and> pending (cons u) = pending (cons s) @ map of_int (c # cs))" by simp
  then show ?case using t(1,3) by (auto simp: returns_def con_frame_def split: outcome.splits)
qed

text \<open>
  C20. A typed line is read: when a line of plain characters that fits into the buffer is
  typed at an idle console and ended with the return key, the next \<open>consoleread\<close> returns
  exactly the line with a newline at its end, and the buffer is empty again.
\<close>

theorem typed_line_read:
  assumes "con_ok s" "quiet s" "finished (cons s) = []" "pending (cons s) = []"
    and "ip < length (inodes s)" "1 \<le> i_ref (inodes s ! ip)" "i_busy (inodes s ! ip)" "i_valid (inodes s ! ip)"
    and "\<forall>c \<in> set cs. plain c" "length cs + 1 < INPUT_BUF" "length cs < nat n"
  shows "returns (andthen (foreach (cs @ [13]) console_char) (consoleread ip n)) s
     (\<lambda>r t. r = Some (map of_int cs @ [10]) \<and> con_ok t \<and> finished (cons t) = [] \<and> pending (cons t) = [] \<and> inodes t = inodes s)"
proof -
  from type_plain [OF assms(1,9)] assms(3,4,10) obtain t where t: "foreach cs console_char s = Ok () t" "con_ok t" "con_frame s t"
    "finished (cons t) = []" "pending (cons t) = map of_int cs" by (auto elim!: returnsE)
  have "length (finished (cons t)) + length (pending (cons t)) < INPUT_BUF" using t assms(10) by simp
  from console_char_plain [OF t(2) this, of 13] t obtain u where u: "console_char 13 t = Ok () u" "con_ok u" "con_frame t u"
    "finished (cons u) = map of_int cs @ [10]" "pending (cons u) = []" by (auto simp: commits_def elim!: returnsE)
  have n: "(of_int c :: byte) \<noteq> 10 \<and> (of_int c :: byte) \<noteq> 4" if "c \<in> set cs" for c
  proof -
    have "plain c" using that assms(9) by blast
    then have "uint (of_int c :: byte) = c" by (simp add: plain_def uint_word_of_int_eq take_bit_eq_mod)
    moreover have "c \<noteq> 10" "c \<noteq> 4" using \<open>plain c\<close> by (auto simp: plain_def)
    moreover have "uint (10 :: byte) = 10" "uint (4 :: byte) = 4" by simp_all
    ultimately show ?thesis by metis
  qed
  have q: "quiet u" "inodes u = inodes s" using t(3) u(3) assms(2) quiet_frame_con [of s t] quiet_frame_con [of t u] by (simp_all add: con_frame_def)
  have "returns (consoleread ip n) u (\<lambda>r v. r = Some (map of_int cs @ [10]) \<and> con_ok v \<and> finished (cons v) = [] \<and> pending (cons v) = pending (cons u)
     \<and> inodes v = inodes u)"
    by (rule consoleread_returns) (use u q assms n in auto)
  then show ?thesis using t(1) u(1,5) q(2) by (simp add: returns_def foreach_append andthen_assoc)
qed

text \<open>
  C22. The cursor stays on the screen: \<open>cgaputc\<close> returns for every character, without an
  access outside of the screen memory, and leaves the cursor above the last row, scrolling
  by one row exactly if it would get there.
\<close>

theorem cgaputc_bounds:
  assumes "crt_ok (cons s)"
  shows "returns (cgaputc c) s (\<lambda>_ t. crt_ok (cons t) \<and> crt_pos (cons t) = next_pos c (crt_pos (cons s)))"
  using cgaputc_returns [OF assms, of c] by (rule returns_mono) simp

section \<open>Concrete instances\<close>

text \<open>The kernel with an open, locked console.\<close>

definition at_console :: kernel where
  "at_console = boot0\<lparr>inodes := zero_inode\<lparr>i_ref := 1, i_busy := True, i_valid := True\<rparr> # replicate 49 zero_inode\<rparr>"

lemma at_console_facts: "con_ok at_console" "quiet at_console" "finished (cons at_console) = []" "pending (cons at_console) = []"
  by (simp_all add: con_ok_def quiet_def lock_free_def cpu_ok_def at_console_def boot0_def boot_kernel_def mycpu_def
      zero_spinlock_def zero_cpu_def zero_console_def crt_ok_def crt_pos_def inp_ok_def ring_ok_def finished_def pending_def
      ring_items_def INPUT_BUF_def)

lemma console_edits_witness:
  "returns (console_char 65) at_console (\<lambda>_ t. con_ok t \<and> finished (cons t) = [] \<and> pending (cons t) = [65])"
  using console_edits [OF at_console_facts(1), of 65] at_console_facts
  by (auto simp: edit_line_def INPUT_BUF_def elim!: returns_mono)

lemma typed_line_read_witness:
  "returns (andthen (foreach ([108, 115] @ [13]) console_char) (consoleread 0 100)) at_console
     (\<lambda>r t. r = Some [108, 115, 10] \<and> con_ok t \<and> finished (cons t) = [] \<and> pending (cons t) = [] \<and> inodes t = inodes at_console)"
  using typed_line_read [OF at_console_facts, of 0 "[108, 115]" 100]
  by (simp add: plain_def INPUT_BUF_def) (simp add: at_console_def)

lemma cgaputc_bounds_witness:
  "returns (cgaputc 10) at_console (\<lambda>_ t. crt_ok (cons t) \<and> crt_pos (cons t) = 80)"
proof -
  have "crt_pos (cons at_console) = 0" by (simp add: at_console_def boot0_def boot_kernel_def zero_console_def crt_pos_def)
  then show ?thesis
    using cgaputc_bounds [of at_console 10] at_console_facts(1) by (simp add: con_ok_def next_pos_def step_pos_def)
qed

end
