(* ===== verification/Maintains.thy ===== *)
theory Maintains
  imports Prelude
begin

text \<open>
  Routines that maintain a property of the state whatever their outcome: not only when they
  return, but also when they panic, switch to the scheduler, spin or fault.
\<close>

named_theorems maintains_rules \<open>rules that follow the structure of a routine\<close>

fun final :: "('s, 'a) outcome \<Rightarrow> 's" where
  "final (Ok a s) = s"
| "final (Panic e s) = s"
| "final (Swtch s) = s"
| "final (Spin s) = s"
| "final (Fault e s) = s"

definition maintains :: "('s \<Rightarrow> bool) \<Rightarrow> ('s, 'a) routine \<Rightarrow> bool" where
  "maintains I m \<longleftrightarrow> (\<forall>s. I s \<longrightarrow> I (final (m s)))"

lemma maintainsD: "maintains I m \<Longrightarrow> I s \<Longrightarrow> I (final (m s))"
  by (simp add: maintains_def)

lemma maintains_Ok: "maintains I m \<Longrightarrow> I s \<Longrightarrow> m s = Ok a t \<Longrightarrow> I t"
  by (auto dest: maintainsD)

lemma maintains_bind [maintains_rules]:
  assumes "maintains I m" "\<And>a. maintains I (k a)"
  shows "maintains I (bind m k)"
  unfolding maintains_def
proof (intro allI impI)
  fix s assume "I s"
  then have "I (final (m s))" by (rule maintainsD [OF assms(1)])
  then show "I (final (bind m k s))"
    using maintainsD [OF assms(2)] by (cases "m s") (simp_all add: bind_def)
qed

lemma maintains_andthen [maintains_rules]: "maintains I m \<Longrightarrow> maintains I k \<Longrightarrow> maintains I (andthen m k)"
  unfolding andthen_def by (rule maintains_bind)

lemma maintains_basic [maintains_rules]:
  "maintains I (return a)" "maintains I (gets f)" "maintains I (panic e)" "maintains I (fault e)"
  "maintains I (panic_if c e)" "maintains I (\<lambda>s. Swtch s)" "maintains I (\<lambda>s. Spin s)"
  by (simp_all add: maintains_def panic_if_def)

lemma maintains_modify [maintains_rules]: "(\<And>s. I s \<Longrightarrow> I (f s)) \<Longrightarrow> maintains I (modify f)"
  by (simp add: maintains_def)

lemma maintains_do_if [maintains_rules]: "(c \<Longrightarrow> maintains I m) \<Longrightarrow> maintains I (do_if c m)"
  by (cases c) (simp_all add: maintains_basic)

lemma maintains_if [maintains_rules]: "(c \<Longrightarrow> maintains I a) \<Longrightarrow> (\<not> c \<Longrightarrow> maintains I b) \<Longrightarrow> maintains I (if c then a else b)"
  by simp

lemma maintains_option [maintains_rules]:
  "(r = None \<Longrightarrow> maintains I a) \<Longrightarrow> (\<And>x. r = Some x \<Longrightarrow> maintains I (b x)) \<Longrightarrow> maintains I (case r of None \<Rightarrow> a | Some x \<Rightarrow> b x)"
  by (cases r) simp_all

lemma maintains_prod [maintains_rules]: "(\<And>x y. maintains I (f x y)) \<Longrightarrow> maintains I (case p of (x, y) \<Rightarrow> f x y)"
  by (cases p) simp

lemma maintains_foreach [maintains_rules]: "(\<And>i. maintains I (body i)) \<Longrightarrow> maintains I (foreach is body)"
  by (induction "is") (simp_all add: maintains_basic maintains_andthen)

lemma maintains_seq [maintains_rules]: "list_all (maintains I) ms \<Longrightarrow> maintains I (seq ms)"
  by (induction ms) (simp_all add: maintains_basic maintains_andthen)

text \<open>A part of the state that a routine does not change.\<close>

lemma maintains_part: "(\<And>c. maintains (\<lambda>s. f s = c) m) \<Longrightarrow> maintains (\<lambda>s. P (f s)) m"
  unfolding maintains_def by metis

end
