(* ===== verification/Icache.thy ===== *)
theory Icache
  imports Inode Maintains
begin

text \<open>
  The table of inodes in memory (\<open>icache\<close> of \<^verbatim>\<open>fs.c\<close>): whatever sequence of operations the
  processes perform, no inode is in the table twice. Most of what the operations do happens in
  the layers below; the locale \<open>below_inodes\<close> collects that they leave a property alone
  that does not speak about the parts of the state they use.
\<close>

locale below_inodes =
  fixes I :: "kernel \<Rightarrow> bool"
  assumes frame: "I (s\<lparr>cpus := c\<rparr>) = I s" "I (s\<lparr>locks := l\<rparr>) = I s" "I (s\<lparr>procs := p\<rparr>) = I s" "I (s\<lparr>bufs := b\<rparr>) = I s"
    "I (s\<lparr>disk := d\<rparr>) = I s" "I (s\<lparr>dwrites := w\<rparr>) = I s" "I (s\<lparr>lh_n := n\<rparr>) = I s" "I (s\<lparr>lh_block := lb\<rparr>) = I s" "I (s\<lparr>sb := x\<rparr>) = I s"
begin

lemma updates [simp]:
  "I (set_mycpu f s) = I s" "I (set_lock lk g s) = I s" "I (set_proc i h s) = I s" "I (set_buf j k s) = I s"
  "I (set_data j e s) = I s" "I (pin j s) = I s"
  by (simp_all add: set_mycpu_def set_lock_def set_proc_def set_buf_def set_data_def pin_def frame)

lemma pushcli_keeps [maintains_rules]: "maintains I pushcli"
  unfolding pushcli_def read_if_def cli_def by (intro maintains_rules; simp)

lemma popcli_keeps [maintains_rules]: "maintains I popcli"
  unfolding popcli_def read_if_def sti_def by (intro maintains_rules; simp)

lemma xchg_keeps [maintains_rules]: "maintains I (xchg lk v)"
  by (simp add: maintains_def xchg_def)

lemma acquire_keeps [maintains_rules]: "maintains I (acquire lk)"
  unfolding acquire_def holding_def spin_xchg_def by (intro maintains_rules; simp)

lemma release_keeps [maintains_rules]: "maintains I (release lk)"
  unfolding release_def holding_def by (intro maintains_rules; simp)

lemma with_proc_keeps [maintains_rules]: "(\<And>i. maintains I (f i)) \<Longrightarrow> maintains I (with_proc f)"
  unfolding with_proc_def by (intro maintains_rules; simp)

lemma sched_keeps [maintains_rules]: "maintains I sched"
  unfolding sched_def holding_def read_if_def by (intro maintains_rules)

lemma sleep_keeps [maintains_rules]: "maintains I (sleep ch lk)"
  unfolding sleep_def sleep_steps_def by (intro maintains_rules; auto intro!: maintains_rules)

lemma sleep_again_keeps [maintains_rules]: "maintains I (sleep_again ch lk)"
  unfolding sleep_again_def by (intro maintains_rules)

lemma wakeup_keeps [maintains_rules]: "maintains I (wakeup ch)"
  unfolding wakeup_def wakeup_steps_def wakeup1_def by (intro maintains_rules) (simp, intro conjI maintains_rules, simp)

lemma bwalk_keeps [maintains_rules]: "maintains I (bwalk k nxt P b)"
  by (induction k arbitrary: b) (auto intro!: maintains_rules)

lemma iderw_keeps [maintains_rules]: "maintains I (iderw b)"
  unfolding iderw_def by (intro maintains_rules; simp add: frame)

lemma bread_keeps [maintains_rules]: "maintains I (bread dev b)"
  unfolding bread_def bget_def bget_loop_def by (intro maintains_rules; simp)

lemma brelse_keeps [maintains_rules]: "maintains I (brelse b)"
  unfolding brelse_def to_front_def by (intro maintains_rules; simp add: maintains_modify)

lemma log_write_keeps [maintains_rules]: "maintains I (log_write b)"
  unfolding log_write_def by (intro maintains_rules; simp add: frame)

lemma edit_data_keeps [maintains_rules]: "maintains I (edit_data bp f)"
  unfolding edit_data_def by (intro maintains_rules; simp)

lemma readsb_keeps [maintains_rules]: "maintains I (readsb dev)"
  unfolding readsb_def by (intro maintains_rules)

lemma bzero_keeps [maintains_rules]: "maintains I (bzero dev b)"
  unfolding bzero_def by (intro maintains_rules; simp)

lemma balloc_keeps [maintains_rules]: "maintains I (balloc dev)"
proof -
  have "maintains I (balloc_loop dev gs)" for gs
    by (induction gs) (unfold balloc_loop.simps, intro maintains_rules, intro maintains_rules)
  then show ?thesis unfolding balloc_def by (intro maintains_rules)
qed

lemma bfree_keeps [maintains_rules]: "maintains I (bfree dev b)"
  unfolding bfree_def Let_def by (intro maintains_rules; simp add: frame)

lemma iupdate_keeps [maintains_rules]: "maintains I (iupdate ip)"
  unfolding iupdate_def by (intro maintains_rules)

end

section \<open>Operations on the table\<close>

definition unique_inodes :: "kernel \<Rightarrow> bool" where
  "unique_inodes s \<longleftrightarrow> length (inodes s) = NINODE
     \<and> (\<forall>i < NINODE. \<forall>j < NINODE. i_ref (inodes s ! i) > 0 \<longrightarrow> i_ref (inodes s ! j) > 0 \<longrightarrow>
          i_dev (inodes s ! i) = i_dev (inodes s ! j) \<longrightarrow> i_inum (inodes s ! i) = i_inum (inodes s ! j) \<longrightarrow> i = j)"

interpretation inodes_apart: below_inodes unique_inodes
  by unfold_locales (simp_all add: unique_inodes_def)

lemmas icache_rules = maintains_rules inodes_apart.acquire_keeps inodes_apart.release_keeps inodes_apart.sleep_again_keeps
  inodes_apart.wakeup_keeps inodes_apart.bread_keeps inodes_apart.brelse_keeps inodes_apart.log_write_keeps
  inodes_apart.edit_data_keeps inodes_apart.balloc_keeps inodes_apart.bfree_keeps inodes_apart.iupdate_keeps

text \<open>An entry may change as long as it is the same inode and is not revived.\<close>

lemma unique_mono:
  assumes "unique_inodes s" "length (inodes t) = NINODE"
    and "\<And>i. i < NINODE \<Longrightarrow> i_ref (inodes t ! i) > 0 \<Longrightarrow>
      i_ref (inodes s ! i) > 0 \<and> i_dev (inodes t ! i) = i_dev (inodes s ! i) \<and> i_inum (inodes t ! i) = i_inum (inodes s ! i)"
  shows "unique_inodes t"
  unfolding unique_inodes_def
proof (intro conjI allI impI)
  fix i j assume ij: "i < NINODE" "j < NINODE" "i_ref (inodes t ! i) > 0" "i_ref (inodes t ! j) > 0"
    "i_dev (inodes t ! i) = i_dev (inodes t ! j)" "i_inum (inodes t ! i) = i_inum (inodes t ! j)"
  then show "i = j"
    using assms(1) assms(3) [OF ij(1,3)] assms(3) [OF ij(2,4)] by (auto simp: unique_inodes_def)
qed (rule assms(2))

lemma unique_set_inode:
  assumes "unique_inodes s" "\<And>n. i_dev (f n) = i_dev n \<and> i_inum (f n) = i_inum n \<and> (i_ref (f n) > 0 \<longrightarrow> i_ref n > 0)"
  shows "unique_inodes (set_inode ip f s)"
proof (rule unique_mono [OF assms(1)])
  show l: "length (inodes (set_inode ip f s)) = NINODE" using assms(1) by (simp add: set_inode_def unique_inodes_def)
  fix i assume "i < NINODE" "i_ref (inodes (set_inode ip f s) ! i) > 0"
  then show "i_ref (inodes s ! i) > 0 \<and> i_dev (inodes (set_inode ip f s) ! i) = i_dev (inodes s ! i)
      \<and> i_inum (inodes (set_inode ip f s) ! i) = i_inum (inodes s ! i)"
    using assms(2) [of "inodes s ! ip"] l by (cases "i = ip") (simp_all add: set_inode_def)
qed

text \<open>Taking another reference to an inode that is in use.\<close>

lemma unique_ref:
  assumes "unique_inodes s" "i_ref (inodes s ! ip) > 0"
  shows "unique_inodes (set_inode ip (\<lambda>n. n\<lparr>i_ref := i_ref n + 1\<rparr>) s)"
proof (rule unique_mono [OF assms(1)])
  show l: "length (inodes (set_inode ip (\<lambda>n. n\<lparr>i_ref := i_ref n + 1\<rparr>) s)) = NINODE"
    using assms(1) by (simp add: set_inode_def unique_inodes_def)
  fix i assume "i < NINODE" "i_ref (inodes (set_inode ip (\<lambda>n. n\<lparr>i_ref := i_ref n + 1\<rparr>) s) ! i) > 0"
  then show "i_ref (inodes s ! i) > 0 \<and> i_dev (inodes (set_inode ip (\<lambda>n. n\<lparr>i_ref := i_ref n + 1\<rparr>) s) ! i) = i_dev (inodes s ! i)
      \<and> i_inum (inodes (set_inode ip (\<lambda>n. n\<lparr>i_ref := i_ref n + 1\<rparr>) s) ! i) = i_inum (inodes s ! i)"
    using assms(2) l by (cases "i = ip") (simp_all add: set_inode_def)
qed

text \<open>A new entry for an inode that is not in the table.\<close>

lemma unique_new:
  assumes "unique_inodes s" "\<forall>i < NINODE. \<not> (i_ref (inodes s ! i) > 0 \<and> i_dev (inodes s ! i) = dev \<and> i_inum (inodes s ! i) = inum)"
    and "inodes t = (inodes s)[ip := n]" "i_dev n = dev" "i_inum n = inum"
  shows "unique_inodes t"
  unfolding unique_inodes_def
proof (intro conjI allI impI)
  show l: "length (inodes t) = NINODE" using assms(1,3) by (simp add: unique_inodes_def)
  fix i j assume ij: "i < NINODE" "j < NINODE" "i_ref (inodes t ! i) > 0" "i_ref (inodes t ! j) > 0"
    "i_dev (inodes t ! i) = i_dev (inodes t ! j)" "i_inum (inodes t ! i) = i_inum (inodes t ! j)"
  have other: "inodes t ! k = inodes s ! k" if "k \<noteq> ip" for k using that assms(3) by simp
  have new: "inodes t ! k = n" if "k = ip" "k < NINODE" for k using that assms(3) l by simp
  show "i = j"
  proof (rule ccontr)
    assume ne: "i \<noteq> j"
    consider "i = ip" | "j = ip" | "i \<noteq> ip" "j \<noteq> ip" by blast
    then show False
    proof cases
      case 1
      then show False using ne ij new [of i] other [of j] assms(2,4,5) by auto
    next
      case 2
      then show False using ne ij new [of j] other [of i] assms(2,4,5) by auto
    next
      case 3
      then show False using ne ij other [of i] other [of j] assms(1) unfolding unique_inodes_def by auto
    qed
  qed
qed

lemma iget_unique: "maintains unique_inodes (iget dev inum)"
proof -
  let ?hit = "\<lambda>s. find (\<lambda>i. i_ref (inodes s ! i) > 0 \<and> i_dev (inodes s ! i) = dev \<and> i_inum (inodes s ! i) = inum) [0..<NINODE]"
  let ?tail = "bind (gets ?hit) (\<lambda>hit.
    case hit of
      Some ip \<Rightarrow>
        andthen (modify (set_inode ip (\<lambda>n. n\<lparr>i_ref := i_ref n + 1\<rparr>)))
        (andthen (release L_icache) (return ip))
    | None \<Rightarrow>
        bind (gets (\<lambda>s. find (\<lambda>i. i_ref (inodes s ! i) = 0) [0..<NINODE])) (\<lambda>empty.
        case empty of
          None \<Rightarrow> panic ''iget: no inodes''
        | Some ip \<Rightarrow>
            andthen (modify (set_inode ip (\<lambda>n. n\<lparr>i_dev := dev\<rparr>)))
            (andthen (modify (set_inode ip (\<lambda>n. n\<lparr>i_inum := inum\<rparr>)))
            (andthen (modify (set_inode ip (\<lambda>n. n\<lparr>i_ref := 1\<rparr>)))
            (andthen (modify (set_inode ip (\<lambda>n. n\<lparr>i_busy := False, i_valid := False\<rparr>)))
            (andthen (release L_icache)
            (return ip)))))))"
  have fin: "maintains unique_inodes (andthen (release L_icache) (return ip))" for ip :: nat by (intro icache_rules)
  have "maintains unique_inodes ?tail"
    unfolding maintains_def
  proof (intro allI impI)
    fix s assume s: "unique_inodes s"
    show "unique_inodes (final (?tail s))"
    proof (cases "?hit s")
      case (Some ip)
      then have "i_ref (inodes s ! ip) > 0" by (simp add: find_upt_Some)
      then show ?thesis using maintainsD [OF fin unique_ref [OF s], of ip] Some by simp
    next
      case None
      then have no: "\<forall>i < NINODE. \<not> (i_ref (inodes s ! i) > 0 \<and> i_dev (inodes s ! i) = dev \<and> i_inum (inodes s ! i) = inum)"
        by (simp add: find_upt_None)
      show ?thesis
      proof (cases "find (\<lambda>i. i_ref (inodes s ! i) = 0) [0..<NINODE]")
        case (Some ip)
        then have ip: "ip < length (inodes s)" using s by (auto simp: find_upt_Some unique_inodes_def)
        let ?n = "(inodes s ! ip)\<lparr>i_dev := dev, i_inum := inum, i_ref := 1, i_busy := False, i_valid := False\<rparr>"
        have "unique_inodes (s\<lparr>inodes := (inodes s)[ip := ?n]\<rparr>)" by (rule unique_new [OF s no]) (simp, simp, simp)
        then show ?thesis using maintainsD [OF fin, of _ ip] None Some ip by (simp add: set_inode_def)
      qed (use s None in simp)
    qed
  qed
  then show ?thesis unfolding iget_def by (rule maintains_andthen [OF inodes_apart.acquire_keeps])
qed

interpretation referenced: below_inodes "\<lambda>s. unique_inodes s \<and> i_ref (inodes s ! ip) > 0" for ip
  by unfold_locales (simp_all add: unique_inodes_def)

lemma idup_unique:
  assumes "unique_inodes s" "i_ref (inodes s ! ip) > 0"
  shows "unique_inodes (final (idup ip s))"
proof (cases "acquire L_icache s")
  case (Ok u t)
  have "unique_inodes t" "i_ref (inodes t ! ip) > 0"
    using maintains_Ok [OF referenced.acquire_keeps _ Ok] assms by simp_all
  moreover have "maintains unique_inodes (andthen (release L_icache) (return ip))" by (intro icache_rules)
  ultimately show ?thesis using Ok unique_ref [of t ip] by (simp add: idup_def maintainsD)
next
  case (Panic e t)
  then show ?thesis using maintainsD [OF inodes_apart.acquire_keeps assms(1), of L_icache] by (simp add: idup_def andthen_app)
next
  case (Swtch t)
  then show ?thesis using maintainsD [OF inodes_apart.acquire_keeps assms(1), of L_icache] by (simp add: idup_def andthen_app)
next
  case (Spin t)
  then show ?thesis using maintainsD [OF inodes_apart.acquire_keeps assms(1), of L_icache] by (simp add: idup_def andthen_app)
next
  case (Fault e t)
  then show ?thesis using maintainsD [OF inodes_apart.acquire_keeps assms(1), of L_icache] by (simp add: idup_def andthen_app)
qed

lemma ilock_loop_unique: "maintains unique_inodes (ilock_loop ip)"
  unfolding ilock_loop_def ilock_load_def
  by (intro icache_rules; rule unique_set_inode; simp add: load_dinode_def)

lemma ilock_unique: "maintains unique_inodes (ilock p)"
  unfolding ilock_def by (intro icache_rules ilock_loop_unique)

lemma iunlock_unique: "maintains unique_inodes (iunlock p)"
  unfolding iunlock_def by (intro icache_rules; rule unique_set_inode; simp)

lemma bmap_unique: "maintains unique_inodes (bmap ip bn)"
  unfolding bmap_def bmap_direct_def by (intro icache_rules; rule unique_set_inode; simp)

lemma itrunc_unique: "maintains unique_inodes (itrunc ip)"
  unfolding itrunc_def by (intro icache_rules; rule unique_set_inode; simp)

lemma iput_unique: "maintains unique_inodes (iput ip)"
  unfolding iput_def by (intro icache_rules itrunc_unique; rule unique_set_inode; simp)

lemma ialloc_unique: "maintains unique_inodes (ialloc dev ty)"
proof -
  have "maintains unique_inodes (ialloc_loop dev ty ns)" for ns
    by (induction ns) (unfold ialloc_loop.simps Let_def, intro icache_rules, intro icache_rules iget_unique)
  then show ?thesis unfolding ialloc_def by (intro icache_rules)
qed


section \<open>Any sequence of operations\<close>

text \<open>
  One step of some process: an operation on the table runs, to whatever end, or is resumed
  at the loop of \<open>ilock\<close>, or something happens that does not concern the table. \<open>idup\<close>
  is called on an inode to which the caller has a reference.
\<close>

inductive icache_step :: "kernel \<Rightarrow> kernel \<Rightarrow> bool" where
  get: "icache_step s (final (iget dev inum s))"
| alloc: "icache_step s (final (ialloc dev ty s))"
| dup: "i_ref (inodes s ! ip) > 0 \<Longrightarrow> icache_step s (final (idup ip s))"
| lock: "icache_step s (final (ilock p s))"
| lock_again: "icache_step s (final (ilock_loop ip s))"
| unlock: "icache_step s (final (iunlock p s))"
| put: "icache_step s (final (iput ip s))"
| update: "icache_step s (final (iupdate ip s))"
| map_block: "icache_step s (final (bmap ip bn s))"
| other: "inodes t = inodes s \<Longrightarrow> icache_step s t"

lemma icache_step_unique: "icache_step s t \<Longrightarrow> unique_inodes s \<Longrightarrow> unique_inodes t"
proof (induction rule: icache_step.induct)
  case (other t s)
  then show ?case by (simp add: unique_inodes_def)
qed (auto intro: maintainsD iget_unique ialloc_unique idup_unique ilock_unique ilock_loop_unique iunlock_unique iput_unique
  bmap_unique inodes_apart.iupdate_keeps)

text \<open>
  C33. The inode table has at most one entry for an inode: from a state in which no entry is
  in use, no sequence of the operations on the table, whether they return, panic, block or
  are resumed, leads to two entries with references that name the same inode.
\<close>

theorem icache_no_duplicates:
  assumes "icache_step\<^sup>*\<^sup>* s t" "length (inodes s) = NINODE" "\<forall>i < NINODE. i_ref (inodes s ! i) = 0"
    and "i < NINODE" "j < NINODE" "i_ref (inodes t ! i) > 0" "i_ref (inodes t ! j) > 0"
    and "i_dev (inodes t ! i) = i_dev (inodes t ! j)" "i_inum (inodes t ! i) = i_inum (inodes t ! j)"
  shows "i = j"
proof -
  have "unique_inodes s" using assms(2,3) by (simp add: unique_inodes_def)
  with assms(1) have "unique_inodes t" by (induction rule: rtranclp_induct) (auto intro: icache_step_unique)
  then show ?thesis using assms(4-9) by (simp add: unique_inodes_def)
qed

definition two_gets :: kernel where
  "two_gets = final (iget 1 7 (final (iget 1 7 boot0)))"

lemma boot0_inodes: "inodes boot0 = replicate NINODE zero_inode" "lock_free L_icache boot0" "cpu_ok boot0"
  by (simp_all add: boot0_def boot_kernel_def zero_defs lock_free_def cpu_ok_def mycpu_def del: replicate_Suc)

lemma iget_miss:
  assumes "lock_free L_icache s" "cpu_ok s" "ip < length (inodes s)"
    and "find (\<lambda>i. i_ref (inodes s ! i) > 0 \<and> i_dev (inodes s ! i) = dev \<and> i_inum (inodes s ! i) = inum) [0..<NINODE] = None"
    and "find (\<lambda>i. i_ref (inodes s ! i) = 0) [0..<NINODE] = Some ip"
  shows "iget dev inum s = Ok ip (touch (s\<lparr>inodes := (inodes s)[ip := (inodes s ! ip)\<lparr>i_dev := dev, i_inum := inum, i_ref := 1,
    i_busy := False, i_valid := False\<rparr>]\<rparr>))"
  using assms by (simp add: iget_def acquire_ok release_ok set_inode_def)

lemma iget_hit:
  assumes "lock_free L_icache s" "cpu_ok s"
    and "find (\<lambda>i. i_ref (inodes s ! i) > 0 \<and> i_dev (inodes s ! i) = dev \<and> i_inum (inodes s ! i) = inum) [0..<NINODE] = Some ip"
  shows "iget dev inum s = Ok ip (touch (set_inode ip (\<lambda>n. n\<lparr>i_ref := i_ref n + 1\<rparr>) s))"
  using assms by (simp add: iget_def acquire_ok release_ok set_inode_def)

lemma two_gets_ref: "i_ref (inodes two_gets ! 0) = 2" "i_dev (inodes two_gets ! 0) = 1" "i_inum (inodes two_gets ! 0) = 7"
proof -
  let ?n = "zero_inode\<lparr>i_dev := 1, i_inum := 7, i_ref := 1, i_busy := False, i_valid := False\<rparr>"
  have z: "i_ref zero_inode = 0" "0 < NINODE" by (simp_all add: zero_inode_def layout_simps)
  have "iget 1 7 boot0 = Ok 0 (touch (boot0\<lparr>inodes := (inodes boot0)[0 := (inodes boot0 ! 0)\<lparr>i_dev := 1, i_inum := 7, i_ref := 1,
      i_busy := False, i_valid := False\<rparr>]\<rparr>))"
    by (rule iget_miss) (use z in \<open>simp_all add: boot0_inodes find_upt_None find_upt_Some del: replicate_Suc\<close>)
  then have one: "iget 1 7 boot0 = Ok 0 (touch (boot0\<lparr>inodes := (replicate NINODE zero_inode)[0 := ?n]\<rparr>))"
    using z by (simp add: boot0_inodes del: replicate_Suc)
  let ?s = "touch (boot0\<lparr>inodes := (replicate NINODE zero_inode)[0 := ?n]\<rparr>)"
  have two: "iget 1 7 ?s = Ok 0 (touch (set_inode 0 (\<lambda>n. n\<lparr>i_ref := i_ref n + 1\<rparr>) ?s))"
    by (rule iget_hit) (use z in \<open>simp_all add: boot0_inodes find_upt_Some del: replicate_Suc\<close>)
  show "i_ref (inodes two_gets ! 0) = 2" "i_dev (inodes two_gets ! 0) = 1" "i_inum (inodes two_gets ! 0) = 7"
    unfolding two_gets_def one final.simps two using z by (simp_all add: set_inode_def del: replicate_Suc)
qed

theorem icache_no_duplicates_witness:
  "{j. j < NINODE \<and> i_ref (inodes two_gets ! j) > 0 \<and> i_dev (inodes two_gets ! j) = 1 \<and> i_inum (inodes two_gets ! j) = 7} = {0}"
proof -
  have reach: "icache_step\<^sup>*\<^sup>* boot0 two_gets"
    unfolding two_gets_def by (rule rtranclp.intros(2) [OF r_into_rtranclp]) (rule icache_step.get)+
  have "i_ref zero_inode = 0" by (simp add: zero_inode_def)
  then have start: "length (inodes boot0) = NINODE" "\<forall>i < NINODE. i_ref (inodes boot0 ! i) = 0"
    by (simp_all add: boot0_inodes del: replicate_Suc)
  have "0 < NINODE" by (simp add: layout_simps)
  then show ?thesis
    using icache_no_duplicates [OF reach start, of _ 0] two_gets_ref by auto
qed

end
