(* ===== verification/Process_Count.thy ===== *)
theory Process_Count
  imports Process
begin

text \<open>
  The system call \<open>getpcount\<close> of \<^verbatim>\<open>sysproc.c\<close> counts the processes of the table, and follows
  what \<open>allocproc\<close> does to it.
\<close>

definition live :: "kernel \<Rightarrow> nat set" where
  "live s = {i. i < NPROC \<and> p_state (procs s ! i) \<noteq> UNUSED}"

lemma getpcount_ok:
  assumes "lock_free L_ptable s" "cpu_ok s"
  shows "sys_getpcount s = Ok (int (card (live s))) (touch s)"
proof -
  have used: "(case st of EMBRYO \<Rightarrow> True | SLEEPING \<Rightarrow> True | RUNNABLE \<Rightarrow> True | RUNNING \<Rightarrow> True | ZOMBIE \<Rightarrow> True | UNUSED \<Rightarrow> False)
    \<longleftrightarrow> st \<noteq> UNUSED" for st by (cases st) simp_all
  have "length (filter P [0..<NPROC]) = card {i. i < NPROC \<and> P i}" for P
    by (simp add: length_filter_conv_card cong: conj_cong)
  then show ?thesis
    using assms unfolding sys_getpcount_def used by (simp add: acquire_ok release_ok live_def)
qed

lemma card_live: "card (live s) \<le> NPROC"
proof -
  have "live s \<subseteq> {..<NPROC}" by (auto simp: live_def)
  then show ?thesis using card_mono [of "{..<NPROC}" "live s"] by simp
qed

text \<open>
  C34. \<open>getpcount\<close> returns the number of slots of the process table that are in use, in whatever
  state their processes are; it changes nothing; and if memory is left, a process that is
  created adds one to it, up to the size of the table, at which no process is created.
\<close>

theorem getpcount_counts:
  assumes "kmem_inv s (k # ks)" "lock_free L_ptable s" "length (procs s) = NPROC"
  shows "returns (bind sys_getpcount (\<lambda>m. bind allocproc (\<lambda>r. bind sys_getpcount (\<lambda>n. return (m, r, n))))) s
    (\<lambda>(m, r, n) t. m = int (card {i. i < NPROC \<and> p_state (procs s ! i) \<noteq> UNUSED})
      \<and> (if m = int NPROC then r = None \<and> n = m \<and> procs t = procs s else (\<exists>p < NPROC. r = Some p) \<and> n = m + 1))"
proof -
  have cpu: "cpu_ok s" using assms(1) by (simp add: kmem_inv_def)
  note c = getpcount_ok [OF assms(2) cpu]
  have inv: "kmem_inv (touch s) (k # ks)" "lock_free L_ptable (touch s)" "length (procs (touch s)) = NPROC"
    using assms by simp_all
  show ?thesis
  proof (cases "find (\<lambda>i. p_state (procs (touch s) ! i) = UNUSED) [0..<NPROC]")
    case None
    have a: "allocproc (touch s) = Ok None (touch (touch s))" by (rule allocproc_full [OF inv(1,2) None])
    have "live s = {..<NPROC}" using None by (auto simp: live_def find_upt_None)
    then have full: "card (live s) = NPROC" by simp
    have "sys_getpcount (touch (touch s)) = Ok (int (card (live s))) (touch (touch (touch s)))"
      using getpcount_ok [of "touch (touch s)"] assms(2) cpu by (simp add: live_def)
    then show ?thesis using c a full by (simp add: returns_def live_def)
  next
    case (Some p)
    then have p: "p < NPROC" "p_state (procs s ! p) = UNUSED" by (simp_all add: find_upt_Some)
    from allocproc_slot [OF inv Some] obtain t where t: "allocproc (touch s) = Ok (Some p) t" "lock_free L_ptable t" "kmem_inv t ks"
      "procs t = (procs s)[p := embryo (touch s) k (procs s ! p)]"
      unfolding returns_iff by auto
    have "p_state (embryo (touch s) k (procs s ! p)) = EMBRYO" by (simp add: embryo_def)
    then have "live t = insert p (live s)" using p t(4) assms(3) by (auto simp: live_def nth_list_update split: if_splits)
    moreover have "p \<notin> live s" "finite (live s)" using p by (auto simp: live_def)
    ultimately have n: "card (live t) = Suc (card (live s))" by simp
    then have "card (live s) \<noteq> NPROC" using card_live [of t] by simp
    moreover have "sys_getpcount t = Ok (int (card (live t))) (touch t)"
      by (rule getpcount_ok) (use t(2,3) in \<open>simp_all add: kmem_inv_def\<close>)
    ultimately show ?thesis using c t(1) n p(1) by (simp add: returns_def live_def)
  qed
qed

theorem getpcount_counts_witness:
  "returns (bind sys_getpcount (\<lambda>m. bind allocproc (\<lambda>r. bind sys_getpcount (\<lambda>n. return (m, r, n))))) two_pages
    (\<lambda>(m, r, n) t. m = 0 \<and> n = 1)"
proof -
  have none: "{i. i < NPROC \<and> p_state (procs two_pages ! i) \<noteq> UNUSED} = {}"
    by (auto simp: two_pages_procs zero_proc_def)
  have "lock_free L_ptable two_pages" "length (procs two_pages) = NPROC"
    by (simp_all add: two_pages_procs)
  from getpcount_counts [OF two_pages_inv this] show ?thesis
    unfolding none by (auto simp: NPROC_def elim!: returns_mono)
qed

end
