(* ===== verification/Fs_Blocks.thy ===== *)
theory Fs_Blocks
  imports Inode
begin

text \<open>
  The block layer of \<^verbatim>\<open>fs.c\<close> on top of the log: inside a transaction the file system gets
  blocks, edits and logs them, and gives them back. The locale \<open>logged_blocks\<close> is this
  interface; allocation and release of blocks on the free map are proved over it.
\<close>

unbundle bit_operations_syntax

section \<open>The state inside an operation\<close>

text \<open>Everything but the buffers and the list of the logged blocks.\<close>

definition rest :: "kernel \<Rightarrow> kernel" where
  "rest s = (core s)\<lparr>lh_n := 0, lh_block := []\<rparr>"

lemma rest_core: "core t = core s \<Longrightarrow> rest t = rest s"
  by (simp add: rest_def)

lemma rest_logged: "core t = logged b (core s) \<Longrightarrow> rest t = rest s"
  by (simp add: rest_def logged_def Let_def)

lemma restD:
  assumes "rest t = rest s"
  shows "sb t = sb s" "inodes t = inodes s" "disk t = disk s" "disksize t = disksize s" "log_size t = log_size s"
    "log_start t = log_start s" "log_area t = log_area s" "cpuid t = cpuid s" "mem t = mem s" "files t = files s"
    "pipes t = pipes s" "locks t = locks s" "lock_free lk t = lock_free lk s"
proof -
  have c: "core (t\<lparr>lh_n := 0, lh_block := []\<rparr>) = core (s\<lparr>lh_n := 0, lh_block := []\<rparr>)"
    using assms by (simp add: rest_def)
  note d = coreD [OF c] core_derived [OF c]
  show "sb t = sb s" "inodes t = inodes s" "disk t = disk s" "disksize t = disksize s" "log_size t = log_size s"
    "log_start t = log_start s" "cpuid t = cpuid s" "mem t = mem s" "files t = files s"
    "pipes t = pipes s" "locks t = locks s"
    using d by simp_all
  show "log_area t = log_area s" using d by (simp add: log_area_def)
  show "lock_free lk t = lock_free lk s" using d(39) [of lk] by (simp add: lock_free_def)
qed

text \<open>
  The log has room for the blocks in \<open>B\<close>, however often they are written, and for \<open>k\<close> other
  blocks.
\<close>

definition budget :: "uint32 set \<Rightarrow> nat \<Rightarrow> kernel \<Rightarrow> bool" where
  "budget B k s \<longleftrightarrow> in_op s \<and> finite B \<and> int (card (set (txn s) \<union> B)) + int k < log_size s - 1"

lemma budget_room:
  assumes "budget B k s"
  shows "lh_n s < log_size s - 1" "in_op s" "card (set (txn s)) + 1 < NBUF"
proof -
  have b: "in_op s" "finite B" "int (card (set (txn s) \<union> B)) + int k < log_size s - 1"
    using assms by (simp_all add: budget_def)
  have "card (set (txn s)) \<le> card (set (txn s) \<union> B)" by (rule card_mono) (use b in auto)
  moreover have "card (set (txn s)) = length (txn s)"
    using b(1) by (simp add: in_op_def trans_ok_def distinct_card)
  moreover have "log_size s \<le> LOGSIZE" using b(1) by (simp add: in_op_def log_geom_def)
  ultimately show "lh_n s < log_size s - 1" "in_op s" "card (set (txn s)) + 1 < NBUF"
    using b in_op_length [OF b(1)] by (simp_all add: layout_simps)
qed

lemma budget_core:
  assumes "budget B k s" "core t = core s" "bio_ok t" "pinned t = pinned s"
  shows "budget B k t"
  using assms in_op_core [OF _ assms(2-4)] log_core [OF assms(2)] coreD [OF assms(2)]
  by (simp add: budget_def)

lemma budget_less: "budget B k s \<Longrightarrow> j \<le> k \<Longrightarrow> budget B j s"
  by (simp add: budget_def)

definition left :: "uint32 \<Rightarrow> uint32 set \<Rightarrow> kernel \<Rightarrow> nat \<Rightarrow> nat" where
  "left b B s k = (if b \<in> B \<or> b \<in> set (txn s) then k else k - 1)"

definition affords :: "uint32 \<Rightarrow> uint32 set \<Rightarrow> kernel \<Rightarrow> nat \<Rightarrow> bool" where
  "affords b B s k \<longleftrightarrow> b \<in> B \<or> b \<in> set (txn s) \<or> 1 \<le> k"

lemma budget_spend:
  assumes "budget B k s" "affords b B s k" "in_op t" "set (txn t) = insert b (set (txn s))" "log_size t = log_size s"
  shows "budget B (left b B s k) t"
proof (cases "b \<in> B \<or> b \<in> set (txn s)")
  case True
  then have "set (txn t) \<union> B = set (txn s) \<union> B" using assms(4) by auto
  then show ?thesis using assms(1,3,5) True by (simp add: budget_def left_def)
next
  case False
  then have "card (set (txn t) \<union> B) = Suc (card (set (txn s) \<union> B))"
    using assms(1,4) by (simp add: budget_def)
  then show ?thesis using assms(1,2,3,5) False by (simp add: budget_def left_def affords_def)
qed

section \<open>The interface\<close>

definition clean :: "kernel \<Rightarrow> uint32 \<Rightarrow> bool" where
  "clean s b \<longleftrightarrow> b \<in> pinned s \<or> view s b = disk s b"

definition put_logged :: "nat \<Rightarrow> (byte list \<Rightarrow> byte list) \<Rightarrow> unit kroutine" where
  "put_logged i f = andthen (edit_data i f) (andthen (log_write i) (brelse i))"

text \<open>Getting and giving back a block leaves the buffers alone that were held before.\<close>

lemma keeps_given:
  assumes "keeps_bufs s NBUF t" "buf_for t i b" "b \<notin> held s" "keeps_bufs t i u"
  shows "keeps_bufs s NBUF u"
  unfolding keeps_bufs_def
proof (intro allI impI)
  fix j c assume j: "j \<noteq> NBUF" "buf_for s j c"
  then have "buf_for t j c" "b_data (bufs t ! j) = b_data (bufs s ! j)" using keeps_bufsD [OF assms(1)] by auto
  moreover have "c \<noteq> b" using buf_for_held [OF j(2)] assms(3) by auto
  then have "j \<noteq> i" using \<open>buf_for t j c\<close> assms(2) by (auto simp: buf_for_def)
  ultimately show "buf_for u j c \<and> b_data (bufs u ! j) = b_data (bufs s ! j)" using keeps_bufsD [OF assms(4)] by auto
qed

lemma keeps_bufs_refl: "keeps_bufs s i s"
  by (simp add: keeps_bufs_def)

lemma keeps_bufs_trans: "keeps_bufs s NBUF t \<Longrightarrow> keeps_bufs t NBUF u \<Longrightarrow> keeps_bufs s NBUF u"
  unfolding keeps_bufs_def by (intro allI impI) metis

locale logged_blocks =
  fixes get :: "uint32 \<Rightarrow> nat kroutine"
    and put :: "nat \<Rightarrow> (byte list \<Rightarrow> byte list) \<Rightarrow> unit kroutine"
    and give :: "nat \<Rightarrow> unit kroutine"
  assumes get_law: "\<lbrakk>budget B k s; b < disksize s; b \<notin> held s; card (held s) \<le> 1\<rbrakk> \<Longrightarrow>
      returns (get b) s (\<lambda>i t. budget B k t \<and> core t = core s \<and> buf_for t i b \<and> b_data (bufs t ! i) = view s b
        \<and> view t = view s \<and> held t = insert b (held s) \<and> clean t b \<and> keeps_bufs s NBUF t)"
    and put_law: "\<lbrakk>budget B k s; buf_for s i b; b < disksize s; b \<notin> log_area s; affords b B s k; length (f (view s b)) = BSIZE\<rbrakk> \<Longrightarrow>
      returns (put i f) s (\<lambda>_ t. budget B (left b B s k) t \<and> rest t = rest s \<and> set (txn t) = insert b (set (txn s))
        \<and> view t = (view s)(b := f (view s b)) \<and> held t = held s - {b} \<and> keeps_bufs s i t)"
    and give_law: "\<lbrakk>budget B k s; buf_for s i b; clean s b\<rbrakk> \<Longrightarrow>
      returns (give i) s (\<lambda>_ t. budget B k t \<and> core t = core s \<and> view t = view s \<and> held t = held s - {b} \<and> keeps_bufs s i t)"
begin

lemma read_block:
  assumes "budget B k s" "b < disksize s" "b \<notin> held s" "card (held s) \<le> 1"
  shows "returns (bind (get b) (\<lambda>i. bind (gets (\<lambda>s. f (b_data (bufs s ! i)))) (\<lambda>x. andthen (give i) (return x)))) s
    (\<lambda>x t. x = f (view s b) \<and> budget B k t \<and> core t = core s \<and> view t = view s \<and> held t = held s \<and> keeps_bufs s NBUF t)"
proof -
  from get_law [OF assms] obtain i t where t: "get b s = Ok i t" "budget B k t" "core t = core s" "buf_for t i b"
    "b_data (bufs t ! i) = view s b" "view t = view s" "held t = insert b (held s)" "clean t b" "keeps_bufs s NBUF t"
    by (auto elim!: returnsE)
  from give_law [OF t(2,4,8)] obtain u where u: "give i t = Ok () u" "budget B k u" "core u = core t" "view u = view t"
    "held u = held t - {b}" "keeps_bufs t i u" by (auto elim!: returnsE)
  have "keeps_bufs s NBUF u" by (rule keeps_given [OF t(9) t(4) assms(3) u(6)])
  then show ?thesis using t u assms(3) by (auto simp: returns_def)
qed

lemma edit_block:
  assumes "budget B k s" "b < disksize s" "b \<notin> log_area s" "b \<notin> held s" "card (held s) \<le> 1" "affords b B s k" "length (f (view s b)) = BSIZE"
  shows "returns (bind (get b) (\<lambda>i. put i f)) s
    (\<lambda>_ t. budget B (left b B s k) t \<and> rest t = rest s \<and> set (txn t) = insert b (set (txn s))
        \<and> view t = (view s)(b := f (view s b)) \<and> held t = held s \<and> keeps_bufs s NBUF t)"
proof -
  from get_law [OF assms(1,2,4,5)] obtain i t where t: "get b s = Ok i t" "budget B k t" "core t = core s" "buf_for t i b"
    "view t = view s" "held t = insert b (held s)" "keeps_bufs s NBUF t"
    by (auto elim!: returnsE)
  note c = log_core [OF t(3)] coreD [OF t(3)]
  have a: "b < disksize t" "b \<notin> log_area t" "affords b B t k" "length (f (view t b)) = BSIZE" "left b B t k = left b B s k"
    using assms c t by (simp_all add: affords_def left_def)
  from put_law [where f = f, OF t(2,4) a(1-4)] obtain u where u: "put i f t = Ok () u" "budget B (left b B s k) u" "rest u = rest t"
    "set (txn u) = insert b (set (txn t))" "view u = (view t)(b := f (view t b))" "held u = held t - {b}" "keeps_bufs t i u"
    unfolding a(5) by (auto elim!: returnsE)
  have "keeps_bufs s NBUF u" by (rule keeps_given [OF t(7) t(4) assms(4) u(7)])
  then show ?thesis using t u c assms(4) rest_core [OF t(3)] by (auto simp: returns_def)
qed

end

lemma card_held:
  assumes "budget B k s" "card (held s) \<le> 1" "finite (held s)"
  shows "card (held s \<union> pinned s) < NBUF"
proof -
  have "pinned s = set (txn s)" using budget_room(2) [OF assms(1)] by (simp add: in_op_def)
  then show ?thesis using card_Un_le [of "held s" "set (txn s)"] budget_room(3) [OF assms(1)] assms(2) by simp
qed

lemma finite_held: "finite (held s)"
proof -
  have "held s = (\<lambda>i. b_blockno (bufs s ! i)) ` {i. i < NBUF \<and> b_busy (bufs s ! i)}" by (auto simp: held_def)
  then show ?thesis by simp
qed

interpretation lblocks: logged_blocks "bread 1" put_logged brelse
proof
  fix B k s b assume a: "budget B k s" "b < disksize s" "b \<notin> held s" "card (held s) \<le> 1"
  have o: "in_op s" "bio_ok s" using budget_room(2) [OF a(1)] by (simp_all add: in_op_def)
  have cl: "clean s b" using view_clean [OF o(2) a(3)] by (auto simp: clean_def)
  from bcache.get_law [OF o(2) a(2,3)] card_held [OF a(1,4) finite_held]
  have "returns (bread 1 b) s (\<lambda>i t. core t = core s \<and> bio_ok t \<and> buf_for t i b \<and> b_data (bufs t ! i) = view s b
        \<and> view t = view s \<and> held t = insert b (held s) \<and> pinned t = pinned s \<and> keeps_bufs s NBUF t)" by blast
  then show "returns (bread 1 b) s (\<lambda>i t. budget B k t \<and> core t = core s \<and> buf_for t i b \<and> b_data (bufs t ! i) = view s b
        \<and> view t = view s \<and> held t = insert b (held s) \<and> clean t b \<and> keeps_bufs s NBUF t)"
  proof (rule returns_mono, elim conjE, intro conjI)
    fix t assume t: "core t = core s" "bio_ok t" "pinned t = pinned s" "view t = view s"
    show "budget B k t" by (rule budget_core [OF a(1) t(1-3)])
    show "clean t b" using cl t coreD(14) [OF t(1)] by (simp add: clean_def)
  qed
next
  fix B k s i b and f :: "byte list \<Rightarrow> byte list"
  assume a: "budget B k s" "buf_for s i b" "b < disksize s" "b \<notin> log_area s" "affords b B s k" "length (f (view s b)) = BSIZE"
  have o: "in_op s" "bio_ok s" "log_geom s" "trans_ok s" "log_room s" "lh_n s < log_size s - 1" "pinned s = set (txn s)"
    using budget_room(1,2) [OF a(1)] by (simp_all add: in_op_def log_room_def)
  let ?d = "f (view s b)" let ?u = "set_data i ?d s"
  have d: "f (b_data (bufs s ! i)) = ?d" using buf_for_view [OF o(2) a(2)] by simp
  note u = set_data_spec [OF o(2) a(2,6)]
  note cu = coreD [OF u(6)] core_derived [OF u(6)] log_core [OF u(6)]
  have g: "log_geom ?u" "log_room ?u" using o(3,5) cu by (simp_all add: log_room_def)
  note w = log_write_ok [OF u(1) g u(2)]
  let ?v = "pin i (logged b ?u)"
  have bv: "bio_ok (logged b ?u)" "buf_for (logged b ?u) i b" using u(1,2) by simp_all
  note v = pin_spec [OF bv]
  have "bio_ok (touch ?v)" "buf_for (touch ?v) i b" "b \<in> pinned (touch ?v) \<or> view (touch ?v) b = disk (touch ?v) b"
    using v(1,2,5) by simp_all
  from bcache.give_law [OF this] obtain x where x: "brelse i (touch ?v) = Ok () x" "core x = core (touch ?v)" "bio_ok x"
    "view x = view (touch ?v)" "held x = held (touch ?v) - {b}" "pinned x = pinned (touch ?v)" "keeps_bufs (touch ?v) i x"
    by (auto elim!: returnsE)
  have cx: "core x = logged b (core s)" using x(2) v(6) u(6) by (simp add: logged_core)
  have "core x = core (logged b s)" using cx by (simp add: logged_core)
  note cl = log_core [OF this] coreD [OF this] core_derived [OF this]
  note l = logged_facts [OF o(3,4,6) a(3,4)]
  have op: "in_op x" using o(1) x v u l cl by (auto simp: in_op_def)
  have tx: "set (txn x) = insert b (set (txn s))" using l(1) cl by auto
  have "budget B (left b B s k) x"
    by (rule budget_spend [OF a(1,5) op tx]) (use cl in simp)
  moreover have "keeps_bufs s i x"
    unfolding keeps_bufs_def
  proof (intro allI impI)
    fix j c assume j: "j \<noteq> i" "buf_for s j c"
    then have "buf_for (logged b ?u) j c" "b_data (bufs (logged b ?u) ! j) = b_data (bufs s ! j)" using u(9) by auto
    then have "buf_for (touch ?v) j c" "b_data (bufs (touch ?v) ! j) = b_data (bufs s ! j)" using v(9) [of j c] by auto
    then show "buf_for x j c \<and> b_data (bufs x ! j) = b_data (bufs s ! j)" using keeps_bufsD [OF x(7)] j(1) by auto
  qed
  ultimately show "returns (put_logged i f) s (\<lambda>_ t. budget B (left b B s k) t \<and> rest t = rest s \<and> set (txn t) = insert b (set (txn s))
        \<and> view t = (view s)(b := f (view s b)) \<and> held t = held s - {b} \<and> keeps_bufs s i t)"
    using rest_logged [OF cx] tx d w x(1,4,5) u v
    by (simp add: put_logged_def edit_data_def returns_def)
next
  fix B k s i b assume a: "budget B k s" "buf_for s i b" "clean s b"
  have o: "bio_ok s" using budget_room(2) [OF a(1)] by (simp add: in_op_def)
  from bcache.give_law [OF o a(2)] a(3)
  have "returns (brelse i) s (\<lambda>_ t. core t = core s \<and> bio_ok t \<and> view t = view s \<and> held t = held s - {b}
        \<and> pinned t = pinned s \<and> keeps_bufs s i t)" by (simp add: clean_def)
  then show "returns (brelse i) s (\<lambda>_ t. budget B k t \<and> core t = core s \<and> view t = view s \<and> held t = held s - {b} \<and> keeps_bufs s i t)"
    by (rule returns_mono) (simp add: budget_core [OF a(1)])
qed


section \<open>The free map\<close>

lemma map_bit_iff: "map_bit d bi \<longleftrightarrow> bit (d ! (bi div 8)) (bi mod 8)"
  by (simp add: map_bit_def push_bit_of_1 and_exp_eq_0_iff_not_bit)

lemma same_bit: "bi div 8 = bj div 8 \<Longrightarrow> bi mod 8 = bj mod 8 \<Longrightarrow> bi = (bj :: nat)"
  by (metis div_mult_mod_eq)

lemma bit_or_one: "j < 8 \<Longrightarrow> bit ((x :: byte) OR push_bit j 1) i \<longleftrightarrow> i = j \<or> bit x i"
  by (simp add: bit_or_iff push_bit_of_1 bit_exp_iff) blast

lemma bit_clear_one: "i < 8 \<Longrightarrow> bit ((x :: byte) AND NOT (push_bit j 1)) i \<longleftrightarrow> i \<noteq> j \<and> bit x i"
  by (simp add: bit_and_iff bit_not_iff push_bit_of_1 bit_exp_iff) blast

lemma map_bit_set:
  assumes "bi < 8 * length d"
  shows "map_bit (set_map_bit bi d) bj \<longleftrightarrow> bj = bi \<or> map_bit d bj"
proof -
  have l: "bi div 8 < length d" using assms by linarith
  show ?thesis
  proof (cases "bj div 8 = bi div 8")
    case True
    then show ?thesis
      using l same_bit [of bj bi] bit_or_one [of "bi mod 8"] by (auto simp: map_bit_iff set_map_bit_def)
  next
    case False
    then show ?thesis by (auto simp: map_bit_iff set_map_bit_def)
  qed
qed

lemma map_bit_clear:
  assumes "bi < 8 * length d"
  shows "map_bit (clear_map_bit bi d) bj \<longleftrightarrow> bj \<noteq> bi \<and> map_bit d bj"
proof -
  have l: "bi div 8 < length d" using assms by linarith
  show ?thesis
  proof (cases "bj div 8 = bi div 8")
    case True
    then show ?thesis
      using l same_bit [of bj bi] bit_clear_one [of "bj mod 8"] by (auto simp: map_bit_iff clear_map_bit_def)
  next
    case False
    then show ?thesis by (auto simp: map_bit_iff clear_map_bit_def)
  qed
qed

lemma map_length [simp]: "length (set_map_bit bi d) = length d" "length (clear_map_bit bi d) = length d"
  by (simp_all add: set_map_bit_def clear_map_bit_def)

definition used :: "kernel \<Rightarrow> nat \<Rightarrow> bool" where
  "used s b \<longleftrightarrow> map_bit (view s (BBLOCK (of_nat b) (sb s))) (b mod BPB)"

definition fs_size :: "kernel \<Rightarrow> nat" where
  "fs_size s = unat (sb_size (sb s))"

definition map_blocks :: "kernel \<Rightarrow> uint32 set" where
  "map_blocks s = (\<lambda>b. BBLOCK (of_nat b) (sb s)) ` {..<fs_size s}"

text \<open>
  The free map of a file system: its blocks are on the disk and outside of the log, and
  neither they nor block 0 nor the log are free.
\<close>

definition map_ok :: "kernel \<Rightarrow> bool" where
  "map_ok s \<longleftrightarrow> fs_size s \<le> unat (disksize s)
     \<and> (\<forall>m \<in> map_blocks s. m < disksize s \<and> m \<notin> log_area s)
     \<and> inj_on (\<lambda>g. BBLOCK (of_nat g) (sb s)) {g. g < fs_size s \<and> g mod BPB = 0}
     \<and> (\<forall>b < fs_size s. \<not> used s b \<longrightarrow> b \<noteq> 0 \<and> of_nat b \<notin> log_area s \<and> of_nat b \<notin> map_blocks s)"

text \<open>The blocks that are held are neither free nor part of the map.\<close>

definition held_ok :: "kernel \<Rightarrow> bool" where
  "held_ok s \<longleftrightarrow> card (held s) \<le> 1 \<and> (\<forall>b \<in> held s. b \<notin> map_blocks s \<and> unat b < fs_size s \<and> used s (unat b))"

lemma finite_map_blocks: "finite (map_blocks s)"
  by (simp add: map_blocks_def)

lemma BBLOCK_group:
  assumes "b < 2 ^ 32"
  shows "BBLOCK (of_nat b) sblk = BBLOCK (of_nat (b div BPB * BPB)) sblk"
proof -
  have le: "b div BPB * BPB < 2 ^ 32" using assms div_times_less_eq_dividend [of b BPB] by linarith
  have "unat (of_nat b :: uint32) = b" "unat (of_nat (b div BPB * BPB) :: uint32) = b div BPB * BPB"
    using assms le by (simp_all only: unat_of_nat32)
  then have "(of_nat b :: uint32) div of_nat BPB = of_nat (b div BPB * BPB) div of_nat BPB"
    unfolding word_unat_eq_iff unat_div by (simp add: layout_simps)
  then show ?thesis by (simp only: BBLOCK_def)
qed

lemma used_view:
  "view t (BBLOCK (of_nat b) (sb s)) = view s (BBLOCK (of_nat b) (sb s)) \<Longrightarrow> sb t = sb s \<Longrightarrow> used t b = used s b"
  by (simp add: used_def)

lemma fs_core:
  assumes "core t = core s"
  shows "map_blocks t = map_blocks s" "fs_size t = fs_size s"
  using coreD(26) [OF assms] by (simp_all add: map_blocks_def fs_size_def)


section \<open>Allocation\<close>

lemma bzero_put: "bzero 1 b = bind (bread 1 b) (\<lambda>i. put_logged i (\<lambda>_. replicate BSIZE 0))"
  by (simp add: bzero_def put_logged_def edit_data_def)

text \<open>A block has been taken from the free map and cleared.\<close>

definition allocated :: "uint32 set \<Rightarrow> nat \<Rightarrow> kernel \<Rightarrow> uint32 \<Rightarrow> kernel \<Rightarrow> bool" where
  "allocated B k s b t \<longleftrightarrow> unat b < fs_size s \<and> \<not> used s (unat b) \<and> budget B (k - 1) t \<and> rest t = rest s \<and> held t = held s
     \<and> keeps_bufs s NBUF t \<and> set (txn t) = insert b (insert (BBLOCK b (sb s)) (set (txn s)))
     \<and> view t = (view s)(BBLOCK b (sb s) := set_map_bit (unat b mod BPB) (view s (BBLOCK b (sb s))), b := replicate BSIZE 0)"

lemma group_block:
  assumes "g mod BPB = 0" "bi < BPB" "g + bi < 2 ^ 32"
  shows "BBLOCK (of_nat (g + bi)) sblk = BBLOCK (of_nat g) sblk" "(g + bi) mod BPB = bi"
proof -
  have g: "(g + bi) div BPB * BPB = g" using assms(1,2) by (auto simp: div_add1_eq)
  show "BBLOCK (of_nat (g + bi)) sblk = BBLOCK (of_nat g) sblk" using BBLOCK_group [OF assms(3), of sblk] by (simp only: g)
  show "(g + bi) mod BPB = bi" using assms(1,2) by (simp add: mod_add_eq [symmetric])
qed

lemma map_blockI: "b < fs_size s \<Longrightarrow> BBLOCK (of_nat b) (sb s) \<in> map_blocks s"
  by (auto simp: map_blocks_def)

lemma fs_size_bound: "fs_size s < 2 ^ 32"
  unfolding fs_size_def by (rule unat_lt_2p32)

text \<open>The bit is set in the block of the map that is held, then the new block is cleared.\<close>

lemma take_block:
  assumes s: "budget B k s" "map_ok s" "held_ok s" "map_blocks s \<subseteq> B" "1 \<le> k"
    and t: "budget B k t" "core t = core s" "buf_for t i m" "view t = view s" "held t = insert m (held s)" "keeps_bufs s NBUF t"
    and m: "m = BBLOCK (of_nat n) (sb s)" "n < fs_size s" "\<not> used s n" and bi: "bi = n mod BPB"
  shows "returns (andthen (put_logged i (set_map_bit bi)) (bzero 1 (of_nat n))) t (\<lambda>_ u. allocated B k s (of_nat n) u)"
proof -
  have n: "unat (of_nat n :: uint32) = n" using m(2) fs_size_bound [of s] by (intro unat_of_nat32) simp
  have nb: "(of_nat n :: uint32) < disksize s" "of_nat n \<notin> log_area s" "of_nat n \<notin> map_blocks s" "of_nat n \<notin> held s"
    using s(2,3) m(2,3) n by (auto simp: map_ok_def held_ok_def word_less_nat_alt)
  have mb: "m \<in> map_blocks s" "m \<in> B" "m \<notin> held s" "m < disksize s" "m \<notin> log_area s"
    using s(2-4) m(1,2) map_blockI [of n s] by (auto simp: map_ok_def held_ok_def)
  have inv: "bio_ok s" using budget_room(2) [OF s(1)] by (simp add: in_op_def)
  note c = coreD [OF t(2)] log_core [OF t(2)]
  have pre: "m < disksize t" "m \<notin> log_area t" "affords m B t k" "length (set_map_bit bi (view t m)) = BSIZE"
    using mb c inv t(4) by (simp_all add: affords_def)
  have k: "left m B t k = k" using mb(2) by (simp add: left_def)
  have h: "held t - {m} = held s" using t(5) mb(3) by simp
  obtain u where u: "put_logged i (set_map_bit bi) t = Ok () u" "budget B k u" "rest u = rest s" "set (txn u) = insert m (set (txn s))"
    "view u = (view s)(m := set_map_bit bi (view s m))" "held u = held s" "keeps_bufs t i u"
    using lblocks.put_law [where f = "set_map_bit bi", OF t(1,3) pre] c(41) h
    unfolding returns_iff k rest_core [OF t(2)] t(4) by auto
  note d = restD [OF u(3)]
  have ku: "keeps_bufs s NBUF u" by (rule keeps_given [OF t(6,3) mb(3) u(7)])
  have pre: "of_nat n < disksize u" "of_nat n \<notin> log_area u" "of_nat n \<notin> held u" "card (held u) \<le> 1" "affords (of_nat n) B u k"
    "length (replicate BSIZE (0 :: byte)) = BSIZE"
    using s(3,5) nb d u(6) by (simp_all add: affords_def held_ok_def)
  obtain v where v: "bzero 1 (of_nat n) u = Ok () v" "budget B (left (of_nat n) B u k) v" "rest v = rest u"
    "set (txn v) = insert (of_nat n) (set (txn u))" "view v = (view u)(of_nat n := replicate BSIZE 0)" "held v = held u" "keeps_bufs u NBUF v"
    using lblocks.edit_block [where f = "\<lambda>_. replicate BSIZE 0", OF u(2) pre]
    unfolding returns_iff bzero_put by auto
  have "budget B (k - 1) v" by (rule budget_less [OF v(2)]) (simp add: left_def)
  moreover have "keeps_bufs s NBUF v" by (rule keeps_bufs_trans [OF ku v(7)])
  ultimately show ?thesis
    using u v n m bi by (simp add: returns_def allocated_def)
qed


lemma balloc_found:
  "balloc_loop dev (g # gs) = bind (gets sb) (\<lambda>sblk.
    bind (bread dev (BBLOCK (of_nat g) sblk)) (\<lambda>i.
    bind (gets (\<lambda>s. find (\<lambda>bi. \<not> map_bit (b_data (bufs s ! i)) bi) [0..<min BPB (unat (sb_size sblk) - g)])) (\<lambda>r.
    case r of
      Some bi \<Rightarrow> andthen (andthen (put_logged i (set_map_bit bi)) (bzero dev (of_nat (g + bi)))) (return (of_nat (g + bi)))
    | None \<Rightarrow> andthen (brelse i) (balloc_loop dev gs))))"
  unfolding balloc_loop.simps put_logged_def andthen_assoc by (rule refl)

lemma balloc_loop_returns:
  assumes "budget B k s" "map_ok s" "held_ok s" "map_blocks s \<subseteq> B" "1 \<le> k"
    "\<forall>g\<in>set gs. g mod BPB = 0 \<and> g < fs_size s"
    "\<exists>g\<in>set gs. \<exists>bi < min BPB (fs_size s - g). \<not> used s (g + bi)"
  shows "returns (balloc_loop 1 gs) s (\<lambda>b t. allocated B k s b t)"
  using assms
proof (induction gs arbitrary: s)
  case (Cons g gs)
  note s = Cons.prems
  let ?m = "BBLOCK (of_nat g) (sb s)" and ?n = "min BPB (fs_size s - g)"
  have g: "g mod BPB = 0" "g < fs_size s" using s(6) by simp_all
  have m: "?m < disksize s" "?m \<notin> held s" "card (held s) \<le> 1"
    using s(2,3) map_blockI [OF g(2)] by (auto simp: map_ok_def held_ok_def)
  obtain i t where t: "bread 1 ?m s = Ok i t" "budget B k t" "core t = core s" "buf_for t i ?m" "b_data (bufs t ! i) = view s ?m"
    "view t = view s" "held t = insert ?m (held s)" "clean t ?m" "keeps_bufs s NBUF t"
    using lblocks.get_law [OF s(1) m] unfolding returns_iff by auto
  have bound: "g + bi < fs_size s" "g + bi < 2 ^ 32" if "bi < ?n" for bi using that fs_size_bound [of s] by auto
  have bit: "used s (g + bi) = map_bit (view s ?m) bi" if "bi < ?n" for bi
    using group_block [OF g(1), of bi] bound [OF that] that by (simp add: used_def)
  have step: "balloc_loop 1 (g # gs) s = (case find (\<lambda>bi. \<not> map_bit (view s ?m) bi) [0..<?n] of
      Some bi \<Rightarrow> andthen (andthen (put_logged i (set_map_bit bi)) (bzero 1 (of_nat (g + bi)))) (return (of_nat (g + bi))) t
    | None \<Rightarrow> andthen (brelse i) (balloc_loop 1 gs) t)"
    unfolding balloc_found by (simp add: bind_def gets_def t(1,5) fs_size_def split: option.split)
  show ?case
  proof (cases "find (\<lambda>bi. \<not> map_bit (view s ?m) bi) [0..<?n]")
    case (Some bi)
    then have bi: "bi < ?n" "\<not> map_bit (view s ?m) bi" by (auto simp: find_Some_iff)
    have "returns (andthen (put_logged i (set_map_bit bi)) (bzero 1 (of_nat (g + bi)))) t (\<lambda>_ u. allocated B k s (of_nat (g + bi)) u)"
      by (rule take_block [OF s(1-5) t(2-4,6,7,9)])
        (use bi bit [OF bi(1)] bound [OF bi(1)] group_block [OF g(1), of bi] in simp_all)
    then show ?thesis unfolding returns_iff step Some by (auto simp: andthen_def bind_def return_def)
  next
    case None
    then have full: "used s (g + bi)" if "bi < ?n" for bi using bit [OF that] that by (auto simp: find_None_iff)
    have h: "held t - {?m} = held s" using t(7) m(2) by simp
    obtain u where u: "brelse i t = Ok () u" "budget B k u" "core u = core s" "view u = view s" "held u = held s" "keeps_bufs t i u"
      using lblocks.give_law [OF t(2,4,8)] unfolding returns_iff t(3,6) h by auto
    have ku: "keeps_bufs s NBUF u" by (rule keeps_given [OF t(9,4) m(2) u(6)])
    note c = coreD [OF u(3)] log_core [OF u(3)] fs_core [OF u(3)]
    have us: "used u = used s" by (rule ext) (rule used_view, simp_all add: u c)
    have inv: "map_ok u" "held_ok u" using s(2,3) c us u(5) by (simp_all add: map_ok_def held_ok_def)
    have "returns (balloc_loop 1 gs) u (\<lambda>b t. allocated B k u b t)"
    proof (rule Cons.IH [OF u(2) inv])
      show "map_blocks u \<subseteq> B" "1 \<le> k" "\<forall>g\<in>set gs. g mod BPB = 0 \<and> g < fs_size u" using s(4-6) c by simp_all
      show "\<exists>g\<in>set gs. \<exists>bi < min BPB (fs_size u - g). \<not> used u (g + bi)" using s(7) full c us by auto
    qed
    moreover have "allocated B k s b v" if "allocated B k u b v" for b v
      using that unfolding allocated_def us c u(4,5) rest_core [OF u(3)] by (blast intro: keeps_bufs_trans [OF ku])
    ultimately show ?thesis unfolding returns_iff step None by (auto simp: andthen_def u(1))
  qed
qed simp

lemma groups_cover:
  assumes "b < fs_size s"
  shows "b div BPB * BPB \<in> set (map_groups (sb s))" "b mod BPB < min BPB (fs_size s - b div BPB * BPB)"
    "b div BPB * BPB + b mod BPB = b"
proof -
  have B: "0 < BPB" by (simp add: layout_simps)
  have "Suc (b div BPB) = (b + BPB) div BPB" by (simp add: layout_simps)
  also have "\<dots> \<le> (fs_size s + BPB - 1) div BPB" by (rule div_le_mono) (use assms in simp)
  finally have "b div BPB < (fs_size s + BPB - 1) div BPB" by simp
  then show "b div BPB * BPB \<in> set (map_groups (sb s))" by (auto simp: map_groups_def fs_size_def)
  show e: "b div BPB * BPB + b mod BPB = b" by simp
  show "b mod BPB < min BPB (fs_size s - b div BPB * BPB)" using assms e mod_less_divisor [OF B, of b] by linarith
qed


lemma balloc_returns:
  assumes "budget B k s" "map_ok s" "held_ok s" "map_blocks s \<subseteq> B" "1 \<le> k" "n < fs_size s" "\<not> used s n"
  shows "returns (balloc 1) s (\<lambda>b t. allocated B k s b t)"
proof -
  have "\<forall>g\<in>set (map_groups (sb s)). g mod BPB = 0 \<and> g < fs_size s"
  proof
    fix g assume "g \<in> set (map_groups (sb s))"
    then obtain j where j: "g = j * BPB" "j < (fs_size s + BPB - 1) div BPB"
      unfolding map_groups_def fs_size_def set_map set_upt image_iff Bex_def atLeastLessThan_iff by blast
    have "Suc j * BPB \<le> (fs_size s + BPB - 1) div BPB * BPB" by (rule mult_le_mono1) (use j(2) in simp)
    also have "\<dots> \<le> fs_size s + BPB - 1" by (rule div_times_less_eq_dividend)
    finally have "j * BPB + BPB \<le> fs_size s + BPB - 1" by simp
    then show "g mod BPB = 0 \<and> g < fs_size s" using j(1) by (simp add: layout_simps)
  qed
  moreover have "\<exists>g\<in>set (map_groups (sb s)). \<exists>bi < min BPB (fs_size s - g). \<not> used s (g + bi)"
    using groups_cover [OF assms(6)] assms(7) by metis
  ultimately have "returns (balloc_loop 1 (map_groups (sb s))) s (\<lambda>b t. allocated B k s b t)"
    by (rule balloc_loop_returns [OF assms(1-5)])
  then show ?thesis by (simp add: balloc_def bind_def gets_def returns_def)
qed

text \<open>What allocation does to the map.\<close>

lemma same_group:
  assumes "map_ok s" "b < fs_size s" "c < fs_size s" "BBLOCK (of_nat b) (sb s) = BBLOCK (of_nat c) (sb s)" "b mod BPB = c mod BPB"
  shows "b = c"
proof -
  have g: "b div BPB * BPB < fs_size s" "c div BPB * BPB < fs_size s"
    using assms(2,3) div_times_less_eq_dividend [of b BPB] div_times_less_eq_dividend [of c BPB] by linarith+
  have "BBLOCK (of_nat (b div BPB * BPB)) (sb s) = BBLOCK (of_nat (c div BPB * BPB)) (sb s)"
    using assms(2-4) fs_size_bound [of s] BBLOCK_group [of b "sb s"] BBLOCK_group [of c "sb s"] by simp
  then have "b div BPB * BPB = c div BPB * BPB"
    using assms(1) g unfolding map_ok_def by (elim conjE) (erule inj_onD, simp_all)
  then show ?thesis using assms(5) by (metis div_mult_mod_eq)
qed

lemma map_bit_bound: "bio_ok s \<Longrightarrow> b mod BPB < 8 * length (view s m)"
  by (simp add: layout_simps)

lemma used_set:
  assumes "map_ok s" "bio_ok s" "sb t = sb s" "n < fs_size s" "c < fs_size s"
    and view: "view t (BBLOCK (of_nat n) (sb s)) = set_map_bit (n mod BPB) (view s (BBLOCK (of_nat n) (sb s)))"
      "\<And>m. m \<in> map_blocks s \<Longrightarrow> m \<noteq> BBLOCK (of_nat n) (sb s) \<Longrightarrow> view t m = view s m"
  shows "used t c \<longleftrightarrow> c = n \<or> used s c"
proof (cases "BBLOCK (of_nat c) (sb s) = BBLOCK (of_nat n) (sb s)")
  case True
  have "used t c \<longleftrightarrow> c mod BPB = n mod BPB \<or> used s c"
    unfolding used_def assms(3) True view(1) by (rule map_bit_set [OF map_bit_bound [OF assms(2)]])
  moreover have "c mod BPB = n mod BPB \<longleftrightarrow> c = n" using same_group [OF assms(1,5,4) True] by blast
  ultimately show ?thesis by simp
next
  case False
  then have "c \<noteq> n" by auto
  then show ?thesis using view(2) [OF map_blockI [OF assms(5)] False] by (simp add: used_def assms(3))
qed

lemma used_clear:
  assumes "map_ok s" "bio_ok s" "sb t = sb s" "n < fs_size s" "c < fs_size s"
    and view: "view t (BBLOCK (of_nat n) (sb s)) = clear_map_bit (n mod BPB) (view s (BBLOCK (of_nat n) (sb s)))"
      "\<And>m. m \<in> map_blocks s \<Longrightarrow> m \<noteq> BBLOCK (of_nat n) (sb s) \<Longrightarrow> view t m = view s m"
  shows "used t c \<longleftrightarrow> c \<noteq> n \<and> used s c"
proof (cases "BBLOCK (of_nat c) (sb s) = BBLOCK (of_nat n) (sb s)")
  case True
  have "used t c \<longleftrightarrow> c mod BPB \<noteq> n mod BPB \<and> used s c"
    unfolding used_def assms(3) True view(1) by (rule map_bit_clear [OF map_bit_bound [OF assms(2)]])
  moreover have "c mod BPB = n mod BPB \<longleftrightarrow> c = n" using same_group [OF assms(1,5,4) True] by blast
  ultimately show ?thesis by simp
next
  case False
  then have "c \<noteq> n" by auto
  then show ?thesis using view(2) [OF map_blockI [OF assms(5)] False] by (simp add: used_def assms(3))
qed

lemma budget_bio: "budget B k s \<Longrightarrow> bio_ok s"
  by (simp add: budget_def in_op_def)

lemma rest_fs:
  assumes "rest t = rest s"
  shows "map_blocks t = map_blocks s" "fs_size t = fs_size s"
  using restD(1) [OF assms] by (simp_all add: map_blocks_def fs_size_def)

lemma allocatedD:
  assumes "allocated B k s b t" "map_ok s" "held_ok s" "bio_ok s"
  shows "b \<notin> map_blocks s" "b \<notin> log_area s" "b \<noteq> 0" "b < disksize s" "b \<notin> held s"
    "\<And>c. c < fs_size s \<Longrightarrow> used t c \<longleftrightarrow> c = unat b \<or> used s c"
    "view t b = replicate BSIZE 0" "\<And>c. c \<notin> map_blocks s \<Longrightarrow> c \<noteq> b \<Longrightarrow> view t c = view s c"
    "map_ok t" "held_ok t"
proof -
  note a = assms(1) [unfolded allocated_def]
  have ub: "of_nat (unat b) = b" "unat b < fs_size s" "\<not> used s (unat b)" using a by simp_all
  have rst: "rest t = rest s" "held t = held s" using a by simp_all
  note d = restD [OF rst(1)] rest_fs [OF rst(1)]
  show b: "b \<notin> map_blocks s" "b \<notin> log_area s" "b < disksize s" "b \<notin> held s"
    using assms(2,3) ub unfolding map_ok_def held_ok_def by (metis, metis, simp add: word_less_nat_alt, metis)
  show "b \<noteq> 0" using assms(2) ub unfolding map_ok_def by (metis unat_0)
  have m: "BBLOCK b (sb s) \<in> map_blocks s" using map_blockI [OF ub(2)] by (simp only: ub(1))
  have v: "view t (BBLOCK b (sb s)) = set_map_bit (unat b mod BPB) (view s (BBLOCK b (sb s)))"
    "\<And>c. c \<noteq> BBLOCK b (sb s) \<Longrightarrow> c \<noteq> b \<Longrightarrow> view t c = view s c" "view t b = replicate BSIZE 0"
    using a m b(1) by auto
  show "view t b = replicate BSIZE 0" by (rule v(3))
  show "view t c = view s c" if "c \<notin> map_blocks s" "c \<noteq> b" for c using v(2) [of c] m that by auto
  show u: "used t c \<longleftrightarrow> c = unat b \<or> used s c" if "c < fs_size s" for c
    by (rule used_set [OF assms(2,4) d(1) ub(2) that]) (use v b(1) ub(1) in auto)
  show "map_ok t" using assms(2) u unfolding map_ok_def d by auto
  show "held_ok t" using assms(3) u unfolding held_ok_def d rst(2) by auto
qed


section \<open>Release\<close>

definition readsb_same :: "kernel \<Rightarrow> bool" where
  "readsb_same s \<longleftrightarrow> sb_of (view s 1) = sb s \<and> 1 < disksize s \<and> 1 \<notin> held s \<and> 1 \<notin> map_blocks s \<and> 1 < fs_size s \<and> used s 1"

lemma readsb_returns:
  assumes "budget B k s" "readsb_same s" "card (held s) \<le> 1"
  shows "returns (readsb 1) s (\<lambda>x t. x = sb s \<and> budget B k t \<and> core t = core s \<and> view t = view s \<and> held t = held s \<and> keeps_bufs s NBUF t)"
  using lblocks.read_block [OF assms(1), of 1 sb_of] assms(2,3) by (simp add: readsb_def readsb_same_def)

lemma bfree_start:
  assumes "budget B k s" "readsb_same s" "held_ok s" "map_ok s" "unat b < fs_size s"
  obtains i t where "budget B k t" "core t = core s" "buf_for t i (BBLOCK b (sb s))" "b_data (bufs t ! i) = view s (BBLOCK b (sb s))"
    "view t = view s" "held t = insert (BBLOCK b (sb s)) (held s)" "keeps_bufs s NBUF t"
    "bfree 1 b s = (if used s (unat b) then put_logged i (clear_map_bit (unat b mod BPB)) t else Panic ''freeing free block'' t)"
proof -
  let ?m = "BBLOCK b (sb s)"
  have m: "?m \<in> map_blocks s" using map_blockI [OF assms(5)] by simp
  have h: "card (held s) \<le> 1" "?m \<notin> held s" "?m < disksize s" using assms(3,4) m by (auto simp: held_ok_def map_ok_def)
  obtain t0 where t0: "readsb 1 s = Ok (sb s) t0" "budget B k t0" "core t0 = core s" "view t0 = view s" "held t0 = held s" "keeps_bufs s NBUF t0"
    using readsb_returns [OF assms(1,2) h(1)] unfolding returns_iff by auto
  note c = coreD [OF t0(3)]
  have same: "t0\<lparr>sb := sb s\<rparr> = t0" using c(26) by simp
  have pre: "?m < disksize t0" "?m \<notin> held t0" "card (held t0) \<le> 1" using h c t0(5) by simp_all
  obtain i t where t: "bread 1 ?m t0 = Ok i t" "budget B k t" "core t = core t0" "buf_for t i ?m" "b_data (bufs t ! i) = view t0 ?m"
    "view t = view t0" "held t = insert ?m (held t0)" "keeps_bufs t0 NBUF t"
    using lblocks.get_law [OF t0(2) pre] unfolding returns_iff by auto
  have "bfree 1 b s = (if used s (unat b) then put_logged i (clear_map_bit (unat b mod BPB)) t else Panic ''freeing free block'' t)"
    using t(1,5) t0(1,4) same
    by (simp add: bfree_def bind_def andthen_def modify_def gets_def Let_def panic_if_def panic_def return_def used_def put_logged_def)
  then show ?thesis
    using that [OF t(2) _ t(4)] t t0 keeps_bufs_trans [OF t0(6) t(8)] by simp
qed

lemma bfree_returns:
  assumes "budget B k s" "readsb_same s" "held_ok s" "map_ok s" "map_blocks s \<subseteq> B" "unat b < fs_size s" "used s (unat b)"
  shows "returns (bfree 1 b) s (\<lambda>_ t. budget B k t \<and> rest t = rest s \<and> held t = held s \<and> keeps_bufs s NBUF t
    \<and> set (txn t) = insert (BBLOCK b (sb s)) (set (txn s))
    \<and> view t = (view s)(BBLOCK b (sb s) := clear_map_bit (unat b mod BPB) (view s (BBLOCK b (sb s)))))"
proof -
  let ?m = "BBLOCK b (sb s)" and ?f = "clear_map_bit (unat b mod BPB)"
  obtain i t where t: "budget B k t" "core t = core s" "buf_for t i ?m" "b_data (bufs t ! i) = view s ?m"
    "view t = view s" "held t = insert ?m (held s)" "keeps_bufs s NBUF t" "bfree 1 b s = put_logged i ?f t"
    using bfree_start [OF assms(1-4,6)] assms(7) by metis
  have m: "?m \<in> map_blocks s" using map_blockI [OF assms(6)] by simp
  have mb: "?m \<notin> held s" "?m < disksize s" "?m \<notin> log_area s" "?m \<in> B"
    using assms(3-5) m by (auto simp: held_ok_def map_ok_def)
  note c = coreD [OF t(2)] log_core [OF t(2)]
  have pre: "?m < disksize t" "?m \<notin> log_area t" "affords ?m B t k" "length (?f (view t ?m)) = BSIZE"
    using mb c t(5) budget_bio [OF assms(1)] by (simp_all add: affords_def)
  have k: "left ?m B t k = k" "held t - {?m} = held s" using mb(1,4) t(6) by (simp_all add: left_def)
  from lblocks.put_law [where f = ?f, OF t(1,3) pre] show ?thesis
    using keeps_given [OF t(7,3) mb(1)] c(41)
    unfolding returns_iff k t(5,8) rest_core [OF t(2)] by auto
qed

lemma bfree_free_panics:
  assumes "budget B k s" "readsb_same s" "held_ok s" "map_ok s" "unat b < fs_size s" "\<not> used s (unat b)"
  shows "\<exists>t. bfree 1 b s = Panic ''freeing free block'' t"
  using bfree_start [OF assms(1-5)] assms(6) by metis


section \<open>Theorems\<close>

text \<open>
  C30. \<open>balloc\<close> returns a block that was free: the block is marked in the free map and
  cleared, no other bit of the map and no other block of the file system changes.
\<close>

theorem balloc_fresh:
  assumes "budget (map_blocks s) 1 s" "map_ok s" "held s = {}" "n < fs_size s" "\<not> used s n"
  shows "returns (balloc 1) s (\<lambda>b t. unat b < fs_size s \<and> \<not> used s (unat b) \<and> view t b = replicate BSIZE 0
    \<and> (\<forall>c < fs_size s. used t c = (c = unat b \<or> used s c))
    \<and> (\<forall>c. c \<notin> map_blocks s \<longrightarrow> c \<noteq> b \<longrightarrow> view t c = view s c))"
proof -
  have h: "held_ok s" using assms(3) by (simp add: held_ok_def)
  have "returns (balloc 1) s (\<lambda>b t. allocated (map_blocks s) 1 s b t)"
    by (rule balloc_returns [OF assms(1,2) h _ _ assms(4,5)]) simp_all
  then show ?thesis
  proof (rule returns_mono)
    fix b t assume a: "allocated (map_blocks s) 1 s b t"
    note d = allocatedD [OF a assms(2) h budget_bio [OF assms(1)]]
    show "unat b < fs_size s \<and> \<not> used s (unat b) \<and> view t b = replicate BSIZE 0
      \<and> (\<forall>c < fs_size s. used t c = (c = unat b \<or> used s c)) \<and> (\<forall>c. c \<notin> map_blocks s \<longrightarrow> c \<noteq> b \<longrightarrow> view t c = view s c)"
      using a d(6,7,8) by (auto simp: allocated_def)
  qed
qed

lemma clear_set: "bi < 8 * length d \<Longrightarrow> \<not> map_bit d bi \<Longrightarrow> clear_map_bit bi (set_map_bit bi d) = d"
proof -
  assume a: "bi < 8 * length d" "\<not> map_bit d bi"
  have l: "bi div 8 < length d" using a(1) by linarith
  have "((d ! (bi div 8)) OR push_bit (bi mod 8) 1) AND NOT (push_bit (bi mod 8) 1) = d ! (bi div 8)"
  proof (rule bit_word_eqI)
    fix j assume "j < LENGTH(8)"
    then have j: "j < 8" by simp
    show "bit (((d ! (bi div 8)) OR push_bit (bi mod 8) 1) AND NOT (push_bit (bi mod 8) 1)) j = bit (d ! (bi div 8)) j"
      unfolding bit_clear_one [OF j] using bit_or_one [of "bi mod 8" "d ! (bi div 8)" j] a(2) by (auto simp: map_bit_iff)
  qed
  then show ?thesis using l by (simp add: clear_map_bit_def set_map_bit_def)
qed

text \<open>
  C31. \<open>bfree\<close> undoes \<open>balloc\<close>: after both, the free map is as before, and no block but the one
  that was allocated has changed. To free a block that is free already is a panic.
\<close>

theorem bfree_undoes_balloc:
  assumes "budget (map_blocks s) 1 s" "map_ok s" "held s = {}" "readsb_same s" "n < fs_size s" "\<not> used s n"
  shows "returns (bind (balloc 1) (\<lambda>b. andthen (bfree 1 b) (return b))) s (\<lambda>b t. (\<forall>c. c \<noteq> b \<longrightarrow> view t c = view s c))
    \<and> (\<exists>t. bfree 1 (of_nat n) s = Panic ''freeing free block'' t)"
proof -
  have h: "held_ok s" using assms(3) by (simp add: held_ok_def)
  have "returns (balloc 1) s (\<lambda>b t. allocated (map_blocks s) 1 s b t)"
    by (rule balloc_returns [OF assms(1,2) h _ _ assms(5,6)]) simp_all
  then obtain b t where t: "balloc 1 s = Ok b t" "allocated (map_blocks s) 1 s b t" unfolding returns_iff by blast
  note a = t(2) [unfolded allocated_def]
  note d = allocatedD [OF t(2) assms(2) h budget_bio [OF assms(1)]]
  have r: "rest t = rest s" "budget (map_blocks s) 0 t" "held t = {}" using a assms(3) by simp_all
  note e = restD [OF r(1)] rest_fs [OF r(1)]
  let ?m = "BBLOCK b (sb s)"
  have m: "?m \<in> map_blocks s" using map_blockI [of "unat b" s] a by simp
  have b: "b \<noteq> 1" "unat b < fs_size t" "used t (unat b)" using a assms(4) d(6) e by (auto simp: readsb_same_def)
  have one: "readsb_same t" "held_ok t" "map_ok t"
    using assms(4) d(6) [of 1] d(8) [of 1] d(9,10) b(1) e r(3) by (auto simp: readsb_same_def)
  obtain u where u: "bfree 1 b t = Ok () u" "view u = (view t)(?m := clear_map_bit (unat b mod BPB) (view t ?m))"
    using bfree_returns [OF r(2) one(1,2,3) _ b(2,3)] e unfolding returns_iff by auto
  have "view t ?m = set_map_bit (unat b mod BPB) (view s ?m)" using a m d(1) by auto
  moreover have "\<not> map_bit (view s ?m) (unat b mod BPB)" using a by (simp add: used_def)
  ultimately have vm: "view u ?m = view s ?m"
    using u(2) clear_set [OF map_bit_bound [OF budget_bio [OF assms(1)]]] by simp
  have "view u c = view s c" if "c \<noteq> b" for c
    using vm u(2) a that by (cases "c = ?m") auto
  moreover have "\<exists>t. bfree 1 (of_nat n) s = Panic ''freeing free block'' t"
    by (rule bfree_free_panics [OF assms(1,4) h assms(2)]) (use assms(5,6) unat_of_nat32 [of n] fs_size_bound [of s] in simp_all)
  ultimately show ?thesis using t(1) u(1) by (simp add: returns_def)
qed


section \<open>A concrete file system\<close>

text \<open>
  A disk of 1000 blocks with an empty file system as \<^verbatim>\<open>mkfs.c\<close> lays it out: the super block, a log
  of 30 blocks from block 2, inodes from block 32, the free map in block 58, of which 59 blocks
  are used. The kernel is inside an operation.
\<close>

definition sample_sb :: superblock where
  "sample_sb = \<lparr>sb_size = 1000, sb_nblocks = 941, sb_ninodes = 200, sb_nlog = 30, sb_logstart = 2, sb_inodestart = 32, sb_bmapstart = 58\<rparr>"

definition sb_bytes :: "superblock \<Rightarrow> byte list" where
  "sb_bytes x = put32 (put32 (put32 (put32 (put32 (put32 (put32 (replicate BSIZE 0) 0 (sb_size x)) 4 (sb_nblocks x)) 8 (sb_ninodes x))
    12 (sb_nlog x)) 16 (sb_logstart x)) 20 (sb_inodestart x)) 24 (sb_bmapstart x)"

lemma sb_of_bytes: "length (sb_bytes x) = BSIZE" "sb_of (sb_bytes x) = x"
  by (simp_all add: sb_bytes_def sb_of_def get32_put32_other layout_simps del: replicate_Suc)

definition sample_map :: "byte list" where
  "sample_map = replicate 7 0xFF @ 7 # replicate 504 0"

lemma bit_255: "j < 8 \<Longrightarrow> bit (0xFF :: byte) j"
proof -
  assume "j < 8"
  then have "j \<in> {0, 1, 2, 3, 4, 5, 6, 7}" by auto
  then show ?thesis by (elim insertE emptyE) simp_all
qed

lemma bit_7: "j < 8 \<Longrightarrow> bit (7 :: byte) j \<longleftrightarrow> j < 3"
proof -
  assume "j < 8"
  then have "j \<in> {0, 1, 2, 3, 4, 5, 6, 7}" by auto
  then show ?thesis by (elim insertE emptyE) simp_all
qed

lemma sample_map_bit: "b < BPB \<Longrightarrow> map_bit sample_map b \<longleftrightarrow> b < 59"
proof -
  assume b: "b < BPB"
  have j: "b mod 8 < 8" by simp
  consider "b div 8 < 7" | "b div 8 = 7" | "7 < b div 8" by linarith
  then show ?thesis
  proof cases
    case 1
    then have "b < 59" by linarith
    then show ?thesis using 1 bit_255 [OF j] by (simp add: map_bit_iff sample_map_def nth_append)
  next
    case 2
    have "b = b div 8 * 8 + b mod 8" by simp
    then have "b < 59 \<longleftrightarrow> b mod 8 < 3" using 2 by linarith
    then show ?thesis using 2 bit_7 [OF j] by (simp add: map_bit_iff sample_map_def nth_append)
  next
    case 3
    then have "\<not> b < 59" by linarith
    moreover have "sample_map ! (b div 8) = 0"
      using 3 b by (auto simp: sample_map_def nth_append nth_Cons' layout_simps simp del: replicate_Suc)
    ultimately show ?thesis by (simp add: map_bit_iff)
  qed
qed

definition sample_disk :: "uint32 \<Rightarrow> byte list" where
  "sample_disk b = (if b = 1 then sb_bytes sample_sb else if b = 58 then sample_map else replicate BSIZE 0)"

definition mounted :: kernel where
  "mounted = (case begin_op ((booted sample_disk)\<lparr>sb := sample_sb\<rparr>) of Ok _ t \<Rightarrow> t | _ \<Rightarrow> booted sample_disk)"

lemma sample_disk_length: "length (sample_disk b) = BSIZE"
  by (simp add: sample_disk_def sb_of_bytes sample_map_def layout_simps del: replicate_Suc)

lemma mounted_facts:
  "in_op mounted" "txn mounted = []" "held mounted = {}" "view mounted = sample_disk" "sb mounted = sample_sb"
  "disksize mounted = 1000" "log_size mounted = 30" "log_start mounted = 2" "fs_size mounted = 1000"
  "lk \<noteq> L_bcache \<Longrightarrow> lock_free lk mounted"
proof -
  let ?s = "(booted sample_disk)\<lparr>sb := sample_sb\<rparr>"
  note f = booted_facts [of sample_disk, OF sample_disk_length]
  have v: "view ?s = sample_disk"
  proof
    fix b show "view ?s b = sample_disk b" using view_clean [of ?s b] f by simp
  qed
  have "log_idle ?s"
    using booted_geom [of sample_disk, OF sample_disk_length] f head_n_zeros
    by (simp add: log_idle_def log_geom_def sample_disk_def)
  from begin_op_returns [OF this] obtain t where t: "begin_op ?s = Ok () t" "in_op t" "txn t = []" "held t = {}" "view t = view ?s"
    "core t = (core ?s)\<lparr>log_outstanding := 1\<rparr>"
    unfolding returns_iff by auto
  have m: "mounted = t" by (simp add: mounted_def t(1))
  have "core t = core (?s\<lparr>log_outstanding := 1\<rparr>)" using t(6) by simp
  note base = this and c = coreD [OF this]
  show "in_op mounted" "txn mounted = []" "held mounted = {}" "view mounted = sample_disk" "sb mounted = sample_sb"
    "disksize mounted = 1000" "log_size mounted = 30" "log_start mounted = 2" "fs_size mounted = 1000"
    unfolding m fs_size_def using t(2-5) v c f by (simp_all add: sample_sb_def)
  show "lk \<noteq> L_bcache \<Longrightarrow> lock_free lk mounted" using core_derived(1) [OF base, of lk] f(14) [of lk] m by simp
qed

lemma mounted_BBLOCK: "b < 1000 \<Longrightarrow> BBLOCK (of_nat b) sample_sb = 58"
  using BBLOCK_group [of b sample_sb] by (simp add: BBLOCK_def sample_sb_def layout_simps)

lemma mounted_map:
  "map_blocks mounted = {58}" "b < 1000 \<Longrightarrow> used mounted b \<longleftrightarrow> b < 59" "map_ok mounted" "readsb_same mounted"
  "budget {58} 20 mounted"
proof -
  show mb: "map_blocks mounted = {58}"
    using mounted_BBLOCK by (auto simp: map_blocks_def mounted_facts intro!: image_eqI [of _ _ 0])
  show u: "used mounted b \<longleftrightarrow> b < 59" if "b < 1000" for b
    using that mounted_BBLOCK [OF that] sample_map_bit [of b] by (simp add: used_def mounted_facts sample_disk_def layout_simps)
  have g: "{g. g < 1000 \<and> g mod BPB = 0} = {0}"
    by (auto simp: layout_simps)
  have "of_nat b \<notin> log_area mounted" "of_nat b \<noteq> (58 :: uint32)" if "59 \<le> b" "b < 1000" for b
  proof -
    have n: "unat (of_nat b :: uint32) = b" using that by (intro unat_of_nat32) simp
    show "of_nat b \<notin> log_area mounted" using n that by (simp add: log_area_def mounted_facts)
    show "of_nat b \<noteq> (58 :: uint32)" using n that by auto
  qed
  then show "map_ok mounted"
    using u mb g by (auto simp: map_ok_def mounted_facts log_area_def)
  show "readsb_same mounted" using u [of 1] by (simp add: readsb_same_def mounted_facts mb sample_disk_def sb_of_bytes)
  show "budget {58} 20 mounted" by (simp add: budget_def mounted_facts)
qed

theorem balloc_fresh_witness:
  "returns (balloc 1) mounted (\<lambda>b t. 59 \<le> unat b \<and> unat b < 1000 \<and> view t b = replicate BSIZE 0)"
proof -
  have "budget (map_blocks mounted) 1 mounted" unfolding mounted_map by (rule budget_less [OF mounted_map(5)]) simp
  from balloc_fresh [OF this mounted_map(3) mounted_facts(3), of 500]
  have "returns (balloc 1) mounted (\<lambda>b t. unat b < 1000 \<and> \<not> used mounted (unat b) \<and> view t b = replicate BSIZE 0)"
    using mounted_map(2) [of 500] by (auto simp: mounted_facts elim!: returns_mono)
  then show ?thesis by (rule returns_mono) (use mounted_map(2) in force)
qed

theorem bfree_undoes_balloc_witness:
  "returns (bind (balloc 1) (\<lambda>b. andthen (bfree 1 b) (return b))) mounted (\<lambda>b t. view t 58 = sample_map \<or> b = 58)
    \<and> (\<exists>t. bfree 1 (of_nat 500) mounted = Panic ''freeing free block'' t)"
proof -
  have "budget (map_blocks mounted) 1 mounted" unfolding mounted_map by (rule budget_less [OF mounted_map(5)]) simp
  from bfree_undoes_balloc [OF this mounted_map(3) mounted_facts(3) mounted_map(4), of 500] show ?thesis
    using mounted_map(2) [of 500] by (auto simp: mounted_facts sample_disk_def elim!: returns_mono)
qed

end
