(* ===== verification/Fs_Inodes.thy ===== *)
theory Fs_Inodes
  imports Fs_Blocks
begin

text \<open>
  Inodes on disk (\<^verbatim>\<open>fs.c\<close>): \<open>iupdate\<close> stores an inode into its block, \<open>ilock\<close> loads it from
  there.
\<close>

section \<open>Inodes in a block\<close>

lemma fold_put32_length [simp]: "length (fold (\<lambda>k d. put32 d (p + 4 * k) (a k)) ks d) = length d"
  by (induction ks arbitrary: d) auto

lemma fold_put32_get:
  assumes "\<forall>k\<in>set ks. p + 4 * k + 3 < length d"
  shows "get32 (fold (\<lambda>k d. put32 d (p + 4 * k) (a k)) ks d) (p + 4 * j) = (if j \<in> set ks then a j else get32 d (p + 4 * j))"
  using assms
proof (induction ks arbitrary: d)
  case (Cons k ks)
  have "get32 (put32 d (p + 4 * k) (a k)) (p + 4 * j) = (if j = k then a j else get32 d (p + 4 * j))"
  proof (cases "j = k")
    case False
    then show ?thesis by (subst get32_put32_other) (linarith, simp)
  qed (use Cons.prems in simp)
  then show ?case using Cons by auto
qed simp

lemma fold_put32_nth:
  assumes "\<forall>k\<in>set ks. i < p + 4 * k \<or> p + 4 * k + 3 < i"
  shows "fold (\<lambda>k d. put32 d (p + 4 * k) (a k)) ks d ! i = d ! i"
  using assms by (induction ks arbitrary: d) (auto simp: nth_put32)

lemma get_cong:
  "(\<And>i. off \<le> i \<Longrightarrow> i < off + 4 \<Longrightarrow> d ! i = e ! i) \<Longrightarrow> get32 d off = get32 e off"
  "(\<And>i. off \<le> i \<Longrightarrow> i < off + 2 \<Longrightarrow> d ! i = e ! i) \<Longrightarrow> get16 d off = get16 e off"
  by (simp_all add: get32_def get16_def)

lemma load_dinode_cong:
  assumes "\<And>i. off \<le> i \<Longrightarrow> i < off + dinode_size \<Longrightarrow> d ! i = e ! i"
  shows "load_dinode d off n = load_dinode e off n"
proof -
  have h: "get16 d (off + j) = get16 e (off + j)" if "j + 2 \<le> dinode_size" for j
    by (rule get_cong(2)) (use assms that in simp)
  have w: "get32 d (off + j) = get32 e (off + j)" if "j + 4 \<le> dinode_size" for j
    by (rule get_cong(1)) (use assms that in simp)
  have "map (\<lambda>k. get32 d (off + 12 + 4 * k)) [0..<NDIRECT + 1] = map (\<lambda>k. get32 e (off + 12 + 4 * k)) [0..<NDIRECT + 1]"
  proof (rule map_cong [OF refl])
    fix k assume "k \<in> set [0..<NDIRECT + 1]"
    then show "get32 d (off + 12 + 4 * k) = get32 e (off + 12 + 4 * k)" using w [of "12 + 4 * k"] by (simp add: layout_simps add.assoc)
  qed
  moreover have "get16 d off = get16 e off" "get16 d (off + 2) = get16 e (off + 2)" "get16 d (off + 4) = get16 e (off + 4)"
    "get16 d (off + 6) = get16 e (off + 6)" "get32 d (off + 8) = get32 e (off + 8)"
    using h [of 0] h [of 2] h [of 4] h [of 6] w [of 8] by (simp_all add: layout_simps)
  ultimately show ?thesis unfolding load_dinode_def by metis
qed

text \<open>The part of an inode that is on disk.\<close>

definition same_file :: "inode \<Rightarrow> inode \<Rightarrow> bool" where
  "same_file m n \<longleftrightarrow> i_type m = i_type n \<and> i_major m = i_major n \<and> i_minor m = i_minor n \<and> i_nlink m = i_nlink n
     \<and> i_size m = i_size n \<and> i_addrs m = i_addrs n"

lemma store_dinode_length [simp]: "length (store_dinode n off d) = length d"
  by (simp add: store_dinode_def)

lemma load_store:
  assumes "off + dinode_size \<le> length d" "length (i_addrs n) = NDIRECT + 1"
  shows "same_file (load_dinode (store_dinode n off d) off m) n"
proof -
  let ?h = "put32 (put16 (put16 (put16 (put16 d off (i_type n)) (off + 2) (i_major n)) (off + 4) (i_minor n))
        (off + 6) (i_nlink n)) (off + 8) (i_size n)"
  let ?f = "fold (\<lambda>k d. put32 d (off + 12 + 4 * k) (i_addrs n ! k)) [0..<NDIRECT + 1] ?h"
  have low: "?f ! i = ?h ! i" if "i < off + 12" for i by (rule fold_put32_nth) (use that in auto)
  have "get32 ?f (off + 12 + 4 * j) = i_addrs n ! j" if "j < NDIRECT + 1" for j
    using fold_put32_get [of "[0..<NDIRECT + 1]" "off + 12" ?h "\<lambda>k. i_addrs n ! k" j] assms(1) that by (auto simp: layout_simps)
  then have "map (\<lambda>k. get32 ?f (off + 12 + 4 * k)) [0..<NDIRECT + 1] = i_addrs n"
    using assms(2) by (intro nth_equalityI) (simp_all add: nth_append del: upt_Suc)
  moreover have "get16 ?f (off + j) = get16 ?h (off + j)" if "j + 2 \<le> 12" for j by (rule get_cong(2)) (use low that in auto)
  note h = this [of 0] this [of 2] this [of 4] this [of 6]
  have w: "get32 ?f (off + 8) = get32 ?h (off + 8)" by (rule get_cong(1)) (use low in auto)
  have l: "off + 64 \<le> length d" using assms(1) by (simp add: layout_simps)
  have "get16 ?h off = i_type n" "get16 ?h (off + 2) = i_major n" "get16 ?h (off + 4) = i_minor n" "get16 ?h (off + 6) = i_nlink n"
    "get32 ?h (off + 8) = i_size n"
    using l by (simp_all add: get16_put16_other get16_put32_other)
  ultimately show ?thesis
    using h w by (simp add: same_file_def load_dinode_def store_dinode_def)
qed

lemma store_dinode_nth: "i < off \<or> off + dinode_size \<le> i \<Longrightarrow> store_dinode n off d ! i = d ! i"
  unfolding store_dinode_def by (subst fold_put32_nth) (auto simp: nth_put32 nth_put16 layout_simps)

lemma load_store_other:
  assumes "off + dinode_size \<le> off' \<or> off' + dinode_size \<le> off"
  shows "load_dinode (store_dinode n off d) off' m = load_dinode d off' m"
  by (rule load_dinode_cong) (use store_dinode_nth assms in auto)


section \<open>The table of inodes\<close>

lemma inode_frame [simp]:
  "budget B k (s\<lparr>inodes := x\<rparr>) = budget B k s" "txn (s\<lparr>inodes := x\<rparr>) = txn s" "log_area (s\<lparr>inodes := x\<rparr>) = log_area s"
  "clean (s\<lparr>inodes := x\<rparr>) b = clean s b" "map_blocks (s\<lparr>inodes := x\<rparr>) = map_blocks s" "fs_size (s\<lparr>inodes := x\<rparr>) = fs_size s"
  "used (s\<lparr>inodes := x\<rparr>) c = used s c" "map_ok (s\<lparr>inodes := x\<rparr>) = map_ok s" "held_ok (s\<lparr>inodes := x\<rparr>) = held_ok s"
proof -
  show u: "used (s\<lparr>inodes := x\<rparr>) c = used s c" for c by (simp add: used_def)
  show "budget B k (s\<lparr>inodes := x\<rparr>) = budget B k s"
    by (simp add: budget_def in_op_def txn_def trans_ok_def log_geom_def log_area_def)
  show "txn (s\<lparr>inodes := x\<rparr>) = txn s" "log_area (s\<lparr>inodes := x\<rparr>) = log_area s" "clean (s\<lparr>inodes := x\<rparr>) b = clean s b"
    and mf: "map_blocks (s\<lparr>inodes := x\<rparr>) = map_blocks s" "fs_size (s\<lparr>inodes := x\<rparr>) = fs_size s"
    by (simp_all add: txn_def log_area_def clean_def map_blocks_def fs_size_def)
  show "map_ok (s\<lparr>inodes := x\<rparr>) = map_ok s" "held_ok (s\<lparr>inodes := x\<rparr>) = held_ok s"
    using u mf by (simp_all add: map_ok_def held_ok_def log_area_def)
qed

definition on_disk :: "kernel \<Rightarrow> uint32 \<Rightarrow> inode \<Rightarrow> inode" where
  "on_disk s inum n = load_dinode (view s (IBLOCK inum (sb s))) (dip_off inum) n"

lemma iupdate_put:
  "iupdate ip s = bind (bread (i_dev (inodes s ! ip)) (IBLOCK (i_inum (inodes s ! ip)) (sb s)))
    (\<lambda>i. put_logged i (store_dinode (inodes s ! ip) (dip_off (i_inum (inodes s ! ip))))) s"
  by (simp add: iupdate_def bind_def gets_def put_logged_def)

text \<open>The block of an inode can be read and written.\<close>

definition iblock_ok :: "uint32 set \<Rightarrow> nat \<Rightarrow> kernel \<Rightarrow> uint32 \<Rightarrow> bool" where
  "iblock_ok B k s inum \<longleftrightarrow> (let b = IBLOCK inum (sb s) in b < disksize s \<and> b \<notin> log_area s \<and> b \<notin> held s \<and> affords b B s k)"

lemma dip_off_bound: "dip_off inum + dinode_size \<le> BSIZE"
  by (simp add: dip_off_def layout_simps)

lemma iupdate_returns:
  assumes "budget B k s" "card (held s) \<le> 1" "i_dev (inodes s ! ip) = 1" "iblock_ok B k s (i_inum (inodes s ! ip))"
  defines "n \<equiv> inodes s ! ip" and "b \<equiv> IBLOCK (i_inum (inodes s ! ip)) (sb s)"
  shows "returns (iupdate ip) s (\<lambda>_ t. budget B (left b B s k) t \<and> rest t = rest s \<and> set (txn t) = insert b (set (txn s))
    \<and> view t = (view s)(b := store_dinode n (dip_off (i_inum n)) (view s b)) \<and> held t = held s \<and> keeps_bufs s NBUF t)"
proof -
  have "b < disksize s" "b \<notin> log_area s" "b \<notin> held s" "affords b B s k" "length (store_dinode n (dip_off (i_inum n)) (view s b)) = BSIZE"
    using assms(1,4) budget_bio [OF assms(1)] by (simp_all add: iblock_ok_def b_def Let_def)
  from lblocks.edit_block [where f = "store_dinode n (dip_off (i_inum n))", OF assms(1) this(1-3) assms(2) this(4,5)]
  show ?thesis unfolding returns_def iupdate_put assms(3) n_def b_def by simp
qed

lemma same_iblock:
  assumes "IBLOCK i x = IBLOCK j x" "i \<noteq> j"
  shows "dip_off i + dinode_size \<le> dip_off j \<or> dip_off j + dinode_size \<le> dip_off i"
proof -
  have "i div of_nat IPB = j div of_nat IPB" using assms(1) by (simp add: IBLOCK_def)
  then have "unat i div IPB = unat j div IPB" by (simp add: word_unat_eq_iff unat_div layout_simps)
  moreover have "unat i \<noteq> unat j" using assms(2) by (metis word_unat_eq_iff)
  ultimately have "unat i mod IPB \<noteq> unat j mod IPB" by (metis div_mult_mod_eq)
  then consider "Suc (unat i mod IPB) \<le> unat j mod IPB" | "Suc (unat j mod IPB) \<le> unat i mod IPB" by linarith
  then show ?thesis
  proof cases
    case 1
    then have "Suc (unat i mod IPB) * dinode_size \<le> (unat j mod IPB) * dinode_size" by (rule mult_le_mono1)
    then show ?thesis by (simp add: dip_off_def)
  next
    case 2
    then have "Suc (unat j mod IPB) * dinode_size \<le> (unat i mod IPB) * dinode_size" by (rule mult_le_mono1)
    then show ?thesis by (simp add: dip_off_def)
  qed
qed

lemma on_disk_stored:
  assumes "bio_ok s" "sb t = sb s" "length (i_addrs n) = NDIRECT + 1"
    and "view t = (view s)(IBLOCK inum (sb s) := store_dinode n (dip_off inum) (view s (IBLOCK inum (sb s))))"
  shows "same_file (on_disk t inum m) n" "j \<noteq> inum \<Longrightarrow> on_disk t j m = on_disk s j m"
proof -
  show "same_file (on_disk t inum m) n"
    unfolding on_disk_def assms(2,4) using load_store [OF _ assms(3)] dip_off_bound assms(1) by simp
  show "on_disk t j m = on_disk s j m" if "j \<noteq> inum"
  proof (cases "IBLOCK j (sb s) = IBLOCK inum (sb s)")
    case True
    then show ?thesis using load_store_other [OF same_iblock [OF True [symmetric]]] that by (simp add: on_disk_def assms(2,4))
  qed (simp add: on_disk_def assms(2,4))
qed


lemma budget_touch [simp]: "budget B k (touch s) = budget B k s" "txn (touch s) = txn s" "log_area (touch s) = log_area s"
  by (simp_all add: budget_def in_op_def txn_def trans_ok_def log_geom_def log_area_def)

text \<open>Loading an inode that is not valid.\<close>

lemma ilock_load_returns:
  assumes s: "budget B k s" "card (held s) \<le> 1" and n: "ip < length (inodes s)" "i_dev (inodes s ! ip) = 1" "\<not> i_valid (inodes s ! ip)"
    and b: "IBLOCK (i_inum (inodes s ! ip)) (sb s) < disksize s" "IBLOCK (i_inum (inodes s ! ip)) (sb s) \<notin> held s"
  defines "m \<equiv> on_disk s (i_inum (inodes s ! ip)) (inodes s ! ip)"
  assumes ty: "i_type m \<noteq> 0"
  shows "returns (ilock_load ip) s (\<lambda>_ t. budget B k t \<and> core t = core (s\<lparr>inodes := (inodes s)[ip := m\<lparr>i_valid := True\<rparr>]\<rparr>)
    \<and> view t = view s \<and> held t = held s)"
proof -
  let ?b = "IBLOCK (i_inum (inodes s ! ip)) (sb s)"
  obtain i t where t: "bread 1 ?b s = Ok i t" "budget B k t" "core t = core s" "buf_for t i ?b" "b_data (bufs t ! i) = view s ?b"
    "view t = view s" "held t = insert ?b (held s)" "clean t ?b"
    using lblocks.get_law [OF s(1) b s(2)] unfolding returns_iff by auto
  note c = coreD [OF t(3)]
  let ?u = "t\<lparr>inodes := (inodes s)[ip := m]\<rparr>"
  have u: "budget B k ?u" "buf_for ?u i ?b" "clean ?u ?b" using t by simp_all
  obtain v where v: "brelse i ?u = Ok () v" "budget B k v" "core v = core ?u" "view v = view s" "held v = held s"
    using lblocks.give_law [OF u] t(6,7) b(2) unfolding returns_iff by auto
  note d = coreD [OF v(3)]
  have m: "set_inode ip (load_dinode (b_data (bufs t ! i)) (dip_off (i_inum (inodes s ! ip)))) t = ?u"
    by (simp add: set_inode_def t(5) c m_def on_disk_def)
  let ?w = "v\<lparr>inodes := (inodes s)[ip := m\<lparr>i_valid := True\<rparr>]\<rparr>"
  have w: "set_inode ip (\<lambda>n. n\<lparr>i_valid := True\<rparr>) v = ?w" using n(1) by (simp add: set_inode_def d)
  have "ilock_load ip s = Ok () ?w"
    using n ty t(1) v(1) m w
    by (simp add: ilock_load_def bind_def gets_def do_if_def andthen_def modify_def panic_if_def return_def)
  moreover have "core ?w = core (s\<lparr>inodes := (inodes s)[ip := m\<lparr>i_valid := True\<rparr>]\<rparr>)"
    using v(3) t(3) by simp
  ultimately show ?thesis using v by (simp add: returns_def)
qed

lemma ilock_returns:
  assumes s: "budget B k s" "card (held s) \<le> 1" "lock_free L_icache s"
    and n: "ip < length (inodes s)" "i_dev (inodes s ! ip) = 1" "\<not> i_valid (inodes s ! ip)" "\<not> i_busy (inodes s ! ip)" "1 \<le> i_ref (inodes s ! ip)"
    and b: "IBLOCK (i_inum (inodes s ! ip)) (sb s) < disksize s" "IBLOCK (i_inum (inodes s ! ip)) (sb s) \<notin> held s"
    and ty: "i_type (on_disk s (i_inum (inodes s ! ip)) (inodes s ! ip)) \<noteq> 0"
  shows "returns (ilock (Some ip)) s (\<lambda>_ t. budget B k t \<and> view t = view s \<and> held t = held s \<and> sb t = sb s
    \<and> inodes t = (inodes s)[ip := (on_disk s (i_inum (inodes s ! ip)) (inodes s ! ip))\<lparr>i_busy := True, i_valid := True\<rparr>])"
proof -
  let ?s = "touch (s\<lparr>inodes := (inodes s)[ip := (inodes s ! ip)\<lparr>i_busy := True\<rparr>]\<rparr>)"
  have cpu: "cpu_ok s" using budget_bio [OF s(1)] by (simp add: bio_ok_def)
  have step: "ilock (Some ip) s = ilock_load ip ?s"
    using n s(3) cpu
    by (simp add: ilock_def ilock_loop_def acquire_ok release_ok set_inode_def)
  have od: "on_disk ?s (i_inum (inodes s ! ip)) ((inodes s ! ip)\<lparr>i_busy := True\<rparr>)
      = (on_disk s (i_inum (inodes s ! ip)) (inodes s ! ip))\<lparr>i_busy := True\<rparr>"
    by (simp add: on_disk_def load_dinode_def)
  have "returns (ilock_load ip) ?s (\<lambda>_ t. budget B k t
      \<and> core t = core (?s\<lparr>inodes := (inodes ?s)[ip := (on_disk ?s (i_inum (inodes ?s ! ip)) (inodes ?s ! ip))\<lparr>i_valid := True\<rparr>]\<rparr>)
      \<and> view t = view ?s \<and> held t = held ?s)"
    by (rule ilock_load_returns) (use s n b ty od in simp_all)
  then obtain t where t: "ilock_load ip ?s = Ok () t" "budget B k t" "view t = view s" "held t = held s"
    "core t = core (?s\<lparr>inodes := (inodes ?s)[ip := (on_disk ?s (i_inum (inodes ?s ! ip)) (inodes ?s ! ip))\<lparr>i_valid := True\<rparr>]\<rparr>)"
    unfolding returns_iff by auto
  note c = coreD(26,27) [OF t(5)]
  have "(inodes ?s)[ip := (on_disk ?s (i_inum (inodes ?s ! ip)) (inodes ?s ! ip))\<lparr>i_valid := True\<rparr>]
      = (inodes s)[ip := (on_disk s (i_inum (inodes s ! ip)) (inodes s ! ip))\<lparr>i_busy := True, i_valid := True\<rparr>]"
    using n(1) od by simp
  then show ?thesis using t(1-4) c unfolding returns_def step by simp
qed


text \<open>
  C32. Inodes survive on disk: when \<open>iupdate\<close> has stored an inode, \<open>ilock\<close> on any entry of the
  inode table for the same number that is not valid yet loads exactly its type, device,
  link count, size and block addresses; and every other inode on disk is as before, also
  those in the same block.
\<close>

theorem inode_stored_and_loaded:
  assumes s: "budget {IBLOCK inum (sb s)} 0 s" "held s = {}" "lock_free L_icache s"
    and b: "IBLOCK inum (sb s) < disksize s" "IBLOCK inum (sb s) \<notin> log_area s"
    and n: "i_dev (inodes s ! ip) = 1" "i_inum (inodes s ! ip) = inum" "i_type (inodes s ! ip) \<noteq> 0" "length (i_addrs (inodes s ! ip)) = NDIRECT + 1"
    and j: "jp < length (inodes s)" "i_dev (inodes s ! jp) = 1" "i_inum (inodes s ! jp) = inum" "\<not> i_valid (inodes s ! jp)"
      "\<not> i_busy (inodes s ! jp)" "1 \<le> i_ref (inodes s ! jp)"
  shows "returns (andthen (iupdate ip) (ilock (Some jp))) s (\<lambda>_ t. same_file (inodes t ! jp) (inodes s ! ip)
    \<and> i_valid (inodes t ! jp) \<and> i_busy (inodes t ! jp) \<and> (\<forall>k m. k \<noteq> inum \<longrightarrow> on_disk t k m = on_disk s k m))"
proof -
  let ?b = "IBLOCK inum (sb s)"
  have ok: "iblock_ok {?b} 0 s (i_inum (inodes s ! ip))" using s(2) b n(2) by (simp add: iblock_ok_def Let_def affords_def)
  have h: "card (held s) \<le> 1" using s(2) by simp
  obtain t where t: "iupdate ip s = Ok () t" "budget {?b} (left ?b {?b} s 0) t" "rest t = rest s" "held t = held s"
    "view t = (view s)(?b := store_dinode (inodes s ! ip) (dip_off inum) (view s ?b))"
    using iupdate_returns [OF s(1) h n(1) ok] unfolding returns_iff n(2) by auto
  note d = restD [OF t(3)]
  have od: "same_file (on_disk t inum m) (inodes s ! ip)" "k \<noteq> inum \<Longrightarrow> on_disk t k m = on_disk s k m" for k m
    using on_disk_stored [OF budget_bio [OF s(1)] d(1) n(4) t(5)] by auto
  have ty: "i_type (on_disk t (i_inum (inodes t ! jp)) (inodes t ! jp)) \<noteq> 0"
    using od(1) [of "inodes t ! jp"] n(3) j(3) by (simp add: d same_file_def)
  have "returns (ilock (Some jp)) t (\<lambda>_ u. budget {?b} (left ?b {?b} s 0) u \<and> view u = view t \<and> held u = held t \<and> sb u = sb t
    \<and> inodes u = (inodes t)[jp := (on_disk t (i_inum (inodes t ! jp)) (inodes t ! jp))\<lparr>i_busy := True, i_valid := True\<rparr>])"
    by (rule ilock_returns [OF t(2)]) (use s(2,3) b j t(4) ty in \<open>simp_all add: d\<close>)
  then obtain u where u: "ilock (Some jp) t = Ok () u" "view u = view t" "sb u = sb t"
    "inodes u = (inodes s)[jp := (on_disk t inum (inodes s ! jp))\<lparr>i_busy := True, i_valid := True\<rparr>]"
    using j(3) unfolding returns_iff d by auto
  have same: "on_disk u k m = on_disk t k m" for k m by (simp add: on_disk_def u(2,3))
  have "same_file (inodes u ! jp) (inodes s ! ip)"
    using od(1) [of "inodes s ! jp"] j(1) by (simp add: u(4) same_file_def)
  then show ?thesis using t(1) u(1,4) j(1) od(2) by (simp add: returns_def same)
qed

text \<open>A file system with an inode of number 7 in the table twice, once not loaded.\<close>

definition sample_inode :: inode where
  "sample_inode = zero_inode\<lparr>i_dev := 1, i_inum := 7, i_ref := 1, i_valid := True, i_type := T_FILE, i_nlink := 1, i_size := 100,
     i_addrs := 100 # replicate NDIRECT 0\<rparr>"

definition with_inodes :: kernel where
  "with_inodes = mounted\<lparr>inodes := [sample_inode, zero_inode\<lparr>i_dev := 1, i_inum := 7, i_ref := 1\<rparr>]\<rparr>"

theorem inode_stored_and_loaded_witness:
  "returns (andthen (iupdate 0) (ilock (Some 1))) with_inodes (\<lambda>_ t. i_size (inodes t ! 1) = 100 \<and> i_valid (inodes t ! 1))"
proof -
  have blk: "IBLOCK 7 (sb with_inodes) = 32"
    by (simp add: with_inodes_def mounted_facts IBLOCK_def sample_sb_def layout_simps)
  have "budget {IBLOCK 7 (sb with_inodes)} 0 with_inodes"
    unfolding blk with_inodes_def inode_frame by (simp add: budget_def mounted_facts)
  from inode_stored_and_loaded [OF this, of 0 1] show ?thesis
    unfolding blk 
    by (auto simp: with_inodes_def mounted_facts log_area_def sample_inode_def zero_inode_def layout_simps T_FILE_def same_file_def elim!: returns_mono)
qed

end
