(* ===== verification/Fs_Files.thy ===== *)
theory Fs_Files
  imports Fs_Inodes
begin

text \<open>
  The contents of files (\<^verbatim>\<open>fs.c\<close>): \<open>bmap\<close> finds or allocates the block of a file, \<open>readi\<close> and
  \<open>writei\<close> move bytes. A file is seen here as a function from offsets to bytes; a block that
  is not allocated holds zeroes.
\<close>

section \<open>The blocks of a file\<close>

definition ind_addr :: "inode \<Rightarrow> uint32" where
  "ind_addr n = i_addrs n ! NDIRECT"

definition block_addr :: "kernel \<Rightarrow> inode \<Rightarrow> nat \<Rightarrow> uint32" where
  "block_addr s n bn =
    (if bn < NDIRECT then i_addrs n ! bn
     else if ind_addr n = 0 then 0 else get32 (view s (ind_addr n)) (4 * (bn - NDIRECT)))"

definition file_byte :: "kernel \<Rightarrow> inode \<Rightarrow> nat \<Rightarrow> byte" where
  "file_byte s n off = (let a = block_addr s n (off div BSIZE) in if a = 0 then 0 else view s a ! (off mod BSIZE))"

text \<open>A block that belongs to a file: in use, on the disk, outside of the log and of the free
  map.\<close>

definition data_block :: "kernel \<Rightarrow> uint32 \<Rightarrow> bool" where
  "data_block s b \<longleftrightarrow> unat b < fs_size s \<and> used s (unat b) \<and> b < disksize s \<and> b \<notin> log_area s \<and> b \<notin> map_blocks s"

text \<open>The blocks of a file are data blocks, no two of them are the same, and none is the block
  of its inode.\<close>

definition file_ok :: "kernel \<Rightarrow> inode \<Rightarrow> bool" where
  "file_ok s n \<longleftrightarrow> i_dev n = 1 \<and> length (i_addrs n) = NDIRECT + 1
     \<and> data_block s (IBLOCK (i_inum n) (sb s))
     \<and> (ind_addr n \<noteq> 0 \<longrightarrow> data_block s (ind_addr n) \<and> ind_addr n \<noteq> IBLOCK (i_inum n) (sb s))
     \<and> (\<forall>i < MAXFILE. block_addr s n i \<noteq> 0 \<longrightarrow> data_block s (block_addr s n i) \<and> block_addr s n i \<noteq> ind_addr n
          \<and> block_addr s n i \<noteq> IBLOCK (i_inum n) (sb s)
          \<and> (\<forall>j < MAXFILE. block_addr s n j = block_addr s n i \<longrightarrow> i = j))"

lemma file_okD:
  assumes "file_ok s n" "i < MAXFILE" "block_addr s n i \<noteq> 0"
  shows "data_block s (block_addr s n i)" "block_addr s n i \<noteq> ind_addr n" "block_addr s n i \<noteq> IBLOCK (i_inum n) (sb s)"
    "j < MAXFILE \<Longrightarrow> block_addr s n j = block_addr s n i \<Longrightarrow> i = j"
  using assms by (auto simp: file_ok_def)

lemma file_ok_cong:
  assumes "\<And>b. data_block s b \<Longrightarrow> data_block t b" "sb t = sb s" "\<And>i. i < MAXFILE \<Longrightarrow> block_addr t n i = block_addr s n i" "file_ok s n"
  shows "file_ok t n"
  using assms unfolding file_ok_def by auto

text \<open>Allocation of a block elsewhere does not concern a file.\<close>

lemma data_block_alloc:
  assumes "allocated B k s b t" "map_ok s" "held_ok s" "bio_ok s" "data_block s c"
  shows "data_block t c" "c \<noteq> b" "view t c = view s c"
proof -
  note d = allocatedD [OF assms(1-4)]
  have r: "rest t = rest s" "\<not> used s (unat b)" using assms(1) by (simp_all add: allocated_def)
  note e = restD [OF r(1)] rest_fs [OF r(1)]
  show "c \<noteq> b" using assms(5) r(2) by (auto simp: data_block_def)
  then show "view t c = view s c" using d(8) [of c] assms(5) by (simp add: data_block_def)
  show "data_block t c" using assms(5) d(6) [of "unat c"] by (simp add: data_block_def e)
qed

lemma new_data_block:
  assumes "allocated B k s b t" "map_ok s" "held_ok s" "bio_ok s"
  shows "data_block t b" "b \<noteq> 0" "\<not> data_block s b"
proof -
  note d = allocatedD [OF assms]
  have r: "rest t = rest s" "\<not> used s (unat b)" "unat b < fs_size s" using assms(1) by (simp_all add: allocated_def)
  note e = restD [OF r(1)] rest_fs [OF r(1)]
  show "data_block t b" "b \<noteq> 0" "\<not> data_block s b" using d r by (simp_all add: data_block_def e)
qed

lemma block_addr_alloc:
  assumes "allocated B k s b t" "map_ok s" "held_ok s" "bio_ok s" "file_ok s n"
  shows "block_addr t n i = block_addr s n i" "file_ok t n" "off < MAXFILE * BSIZE \<Longrightarrow> file_byte t n off = file_byte s n off"
proof -
  have sb: "sb t = sb s" using assms(1) restD(1) [of t s] by (simp add: allocated_def)
  have ind: "view t (ind_addr n) = view s (ind_addr n)" if "ind_addr n \<noteq> 0"
    using data_block_alloc(3) [OF assms(1-4)] assms(5) that by (simp add: file_ok_def)
  show a: "block_addr t n i = block_addr s n i" for i using ind by (simp add: block_addr_def)
  show "file_ok t n" by (rule file_ok_cong [OF data_block_alloc(1) [OF assms(1-4)] sb a assms(5)])
  show "file_byte t n off = file_byte s n off" if "off < MAXFILE * BSIZE"
  proof -
    have "off div BSIZE < MAXFILE" using that by (simp add: less_mult_imp_div_less)
    then show ?thesis
      using file_okD(1) [OF assms(5), of "off div BSIZE"] data_block_alloc(3) [OF assms(1-4)] by (auto simp: file_byte_def Let_def a)
  qed
qed


text \<open>A block that no part of a file uses, and that holds zeroes.\<close>

definition spare :: "kernel \<Rightarrow> inode \<Rightarrow> uint32 \<Rightarrow> bool" where
  "spare s n b \<longleftrightarrow> data_block s b \<and> b \<noteq> 0 \<and> view s b = replicate BSIZE 0 \<and> b \<noteq> ind_addr n \<and> b \<noteq> IBLOCK (i_inum n) (sb s)
     \<and> (\<forall>i < MAXFILE. block_addr s n i \<noteq> b)"

lemma spare_alloc:
  assumes "allocated B k s b t" "map_ok s" "held_ok s" "bio_ok s" "file_ok s n"
  shows "spare t n b"
proof -
  note new = new_data_block [OF assms(1-4)]
  have sb: "sb t = sb s" using assms(1) restD(1) [of t s] by (simp add: allocated_def)
  have "b \<noteq> ind_addr n" "b \<noteq> IBLOCK (i_inum n) (sb s)" using new assms(5) by (auto simp: file_ok_def)
  moreover have "block_addr s n i \<noteq> b" if "i < MAXFILE" for i using new file_okD(1) [OF assms(5) that] by auto
  ultimately show ?thesis
    using new allocatedD(7) [OF assms(1-4)] block_addr_alloc(1) [OF assms] by (simp add: spare_def sb)
qed

lemma get32_zero: "off + 3 < BSIZE \<Longrightarrow> get32 (replicate BSIZE 0) off = 0"
  by (simp add: get32_def)

lemma MAXFILE_index: "i < MAXFILE \<Longrightarrow> \<not> i < NDIRECT \<Longrightarrow> 4 * (i - NDIRECT) + 3 < BSIZE"
  by (simp add: layout_simps)

lemma file_byte_cong:
  assumes "\<And>i. i < MAXFILE \<Longrightarrow> block_addr t m i = block_addr s n i \<or> (block_addr s n i = 0 \<and> view t (block_addr t m i) = replicate BSIZE 0)"
    and "\<And>i. i < MAXFILE \<Longrightarrow> block_addr s n i \<noteq> 0 \<Longrightarrow> view t (block_addr s n i) = view s (block_addr s n i)"
    and "off < MAXFILE * BSIZE"
  shows "file_byte t m off = file_byte s n off"
proof -
  have i: "off div BSIZE < MAXFILE" using assms(3) by (simp add: less_mult_imp_div_less)
  have "off mod BSIZE < BSIZE" by (simp add: layout_simps)
  then show ?thesis
    using assms(1,2) [OF i] by (auto simp: file_byte_def Let_def)
qed

text \<open>Entering a new block into the inode.\<close>

lemma enter_addr:
  assumes f: "file_ok s n" and k: "k \<le> NDIRECT" "i_addrs n ! k = 0" and b: "spare s n b"
  defines "m \<equiv> n\<lparr>i_addrs := (i_addrs n)[k := b]\<rparr>"
  shows "ind_addr m = (if k = NDIRECT then b else ind_addr n)"
    "i < MAXFILE \<Longrightarrow> block_addr s m i = (if i = k \<and> k < NDIRECT then b else block_addr s n i)"
    "file_ok s m" "off < MAXFILE * BSIZE \<Longrightarrow> file_byte s m off = file_byte s n off"
proof -
  have len: "length (i_addrs n) = NDIRECT + 1" using f by (simp add: file_ok_def)
  show ind: "ind_addr m = (if k = NDIRECT then b else ind_addr n)" using k len by (auto simp: ind_addr_def m_def)
  show a: "block_addr s m i = (if i = k \<and> k < NDIRECT then b else block_addr s n i)" if "i < MAXFILE" for i
  proof (cases "i < NDIRECT")
    case True
    then show ?thesis using k len by (auto simp: block_addr_def m_def)
  next
    case False
    then show ?thesis
      using k len b ind get32_zero [OF MAXFILE_index [OF that False]] by (auto simp: block_addr_def spare_def ind_addr_def)
  qed
  have z: "block_addr s n k = 0" if "k < NDIRECT" using k that by (simp add: block_addr_def)
  show "file_ok s m"
    using f b k a ind z len unfolding file_ok_def spare_def m_def by (auto split: if_splits)
  show "file_byte s m off = file_byte s n off" if "off < MAXFILE * BSIZE"
    by (rule file_byte_cong [OF _ _ that]) (use a z b in \<open>auto simp: spare_def\<close>)
qed

text \<open>Entering a new block into the indirect block.\<close>

lemma enter_ind:
  assumes f: "file_ok s n" "bio_ok s" and i: "\<not> bn < NDIRECT" "bn < MAXFILE" "ind_addr n \<noteq> 0" "block_addr s n bn = 0" and b: "spare s n b"
    and t: "view t = (view s)(ind_addr n := put32 (view s (ind_addr n)) (4 * (bn - NDIRECT)) b)" "sb t = sb s"
      "\<And>c. data_block t c = data_block s c"
  shows "i < MAXFILE \<Longrightarrow> block_addr t n i = (if i = bn then b else block_addr s n i)"
    "file_ok t n" "off < MAXFILE * BSIZE \<Longrightarrow> file_byte t n off = file_byte s n off"
proof -
  have l: "4 * (bn - NDIRECT) + 3 < length (view s (ind_addr n))" using MAXFILE_index [OF i(2,1)] f(2) by simp
  show a: "block_addr t n i = (if i = bn then b else block_addr s n i)" if "i < MAXFILE" for i
  proof (cases "i < NDIRECT")
    case True
    then show ?thesis using i by (auto simp: block_addr_def)
  next
    case False
    then show ?thesis
    proof (cases "i = bn")
      case True
      then show ?thesis using False i l by (simp add: block_addr_def t)
    next
      case ne: False
      have "get32 (put32 (view s (ind_addr n)) (4 * (bn - NDIRECT)) b) (4 * (i - NDIRECT)) = get32 (view s (ind_addr n)) (4 * (i - NDIRECT))"
        by (rule get32_put32_other) (use False ne i(1) in linarith)
      then show ?thesis using False ne i by (simp add: block_addr_def t)
    qed
  qed
  show "file_ok t n"
    using f(1) b a i unfolding file_ok_def spare_def t(2,3) by (auto split: if_splits)
  have other: "view t (block_addr s n i) = view s (block_addr s n i)" if "i < MAXFILE" "block_addr s n i \<noteq> 0" for i
    using file_okD(2) [OF f(1) that] by (simp add: t)
  have "view t b = replicate BSIZE 0" using b by (simp add: spare_def t)
  then show "file_byte t n off = file_byte s n off" if "off < MAXFILE * BSIZE"
    by (intro file_byte_cong [OF _ other that]) (use a i(4) in auto)
qed


definition base :: "kernel \<Rightarrow> kernel" where
  "base s = (rest s)\<lparr>inodes := []\<rparr>"

lemma rest_inodes: "rest (s\<lparr>inodes := x\<rparr>) = (rest s)\<lparr>inodes := x\<rparr>"
  by (rule kernel.equality) (simp_all add: rest_def)

lemma base_rest: "rest t = rest s \<Longrightarrow> base t = base s"
  by (simp add: base_def)

lemma base_inodes [simp]: "base (s\<lparr>inodes := x\<rparr>) = base s"
  by (simp add: base_def rest_inodes)

lemma baseD:
  assumes "base t = base s"
  shows "sb t = sb s" "disk t = disk s" "disksize t = disksize s" "log_size t = log_size s" "log_area t = log_area s"
    "lock_free lk t = lock_free lk s" "map_blocks t = map_blocks s" "fs_size t = fs_size s"
proof -
  have "rest (t\<lparr>inodes := []\<rparr>) = rest (s\<lparr>inodes := []\<rparr>)" using assms by (simp add: base_def rest_inodes)
  note d = restD [OF this] rest_fs [OF this]
  show "sb t = sb s" "disk t = disk s" "disksize t = disksize s" "log_size t = log_size s" "log_area t = log_area s"
    "lock_free lk t = lock_free lk s" "map_blocks t = map_blocks s" "fs_size t = fs_size s"
    using d d(13) [of lk] by simp_all
qed

definition nfree :: "kernel \<Rightarrow> nat" where
  "nfree s = card {b. b < fs_size s \<and> \<not> used s b}"

lemma nfree_alloc:
  assumes "allocated B k s b t" "map_ok s" "held_ok s" "bio_ok s"
  shows "nfree s = Suc (nfree t)"
proof -
  note d = allocatedD [OF assms]
  have r: "rest t = rest s" "\<not> used s (unat b)" "unat b < fs_size s" using assms(1) by (simp_all add: allocated_def)
  have "{c. c < fs_size s \<and> \<not> used s c} = insert (unat b) {c. c < fs_size t \<and> \<not> used t c}"
    using d(6) r rest_fs [OF r(1)] by auto
  moreover have "unat b \<notin> {c. c < fs_size t \<and> \<not> used t c}" using d(6) r rest_fs [OF r(1)] by auto
  moreover have "finite {c. c < fs_size t \<and> \<not> used t c}" by simp
  ultimately show ?thesis unfolding nfree_def by simp
qed

lemma nfree_pos: "0 < nfree s \<Longrightarrow> \<exists>b < fs_size s. \<not> used s b"
  unfolding nfree_def by (metis (mono_tags, lifting) Collect_empty_eq card.empty less_irrefl)

lemma nfree_inodes [simp]: "nfree (s\<lparr>inodes := x\<rparr>) = nfree s"
  by (simp add: nfree_def)

lemma block_inodes [simp]: "block_addr (s\<lparr>inodes := x\<rparr>) n i = block_addr s n i" "file_byte (s\<lparr>inodes := x\<rparr>) n off = file_byte s n off"
  "data_block (s\<lparr>inodes := x\<rparr>) b = data_block s b" "file_ok (s\<lparr>inodes := x\<rparr>) n = file_ok s n"
  by (simp_all add: block_addr_def file_byte_def data_block_def file_ok_def Let_def)

lemma same_map:
  assumes r: "rest t = rest s" and m: "\<forall>c \<in> map_blocks s. view t c = view s c"
  shows "b < fs_size s \<Longrightarrow> used t b = used s b" "map_ok t = map_ok s" "nfree t = nfree s" "data_block t c = data_block s c"
proof -
  note d = restD [OF r] rest_fs [OF r]
  show u: "used t b = used s b" if "b < fs_size s" for b
    using m that by (simp add: used_def map_blocks_def d)
  show "map_ok t = map_ok s" using u by (auto simp: map_ok_def d)
  show "nfree t = nfree s" unfolding nfree_def d by (rule arg_cong [where f = card]) (use u in auto)
  show "data_block t c = data_block s c" using u by (auto simp: data_block_def d)
qed

lemma same_view:
  assumes "rest t = rest s" "view t = view s"
  shows "map_ok t = map_ok s" "nfree t = nfree s" "data_block t c = data_block s c" "block_addr t n i = block_addr s n i"
    "file_byte t n off = file_byte s n off" "file_ok t n = file_ok s n" "used t b = used s b"
  using same_map [OF assms(1)] assms restD(1) [OF assms(1)]
  by (simp_all add: block_addr_def file_byte_def file_ok_def used_def Let_def)

text \<open>
  The state of the file system inside an operation on the file of entry \<open>ip\<close>, with the log and the
  disk able to take \<open>k\<close> and \<open>m\<close> blocks.
\<close>

definition file_state :: "uint32 set \<Rightarrow> nat \<Rightarrow> kernel \<Rightarrow> nat \<Rightarrow> bool" where
  "file_state B k s ip \<longleftrightarrow> budget B k s \<and> map_ok s \<and> held s = {} \<and> map_blocks s \<subseteq> B \<and> ip < length (inodes s) \<and> file_ok s (inodes s ! ip)"

text \<open>The blocks a file uses.\<close>

definition file_blocks :: "kernel \<Rightarrow> inode \<Rightarrow> uint32 set" where
  "file_blocks s n = insert (ind_addr n) (block_addr s n ` {..<MAXFILE})"

text \<open>
  How the file system changes when the contents of a file become \<open>F\<close>: the inode gets
  addresses, and all blocks in use that are not the file's stay as they are.
\<close>

definition changed :: "kernel \<Rightarrow> nat \<Rightarrow> (nat \<Rightarrow> byte) \<Rightarrow> kernel \<Rightarrow> bool" where
  "changed s ip F t \<longleftrightarrow> base t = base s \<and> (\<exists>as. inodes t = (inodes s)[ip := (inodes s ! ip)\<lparr>i_addrs := as\<rparr>])
     \<and> set (txn s) \<subseteq> set (txn t)
     \<and> (\<forall>off < MAXFILE * BSIZE. file_byte t (inodes t ! ip) off = F off)
     \<and> (\<forall>i < MAXFILE. block_addr s (inodes s ! ip) i \<noteq> 0 \<longrightarrow> block_addr t (inodes t ! ip) i = block_addr s (inodes s ! ip) i)
     \<and> (\<forall>c. data_block s c \<longrightarrow> data_block t c
          \<and> (c \<notin> file_blocks s (inodes s ! ip) \<longrightarrow> view t c = view s c \<and> c \<notin> file_blocks t (inodes t ! ip)))"

abbreviation grown :: "kernel \<Rightarrow> nat \<Rightarrow> kernel \<Rightarrow> bool" where
  "grown s ip t \<equiv> changed s ip (file_byte s (inodes s ! ip)) t"

lemma changed_trans:
  assumes "changed s ip F t" "changed t ip G u" "ip < length (inodes s)"
  shows "changed s ip G u"
proof -
  obtain as bs where i: "inodes t = (inodes s)[ip := (inodes s ! ip)\<lparr>i_addrs := as\<rparr>]" "inodes u = (inodes t)[ip := (inodes t ! ip)\<lparr>i_addrs := bs\<rparr>]"
    using assms(1,2) unfolding changed_def by blast
  then have "\<exists>as. inodes u = (inodes s)[ip := (inodes s ! ip)\<lparr>i_addrs := as\<rparr>]" using assms(3) by auto
  moreover have "set (txn s) \<subseteq> set (txn u)" using assms(1,2) unfolding changed_def by blast
  ultimately show ?thesis using assms(1,2) by (simp add: changed_def)
qed

lemma changed_cong: "changed s ip F t \<Longrightarrow> (\<And>off. off < MAXFILE * BSIZE \<Longrightarrow> G off = F off) \<Longrightarrow> changed s ip G t"
  by (simp add: changed_def)

lemma changed_byte: "changed s ip F t \<Longrightarrow> off < MAXFILE * BSIZE \<Longrightarrow> file_byte t (inodes t ! ip) off = F off"
  by (simp add: changed_def)

lemma file_blocks_inodes [simp]: "file_blocks (s\<lparr>inodes := x\<rparr>) n = file_blocks s n"
  by (simp add: file_blocks_def)

lemma changed_same:
  assumes r: "rest t = rest s" "view t = view s" and "set (txn s) \<subseteq> set (txn t)" "ip < length (inodes s)"
  shows "grown s ip t"
proof -
  have "\<exists>as. inodes t = (inodes s)[ip := (inodes s ! ip)\<lparr>i_addrs := as\<rparr>]"
    using assms(4) restD(2) [OF r(1)] by (auto intro!: exI [of _ "i_addrs (inodes s ! ip)"])
  then show ?thesis
    using assms restD(2) [OF r(1)] base_rest [OF r(1)] same_view [OF r] by (simp add: changed_def file_blocks_def)
qed

lemma held_none: "held s = {} \<Longrightarrow> held_ok s"
  by (simp add: held_ok_def)

lemma bmap_direct_returns:
  assumes s: "file_state B k s ip" and kk: "kk \<le> NDIRECT"
    and room: "i_addrs (inodes s ! ip) ! kk = 0 \<Longrightarrow> 1 \<le> k \<and> 1 \<le> nfree s"
  shows "returns (bmap_direct ip kk) s (\<lambda>a t. a \<noteq> 0 \<and> a = i_addrs (inodes t ! ip) ! kk \<and> grown s ip t
    \<and> (if i_addrs (inodes s ! ip) ! kk = 0
       then file_state B (k - 1) t ip \<and> nfree s = Suc (nfree t) \<and> a \<in> set (txn t)
         \<and> inodes t = (inodes s)[ip := (inodes s ! ip)\<lparr>i_addrs := (i_addrs (inodes s ! ip))[kk := a]\<rparr>] \<and> spare t (inodes s ! ip) a
         \<and> \<not> data_block s a
       else t = s))"
proof (cases "i_addrs (inodes s ! ip) ! kk = 0")
  case False
  then show ?thesis using s by (simp add: bmap_direct_def returns_def file_state_def changed_same)
next
  case True
  let ?n = "inodes s ! ip"
  have st: "budget B k s" "map_ok s" "held s = {}" "map_blocks s \<subseteq> B" "ip < length (inodes s)" "file_ok s ?n" "1 \<le> k" "held_ok s" "bio_ok s"
    using s room [OF True] held_none budget_bio by (auto simp: file_state_def)
  have dev: "i_dev ?n = 1" "length (i_addrs ?n) = NDIRECT + 1" using st(6) by (simp_all add: file_ok_def)
  obtain f where f: "f < fs_size s" "\<not> used s f" using nfree_pos [of s] room [OF True] by auto
  obtain b t where t: "balloc 1 s = Ok b t" "allocated B k s b t"
    using balloc_returns [OF st(1,2,8,4,7) f] unfolding returns_iff by blast
  note A = t(2) st(2,8,9)
  have r: "rest t = rest s" "budget B (k - 1) t" "held t = {}" "b \<in> set (txn t)" "set (txn s) \<subseteq> set (txn t)"
    using t(2) st(3) by (auto simp: allocated_def)
  note d = restD [OF r(1)] rest_fs [OF r(1)]
  let ?m = "?n\<lparr>i_addrs := (i_addrs ?n)[kk := b]\<rparr>" let ?u = "t\<lparr>inodes := (inodes s)[ip := ?m]\<rparr>"
  have fok: "file_ok t ?n" by (rule block_addr_alloc(2) [OF A st(6)])
  have sp: "spare t ?n b" by (rule spare_alloc [OF A st(6)])
  note e = enter_addr [OF fok kk True sp]
  have run: "bmap_direct ip kk s = Ok b ?u"
    using True t(1) dev by (simp add: bmap_direct_def set_inode_def d)
  have "file_blocks t ?m \<subseteq> insert b (file_blocks s ?n)"
    using e(1,2) block_addr_alloc(1) [OF A st(6)] by (auto simp: file_blocks_def)
  then have "c \<notin> file_blocks t ?m" if "data_block s c" "c \<notin> file_blocks s ?n" for c
    using data_block_alloc(2) [OF A that(1)] that(2) by blast
  moreover have "\<forall>i < MAXFILE. block_addr s ?n i \<noteq> 0 \<longrightarrow> block_addr t ?m i = block_addr s ?n i"
  proof (intro allI impI)
    fix i assume i: "i < MAXFILE" "block_addr s ?n i \<noteq> 0"
    then have "\<not> (i = kk \<and> kk < NDIRECT)" using True by (auto simp: block_addr_def)
    then show "block_addr t ?m i = block_addr s ?n i" using e(2) [OF i(1)] block_addr_alloc(1) [OF A st(6)] by auto
  qed
  ultimately have "grown s ip ?u"
    unfolding changed_def using st(5) base_rest [OF r(1)] r(5) e(4) block_addr_alloc(3) [OF A st(6)] data_block_alloc(1,3) [OF A]
    by auto
  moreover have "file_state B (k - 1) ?u ip"
    using st r allocatedD(9) [OF A] e(3) d by (simp add: file_state_def)
  moreover have "spare ?u ?n b" using sp by (simp add: spare_def)
  moreover have "b \<noteq> 0" by (rule new_data_block(2) [OF A])
  ultimately show ?thesis
    using run True st(5) kk dev nfree_alloc [OF A] r(4) new_data_block(3) [OF A] by (simp add: returns_def)
qed


lemma ind_released:
  assumes "balloc 1 s = Ok a u" "put_logged i (f a) u = Ok () w"
  shows "bind (bind (balloc 1) (\<lambda>a. andthen (edit_data i (f a)) (andthen (log_write i) (return a)))) (\<lambda>x. andthen (brelse i) (return x)) s = Ok a w"
  using assms by (auto simp: put_logged_def andthen_def bind_def return_def split: outcome.splits)

text \<open>The second half of \<open>bmap\<close>, for a block whose address is in the indirect block.\<close>

definition bmap_indirect :: "uint32 \<Rightarrow> uint32 \<Rightarrow> nat \<Rightarrow> uint32 kroutine" where
  "bmap_indirect dev addr bn =
    bind (bread dev addr) (\<lambda>bp.
    bind (gets (\<lambda>s. get32 (b_data (bufs s ! bp)) (4 * (bn - NDIRECT)))) (\<lambda>addr.
    bind (if addr = 0 then
            bind (balloc dev) (\<lambda>addr.
            andthen (edit_data bp (\<lambda>d. put32 d (4 * (bn - NDIRECT)) addr))
            (andthen (log_write bp)
            (return addr)))
          else return addr) (\<lambda>addr.
    andthen (brelse bp)
    (return addr))))"

lemma indirect_write:
  assumes s: "file_state B k s ip" and bn: "\<not> bn < NDIRECT" "bn < MAXFILE" and ind: "ind_addr (inodes s ! ip) \<noteq> 0"
    and z: "block_addr s (inodes s ! ip) bn = 0"
    and k: "(if ind_addr (inodes s ! ip) \<in> set (txn s) then 1 else 2) \<le> k" "1 \<le> nfree s"
  shows "returns (bmap_indirect 1 (ind_addr (inodes s ! ip)) bn) s (\<lambda>a t. a \<noteq> 0 \<and> a = block_addr t (inodes s ! ip) bn
    \<and> grown s ip t \<and> inodes t = inodes s \<and> nfree s = Suc (nfree t)
    \<and> file_state B (k - (if ind_addr (inodes s ! ip) \<in> set (txn s) then 1 else 2)) t ip
    \<and> a \<in> set (txn t) \<and> ind_addr (inodes s ! ip) \<in> set (txn t))"
proof -
  let ?n = "inodes s ! ip" let ?b = "ind_addr ?n"
  have st: "budget B k s" "map_ok s" "held s = {}" "map_blocks s \<subseteq> B" "ip < length (inodes s)" "file_ok s ?n" "1 \<le> k"
    using s k by (auto simp: file_state_def split: if_splits)
  have db: "data_block s ?b" using st(6) ind by (simp add: file_ok_def)
  have bd: "?b < disksize s" "?b \<notin> held s" "card (held s) \<le> 1" using db st(3) by (simp_all add: data_block_def)
  from lblocks.get_law [OF st(1) bd] obtain i t where t: "bread 1 ?b s = Ok i t" "budget B k t" "core t = core s" "buf_for t i ?b"
    "b_data (bufs t ! i) = view s ?b" "view t = view s" "held t = {?b}"
    unfolding returns_iff using st(3) by auto
  have r: "rest t = rest s" by (rule rest_core [OF t(3)])
  note v = same_view [OF r t(6)] and d = restD [OF r] rest_fs [OF r]
  have tx: "txn t = txn s" using log_core [OF t(3)] by simp
  have hk: "held_ok t" using db t(7) v d by (simp add: held_ok_def data_block_def)
  have mb: "map_ok t" "map_blocks t \<subseteq> B" "bio_ok t" "file_ok t ?n" using st v d t(2) budget_bio by auto
  obtain f where f: "f < fs_size t" "\<not> used t f" using nfree_pos [of t] k(2) v by auto
  obtain b u where u: "balloc 1 t = Ok b u" "allocated B k t b u"
    using balloc_returns [OF t(2) mb(1) hk mb(2) st(7) f] unfolding returns_iff by blast
  note A = u(2) mb(1) hk mb(3)
  have ur: "rest u = rest t" "budget B (k - 1) u" "held u = {?b}" "set (txn u) = insert b (insert (BBLOCK b (sb t)) (set (txn t)))"
    "buf_for u i ?b"
    using u(2) t(7) keeps_bufsD [OF _ t(4)] t(4) by (auto simp: allocated_def buf_for_def)
  note e = restD [OF ur(1)] rest_fs [OF ur(1)]
  let ?g = "\<lambda>d. put32 d (4 * (bn - NDIRECT)) b"
  have pre: "?b < disksize u" "?b \<notin> log_area u" "affords ?b B u (k - 1)" "length (?g (view u ?b)) = BSIZE"
    using db d e k(1) tx ur(2,4) budget_bio [OF ur(2)] by (auto simp: data_block_def affords_def split: if_splits)
  from lblocks.put_law [where f = ?g, OF ur(2,5) pre] obtain w where w: "put_logged i ?g u = Ok () w" "budget B (left ?b B u (k - 1)) w"
    "rest w = rest u" "set (txn w) = insert ?b (set (txn u))" "view w = (view u)(?b := ?g (view u ?b))" "held w = {}"
    unfolding returns_iff using ur(3) by auto
  have mv: "\<forall>c \<in> map_blocks u. view w c = view u c" using w(5) db d e by (auto simp: data_block_def)
  note m = same_map [OF w(3) mv] and h = restD [OF w(3)] rest_fs [OF w(3)]
  have fok: "file_ok u ?n" "spare u ?n b" by (rule block_addr_alloc(2) [OF A mb(4)], rule spare_alloc [OF A mb(4)])
  have zu: "block_addr u ?n bn = 0" using z v block_addr_alloc(1) [OF A mb(4)] by simp
  note n = enter_ind [OF fok(1) budget_bio [OF ur(2)] bn ind zu fok(2) w(5) h(1) m(4)]
  have run: "bmap_indirect 1 ?b bn s = Ok b w"
    using t(1,5) z bn(1) ind ind_released [where f = "\<lambda>b d. put32 d (4 * (bn - NDIRECT)) b", OF u(1) w(1)]
    by (simp add: bmap_indirect_def block_addr_def)
  have "file_blocks w ?n \<subseteq> insert b (file_blocks s ?n)"
    using n(1) block_addr_alloc(1) [OF A mb(4)] v by (auto simp: file_blocks_def)
  then have keep: "data_block w c \<and> (c \<notin> file_blocks s ?n \<longrightarrow> view w c = view s c \<and> c \<notin> file_blocks w ?n)" if "data_block s c" for c
  proof -
    have c: "data_block t c" using that v by simp
    assume "file_blocks w ?n \<subseteq> insert b (file_blocks s ?n)"
    then show ?thesis using data_block_alloc [OF A c] m(4) w(5) t(6) by (auto simp: file_blocks_def)
  qed
  have "\<forall>i < MAXFILE. block_addr s ?n i \<noteq> 0 \<longrightarrow> block_addr w ?n i = block_addr s ?n i"
    using n(1) block_addr_alloc(1) [OF A mb(4)] z v(4) by auto
  moreover have "file_byte w ?n off = file_byte s ?n off" if "off < MAXFILE * BSIZE" for off
    using n(3) [OF that] block_addr_alloc(3) [OF A mb(4) that] v by simp
  ultimately have "grown s ip w"
    unfolding changed_def using st(5) base_rest [OF w(3)] base_rest [OF ur(1)] base_rest [OF r] w(4) ur(4) tx d(2) e(2) h(2) keep
    by (auto intro!: exI [of _ "i_addrs ?n"])
  moreover have logd: "?b \<in> set (txn s) \<Longrightarrow> ?b \<in> set (txn u)" using tx ur(4) by simp
  have "budget B (k - (if ?b \<in> set (txn s) then 1 else 2)) w"
  proof (rule budget_less [OF w(2)])
    show "k - (if ?b \<in> set (txn s) then 1 else 2) \<le> left ?b B u (k - 1)"
      unfolding left_def using logd by (cases "?b \<in> set (txn s)") (simp, simp, linarith)
  qed
  then have "file_state B (k - (if ?b \<in> set (txn s) then 1 else 2)) w ip"
    using st w(6) m(2) allocatedD(9) [OF A] n(2) d(2,14) e(2,14) h(2,14) by (simp add: file_state_def)
  moreover have "nfree s = Suc (nfree w)" using nfree_alloc [OF A] v m(3) by simp
  ultimately show ?thesis
    using run n(1) [OF bn(2)] new_data_block(2) [OF A] w(4) ur(4) d(2) e(2) h(2) by (simp add: returns_def)
qed


lemma indirect_read:
  assumes s: "file_state B k s ip" and bn: "\<not> bn < NDIRECT" and ind: "ind_addr (inodes s ! ip) \<noteq> 0"
    and a: "block_addr s (inodes s ! ip) bn \<noteq> 0"
  shows "returns (bmap_indirect 1 (ind_addr (inodes s ! ip)) bn) s (\<lambda>a t. a = block_addr s (inodes s ! ip) bn
    \<and> core t = core s \<and> view t = view s \<and> budget B k t \<and> held t = {})"
proof -
  let ?n = "inodes s ! ip" let ?b = "ind_addr ?n"
  have st: "budget B k s" "held s = {}" "file_ok s ?n" using s by (simp_all add: file_state_def)
  have bd: "?b < disksize s" "?b \<notin> held s" "card (held s) \<le> 1" using st(2,3) ind by (simp_all add: data_block_def file_ok_def)
  from lblocks.get_law [OF st(1) bd] obtain i t where t: "bread 1 ?b s = Ok i t" "budget B k t" "core t = core s" "buf_for t i ?b"
    "b_data (bufs t ! i) = view s ?b" "view t = view s" "held t = {?b}" "clean t ?b"
    unfolding returns_iff using st(2) by auto
  from lblocks.give_law [OF t(2,4,8)] obtain u where "brelse i t = Ok () u" "budget B k u" "core u = core t" "view u = view t" "held u = {}"
    unfolding returns_iff using t(7) by auto
  then show ?thesis using t a bn ind by (simp add: returns_def bmap_indirect_def block_addr_def)
qed

text \<open>What a file may still cost: the indirect block may have to be logged, and to be allocated.\<close>

definition log_need :: "kernel \<Rightarrow> nat \<Rightarrow> nat" where
  "log_need s ip = (let b = ind_addr (inodes s ! ip) in if b \<noteq> 0 \<and> b \<in> set (txn s) then 0 else 1)"

definition disk_need :: "kernel \<Rightarrow> nat \<Rightarrow> nat" where
  "disk_need s ip = (if ind_addr (inodes s ! ip) = 0 then 1 else 0)"

lemma bmap_eq:
  "bmap ip bn = (if bn < NDIRECT then bmap_direct ip bn
     else if bn - NDIRECT < NINDIRECT then
       bind (bmap_direct ip NDIRECT) (\<lambda>addr. bind (gets (\<lambda>s. i_dev (inodes s ! ip))) (\<lambda>dev. bmap_indirect dev addr bn))
     else panic ''bmap: out of range'')"
  by (simp add: bmap_def bmap_indirect_def)


text \<open>The outcome of \<open>bmap\<close>: the address of the block, which is new and logged if there was none.\<close>

definition mapped :: "uint32 set \<Rightarrow> nat \<Rightarrow> kernel \<Rightarrow> nat \<Rightarrow> nat \<Rightarrow> uint32 \<Rightarrow> kernel \<Rightarrow> bool" where
  "mapped B k s ip bn a t \<longleftrightarrow> (let c = (if block_addr s (inodes s ! ip) bn = 0 then 1 else 0) in
     a \<noteq> 0 \<and> a = block_addr t (inodes t ! ip) bn \<and> grown s ip t
     \<and> (\<exists>k'. file_state B k' t ip \<and> k + log_need t ip \<le> k' + log_need s ip + c)
     \<and> nfree s + disk_need t ip \<le> nfree t + disk_need s ip + c
     \<and> (c = 1 \<longrightarrow> a \<in> set (txn t)))"

lemma bmap_direct_mapped:
  assumes s: "file_state B k s ip" and bn: "bn < NDIRECT" and z: "block_addr s (inodes s ! ip) bn = 0 \<Longrightarrow> 1 \<le> k \<and> 1 \<le> nfree s"
  shows "returns (bmap ip bn) s (mapped B k s ip bn)"
proof -
  let ?n = "inodes s ! ip"
  have a: "block_addr s n bn = i_addrs n ! bn" for s n using bn by (simp add: block_addr_def)
  have len: "ip < length (inodes s)" using s by (simp add: file_state_def)
  have pre: "i_addrs ?n ! bn = 0 \<Longrightarrow> 1 \<le> k \<and> 1 \<le> nfree s" using z by (simp add: a)
  obtain a t where t: "bmap_direct ip bn s = Ok a t" "a \<noteq> 0" "a = i_addrs (inodes t ! ip) ! bn" "grown s ip t"
    and new: "i_addrs ?n ! bn = 0 \<Longrightarrow> file_state B (k - 1) t ip \<and> nfree s = Suc (nfree t) \<and> a \<in> set (txn t)
         \<and> inodes t = (inodes s)[ip := ?n\<lparr>i_addrs := (i_addrs ?n)[bn := a]\<rparr>]" and old: "i_addrs ?n ! bn \<noteq> 0 \<Longrightarrow> t = s"
    using bmap_direct_returns [OF s less_imp_le [OF bn] pre] unfolding returns_iff by metis
  have "mapped B k s ip bn a t"
  proof (cases "i_addrs ?n ! bn = 0")
    case True
    have "ind_addr (inodes t ! ip) = ind_addr ?n" using new [OF True] bn len by (simp add: ind_addr_def)
    moreover have "set (txn s) \<subseteq> set (txn t)" using t(4) by (simp add: changed_def)
    ultimately have "log_need t ip \<le> log_need s ip \<and> disk_need t ip = disk_need s ip"
      by (auto simp: log_need_def disk_need_def Let_def)
    moreover have "file_state B (k - 1) t ip" "nfree s = Suc (nfree t)" "a \<in> set (txn t)" using new [OF True] by simp_all
    ultimately show ?thesis
      using t(2,4) t(3) [symmetric] True pre [OF True] unfolding mapped_def a Let_def by (intro conjI exI [of _ "k - 1"]) simp_all
  next
    case False
    then show ?thesis using t(2-4) s unfolding mapped_def a Let_def old [OF False] by (intro conjI exI [of _ k]) simp_all
  qed
  then show ?thesis using t(1) bn by (simp add: returns_def bmap_eq)
qed

lemma bmap_in_indirect:
  assumes s: "file_state B k s ip" and bn: "\<not> bn < NDIRECT" "bn < MAXFILE" and ind: "ind_addr (inodes s ! ip) \<noteq> 0"
    and z: "block_addr s (inodes s ! ip) bn = 0 \<Longrightarrow> 1 + log_need s ip \<le> k \<and> 1 \<le> nfree s"
  shows "returns (bmap_indirect 1 (ind_addr (inodes s ! ip)) bn) s (mapped B k s ip bn)"
proof (cases "block_addr s (inodes s ! ip) bn = 0")
  case True
  have c: "(if ind_addr (inodes s ! ip) \<in> set (txn s) then 1 else 2) = 1 + log_need s ip" using ind by (simp add: log_need_def)
  show ?thesis
  proof (rule returns_mono [OF indirect_write [OF s bn ind True]])
    show "(if ind_addr (inodes s ! ip) \<in> set (txn s) then 1 else 2) \<le> k" "1 \<le> nfree s" using z [OF True] c by simp_all
    fix a t assume t: "a \<noteq> 0 \<and> a = block_addr t (inodes s ! ip) bn
      \<and> grown s ip t \<and> inodes t = inodes s \<and> nfree s = Suc (nfree t)
      \<and> file_state B (k - (if ind_addr (inodes s ! ip) \<in> set (txn s) then 1 else 2)) t ip
      \<and> a \<in> set (txn t) \<and> ind_addr (inodes s ! ip) \<in> set (txn t)"
    then have "log_need t ip = 0" "disk_need t ip = disk_need s ip" using ind by (simp_all add: log_need_def disk_need_def)
    then show "mapped B k s ip bn a t" unfolding mapped_def Let_def using t [unfolded c] True z [OF True]
      by (elim conjE, intro conjI exI [of _ "k - (1 + log_need s ip)"]) simp_all
  qed
next
  case False
  have st: "file_ok s (inodes s ! ip)" "ip < length (inodes s)" using s by (simp_all add: file_state_def)
  show ?thesis
  proof (rule returns_mono [OF indirect_read [OF s bn(1) ind False]])
    fix a t assume p: "a = block_addr s (inodes s ! ip) bn \<and> core t = core s \<and> view t = view s \<and> budget B k t \<and> held t = {}"
    then have c: "core t = core s" and t: "a = block_addr s (inodes s ! ip) bn" "budget B k t" "held t = {}" by blast+
    have r: "rest t = rest s" "view t = view s" using rest_core [OF c] p by blast+
    note v = same_view [OF r] and d = restD(2) [OF r(1)] rest_fs [OF r(1)]
    have tx: "txn t = txn s" using log_core [OF c] by simp
    have "file_state B k t ip" using s t v d by (simp add: file_state_def)
    moreover have "grown s ip t" by (rule changed_same [OF r]) (use tx st(2) in simp_all)
    moreover have "log_need t ip = log_need s ip" "disk_need t ip = disk_need s ip" using d tx by (simp_all add: log_need_def disk_need_def)
    ultimately show "mapped B k s ip bn a t" unfolding mapped_def Let_def using t False v d by (intro conjI exI [of _ k]) simp_all
  qed
qed


lemma bmap_new_indirect:
  assumes s: "file_state B k s ip" and bn: "\<not> bn < NDIRECT" "bn < MAXFILE" and ind: "ind_addr (inodes s ! ip) = 0"
    and k: "2 \<le> k" "2 \<le> nfree s"
  shows "returns (bmap ip bn) s (mapped B k s ip bn)"
proof -
  let ?n = "inodes s ! ip"
  have len: "ip < length (inodes s)" "file_ok s ?n" using s by (simp_all add: file_state_def)
  have z: "i_addrs ?n ! NDIRECT = 0" using ind by (simp add: ind_addr_def)
  obtain a t where t: "bmap_direct ip NDIRECT s = Ok a t" "a \<noteq> 0" "a = ind_addr (inodes t ! ip)" "grown s ip t"
    "file_state B (k - 1) t ip" "nfree s = Suc (nfree t)" "a \<in> set (txn t)" "spare t ?n a" "\<not> data_block s a"
    using bmap_direct_returns [OF s le_refl] k z unfolding returns_iff by (simp add: ind_addr_def) metis
  have "file_ok t (inodes t ! ip)" using t(5) by (simp add: file_state_def)
  then have dev: "i_dev (inodes t ! ip) = 1" by (simp add: file_ok_def)
  have zt: "block_addr t (inodes t ! ip) bn = 0"
    using t(2,8) bn get32_zero [OF MAXFILE_index [OF bn(2,1)]] by (simp add: block_addr_def t(3) [symmetric] spare_def)
  have needs: "log_need t ip = 0" "disk_need t ip = 0" "log_need s ip = 1" "disk_need s ip = 1"
    using t(2,7) ind by (simp_all add: log_need_def disk_need_def t(3) [symmetric])
  have "returns (bmap_indirect 1 a bn) t (mapped B (k - 1) t ip bn)"
    unfolding t(3) by (rule bmap_in_indirect [OF t(5) bn]) (use t(2,3,6) k needs in auto)
  then obtain b u where u: "bmap_indirect 1 a bn t = Ok b u" "mapped B (k - 1) t ip bn b u" unfolding returns_iff by blast
  then obtain k' where m: "b \<noteq> 0" "b = block_addr u (inodes u ! ip) bn" "grown t ip u" "b \<in> set (txn u)" "file_state B k' u ip"
    "k - 1 + log_need u ip \<le> k' + 0 + 1" "nfree t + disk_need u ip \<le> nfree u + 0 + 1"
    unfolding mapped_def Let_def needs zt by auto
  have "grown s ip u" by (rule changed_cong [OF changed_trans [OF t(4) m(3) len(1)]]) (use changed_byte [OF t(4)] in simp)
  moreover have "block_addr s ?n bn = 0" using bn ind by (simp add: block_addr_def)
  ultimately have "mapped B k s ip bn b u"
    unfolding mapped_def Let_def needs using m(1,4,5,6,7) m(2) [symmetric] t(6) k by (intro conjI exI [of _ k']) simp_all
  moreover have "bmap ip bn s = Ok b u" using bn t(1) dev u(1) by (simp add: bmap_eq MAXFILE_def)
  ultimately show ?thesis by (simp add: returns_def)
qed

lemma bmap_returns:
  assumes s: "file_state B k s ip" and bn: "bn < MAXFILE"
    and z: "block_addr s (inodes s ! ip) bn = 0 \<Longrightarrow> 1 + log_need s ip \<le> k \<and> 1 + disk_need s ip \<le> nfree s"
  shows "returns (bmap ip bn) s (mapped B k s ip bn)"
proof (cases "bn < NDIRECT")
  case True
  then show ?thesis by (rule bmap_direct_mapped [OF s]) (use z in simp)
next
  case False
  show ?thesis
  proof (cases "ind_addr (inodes s ! ip) = 0")
    case True
    then show ?thesis
      by (rule bmap_new_indirect [OF s False bn]) (use z True False in \<open>simp_all add: block_addr_def log_need_def disk_need_def\<close>)
  next
    case ind: False
    have "bn - NDIRECT < NINDIRECT" using False bn by (simp add: MAXFILE_def)
    moreover have "i_dev (inodes s ! ip) = 1" using s by (simp add: file_state_def file_ok_def)
    ultimately have "bmap ip bn s = bmap_indirect 1 (ind_addr (inodes s ! ip)) bn s"
      using ind False by (simp add: bmap_eq bmap_direct_def ind_addr_def)
    moreover have "returns (bmap_indirect 1 (ind_addr (inodes s ! ip)) bn) s (mapped B k s ip bn)"
      by (rule bmap_in_indirect [OF s False bn ind]) (use z in auto)
    ultimately show ?thesis by (simp add: returns_def)
  qed
qed


section \<open>Writing\<close>

lemma returns_unit: "returns m s Q \<longleftrightarrow> (\<exists>t. m s = Ok () t \<and> Q () t)"
  by (auto simp: returns_iff)

lemma put_data:
  assumes s: "file_state B k s ip" and bn: "bn < MAXFILE" "block_addr s (inodes s ! ip) bn \<noteq> 0"
    and a: "affords (block_addr s (inodes s ! ip) bn) B s k" "length (g (view s (block_addr s (inodes s ! ip) bn))) = BSIZE"
  defines "b \<equiv> block_addr s (inodes s ! ip) bn"
  shows "returns (bind (bread 1 b) (\<lambda>i. put_logged i g)) s (\<lambda>_ t. file_state B (left b B s k) t ip \<and> inodes t = inodes s
    \<and> nfree t = nfree s \<and> set (txn t) = insert b (set (txn s)) \<and> (\<forall>i < MAXFILE. block_addr t (inodes s ! ip) i = block_addr s (inodes s ! ip) i)
    \<and> changed s ip (\<lambda>x. if x div BSIZE = bn then g (view s b) ! (x mod BSIZE) else file_byte s (inodes s ! ip) x) t)"
proof -
  let ?n = "inodes s ! ip"
  have st: "budget B k s" "map_ok s" "held s = {}" "map_blocks s \<subseteq> B" "ip < length (inodes s)" "file_ok s ?n"
    using s by (simp_all add: file_state_def)
  note f = file_okD [OF st(6) bn, folded b_def]
  have pre: "b < disksize s" "b \<notin> log_area s" "b \<notin> held s" "card (held s) \<le> 1" "b \<notin> map_blocks s" using f(1) st(3) by (simp_all add: data_block_def)
  from lblocks.edit_block [where f = g, OF st(1) pre(1-4) a [folded b_def]]
  obtain t where t: "bind (bread 1 b) (\<lambda>i. put_logged i g) s = Ok () t" "budget B (left b B s k) t" "rest t = rest s"
    "set (txn t) = insert b (set (txn s))" "view t = (view s)(b := g (view s b))" "held t = {}"
    unfolding returns_iff st(3) by auto
  have mv: "\<forall>c \<in> map_blocks s. view t c = view s c" using t(5) pre(5) by auto
  note m = same_map [OF t(3) mv] and d = restD(1,2) [OF t(3)] rest_fs [OF t(3)]
  have ad: "block_addr t ?n i = block_addr s ?n i" for i using t(5) f(2) by (simp add: block_addr_def)
  have fok: "file_ok t ?n" by (rule file_ok_cong [OF _ d(1) ad st(6)]) (simp add: m(4))
  have "file_byte t ?n x = (if x div BSIZE = bn then g (view s b) ! (x mod BSIZE) else file_byte s ?n x)" if "x < MAXFILE * BSIZE" for x
  proof -
    have "x div BSIZE < MAXFILE" using that by (simp add: less_mult_imp_div_less)
    then show ?thesis using f(4) bn by (auto simp: file_byte_def Let_def ad t(5) b_def)
  qed
  moreover have "b \<in> file_blocks s ?n" using bn(1) by (auto simp: file_blocks_def b_def)
  moreover have "file_blocks t ?n = file_blocks s ?n" by (simp add: file_blocks_def ad)
  moreover have "\<exists>as. inodes s = (inodes s)[ip := ?n\<lparr>i_addrs := as\<rparr>]" using st(5) by (auto intro!: exI [of _ "i_addrs ?n"])
  ultimately have "changed s ip (\<lambda>x. if x div BSIZE = bn then g (view s b) ! (x mod BSIZE) else file_byte s ?n x) t"
    using base_rest [OF t(3)] t(4,5) ad m(4) d by (auto simp: changed_def)
  moreover have "file_state B (left b B s k) t ip" using t(2,6) m(2) st fok d by (simp add: file_state_def)
  ultimately show ?thesis using t(1,4) d m(3) ad by (simp add: returns_def)
qed

text \<open>Bytes written over the contents of a file.\<close>

definition overlay :: "(nat \<Rightarrow> byte) \<Rightarrow> nat \<Rightarrow> byte list \<Rightarrow> nat \<Rightarrow> byte" where
  "overlay F off bs x = (if off \<le> x \<and> x < off + length bs then bs ! (x - off) else F x)"

lemma same_chunk:
  assumes "off mod BSIZE + m \<le> BSIZE" "off \<le> x" "x < off + m"
  shows "x div BSIZE = off div BSIZE"
proof -
  have o: "off = off div BSIZE * BSIZE + off mod BSIZE" by simp
  then have "x < off div BSIZE * BSIZE + BSIZE" using assms by linarith
  moreover have "off div BSIZE * BSIZE \<le> x" using assms(2) o by linarith
  ultimately show ?thesis by (intro div_nat_eqI) (simp_all add: mult.commute)
qed

lemma overlay_splice:
  assumes "length d = BSIZE" "off mod BSIZE + length bs \<le> BSIZE" "\<And>x. x div BSIZE = off div BSIZE \<Longrightarrow> F x = d ! (x mod BSIZE)"
  shows "(if x div BSIZE = off div BSIZE then splice d (off mod BSIZE) bs ! (x mod BSIZE) else F x) = overlay F off bs x"
proof (cases "x div BSIZE = off div BSIZE")
  case True
  have x: "x = off div BSIZE * BSIZE + x mod BSIZE" "off = off div BSIZE * BSIZE + off mod BSIZE" "x mod BSIZE < BSIZE"
    using True by (metis div_mult_mod_eq, simp, simp add: layout_simps)
  then have "x - off = x mod BSIZE - off mod BSIZE" "off \<le> x \<longleftrightarrow> off mod BSIZE \<le> x mod BSIZE"
    "x < off + length bs \<longleftrightarrow> x mod BSIZE < off mod BSIZE + length bs" by linarith+
  then show ?thesis using True assms x(3) by (simp add: overlay_def nth_splice)
next
  case False
  then have "\<not> (off \<le> x \<and> x < off + length bs)" using same_chunk [OF assms(2)] by blast
  then show ?thesis using False by (auto simp add: overlay_def)
qed

lemma overlay_cong: "F x = G x \<Longrightarrow> overlay F off bs x = overlay G off bs x"
  by (simp add: overlay_def)

lemma overlay_overlay:
  assumes "m \<le> length bs"
  shows "overlay (overlay F off (take m bs)) (off + m) (drop m bs) = overlay F off bs"
  using assms by (auto simp: overlay_def fun_eq_iff)


text \<open>What a file system can still take: \<open>j\<close> more blocks of the file, new or not.\<close>

definition room :: "nat \<Rightarrow> uint32 set \<Rightarrow> kernel \<Rightarrow> nat \<Rightarrow> bool" where
  "room j B s ip \<longleftrightarrow> (\<exists>k. file_state B k s ip \<and> j + log_need s ip \<le> k) \<and> j + disk_need s ip \<le> nfree s"

lemma needs_mono:
  assumes "set (txn s) \<subseteq> set (txn t)" "inodes t = inodes s"
  shows "log_need t ip \<le> log_need s ip" "disk_need t ip = disk_need s ip"
  using assms by (auto simp: log_need_def disk_need_def Let_def)

lemma write_chunk:
  assumes s: "room (Suc j) B s ip" and off: "off div BSIZE < MAXFILE" "off mod BSIZE + length bs \<le> BSIZE"
  shows "returns (bind (bmap ip (off div BSIZE)) (\<lambda>a. bind (gets (\<lambda>s. i_dev (inodes s ! ip))) (\<lambda>dev.
      bind (bread dev a) (\<lambda>i. put_logged i (\<lambda>d. splice d (off mod BSIZE) bs))))) s
    (\<lambda>_ t. room j B t ip \<and> changed s ip (overlay (file_byte s (inodes s ! ip)) off bs) t \<and> block_addr t (inodes t ! ip) (off div BSIZE) \<noteq> 0)"
proof -
  let ?bn = "off div BSIZE" let ?g = "\<lambda>d. splice d (off mod BSIZE) bs"
  obtain k where k: "file_state B k s ip" "Suc j + log_need s ip \<le> k" "Suc j + disk_need s ip \<le> nfree s" using s by (auto simp: room_def)
  have len: "ip < length (inodes s)" using k(1) by (simp add: file_state_def)
  have "returns (bmap ip ?bn) s (mapped B k s ip ?bn)" by (rule bmap_returns [OF k(1) off(1)]) (use k in simp)
  then obtain a t where t: "bmap ip ?bn s = Ok a t" "mapped B k s ip ?bn a t" unfolding returns_iff by blast
  define c where "c = (if block_addr s (inodes s ! ip) ?bn = 0 then 1 else 0 :: nat)"
  from t(2) obtain k' where m: "a \<noteq> 0" "a = block_addr t (inodes t ! ip) ?bn" "grown s ip t" "file_state B k' t ip"
    "k + log_need t ip \<le> k' + log_need s ip + c" "nfree s + disk_need t ip \<le> nfree t + disk_need s ip + c" "c = 1 \<longrightarrow> a \<in> set (txn t)"
    unfolding mapped_def Let_def c_def [symmetric] by blast
  have c: "c = 0 \<or> c = 1" by (simp add: c_def)
  have vl: "length (view t a) = BSIZE" using budget_bio [of B k' t] m(4) by (simp add: file_state_def)
  have af: "affords (block_addr t (inodes t ! ip) ?bn) B t k'" "length (?g (view t (block_addr t (inodes t ! ip) ?bn))) = BSIZE"
    "block_addr t (inodes t ! ip) ?bn \<noteq> 0"
    using m(1,5,7) k(2) c off(2) vl unfolding m(2) [symmetric] by (auto simp: affords_def)
  from put_data [where g = ?g, OF m(4) off(1) af(3,1,2)] obtain u where u: "bind (bread 1 a) (\<lambda>i. put_logged i ?g) t = Ok () u"
    "file_state B (left a B t k') u ip" "inodes u = inodes t" "nfree u = nfree t" "set (txn u) = insert a (set (txn t))"
    "\<forall>i < MAXFILE. block_addr u (inodes t ! ip) i = block_addr t (inodes t ! ip) i"
    "changed t ip (\<lambda>x. if x div BSIZE = ?bn then ?g (view t a) ! (x mod BSIZE) else file_byte t (inodes t ! ip) x) u"
    unfolding m(2) [symmetric] returns_unit by blast
  have fb: "file_byte t (inodes t ! ip) x = view t a ! (x mod BSIZE)" if "x div BSIZE = ?bn" for x
    using that m(1,2) by (simp add: file_byte_def Let_def)
  have ov: "(if x div BSIZE = ?bn then ?g (view t a) ! (x mod BSIZE) else file_byte t (inodes t ! ip) x)
      = overlay (file_byte t (inodes t ! ip)) off bs x" for x
    by (rule overlay_splice [OF vl off(2)]) (rule fb)
  have "changed s ip (overlay (file_byte s (inodes s ! ip)) off bs) u"
  proof (rule changed_cong [OF changed_trans [OF m(3) u(7) len]])
    fix x assume "x < MAXFILE * BSIZE"
    then show "overlay (file_byte s (inodes s ! ip)) off bs x
      = (if x div BSIZE = ?bn then ?g (view t a) ! (x mod BSIZE) else file_byte t (inodes t ! ip) x)"
      unfolding ov using changed_byte [OF m(3)] by (simp add: overlay_def)
  qed
  moreover have "room j B u ip"
  proof -
    have n: "log_need u ip \<le> log_need t ip" "disk_need u ip = disk_need t ip" using needs_mono [of t u] u(3,5) by auto
    have "k' - 1 \<le> left a B t k'" "a \<in> set (txn t) \<Longrightarrow> left a B t k' = k'" by (simp_all add: left_def)
    then have "j + log_need u ip \<le> left a B t k'" using n(1) m(5,7) k(2) c by (elim disjE) simp_all
    moreover have "j + disk_need u ip \<le> nfree u" using n(2) m(6) k(3) c u(4) by (elim disjE) simp_all
    ultimately show ?thesis using u(2) by (auto simp: room_def)
  qed
  moreover have "block_addr u (inodes u ! ip) ?bn \<noteq> 0" using u(3,6) af(3) off(1) by simp
  moreover have "i_dev (inodes t ! ip) = 1" using m(4) by (simp add: file_state_def file_ok_def)
  ultimately show ?thesis using t(1) u(1) by (simp add: returns_def)
qed


lemma write_chunks_Cons:
  "write_chunks ip src ((off, m) # cs) =
    andthen (bind (bmap ip (off div BSIZE)) (\<lambda>a. bind (gets (\<lambda>s. i_dev (inodes s ! ip))) (\<lambda>dev.
      bind (bread dev a) (\<lambda>i. put_logged i (\<lambda>d. splice d (off mod BSIZE) (take m src))))))
    (write_chunks ip (drop m src) cs)"
  by (rule ext) (simp add: put_logged_def andthen_def bind_def split: outcome.splits)

declare chunks.simps [simp del]

lemma chunk_facts:
  assumes "0 < n" "off + n \<le> MAXFILE * BSIZE"
  defines "m \<equiv> min n (BSIZE - off mod BSIZE)"
  shows "off div BSIZE < MAXFILE" "m \<le> n" "off mod BSIZE + m \<le> BSIZE" "chunks off n = (off, m) # chunks (off + m) (n - m)" "0 < m"
    "off + m + (n - m) \<le> MAXFILE * BSIZE"
proof -
  have p: "0 < BSIZE" by (simp add: layout_simps)
  show "off div BSIZE < MAXFILE" using assms(1,2) by (simp add: less_mult_imp_div_less)
  have "off mod BSIZE < BSIZE" using p by simp
  then show "off mod BSIZE + m \<le> BSIZE" "0 < m" using assms(1) unfolding m_def by (auto simp: min_def)
  show "m \<le> n" by (simp add: m_def)
  then show "off + m + (n - m) \<le> MAXFILE * BSIZE" using assms(2) by simp
  show "chunks off n = (off, m) # chunks (off + m) (n - m)" using assms(1) by (subst chunks.simps) (simp add: m_def Let_def)
qed

lemma write_chunks_returns:
  assumes "room (j + length (chunks off n)) B s ip" "length src = n" "off + n \<le> MAXFILE * BSIZE"
  shows "returns (write_chunks ip src (chunks off n)) s (\<lambda>_ t. room j B t ip \<and> changed s ip (overlay (file_byte s (inodes s ! ip)) off src) t
    \<and> (\<forall>x. off \<le> x \<and> x < off + n \<longrightarrow> block_addr t (inodes t ! ip) (x div BSIZE) \<noteq> 0))"
  using assms
proof (induction off n arbitrary: s src rule: chunks.induct)
  case (1 off n)
  obtain k where fs: "file_state B k s ip" using 1(2) by (auto simp: room_def)
  have len: "ip < length (inodes s)" using fs by (simp add: file_state_def)
  show ?case
  proof (cases "n = 0")
    case True
    have "changed s ip (overlay (file_byte s (inodes s ! ip)) off src) s"
      by (rule changed_cong [OF changed_same [OF refl refl order.refl len]]) (use True 1(3) in \<open>auto simp: overlay_def\<close>)
    then show ?thesis using True 1(2) by (auto simp add: returns_def chunks.simps [of off 0])
  next
    case False
    define m where "m = min n (BSIZE - off mod BSIZE)"
    have n: "0 < n" using False by simp
    note c = chunk_facts [OF n 1(4), folded m_def]
    have l: "length (take m src) = m" using 1(3) c(2) by simp
    have r: "room (Suc (j + length (chunks (off + m) (n - m)))) B s ip" using 1(2) by (simp add: c(4))
    from write_chunk [where bs = "take m src", OF r c(1)] c(3) l obtain t
      where t: "bind (bmap ip (off div BSIZE)) (\<lambda>a. bind (gets (\<lambda>s. i_dev (inodes s ! ip))) (\<lambda>dev.
          bind (bread dev a) (\<lambda>i. put_logged i (\<lambda>d. splice d (off mod BSIZE) (take m src))))) s = Ok () t"
        "room (j + length (chunks (off + m) (n - m))) B t ip" "changed s ip (overlay (file_byte s (inodes s ! ip)) off (take m src)) t"
        "block_addr t (inodes t ! ip) (off div BSIZE) \<noteq> 0"
      unfolding returns_unit by auto
    from 1(1) [OF False m_def t(2), of "drop m src"] 1(3) c(6)
    obtain u where u: "write_chunks ip (drop m src) (chunks (off + m) (n - m)) t = Ok () u" "room j B u ip"
      "changed t ip (overlay (file_byte t (inodes t ! ip)) (off + m) (drop m src)) u"
      "\<forall>x. off + m \<le> x \<and> x < off + m + (n - m) \<longrightarrow> block_addr u (inodes u ! ip) (x div BSIZE) \<noteq> 0"
      unfolding returns_unit by auto
    have "changed s ip (overlay (file_byte s (inodes s ! ip)) off src) u"
    proof (rule changed_cong [OF changed_trans [OF t(3) u(3) len]])
      fix x assume "x < MAXFILE * BSIZE"
      then have f: "overlay (file_byte s (inodes s ! ip)) off (take m src) x = file_byte t (inodes t ! ip) x"
        by (rule changed_byte [OF t(3), symmetric])
      have "overlay (file_byte s (inodes s ! ip)) off src x
          = overlay (overlay (file_byte s (inodes s ! ip)) off (take m src)) (off + m) (drop m src) x"
        by (subst overlay_overlay) (use 1(3) c(2) in simp_all)
      also have "\<dots> = overlay (file_byte t (inodes t ! ip)) (off + m) (drop m src) x" using f by (rule overlay_cong)
      finally show "overlay (file_byte s (inodes s ! ip)) off src x = overlay (file_byte t (inodes t ! ip)) (off + m) (drop m src) x" .
    qed
    moreover have "block_addr u (inodes u ! ip) (x div BSIZE) \<noteq> 0" if x: "off \<le> x" "x < off + n" for x
    proof (cases "x < off + m")
      case True
      have "x div BSIZE = off div BSIZE" by (rule same_chunk [OF c(3) x(1) True])
      then show ?thesis using t(4) u(3) c(1) by (simp add: changed_def)
    next
      case False
      then show ?thesis using u(4) x c(2) by simp
    qed
    ultimately show ?thesis using t(1) u(1,2) by (simp add: returns_def c(4) write_chunks_Cons del: write_chunks.simps)
  qed
qed


text \<open>Every block below the size of the file is there.\<close>

definition no_holes :: "kernel \<Rightarrow> inode \<Rightarrow> bool" where
  "no_holes s n \<longleftrightarrow> unat (i_size n) \<le> MAXFILE * BSIZE \<and> (\<forall>x < unat (i_size n). block_addr s n (x div BSIZE) \<noteq> 0)"

text \<open>Storing the inode changes neither the contents of its file nor any other block in use.\<close>

lemma file_iupdate:
  assumes s: "file_state B k s ip" and B: "IBLOCK (i_inum (inodes s ! ip)) (sb s) \<in> B"
  defines "b \<equiv> IBLOCK (i_inum (inodes s ! ip)) (sb s)"
  shows "returns (iupdate ip) s (\<lambda>_ t. file_state B k t ip \<and> inodes t = inodes s \<and> base t = base s
    \<and> (\<forall>i < MAXFILE. block_addr t (inodes s ! ip) i = block_addr s (inodes s ! ip) i)
    \<and> (\<forall>x < MAXFILE * BSIZE. file_byte t (inodes s ! ip) x = file_byte s (inodes s ! ip) x)
    \<and> (\<forall>c. c \<noteq> b \<longrightarrow> view t c = view s c)
    \<and> same_file (on_disk t (i_inum (inodes s ! ip)) (inodes s ! ip)) (inodes s ! ip))"
proof -
  let ?n = "inodes s ! ip"
  have st: "budget B k s" "map_ok s" "held s = {}" "map_blocks s \<subseteq> B" "ip < length (inodes s)" "file_ok s ?n" "i_dev ?n = 1" "length (i_addrs ?n) = NDIRECT + 1"
    using s by (simp_all add: file_state_def file_ok_def)
  have db: "data_block s b" using st(6) by (simp add: file_ok_def b_def)
  have lb: "left b B s k = k" using B by (simp add: left_def b_def)
  have iok: "iblock_ok B k s (i_inum ?n)" using db B st(3) by (simp add: iblock_ok_def Let_def data_block_def affords_def b_def)
  have h: "card (held s) \<le> 1" using st(3) by simp
  from iupdate_returns [OF st(1) h st(7) iok] obtain t where t: "iupdate ip s = Ok () t" "budget B k t" "rest t = rest s"
    "view t = (view s)(b := store_dinode ?n (dip_off (i_inum ?n)) (view s b))" "held t = {}"
    unfolding returns_unit b_def [symmetric] lb st(3) by blast
  have mv: "\<forall>c \<in> map_blocks s. view t c = view s c" using t(4) db by (auto simp: data_block_def)
  note m = same_map [OF t(3) mv] and d = restD(1,2) [OF t(3)] rest_fs [OF t(3)]
  have "ind_addr ?n \<noteq> 0 \<Longrightarrow> ind_addr ?n \<noteq> b" using st(6) by (simp add: file_ok_def b_def)
  then have ad: "block_addr t ?n i = block_addr s ?n i" for i using t(4) by (simp add: block_addr_def)
  have fok: "file_ok t ?n" by (rule file_ok_cong [OF _ d(1) ad st(6)]) (simp add: m(4))
  have "file_byte t ?n x = file_byte s ?n x" if "x < MAXFILE * BSIZE" for x
    by (rule file_byte_cong [OF _ _ that]) (use file_okD(3) [OF st(6)] ad t(4) in \<open>auto simp: b_def\<close>)
  moreover have "same_file (on_disk t (i_inum ?n) ?n) ?n"
    using load_store [of "dip_off (i_inum ?n)" "view s b" ?n ?n] dip_off_bound st(8) budget_bio [OF st(1)] t(4)
    by (simp add: on_disk_def d(1) b_def)
  moreover have "file_state B k t ip" using t(2,5) m(2) st fok d by (simp add: file_state_def)
  ultimately show ?thesis using t(1,4) d(2) base_rest [OF t(3)] ad by (simp add: returns_def)
qed


lemma offset_arith:
  fixes off :: uint32
  assumes "unat off + l \<le> MAXFILE * BSIZE"
  shows "unat (of_nat l :: uint32) = l" "unat (off + of_nat l) = unat off + l" "\<not> off + of_nat l < off"
    "\<not> off + of_nat l > of_nat (MAXFILE * BSIZE)" "sint (of_nat l :: uint32) = int l"
proof -
  have b: "unat off + l \<le> 71680" using assms by (simp add: layout_simps)
  then have l: "l < 2 ^ 32" by simp
  show u: "unat (of_nat l :: uint32) = l" by (rule unat_of_nat32 [OF l])
  show p: "unat (off + of_nat l) = unat off + l" using b by (simp add: unat_word_ariths u)
  show "\<not> off + of_nat l < off" by (simp add: word_less_nat_alt p)
  have m: "unat (of_nat (MAXFILE * BSIZE) :: uint32) = MAXFILE * BSIZE" by (rule unat_of_nat32) (simp add: layout_simps)
  show "\<not> off + of_nat l > of_nat (MAXFILE * BSIZE)" unfolding word_less_nat_alt p m using assms by simp
  have "uint (of_nat l :: uint32) = int l" using u by (metis uint_nat)
  then show "sint (of_nat l :: uint32) = int l" using b by (simp add: sint_cases)
qed

lemma file_size [simp]:
  "block_addr s (n\<lparr>i_size := z\<rparr>) i = block_addr s n i" "file_byte s (n\<lparr>i_size := z\<rparr>) x = file_byte s n x"
  "file_ok s (n\<lparr>i_size := z\<rparr>) = file_ok s n"
  by (simp_all add: block_addr_def file_byte_def file_ok_def ind_addr_def)

text \<open>What \<open>writei\<close> makes of a file.\<close>

definition written_to :: "uint32 set \<Rightarrow> kernel \<Rightarrow> nat \<Rightarrow> nat \<Rightarrow> byte list \<Rightarrow> kernel \<Rightarrow> bool" where
  "written_to B s ip off src t \<longleftrightarrow> (let n = inodes s ! ip; n' = inodes t ! ip in
     (\<exists>k. file_state B k t ip) \<and> no_holes t n' \<and> i_type n' = i_type n
     \<and> unat (i_size n') = max (unat (i_size n)) (off + length src)
     \<and> (\<forall>x < MAXFILE * BSIZE. file_byte t n' x = overlay (file_byte s n) off src x)
     \<and> (\<forall>c. data_block s c \<longrightarrow> c \<notin> file_blocks s n \<longrightarrow> c \<noteq> IBLOCK (i_inum n) (sb s) \<longrightarrow> view t c = view s c))"

lemma writei_run:
  assumes w: "write_chunks ip src (chunks (unat off) (length src)) s = Ok () t"
    and n: "i_type (inodes s ! ip) \<noteq> T_DEV" and off: "off \<le> i_size (inodes s ! ip)" "unat off + length src \<le> MAXFILE * BSIZE"
  shows "writei ip src off (of_nat (length src)) s
    = (if src \<noteq> [] \<and> unat off + length src > unat (i_size (inodes t ! ip))
       then andthen (iupdate ip) (return (int (length src))) (set_inode ip (\<lambda>k. k\<lparr>i_size := off + of_nat (length src)\<rparr>) t)
       else Ok (int (length src)) t)"
proof -
  note a = offset_arith [OF off(2)]
  have z: "0 < (of_nat (length src) :: uint32) \<longleftrightarrow> src \<noteq> []" by (simp add: word_less_nat_alt a(1))
  have "\<not> off > i_size (inodes s ! ip)" using off(1) by simp
  then show ?thesis
    using w n a z by (simp add: writei_def andthen_assoc word_less_nat_alt [of "i_size (inodes t ! ip)"])
qed


lemma writei_returns:
  assumes r: "room (length (chunks (unat off) (length src))) B s ip" and B: "IBLOCK (i_inum (inodes s ! ip)) (sb s) \<in> B"
    and n: "i_type (inodes s ! ip) \<noteq> T_DEV" "no_holes s (inodes s ! ip)" and off: "off \<le> i_size (inodes s ! ip)" "unat off + length src \<le> MAXFILE * BSIZE"
  shows "returns (writei ip src off (of_nat (length src))) s (\<lambda>r t. r = int (length src) \<and> written_to B s ip (unat off) src t)"
proof -
  let ?n = "inodes s ! ip" let ?l = "length src"
  have len: "ip < length (inodes s)" using r by (auto simp: room_def file_state_def)
  have le: "unat off \<le> unat (i_size ?n)" "unat (i_size ?n) \<le> MAXFILE * BSIZE" using off(1) n(2) by (simp_all add: word_le_nat_alt no_holes_def)
  have r0: "room (0 + length (chunks (unat off) ?l)) B s ip" using r by simp
  from write_chunks_returns [OF r0 refl off(2)] obtain t where t: "write_chunks ip src (chunks (unat off) ?l) s = Ok () t"
    "room 0 B t ip" "changed s ip (overlay (file_byte s ?n) (unat off) src) t"
    "\<forall>x. unat off \<le> x \<and> x < unat off + ?l \<longrightarrow> block_addr t (inodes t ! ip) (x div BSIZE) \<noteq> 0"
    unfolding returns_unit by auto
  obtain k where k: "file_state B k t ip" using t(2) by (auto simp: room_def)
  note c = t(3) [unfolded changed_def]
  obtain as where as: "inodes t = (inodes s)[ip := ?n\<lparr>i_addrs := as\<rparr>]" using c by blast
  let ?m = "inodes t ! ip"
  have m: "?m = ?n\<lparr>i_addrs := as\<rparr>" using as len by simp
  have sb: "sb t = sb s" using c by (intro baseD(1)) blast
  have full: "block_addr t ?m (x div BSIZE) \<noteq> 0" if x: "x < max (unat (i_size ?n)) (unat off + ?l)" for x
  proof (cases "x < unat (i_size ?n)")
    case True
    then have "block_addr s ?n (x div BSIZE) \<noteq> 0" "x div BSIZE < MAXFILE"
      using n(2) le(2) by (simp_all add: no_holes_def less_mult_imp_div_less)
    then show ?thesis using c by metis
  next
    case False
    then show ?thesis using t(4) x le(1) by simp
  qed
  have view: "view t c = view s c" if "data_block s c" "c \<notin> file_blocks s ?n" for c using c that by blast
  show ?thesis
  proof (cases "src \<noteq> [] \<and> unat off + ?l > unat (i_size ?m)")
    case False
    then have "max (unat (i_size ?n)) (unat off + ?l) = unat (i_size ?m)" using le(1) by (auto simp: m)
    then have "written_to B s ip (unat off) src t"
      unfolding written_to_def Let_def using k full view changed_byte [OF t(3)] le(2) off(2) by (auto simp: m no_holes_def)
    then show ?thesis using writei_run [OF t(1) n(1) off] False by (simp add: returns_def)
  next
    case True
    let ?u = "set_inode ip (\<lambda>k. k\<lparr>i_size := off + of_nat ?l\<rparr>) t" let ?p = "?m\<lparr>i_size := off + of_nat ?l\<rparr>"
    have u: "?u = t\<lparr>inodes := (inodes t)[ip := ?p]\<rparr>" "inodes ?u ! ip = ?p" using as len by (simp_all add: set_inode_def)
    have fu: "file_state B k ?u ip" using k unfolding file_state_def u(2) by (simp add: u(1))
    have "IBLOCK (i_inum (inodes ?u ! ip)) (sb ?u) \<in> B" using B unfolding u(2) by (simp add: u(1) m sb)
    from file_iupdate [OF fu this] obtain v where v: "iupdate ip ?u = Ok () v" "file_state B k v ip" "inodes v ! ip = ?p"
      "\<forall>i < MAXFILE. block_addr v ?m i = block_addr t ?m i" "\<forall>x < MAXFILE * BSIZE. file_byte v ?m x = file_byte t ?m x"
      "\<forall>c. c \<noteq> IBLOCK (i_inum ?n) (sb s) \<longrightarrow> view v c = view t c"
      unfolding returns_unit u(2) using as len by (auto simp: u m sb)
    have sz: "unat (i_size ?p) = unat off + ?l" "max (unat (i_size ?n)) (unat off + ?l) = unat off + ?l"
      using offset_arith(2) [OF off(2)] True by (simp_all add: m)
    have "block_addr v ?m (x div BSIZE) \<noteq> 0" if "x < unat off + ?l" for x
    proof -
      have "x div BSIZE < MAXFILE" using that off(2) by (simp add: less_mult_imp_div_less)
      then show ?thesis using full [of x] v(4) that by simp
    qed
    then have "written_to B s ip (unat off) src v"
      unfolding written_to_def Let_def v(3) no_holes_def sz using v(2,5,6) off(2) changed_byte [OF t(3)] view by (auto simp: m)
    then show ?thesis using writei_run [OF t(1) n(1) off] True v(1) by (simp add: returns_def)
  qed
qed


section \<open>Reading\<close>

lemma bmap_found:
  assumes s: "file_state B k s ip" and bn: "bn < MAXFILE" "block_addr s (inodes s ! ip) bn \<noteq> 0"
  shows "returns (bmap ip bn) s (\<lambda>a t. a = block_addr s (inodes s ! ip) bn \<and> core t = core s \<and> view t = view s \<and> budget B k t \<and> held t = {})"
proof (cases "bn < NDIRECT")
  case True
  then show ?thesis using s bn by (simp add: returns_def bmap_eq bmap_direct_def block_addr_def file_state_def)
next
  case False
  have ind: "ind_addr (inodes s ! ip) \<noteq> 0" using bn(2) False by (auto simp: block_addr_def)
  have "bn - NDIRECT < NINDIRECT" using False bn(1) by (simp add: MAXFILE_def)
  moreover have "i_dev (inodes s ! ip) = 1" using s by (simp add: file_state_def file_ok_def)
  ultimately have "bmap ip bn s = bmap_indirect 1 (ind_addr (inodes s ! ip)) bn s"
    using ind False by (simp add: bmap_eq bmap_direct_def ind_addr_def)
  then show ?thesis using indirect_read [OF s False ind bn(2)] by (simp add: returns_def)
qed

lemma file_state_same:
  assumes "file_state B k s ip" "core t = core s" "view t = view s" "budget B k t" "held t = {}"
  shows "file_state B k t ip" "inodes t = inodes s"
proof -
  have r: "rest t = rest s" by (rule rest_core [OF assms(2)])
  show "inodes t = inodes s" by (rule restD(2) [OF r])
  then show "file_state B k t ip" using assms same_view [OF r assms(3)] rest_fs [OF r] by (simp add: file_state_def)
qed

lemma read_chunk:
  assumes s: "file_state B k s ip" and bn: "bn < MAXFILE" "block_addr s (inodes s ! ip) bn \<noteq> 0"
  shows "returns (bind (bmap ip bn) (\<lambda>a. bind (gets (\<lambda>s. i_dev (inodes s ! ip))) (\<lambda>dev. bind (bread dev a) (\<lambda>i.
      bind (gets (\<lambda>s. f (b_data (bufs s ! i)))) (\<lambda>x. andthen (brelse i) (return x)))))) s
    (\<lambda>x t. x = f (view s (block_addr s (inodes s ! ip) bn)) \<and> core t = core s \<and> view t = view s \<and> file_state B k t ip \<and> inodes t = inodes s)"
proof -
  let ?a = "block_addr s (inodes s ! ip) bn"
  have st: "held s = {}" "file_ok s (inodes s ! ip)" using s by (simp_all add: file_state_def)
  obtain t where t: "bmap ip bn s = Ok ?a t" "core t = core s" "view t = view s" "budget B k t" "held t = {}"
    using bmap_found [OF s bn] unfolding returns_iff by blast
  note n = file_state_same [OF s t(2-5)]
  have dev: "i_dev (inodes t ! ip) = 1" using n st(2) by (simp add: file_ok_def)
  have "?a < disksize s" using file_okD(1) [OF st(2) bn] by (simp add: data_block_def)
  then have d: "?a < disksize t" "?a \<notin> held t" "card (held t) \<le> 1" using restD(4) [OF rest_core [OF t(2)]] t(5) by simp_all
  obtain u where u: "bind (bread 1 ?a) (\<lambda>i. bind (gets (\<lambda>s. f (b_data (bufs s ! i)))) (\<lambda>x. andthen (brelse i) (return x))) t = Ok (f (view s ?a)) u"
    "core u = core t" "view u = view t" "budget B k u" "held u = held t"
    using lblocks.read_block [where f = f, OF t(4) d] unfolding t(3) returns_iff by blast
  have cu: "core u = core s" "view u = view s" "held u = {}" using u t by simp_all
  show ?thesis using t(1) dev u(1) cu file_state_same [OF s cu(1,2) u(4) cu(3)] by (simp add: returns_def)
qed

lemma read_chunks_Cons:
  "read_chunks ip ((off, m) # cs) =
    bind (bind (bmap ip (off div BSIZE)) (\<lambda>a. bind (gets (\<lambda>s. i_dev (inodes s ! ip))) (\<lambda>dev. bind (bread dev a) (\<lambda>i.
      bind (gets (\<lambda>s. slice (off mod BSIZE) m (b_data (bufs s ! i)))) (\<lambda>x. andthen (brelse i) (return x))))))
    (\<lambda>bs. bind (read_chunks ip cs) (\<lambda>rest. return (bs @ rest)))"
  by (rule ext) (simp add: andthen_def bind_def gets_def return_def split: outcome.splits)

lemma read_slice:
  assumes "off mod BSIZE + m \<le> BSIZE" "length (view s a) = BSIZE" "0 < m" "a = block_addr s n (off div BSIZE)" "a \<noteq> 0"
  shows "slice (off mod BSIZE) m (view s a) = map (file_byte s n) [off..<off + m]"
proof (rule nth_equalityI)
  show l: "length (slice (off mod BSIZE) m (view s a)) = length (map (file_byte s n) [off..<off + m])" using assms by simp
  fix i assume "i < length (slice (off mod BSIZE) m (view s a))"
  then have i: "i < m" using l by simp
  have "(off + i) div BSIZE = off div BSIZE" by (rule same_chunk [OF assms(1)]) (use i in simp_all)
  moreover have "(off + i) mod BSIZE = off mod BSIZE + i"
    using mod_less [of "off mod BSIZE + i" BSIZE] i assms(1) by (simp add: mod_add_left_eq)
  ultimately show "slice (off mod BSIZE) m (view s a) ! i = map (file_byte s n) [off..<off + m] ! i"
    using i assms by (simp add: slice_def file_byte_def Let_def)
qed


lemma read_chunks_returns:
  assumes "file_state B k s ip" "off + n \<le> MAXFILE * BSIZE" "\<forall>x. off \<le> x \<and> x < off + n \<longrightarrow> block_addr s (inodes s ! ip) (x div BSIZE) \<noteq> 0"
  shows "returns (read_chunks ip (chunks off n)) s (\<lambda>bs t. bs = map (file_byte s (inodes s ! ip)) [off..<off + n]
    \<and> core t = core s \<and> view t = view s \<and> file_state B k t ip \<and> inodes t = inodes s)"
  using assms
proof (induction off n arbitrary: s rule: chunks.induct)
  case (1 off n)
  show ?case
  proof (cases "n = 0")
    case True
    then show ?thesis using 1(2) by (simp add: returns_def chunks.simps [of off 0])
  next
    case False
    define m where "m = min n (BSIZE - off mod BSIZE)"
    have n: "0 < n" using False by simp
    note c = chunk_facts [OF n 1(3), folded m_def]
    let ?n = "inodes s ! ip" let ?a = "block_addr s ?n (off div BSIZE)"
    have a: "?a \<noteq> 0" using 1(4) n by simp
    have l: "length (view s ?a) = BSIZE" using 1(2) budget_bio [of B k s] by (simp add: file_state_def)
    obtain t where t: "bind (bmap ip (off div BSIZE)) (\<lambda>a. bind (gets (\<lambda>s. i_dev (inodes s ! ip))) (\<lambda>dev. bind (bread dev a) (\<lambda>i.
        bind (gets (\<lambda>s. slice (off mod BSIZE) m (b_data (bufs s ! i)))) (\<lambda>x. andthen (brelse i) (return x))))) s
          = Ok (slice (off mod BSIZE) m (view s ?a)) t" "core t = core s" "view t = view s" "file_state B k t ip" "inodes t = inodes s"
      using read_chunk [where f = "slice (off mod BSIZE) m", OF 1(2) c(1) a] unfolding returns_iff by blast
    have r: "rest t = rest s" by (rule rest_core [OF t(2)])
    note v = same_view(4,5) [OF r t(3)]
    have "\<forall>x. off + m \<le> x \<and> x < off + m + (n - m) \<longrightarrow> block_addr t (inodes t ! ip) (x div BSIZE) \<noteq> 0"
      using 1(4) c(2) by (simp add: v t(5))
    from 1(1) [OF False m_def t(4) c(6) this] obtain u where u: "read_chunks ip (chunks (off + m) (n - m)) t
        = Ok (map (file_byte s ?n) [off + m..<off + m + (n - m)]) u"
      "core u = core s" "view u = view s" "file_state B k u ip" "inodes u = inodes s"
      unfolding returns_iff t(2,3,5) v by blast
    have "map (file_byte s ?n) [off..<off + m] @ map (file_byte s ?n) [off + m..<off + m + (n - m)] = map (file_byte s ?n) [off..<off + n]"
      using c(2) upt_add_eq_append [of off "off + m" "n - m"] by (simp flip: map_append)
    then show ?thesis
      using t(1) u read_slice [OF c(3) l c(5) refl a] by (simp add: returns_def c(4) read_chunks_Cons del: read_chunks.simps)
  qed
qed

lemma readi_returns:
  assumes s: "file_state B k s ip" and n: "i_type (inodes s ! ip) \<noteq> T_DEV" "no_holes s (inodes s ! ip)"
  defines "z \<equiv> unat (i_size (inodes s ! ip))"
  shows "returns (readi ip off l) s (\<lambda>r t. r = (if unat off \<le> z \<and> unat off + unat l < 2 ^ 32
      then Some (map (file_byte s (inodes s ! ip)) [unat off..<min (unat off + unat l) z]) else None)
    \<and> core t = core s \<and> view t = view s \<and> file_state B k t ip \<and> inodes t = inodes s)"
proof (cases "unat off \<le> z \<and> unat off + unat l < 2 ^ 32")
  case False
  have "off > i_size (inodes s ! ip) \<or> off + l < off"
  proof (cases "unat off \<le> z")
    case True
    then have "2 ^ 32 \<le> unat off + unat l" using False by simp
    then have "off + l < off" by (simp add: word_less_nat_alt unat_word_ariths) (use unat_lt_2p32 [of off] unat_lt_2p32 [of l] in \<open>simp add: mod_if, linarith\<close>)
    then show ?thesis by simp
  qed (simp add: z_def word_less_nat_alt)
  then show ?thesis using False s n(1) by (simp add: returns_def readi_def)
next
  case True
  let ?s = "i_size (inodes s ! ip)"
  define m where "m = (if off + l > ?s then ?s - off else l)"
  have le: "off \<le> ?s" using True by (simp add: z_def word_le_nat_alt)
  have p: "unat (off + l) = unat off + unat l" using True by (simp add: unat_word_ariths)
  then have no: "\<not> off + l < off" "\<not> ?s < off" using True by (simp_all add: word_less_nat_alt z_def)
  have m: "unat off + unat m = min (unat off + unat l) z"
    using le True by (auto simp: m_def word_less_nat_alt p z_def unat_sub word_le_nat_alt)
  have "returns (read_chunks ip (chunks (unat off) (unat m))) s (\<lambda>bs t. bs = map (file_byte s (inodes s ! ip)) [unat off..<unat off + unat m]
    \<and> core t = core s \<and> view t = view s \<and> file_state B k t ip \<and> inodes t = inodes s)"
    by (rule read_chunks_returns [OF s]) (use m n(2) in \<open>auto simp: no_holes_def z_def\<close>)
  then obtain t where t: "read_chunks ip (chunks (unat off) (unat m)) s = Ok (map (file_byte s (inodes s ! ip)) [unat off..<min (unat off + unat l) z]) t"
    "core t = core s" "view t = view s" "file_state B k t ip" "inodes t = inodes s"
    unfolding returns_iff m by blast
  have "readi ip off l s = Ok (Some (map (file_byte s (inodes s ! ip)) [unat off..<min (unat off + unat l) z])) t"
    unfolding readi_def Let_def by (simp only: bind_gets n(1) no if_False m_def [symmetric]) (simp add: t(1))
  then show ?thesis using True t(2-5) by (simp add: returns_def)
qed


section \<open>Write and read back\<close>

text \<open>
  C3. Files hold what is written to them. In an operation whose log and disk have room, writing
  \<open>src\<close> at an offset within a file that has no holes stores all of it, and reading any part of
  the file afterwards returns the bytes of \<open>src\<close> where they were written and the old bytes
  elsewhere, cut at the new size, and fails exactly for an offset past the size or a range
  that wraps around. The size is the larger of the old one and the end of the range, the file
  has no holes again, and no block changes that is in use and belongs neither to the file
  nor to its inode.
\<close>

theorem file_write_read:
  assumes s: "file_state B k s ip" "IBLOCK (i_inum (inodes s ! ip)) (sb s) \<in> B" "i_type (inodes s ! ip) \<noteq> T_DEV" "no_holes s (inodes s ! ip)"
    and off: "unat off \<le> unat (i_size (inodes s ! ip))" "unat off + length src \<le> MAXFILE * BSIZE"
    and room: "length (chunks (unat off) (length src)) < k" "length (chunks (unat off) (length src)) < nfree s"
  defines "z \<equiv> max (unat (i_size (inodes s ! ip))) (unat off + length src)"
  shows "returns (bind (writei ip src off (of_nat (length src))) (\<lambda>r. bind (readi ip pos l) (\<lambda>bs. return (r, bs)))) s
    (\<lambda>(r, bs) t. r = int (length src) \<and> unat (i_size (inodes t ! ip)) = z \<and> no_holes t (inodes t ! ip)
      \<and> bs = (if unat pos \<le> z \<and> unat pos + unat l < 2 ^ 32
              then Some (map (overlay (file_byte s (inodes s ! ip)) (unat off) src) [unat pos..<min (unat pos + unat l) z]) else None)
      \<and> (\<forall>c. data_block s c \<longrightarrow> c \<notin> file_blocks s (inodes s ! ip) \<longrightarrow> c \<noteq> IBLOCK (i_inum (inodes s ! ip)) (sb s)
           \<longrightarrow> view t c = view s c))"
proof -
  have "log_need s ip \<le> 1" "disk_need s ip \<le> 1" by (simp_all add: log_need_def disk_need_def Let_def)
  then have r: "Fs_Files.room (length (chunks (unat off) (length src))) B s ip" using s(1) room by (auto simp: room_def intro!: exI [of _ k])
  have "returns (writei ip src off (of_nat (length src))) s (\<lambda>r t. r = int (length src) \<and> written_to B s ip (unat off) src t)"
    by (rule writei_returns [OF r s(2-4) _ off(2)]) (use off(1) in \<open>simp add: word_le_nat_alt\<close>)
  then obtain t where t: "writei ip src off (of_nat (length src)) s = Ok (int (length src)) t" "written_to B s ip (unat off) src t"
    unfolding returns_iff by blast
  then obtain j where w: "file_state B j t ip" "no_holes t (inodes t ! ip)" "i_type (inodes t ! ip) \<noteq> T_DEV" "unat (i_size (inodes t ! ip)) = z"
    "\<forall>x < MAXFILE * BSIZE. file_byte t (inodes t ! ip) x = overlay (file_byte s (inodes s ! ip)) (unat off) src x"
    "\<forall>c. data_block s c \<longrightarrow> c \<notin> file_blocks s (inodes s ! ip) \<longrightarrow> c \<noteq> IBLOCK (i_inum (inodes s ! ip)) (sb s) \<longrightarrow> view t c = view s c"
    unfolding written_to_def Let_def z_def using s(3) by auto
  obtain u where u: "readi ip pos l t = Ok (if unat pos \<le> z \<and> unat pos + unat l < 2 ^ 32
      then Some (map (file_byte t (inodes t ! ip)) [unat pos..<min (unat pos + unat l) z]) else None) u"
    "core u = core t" "view u = view t" "inodes u = inodes t"
    using readi_returns [OF w(1,3,2), of pos l] unfolding w(4) returns_iff by blast
  have "z \<le> MAXFILE * BSIZE" using off(2) s(4) by (simp add: z_def no_holes_def)
  then have "map (file_byte t (inodes t ! ip)) [unat pos..<min (unat pos + unat l) z]
      = map (overlay (file_byte s (inodes s ! ip)) (unat off) src) [unat pos..<min (unat pos + unat l) z]" using w(5) by simp
  moreover have "no_holes u (inodes u ! ip)" using w(2) same_view(4) [OF rest_core [OF u(2)] u(3)] by (simp add: no_holes_def u(4))
  ultimately show ?thesis using t(1) u(1,3,4) w(4,6) by (simp add: returns_def)
qed


text \<open>An empty file.\<close>

definition empty_inode :: inode where
  "empty_inode = zero_inode\<lparr>i_dev := 1, i_inum := 7, i_ref := 1, i_valid := True, i_busy := True, i_type := T_FILE, i_nlink := 1,
     i_addrs := replicate (NDIRECT + 1) 0\<rparr>"

definition empty_file :: kernel where
  "empty_file = mounted\<lparr>inodes := [empty_inode]\<rparr>"

lemma empty_file_facts:
  "inodes empty_file ! 0 = empty_inode" "sb empty_file = sample_sb" "fs_size empty_file = 1000" "disksize empty_file = 1000"
  "log_area empty_file = log_area mounted" "map_blocks empty_file = {58}" "used empty_file b = used mounted b"
  "nfree empty_file = nfree mounted"
  by (simp_all add: empty_file_def mounted_facts mounted_map)

lemma empty_file_blocks: "block_addr s empty_inode i = 0" if "i < MAXFILE" for s
  using that by (simp add: block_addr_def ind_addr_def empty_inode_def del: replicate_Suc)

lemma empty_file_state: "file_state {32, 58} 5 empty_file 0"
proof -
  have "data_block empty_file 32"
    unfolding data_block_def empty_file_facts by (simp add: mounted_map mounted_facts log_area_def)
  moreover have "IBLOCK 7 sample_sb = 32" by (simp add: IBLOCK_def sample_sb_def layout_simps)
  moreover have "ind_addr empty_inode = 0" by (simp add: ind_addr_def empty_inode_def del: replicate_Suc)
  moreover have "i_inum empty_inode = 7" "i_dev empty_inode = 1" "length (i_addrs empty_inode) = NDIRECT + 1" by (simp_all add: empty_inode_def)
  ultimately have f: "file_ok empty_file empty_inode"
    unfolding file_ok_def by (simp add: empty_file_facts empty_file_blocks)
  have "budget {32, 58} 5 empty_file" unfolding empty_file_def inode_frame by (simp add: budget_def mounted_facts)
  moreover have "map_ok empty_file" "held empty_file = {}" by (simp_all add: empty_file_def mounted_facts mounted_map)
  moreover have "length (inodes empty_file) = 1" by (simp add: empty_file_def)
  ultimately show ?thesis using f unfolding file_state_def by (simp add: empty_file_facts)
qed

lemma mounted_nfree: "nfree mounted = 941"
proof -
  have "{b. b < 1000 \<and> \<not> used mounted b} = {59..<1000}" by (auto simp: mounted_map)
  then show ?thesis by (simp add: nfree_def mounted_facts)
qed

theorem file_write_read_witness:
  "returns (bind (writei 0 [104, 105] 0 2) (\<lambda>r. bind (readi 0 0 10) (\<lambda>bs. return (r, bs)))) empty_file
    (\<lambda>(r, bs) t. r = 2 \<and> bs = Some [104, 105] \<and> i_size (inodes t ! 0) = 2)"
proof -
  have ch: "chunks 0 (Suc (Suc 0)) = [(0, 2)]" by (simp add: chunks.simps layout_simps)
  have n: "i_size empty_inode = 0" "i_inum empty_inode = 7" "i_type empty_inode \<noteq> T_DEV"
    by (simp_all add: empty_inode_def zero_inode_def T_FILE_def T_DEV_def)
  have b: "IBLOCK 7 sample_sb = 32" by (simp add: IBLOCK_def sample_sb_def layout_simps)
  have "no_holes empty_file empty_inode" by (simp add: no_holes_def n)
  from file_write_read [where off = 0 and src = "[104, 105]" and pos = 0 and l = 10, OF empty_file_state] this n ch mounted_nfree b
  show ?thesis
    by (auto simp: empty_file_facts layout_simps overlay_def upt_rec word_unat_eq_iff elim!: returns_mono)
qed

end
