(* ===== verification/Page_Tables.thy ===== *)
theory Page_Tables
  imports Vm
begin

unbundle bit_operations_syntax

text \<open>
  Two-level page tables (\<^verbatim>\<open>vm.c\<close>) as a map from virtual pages to entries. \<open>mappages\<close> adds
  entries to this map and changes nothing else, whichever page tables it has to allocate.
\<close>

section \<open>Words of a page\<close>

lemma entry_offset: "i < 1024 \<Longrightarrow> unat (4 * i :: uint32) = 4 * unat i"
  by (simp add: word_less_nat_alt unat_word_ariths)

lemma entry_byte:
  assumes "p mod PGSIZE = 0" "i < 1024" "k < 4"
  shows "PGROUNDDOWN (p + 4 * i + k) = p" "unat (p + 4 * i + k) = unat p + 4 * unat i + unat k"
proof -
  have i: "unat i < 1024" "unat k < 4" using assms(2,3) by (simp_all add: word_less_nat_alt)
  have o: "unat (4 * i + k) = 4 * unat i + unat k" using i by (simp add: unat_word_ariths)
  then have "PGROUNDDOWN (p + (4 * i + k)) = p" by (intro PGROUNDDOWN_add [OF assms(1)]) (use i in simp)
  then show "PGROUNDDOWN (p + 4 * i + k) = p" by (simp add: add.assoc)
  have "unat (p + (4 * i + k)) = unat p + (4 * unat i + unat k)"
    using page_aligned_bound [OF assms(1)] o i by (simp only: unat_word_ariths) simp
  then show "unat (p + 4 * i + k) = unat p + 4 * unat i + unat k" by (simp add: add.assoc)
qed

lemma load32_cong: "m' a = m a \<Longrightarrow> m' (a + 1) = m (a + 1) \<Longrightarrow> m' (a + 2) = m (a + 2) \<Longrightarrow> m' (a + 3) = m (a + 3) \<Longrightarrow> load32 m' a = load32 m a"
  by (simp add: load32_def)

lemma entry_page:
  assumes "q mod PGSIZE = 0" "j < 1024" "\<And>a. PGROUNDDOWN a = q \<Longrightarrow> m' a = m a"
  shows "load32 m' (q + 4 * j) = load32 m (q + 4 * j)"
proof -
  have "m' (q + 4 * j + k) = m (q + 4 * j + k)" if "k < 4" for k by (rule assms(3)) (rule entry_byte(1) [OF assms(1,2) that])
  from this [of 0] this [of 1] this [of 2] this [of 3] show ?thesis by (intro load32_cong) simp_all
qed

lemma entry_store:
  assumes "p mod PGSIZE = 0" "q mod PGSIZE = 0" "i < 1024" "j < 1024"
  shows "load32 (store32 m (p + 4 * i) w) (q + 4 * j) = (if p = q \<and> i = j then w else load32 m (q + 4 * j))"
proof (cases "p = q")
  case False
  have "unat (4 * i) \<le> 4092" using assms(3) by (simp add: entry_offset word_less_nat_alt)
  then have "load32 (store32 m (p + 4 * i) w) (q + 4 * j) = load32 m (q + 4 * j)"
    by (intro entry_page [OF assms(2,4)] store32_in_page [OF assms(1)]) (use False in auto)
  then show ?thesis using False by simp
next
  case True
  show ?thesis
  proof (cases "i = j")
    case False
    then have ne: "unat i \<noteq> unat j" by (simp add: word_unat_eq_iff)
    have "store32 m (p + 4 * i) w (q + 4 * j + k) = m (q + 4 * j + k)" if k: "k < 4" for k
    proof -
      have "q + 4 * j + k \<noteq> p + 4 * i + l" if l: "l < 4" for l
      proof
        assume eq: "q + 4 * j + k = p + 4 * i + l"
        have "unat (q + 4 * j + k) = unat (p + 4 * i + l)" by (simp only: eq)
        then have "4 * unat j + unat k = 4 * unat i + unat l"
          using entry_byte(2) [OF assms(2,4) k] entry_byte(2) [OF assms(1,3) l] True by simp
        moreover have "unat k < 4" "unat l < 4" using k l by (simp_all add: word_less_nat_alt)
        ultimately show False using ne by presburger
      qed
      from this [of 0] this [of 1] this [of 2] this [of 3] show ?thesis by (simp add: store32_def)
    qed
    from this [of 0] this [of 1] this [of 2] this [of 3]
    have "load32 (store32 m (p + 4 * i) w) (q + 4 * j) = load32 m (q + 4 * j)" by (intro load32_cong) simp_all
    then show ?thesis using False by simp
  qed (use True in simp)
qed

lemma entry_zero:
  assumes "q mod PGSIZE = 0" "j < 1024"
  shows "load32 (memset m q 0 PGSIZE) (q + 4 * j) = 0"
proof -
  have "memset m q 0 PGSIZE (q + 4 * j + k) = 0" if "k < 4" for k
    using entry_byte(1) [OF assms that] by (simp add: memset_page [OF assms(1)])
  from this [of 0] this [of 1] this [of 2] this [of 3] show ?thesis by (simp add: load32_def)
qed

lemma PDX_less: "PDX va < 1024" "PTX va < 1024"
proof -
  have "unat (w AND 0x3FF) < 1024" for w :: uint32 unfolding mask10 by (simp add: unat_and_mask)
  then show "PDX va < 1024" "PTX va < 1024" by (simp_all add: PDX_def PTX_def word_less_nat_alt)
qed

lemma PGROUNDDOWN_PGADDR: "PGROUNDDOWN x = PGADDR (PDX x) (PTX x) 0"
  unfolding PGROUNDDOWN_eq PGADDR_def PDX_def PTX_def mask10
proof (rule bit_word_eqI)
  fix n assume "n < LENGTH(32)"
  then consider "n < 12" | "12 \<le> n" "n < 22" | "22 \<le> n" "n < 32" by fastforce
  then show "bit (x AND NOT (mask 12)) n =
      bit (push_bit PDXSHIFT (drop_bit PDXSHIFT x AND mask 10) OR push_bit PTXSHIFT (drop_bit PTXSHIFT x AND mask 10) OR 0) n"
    by cases (auto simp: bit_simps layout_simps)
qed

lemma page_of: "PDX x = PDX y \<and> PTX x = PTX y \<longleftrightarrow> PGROUNDDOWN x = PGROUNDDOWN y"
proof
  assume "PGROUNDDOWN x = PGROUNDDOWN y"
  then have "PGADDR (PDX x) (PTX x) 0 = PGADDR (PDX y) (PTX y) 0" by (simp add: PGROUNDDOWN_PGADDR)
  then show "PDX x = PDX y \<and> PTX x = PTX y"
    using PDX_PGADDR(1,2) [OF PDX_less, of 0 x x] PDX_PGADDR(1,2) [OF PDX_less, of 0 y y] by simp
qed (simp add: PGROUNDDOWN_PGADDR)

section \<open>Page tables as maps\<close>

definition pde :: "kernel \<Rightarrow> uint32 \<Rightarrow> uint32 \<Rightarrow> uint32" where
  "pde s d i = load32 (mem s) (d + 4 * i)"

definition present :: "kernel \<Rightarrow> uint32 \<Rightarrow> uint32 \<Rightarrow> bool" where
  "present s d i \<longleftrightarrow> pde s d i AND PTE_P \<noteq> 0"

definition pgtab :: "kernel \<Rightarrow> uint32 \<Rightarrow> uint32 \<Rightarrow> uint32" where
  "pgtab s d i = p2v (PTE_ADDR (pde s d i))"

text \<open>The entry for a virtual address; without a page table it is 0, which is not present.\<close>

definition pte_of :: "kernel \<Rightarrow> uint32 \<Rightarrow> uint32 \<Rightarrow> uint32" where
  "pte_of s d va = (if present s d (PDX va) then load32 (mem s) (pgtab s d (PDX va) + 4 * PTX va) else 0)"

text \<open>The pages of the directory and of its tables are all different, and none is free.\<close>

definition vm_ok :: "kernel \<Rightarrow> uint32 \<Rightarrow> uint32 list \<Rightarrow> bool" where
  "vm_ok s d ps \<longleftrightarrow> d mod PGSIZE = 0 \<and> d \<notin> set ps
     \<and> (\<forall>i < 1024. present s d i \<longrightarrow> pgtab s d i \<noteq> d \<and> pgtab s d i \<notin> set ps \<and> (\<forall>j < 1024. present s d j \<longrightarrow> pgtab s d j = pgtab s d i \<longrightarrow> j = i))"

lemma pgtab_aligned: "pgtab s d i mod PGSIZE = 0"
proof -
  have e: "PTE_ADDR e = PGROUNDDOWN e" for e unfolding PTE_ADDR_def PGROUNDDOWN_eq mask12 by (rule refl)
  have k: "unat KERNBASE = 524288 * 4096" by (simp add: KERNBASE_def)
  have "unat (pgtab s d i) = (unat (pde s d i) div 4096 * 4096 + 524288 * 4096) mod 2 ^ 32"
    unfolding pgtab_def p2v_def e unat_word_ariths unat_PGROUNDDOWN k by simp
  also have "\<dots> = ((unat (pde s d i) div 4096 + 524288) * 4096) mod (2 ^ 20 * 4096)" by (simp only: add_mult_distrib) simp
  also have "\<dots> = (unat (pde s d i) div 4096 + 524288) mod 2 ^ 20 * 4096" by (simp only: mod_mult_mult2)
  finally have "unat (pgtab s d i) mod 4096 = 0" by simp
  then show ?thesis by (simp only: page_mod_iff)
qed

lemma vm_cong:
  assumes "d mod PGSIZE = 0" "\<And>a. PGROUNDDOWN a = d \<Longrightarrow> mem t a = mem s a" "i < 1024"
  shows "pde t d i = pde s d i" "present t d i = present s d i" "pgtab t d i = pgtab s d i"
  using entry_page [OF assms(1,3,2)] by (simp_all add: pde_def present_def pgtab_def)

text \<open>Writing an entry of a table.\<close>

lemma poke_pte:
  fixes w :: uint32
  assumes inv: "kmem_inv s ps" "vm_ok s d ps" and p: "present s d (PDX va)"
  defines "t \<equiv> s\<lparr>mem := store32 (mem s) (pgtab s d (PDX va) + 4 * PTX va) w\<rparr>"
  shows "kmem_inv t ps" "vm_ok t d ps" "pte_of t d x = (if PGROUNDDOWN x = PGROUNDDOWN va then w else pte_of s d x)"
proof -
  let ?q = "pgtab s d (PDX va)"
  have q: "?q mod PGSIZE = 0" "?q \<noteq> d" "?q \<notin> set ps" "d mod PGSIZE = 0"
    using inv(2) p PDX_less(1) [of va] by (simp_all add: vm_ok_def pgtab_aligned)
  have off: "unat (4 * PTX va) \<le> 4092" using PDX_less(2) [of va] by (simp add: entry_offset word_less_nat_alt)
  have fr: "mem t a = mem s a" if "PGROUNDDOWN a \<noteq> ?q" for a unfolding t_def using store32_in_page [OF q(1) off that] by simp
  show "kmem_inv t ps" unfolding t_def by (rule kmem_inv_mem [OF inv(1) q(1,3)]) (rule store32_in_page [OF q(1) off])
  have same: "pde t d i = pde s d i" "present t d i = present s d i" "pgtab t d i = pgtab s d i" if "i < 1024" for i
    using vm_cong [OF q(4) fr that] q(2) by auto
  show "vm_ok t d ps" using inv(2) by (simp add: vm_ok_def same)
  show "pte_of t d x = (if PGROUNDDOWN x = PGROUNDDOWN va then w else pte_of s d x)"
  proof (cases "present s d (PDX x)")
    case True
    have inj: "PDX x = PDX va" if "?q = pgtab s d (PDX x)"
      using inv(2) p True PDX_less(1) [of va] PDX_less(1) [of x] that [symmetric] unfolding vm_ok_def by blast
    have "load32 (mem t) (pgtab s d (PDX x) + 4 * PTX x) = (if ?q = pgtab s d (PDX x) \<and> PTX va = PTX x then w else load32 (mem s) (pgtab s d (PDX x) + 4 * PTX x))"
      unfolding t_def by (simp add: entry_store [OF q(1) pgtab_aligned PDX_less(2) PDX_less(2)])
    moreover have "?q = pgtab s d (PDX x) \<and> PTX va = PTX x \<longleftrightarrow> PGROUNDDOWN x = PGROUNDDOWN va"
      unfolding page_of [symmetric] using inj by metis
    ultimately show ?thesis using True by (simp add: pte_of_def same PDX_less)
  next
    case False
    then have "PGROUNDDOWN x \<noteq> PGROUNDDOWN va" using p page_of [of x va] by auto
    then show ?thesis using False by (simp add: pte_of_def same PDX_less)
  qed
qed


text \<open>Entering a new table, which is cleared, into the directory.\<close>

lemma pde_flags:
  assumes "q mod PGSIZE = 0"
  shows "p2v (PTE_ADDR (v2p q OR PTE_P OR PTE_W OR PTE_U)) = q" "(v2p q OR PTE_P OR PTE_W OR PTE_U) AND PTE_P \<noteq> 0"
proof -
  obtain m where m: "unat q = 4096 * m" using assms by (auto simp: page_mod_iff mod_eq_0_iff_dvd dvd_def)
  have k: "unat KERNBASE = 4096 * 524288" by (simp add: KERNBASE_def)
  have "unat (v2p q) = (if unat KERNBASE \<le> unat q then unat q - unat KERNBASE else unat q + 4096 * 1048576 - unat KERNBASE)"
    unfolding v2p_def unat_sub_if' by (simp add: word_le_nat_alt)
  then have "unat (v2p q) mod 4096 = 0" unfolding m k by (simp only: flip: diff_mult_distrib2 add_mult_distrib2 split: if_split) simp
  then have "unat (v2p q AND mask 12) = 0" by (simp add: unat_and_mask)
  then have "v2p q AND 0xFFF = 0" unfolding mask12 by (simp only: unat_eq_zero)
  then have "PTE_ADDR (v2p q OR 7) = v2p q" by (rule PTE_ADDR_or(1)) simp
  moreover have f: "v2p q OR PTE_P OR PTE_W OR PTE_U = v2p q OR 7" by (simp add: layout_simps or.assoc)
  ultimately show "p2v (PTE_ADDR (v2p q OR PTE_P OR PTE_W OR PTE_U)) = q" by simp
  have "bit ((v2p q OR 7) AND 1) 0" by (simp add: bit_simps)
  then show "(v2p q OR PTE_P OR PTE_W OR PTE_U) AND PTE_P \<noteq> 0" unfolding f by (auto simp: layout_simps)
qed

lemma new_table:
  assumes vm: "vm_ok s d (q # qs)" and t: "kmem_inv t qs" "mem t = mem s" and q: "q mod PGSIZE = 0" "q \<notin> set qs"
    and n: "\<not> present s d (PDX va)"
  defines "u \<equiv> t\<lparr>mem := store32 (memset (mem t) q 0 PGSIZE) (d + 4 * PDX va) (v2p q OR PTE_P OR PTE_W OR PTE_U)\<rparr>"
  shows "kmem_inv u qs" "vm_ok u d qs" "present u d (PDX va)" "pgtab u d (PDX va) = q" "pte_of u d x = pte_of s d x"
proof -
  let ?w = "v2p q OR PTE_P OR PTE_W OR PTE_U" let ?m = "memset (mem t) q 0 PGSIZE"
  have d: "d mod PGSIZE = 0" "d \<notin> set qs" "d \<noteq> q" using vm by (auto simp: vm_ok_def)
  have off: "unat (4 * PDX va) \<le> 4092" using PDX_less(1) [of va] by (simp add: entry_offset word_less_nat_alt)
  have m: "?m a = mem s a" if "PGROUNDDOWN a \<noteq> q" for a using that t(2) by (simp add: memset_page [OF q(1)])
  have mu: "mem u = store32 ?m (d + 4 * PDX va) ?w" by (simp add: u_def)
  have "kmem_inv (t\<lparr>mem := ?m\<rparr>) qs" by (rule kmem_inv_mem [OF t(1) q]) (simp add: memset_page [OF q(1)])
  then have "kmem_inv ((t\<lparr>mem := ?m\<rparr>)\<lparr>mem := store32 ?m (d + 4 * PDX va) ?w\<rparr>) qs"
    by (rule kmem_inv_mem [OF _ d(1,2)]) (simp add: store32_in_page [OF d(1) off])
  then show "kmem_inv u qs" by (simp add: u_def)
  have pd: "pde u d i = (if i = PDX va then ?w else pde s d i)" if "i < 1024" for i
  proof -
    have "load32 ?m (d + 4 * i) = load32 (mem s) (d + 4 * i)" by (rule entry_page [OF d(1) that]) (use m d(3) in auto)
    then show ?thesis using entry_store [OF d(1) d(1) PDX_less(1) that, of ?m va ?w] by (auto simp: pde_def mu)
  qed
  note f = pde_flags [OF q(1)]
  have pr: "present u d i \<longleftrightarrow> i = PDX va \<or> present s d i" "pgtab u d i = (if i = PDX va then q else pgtab s d i)" if "i < 1024" for i
    using pd [OF that] f by (auto simp: present_def pgtab_def)
  show "present u d (PDX va)" "pgtab u d (PDX va) = q" using pr [OF PDX_less(1)] by auto
  show "vm_ok u d qs" using vm d n q(2) unfolding vm_ok_def by (auto simp: pr)
  show "pte_of u d x = pte_of s d x"
  proof (cases "PDX x = PDX va")
    case True
    have "load32 (mem u) (q + 4 * PTX x) = load32 ?m (q + 4 * PTX x)"
      using entry_store [OF d(1) q(1) PDX_less(1) PDX_less(2), of ?m va ?w x] d(3) by (simp add: mu)
    also have "\<dots> = 0" by (rule entry_zero [OF q(1) PDX_less(2)])
    finally show ?thesis using True n pr [OF PDX_less(1), of va] by (simp add: pte_of_def)
  next
    case False
    have "load32 (mem u) (pgtab s d (PDX x) + 4 * PTX x) = load32 (mem s) (pgtab s d (PDX x) + 4 * PTX x)" if p: "present s d (PDX x)"
    proof (rule entry_page [OF pgtab_aligned PDX_less(2)])
      fix a assume a: "PGROUNDDOWN a = pgtab s d (PDX x)"
      have "pgtab s d (PDX x) \<noteq> d" "pgtab s d (PDX x) \<noteq> q" using vm p PDX_less(1) [of x] by (auto simp: vm_ok_def)
      then show "mem u a = mem s a" using m [of a] store32_in_page [OF d(1) off, of a ?m ?w] a by (simp add: mu)
    qed
    then show ?thesis using False pr [OF PDX_less(1), of x] by (simp add: pte_of_def)
  qed
qed


lemma vm_mem:
  assumes "mem t = mem s"
  shows "pde t d i = pde s d i" "present t d i = present s d i" "pgtab t d i = pgtab s d i" "pte_of t d x = pte_of s d x" "vm_ok t d ps = vm_ok s d ps"
  using assms by (simp_all add: pde_def present_def pgtab_def pte_of_def vm_ok_def)

lemma vm_ok_subset: "vm_ok s d (p # ps) \<Longrightarrow> vm_ok s d ps"
  by (simp add: vm_ok_def)

section \<open>Walking and mapping\<close>

lemma walkpgdir_returns:
  assumes inv: "kmem_inv s ps" "vm_ok s d ps"
  shows "returns (walkpgdir d va True) s (\<lambda>r t. \<exists>qs. kmem_inv t qs \<and> vm_ok t d qs \<and> (\<forall>x. pte_of t d x = pte_of s d x)
    \<and> (if present s d (PDX va) \<or> ps \<noteq> []
       then r = Some (pgtab t d (PDX va) + 4 * PTX va) \<and> present t d (PDX va) \<and> length ps \<le> Suc (length qs)
       else r = None \<and> qs = []))"
proof (cases "present s d (PDX va)")
  case True
  then have "walkpgdir d va True s = Ok (Some (pgtab s d (PDX va) + 4 * PTX va)) s"
    by (simp add: walkpgdir_def pte_load_def present_def pde_def pgtab_def Let_def)
  then show ?thesis using inv True by (auto simp: returns_def)
next
  case False
  obtain t where t: "kalloc s = Ok (case ps of [] \<Rightarrow> 0 | q # _ \<Rightarrow> q) t" "kmem_inv t (tl ps)" "t = (kmem_touch s)\<lparr>freelist := freelist t\<rparr>"
    using kalloc_returns [OF inv(1)] unfolding returns_iff by blast
  have m: "mem t = mem s" by (subst t(3)) simp
  have np: "\<not> load32 (mem s) (d + 4 * PDX va) AND PTE_P \<noteq> 0" using False by (simp add: present_def pde_def)
  show ?thesis
  proof (cases ps)
    case Nil
    then have "walkpgdir d va True s = Ok None t" using t(1) np by (simp add: walkpgdir_def pte_load_def Let_def)
    moreover have "kmem_inv t []" "vm_ok t d []" using t(2) inv(2) Nil vm_mem(5) [OF m] by simp_all
    ultimately show ?thesis using False Nil vm_mem(4) [OF m] by (simp add: returns_def)
  next
    case (Cons q qs)
    have q: "q mod PGSIZE = 0" "q \<notin> set qs" "q \<noteq> 0"
      using inv(1) Cons page_ok_nonzero [of s q] by (auto simp: kmem_inv_def page_ok_def)
    have vm: "vm_ok s d (q # qs)" and ti: "kmem_inv t qs" using inv(2) t(2) Cons by simp_all
    note n = new_table [OF vm ti m q(1,2) False]
    let ?u = "t\<lparr>mem := store32 (memset (mem t) q 0 PGSIZE) (d + 4 * PDX va) (v2p q OR PTE_P OR PTE_W OR PTE_U)\<rparr>"
    have "walkpgdir d va True s = Ok (Some (q + 4 * PTX va)) ?u"
      using t(1) np q(3) Cons by (simp add: walkpgdir_def pte_load_def zero_page_def poke_def Let_def)
    then show ?thesis using n Cons by (auto simp: returns_def)
  qed
qed

text \<open>Entries for \<open>m\<close> pages from \<open>a\<close> on, added to a map.\<close>

definition map_range :: "(uint32 \<Rightarrow> uint32) \<Rightarrow> uint32 \<Rightarrow> nat \<Rightarrow> uint32 \<Rightarrow> uint32 \<Rightarrow> uint32 \<Rightarrow> uint32" where
  "map_range F a m pa perm x =
    (if a \<le> x \<and> unat x < unat a + m * 4096 then (pa + (PGROUNDDOWN x - a)) OR perm OR PTE_P else F x)"

lemma map_range_0: "map_range F a 0 pa perm = F"
  by (auto simp: map_range_def fun_eq_iff word_le_nat_alt)

lemma same_page_iff:
  assumes "a mod PGSIZE = 0"
  shows "PGROUNDDOWN x = PGROUNDDOWN a \<longleftrightarrow> a \<le> x \<and> unat x < unat a + 4096"
proof
  have a: "PGROUNDDOWN a = a" using PGROUNDDOWN_add [OF assms(1), of 0] by simp
  assume "PGROUNDDOWN x = PGROUNDDOWN a"
  then have "unat a = unat x div 4096 * 4096" using a by (metis unat_PGROUNDDOWN)
  moreover have "unat x = unat x div 4096 * 4096 + unat x mod 4096" by simp
  moreover have "unat x mod 4096 < 4096" by simp
  ultimately have "unat a \<le> unat x" "unat x < unat a + 4096" by linarith+
  then show "a \<le> x \<and> unat x < unat a + 4096" by (simp add: word_le_nat_alt)
next
  have a: "PGROUNDDOWN a = a" using PGROUNDDOWN_add [OF assms(1), of 0] by simp
  assume "a \<le> x \<and> unat x < unat a + 4096"
  then have "unat (x - a) < 4096" by (auto simp: unat_sub word_le_nat_alt)
  then show "PGROUNDDOWN x = PGROUNDDOWN a" using same_page [OF assms(1)] a by simp
qed

lemma map_range_Suc:
  assumes "a mod PGSIZE = 0" "unat a + 4096 < 2 ^ 32"
  shows "map_range (\<lambda>x. if PGROUNDDOWN x = PGROUNDDOWN a then pa OR perm OR PTE_P else F x) (a + PGSIZE) m (pa + PGSIZE) perm
    = map_range F a (Suc m) pa perm"
proof
  fix x
  have a: "PGROUNDDOWN a = a" using PGROUNDDOWN_add [OF assms(1), of 0] by simp
  have u: "unat (a + PGSIZE) = unat a + 4096" using assms(2) by (simp add: PGSIZE_def unat_word_ariths)
  have pg: "PGROUNDDOWN x = a \<longleftrightarrow> a \<le> x \<and> unat x < unat a + 4096" using same_page_iff [OF assms(1)] a by simp
  have "pa + PGSIZE + (PGROUNDDOWN x - (a + PGSIZE)) = pa + (PGROUNDDOWN x - a)" by simp
  then show "map_range (\<lambda>x. if PGROUNDDOWN x = PGROUNDDOWN a then pa OR perm OR PTE_P else F x) (a + PGSIZE) m (pa + PGSIZE) perm x
    = map_range F a (Suc m) pa perm x"
    unfolding map_range_def a pg using pg by (auto simp: word_le_nat_alt u)
qed


lemma map_page:
  assumes inv: "kmem_inv s ps" "vm_ok s d ps" and np: "pte_of s d a AND PTE_P = 0" and ok: "present s d (PDX a) \<or> ps \<noteq> []"
  shows "\<exists>pte t qs. walkpgdir d a True s = Ok (Some pte) t \<and> load32 (mem t) pte AND PTE_P = 0 \<and> length ps \<le> Suc (length qs)
    \<and> kmem_inv (t\<lparr>mem := store32 (mem t) pte w\<rparr>) qs \<and> vm_ok (t\<lparr>mem := store32 (mem t) pte w\<rparr>) d qs
    \<and> (\<forall>x. pte_of (t\<lparr>mem := store32 (mem t) pte w\<rparr>) d x = (if PGROUNDDOWN x = PGROUNDDOWN a then w else pte_of s d x))"
proof -
  obtain t qs where t: "walkpgdir d a True s = Ok (Some (pgtab t d (PDX a) + 4 * PTX a)) t" "kmem_inv t qs" "vm_ok t d qs"
    "\<forall>x. pte_of t d x = pte_of s d x" "present t d (PDX a)" "length ps \<le> Suc (length qs)"
    using walkpgdir_returns [OF inv, of a] ok unfolding returns_iff by (auto split: if_splits)
  have "load32 (mem t) (pgtab t d (PDX a) + 4 * PTX a) = pte_of t d a" using t(5) by (simp add: pte_of_def)
  then have "load32 (mem t) (pgtab t d (PDX a) + 4 * PTX a) AND PTE_P = 0" using np t(4) by simp
  moreover note poke_pte [OF t(2,3,5), of w]
  ultimately show ?thesis using t(1,4,6) by (intro exI conjI) (assumption | simp)+
qed

definition maps :: "kernel \<Rightarrow> uint32 list \<Rightarrow> uint32 \<Rightarrow> uint32 \<Rightarrow> nat \<Rightarrow> uint32 \<Rightarrow> uint32 \<Rightarrow> int \<Rightarrow> kernel \<Rightarrow> bool" where
  "maps s ps d a n pa perm r t \<longleftrightarrow> (\<exists>m qs. m \<le> n \<and> kmem_inv t qs \<and> vm_ok t d qs \<and> length ps \<le> m + length qs
     \<and> pte_of t d = map_range (pte_of s d) a m pa perm \<and> (if m = n then r = 0 else r = - 1 \<and> qs = []))"

lemma mappages_stuck:
  assumes "kmem_inv s ps" "vm_ok s d ps" "\<not> (present s d (PDX a) \<or> ps \<noteq> [])"
  shows "returns (mappages_loop (Suc k) d a final pa perm) s (maps s ps d a (Suc k) pa perm)"
proof -
  obtain t where t: "walkpgdir d a True s = Ok None t" "kmem_inv t []" "vm_ok t d []" "\<forall>x. pte_of t d x = pte_of s d x"
    using walkpgdir_returns [OF assms(1,2), of a] assms(3) unfolding returns_iff by auto
  have "maps s ps d a (Suc k) pa perm (- 1) t"
    unfolding maps_def by (rule exI [of _ 0], rule exI [of _ "[]"]) (use t assms(3) in \<open>auto simp: map_range_0\<close>)
  then show ?thesis using t(1) by (simp add: returns_def)
qed

lemma mappages_loop_returns:
  assumes "kmem_inv s ps" "vm_ok s d ps" "a mod PGSIZE = 0" "unat final = unat a + k * 4096"
    and "\<forall>x. a \<le> x \<and> unat x < unat a + Suc k * 4096 \<longrightarrow> pte_of s d x AND PTE_P = 0"
  shows "returns (mappages_loop (Suc k) d a final pa perm) s (maps s ps d a (Suc k) pa perm)"
  using assms
proof (induction k arbitrary: s ps a pa)
  case (0 s ps a pa)
  show ?case
  proof (cases "present s d (PDX a) \<or> ps \<noteq> []")
    case True
    have "pte_of s d a AND PTE_P = 0" using 0(5) by simp
    from map_page [OF 0(1,2) this True, of "pa OR perm OR PTE_P"] obtain pte t qs where t: "walkpgdir d a True s = Ok (Some pte) t"
      "load32 (mem t) pte AND PTE_P = 0" "length ps \<le> Suc (length qs)" and u: "kmem_inv (t\<lparr>mem := store32 (mem t) pte (pa OR perm OR PTE_P)\<rparr>) qs"
      "vm_ok (t\<lparr>mem := store32 (mem t) pte (pa OR perm OR PTE_P)\<rparr>) d qs"
      "\<forall>x. pte_of (t\<lparr>mem := store32 (mem t) pte (pa OR perm OR PTE_P)\<rparr>) d x = (if PGROUNDDOWN x = PGROUNDDOWN a then pa OR perm OR PTE_P else pte_of s d x)"
      by blast
    let ?u = "t\<lparr>mem := store32 (mem t) pte (pa OR perm OR PTE_P)\<rparr>"
    have fin: "a = final" using 0(4) by (simp add: word_unat_eq_iff)
    have "pte_of ?u d = map_range (pte_of s d) a 1 pa perm"
    proof
      fix x
      have "PGROUNDDOWN x = PGROUNDDOWN a \<longleftrightarrow> a \<le> x \<and> unat x < unat a + 4096" by (rule same_page_iff [OF 0(3)])
      then show "pte_of ?u d x = map_range (pte_of s d) a 1 pa perm x"
        using u(3) PGROUNDDOWN_add [OF 0(3), of 0] by (auto simp: map_range_def)
    qed
    then have "maps s ps d a 1 pa perm 0 ?u"
      unfolding maps_def by (intro exI [of _ 1] exI [of _ qs]) (use t(3) u(1,2) in simp)
    then show ?thesis using t(1,2) fin by (simp add: returns_def pte_load_def poke_def)
  qed (rule mappages_stuck [OF 0(1,2)])
next
  case (Suc k s ps a pa)
  show ?case
  proof (cases "present s d (PDX a) \<or> ps \<noteq> []")
    case True
    have "pte_of s d a AND PTE_P = 0" using Suc.prems(5) by simp
    from map_page [OF Suc.prems(1,2) this True, of "pa OR perm OR PTE_P"] obtain pte t qs where t: "walkpgdir d a True s = Ok (Some pte) t"
      "load32 (mem t) pte AND PTE_P = 0" "length ps \<le> Suc (length qs)" and u: "kmem_inv (t\<lparr>mem := store32 (mem t) pte (pa OR perm OR PTE_P)\<rparr>) qs"
      "vm_ok (t\<lparr>mem := store32 (mem t) pte (pa OR perm OR PTE_P)\<rparr>) d qs"
      "\<forall>x. pte_of (t\<lparr>mem := store32 (mem t) pte (pa OR perm OR PTE_P)\<rparr>) d x = (if PGROUNDDOWN x = PGROUNDDOWN a then pa OR perm OR PTE_P else pte_of s d x)"
      by blast
    let ?u = "t\<lparr>mem := store32 (mem t) pte (pa OR perm OR PTE_P)\<rparr>"
    have b: "unat a + 4096 < 2 ^ 32" using Suc.prems(4) unat_lt_2p32 [of final] by simp
    have ua: "unat (a + PGSIZE) = unat a + 4096" using b by (simp add: PGSIZE_def unat_word_ariths)
    have "unat a mod 4096 = 0" using Suc.prems(3) by (simp only: page_mod_iff)
    then have al: "(a + PGSIZE) mod PGSIZE = 0" unfolding page_mod_iff ua by simp
    have fin: "a \<noteq> final" "unat final = unat (a + PGSIZE) + k * 4096" using Suc.prems(4) unfolding word_unat_eq_iff ua by simp_all
    have free: "\<forall>x. a + PGSIZE \<le> x \<and> unat x < unat (a + PGSIZE) + Suc k * 4096 \<longrightarrow> pte_of ?u d x AND PTE_P = 0"
      using Suc.prems(5) u(3) same_page_iff [OF Suc.prems(3)] by (auto simp: ua word_le_nat_alt)
    have eq: "pte_of ?u d = (\<lambda>x. if PGROUNDDOWN x = PGROUNDDOWN a then pa OR perm OR PTE_P else pte_of s d x)" using u(3) by auto
    from Suc.IH [OF u(1,2) al fin(2) free, of "pa + PGSIZE"] obtain r v where v: "mappages_loop (Suc k) d (a + PGSIZE) final (pa + PGSIZE) perm ?u = Ok r v"
      "maps ?u qs d (a + PGSIZE) (Suc k) (pa + PGSIZE) perm r v"
      unfolding returns_iff by blast
    from v(2) obtain m rs where m: "m \<le> Suc k" "kmem_inv v rs" "vm_ok v d rs" "length qs \<le> m + length rs"
      "pte_of v d = map_range (pte_of s d) a (Suc m) pa perm" "if m = Suc k then r = 0 else r = - 1 \<and> rs = []"
      unfolding maps_def eq map_range_Suc [OF Suc.prems(3) b] by blast
    have "maps s ps d a (Suc (Suc k)) pa perm r v"
      unfolding maps_def by (rule exI [of _ "Suc m"], rule exI [of _ rs]) (use m t(3) in auto)
    then show ?thesis using t(1,2) fin(1) v(1) by (simp add: returns_def pte_load_def poke_def del: mappages_loop.simps(2)) (simp add: pte_load_def poke_def)
  qed (rule mappages_stuck [OF Suc.prems(1,2)])
qed


text \<open>
  C35. \<open>mappages\<close> maps the pages of the addresses from \<open>va\<close> to \<open>va + sz\<close>, if none of them is
  mapped yet, to consecutive pages from \<open>pa\<close> on with the permissions asked for: afterwards
  the entry of every address of these pages is the one for its page, and the entry of every
  other address is as before. It returns 0 then; it returns -1 only when there were fewer
  free pages than pages to map, all of them are used up, and then exactly the first pages of the
  range are mapped. In both cases the page tables are pages of their own.
\<close>

theorem mappages_extends:
  assumes inv: "kmem_inv s ps" "vm_ok s d ps" and sz: "0 < sz" "unat va + unat sz \<le> 2 ^ 32"
  defines "a \<equiv> PGROUNDDOWN va" and "n \<equiv> unat (PGROUNDDOWN (va + sz - 1) - PGROUNDDOWN va) div 4096 + 1"
  assumes free: "\<forall>x. a \<le> x \<and> PGROUNDDOWN x \<le> PGROUNDDOWN (va + sz - 1) \<longrightarrow> pte_of s d x AND PTE_P = 0"
  shows "returns (mappages d va sz pa perm) s (\<lambda>r t. \<exists>m qs. kmem_inv t qs \<and> vm_ok t d qs
    \<and> pte_of t d = (\<lambda>x. if a \<le> x \<and> unat x < unat a + m * 4096 then (pa + (PGROUNDDOWN x - a)) OR perm OR PTE_P else pte_of s d x)
    \<and> (r = 0 \<and> m = n \<or> r = - 1 \<and> m < n \<and> length ps \<le> m \<and> qs = []))"
proof -
  let ?l = "PGROUNDDOWN (va + sz - 1)"
  have e: "unat (va + sz - 1) = unat va + unat sz - 1"
  proof -
    have "unat (va + (sz - 1)) = unat va + (unat sz - 1)"
      using sz by (simp add: unat_word_ariths unat_sub word_le_nat_alt word_less_nat_alt)
    then show ?thesis using sz(1) by (simp add: word_less_nat_alt add_diff_eq)
  qed
  have u: "unat a = unat va div 4096 * 4096" "unat ?l = (unat va + unat sz - 1) div 4096 * 4096" by (simp_all add: a_def unat_PGROUNDDOWN e)
  have "unat va div 4096 \<le> (unat va + unat sz - 1) div 4096" by (rule div_le_mono) (use sz(1) in \<open>simp add: word_less_nat_alt\<close>)
  then have le: "unat a \<le> unat ?l" unfolding u by simp
  obtain k where k: "unat ?l = unat a + k * 4096"
    using u le by (metis add_diff_inverse_nat diff_mult_distrib not_less)
  have "unat (?l - a) = k * 4096" using k le by (simp add: unat_sub word_le_nat_alt)
  then have n: "n = Suc k" "unat ((?l - a) div PGSIZE) = k" by (simp_all add: n_def a_def [symmetric] unat_div PGSIZE_def)
  have al: "a mod PGSIZE = 0" by (simp add: page_mod_iff u)
  have fr: "\<forall>x. a \<le> x \<and> unat x < unat a + Suc k * 4096 \<longrightarrow> pte_of s d x AND PTE_P = 0"
  proof (intro allI impI)
    fix x assume x: "a \<le> x \<and> unat x < unat a + Suc k * 4096"
    have "unat x < (unat va div 4096 + k + 1) * 4096" using x u(1) by (simp add: algebra_simps)
    then have "unat x div 4096 \<le> unat va div 4096 + k" using less_mult_imp_div_less by fastforce
    then have "unat x div 4096 * 4096 \<le> (unat va div 4096 + k) * 4096" by (rule mult_le_mono1)
    also have "\<dots> = unat ?l" unfolding k u(1) by (rule add_mult_distrib)
    finally have "PGROUNDDOWN x \<le> ?l" unfolding word_le_nat_alt unat_PGROUNDDOWN [of x] .
    then show "pte_of s d x AND PTE_P = 0" using free x by blast
  qed
  have "returns (mappages d va sz pa perm) s (maps s ps d a n pa perm)"
    using mappages_loop_returns [OF inv al k fr] by (simp add: mappages_def Let_def n a_def [symmetric] del: mappages_loop.simps)
  then show ?thesis
  proof (rule returns_mono)
    fix r t assume "maps s ps d a n pa perm r t"
    then obtain m qs where m: "m \<le> n" "kmem_inv t qs" "vm_ok t d qs" "length ps \<le> m + length qs"
      "pte_of t d = map_range (pte_of s d) a m pa perm" "if m = n then r = 0 else r = - 1 \<and> qs = []"
      unfolding maps_def by blast
    have "r = 0 \<and> m = n \<or> r = - 1 \<and> m < n \<and> length ps \<le> m \<and> qs = []" using m(1,4,6) by (auto split: if_splits)
    then show "\<exists>m qs. kmem_inv t qs \<and> vm_ok t d qs
      \<and> pte_of t d = (\<lambda>x. if a \<le> x \<and> unat x < unat a + m * 4096 then (pa + (PGROUNDDOWN x - a)) OR perm OR PTE_P else pte_of s d x)
      \<and> (r = 0 \<and> m = n \<or> r = - 1 \<and> m < n \<and> length ps \<le> m \<and> qs = [])"
      using m(2,3,5) by (auto simp: map_range_def fun_eq_iff)
  qed
qed

theorem mappages_extends_witness:
  "returns (mappages 0x80300000 0x1800 0x1000 0x200000 PTE_W) two_pages (\<lambda>r t. r = 0
    \<and> pte_of t 0x80300000 0x1ABC = 0x200003 \<and> pte_of t 0x80300000 0x2000 = 0x201003 \<and> pte_of t 0x80300000 0x3000 = 0)"
proof -
  have z: "load32 (mem two_pages) (0x80300000 + 4 * i) = 0" if "i < 1024" for i
  proof -
    have "load32 (mem two_pages) (0x80300000 + 4 * i) = load32 (\<lambda>_. 0) (0x80300000 + 4 * i)"
      by (rule entry_page [OF _ that]) (auto simp: two_pages_def PGSIZE_def store32_def PGROUNDDOWN_def)
    then show ?thesis by (simp add: load32_def)
  qed
  then have np: "\<not> present two_pages 0x80300000 i" if "i < 1024" for i using that by (simp add: present_def pde_def)
  then have vm: "vm_ok two_pages 0x80300000 [0x80200000, 0x80201000]" by (simp add: vm_ok_def PGSIZE_def)
  have pz: "pte_of two_pages 0x80300000 x = 0" for x using np [OF PDX_less(1)] by (simp add: pte_of_def)
  have "PGROUNDDOWN 0x1800 = 0x1000" "PGROUNDDOWN (0x1800 + 0x1000 - 1) = 0x2000" "PGROUNDDOWN 0x1ABC = 0x1000" "PGROUNDDOWN 0x2000 = 0x2000"
    by (simp_all add: PGROUNDDOWN_def PGSIZE_def)
  with mappages_extends [OF two_pages_inv vm, of "0x1000" "0x1800" "0x200000" PTE_W] show ?thesis
    by (auto simp: pz layout_simps elim!: returns_mono)
qed

end
