(* ===== verification/Sys_Args.thy ===== *)
theory Sys_Args
  imports Process Page_Tables
begin

unbundle bit_operations_syntax

text \<open>
  The arguments of system calls (\<^verbatim>\<open>syscall.c\<close>): \<open>fetchint\<close>, \<open>argint\<close> and \<open>argptr\<close> read the stack of
  the process and check pointers against its size.
\<close>

section \<open>User memory through the page table\<close>

definition user_byte :: "kernel \<Rightarrow> uint32 \<Rightarrow> uint32 \<Rightarrow> byte" where
  "user_byte s d va = mem s (p2v (PTE_ADDR (pte_of s d va)) + (va AND 0xFFF))"

definition user_bytes :: "kernel \<Rightarrow> uint32 \<Rightarrow> uint32 \<Rightarrow> nat \<Rightarrow> byte list" where
  "user_bytes s d va n = map (\<lambda>i. user_byte s d (va + of_nat i)) [0..<n]"

text \<open>Every address below the size of the process has a page.\<close>

definition user_mapped :: "kernel \<Rightarrow> uint32 \<Rightarrow> uint32 \<Rightarrow> bool" where
  "user_mapped s d sz \<longleftrightarrow> sz \<le> KERNBASE \<and> (\<forall>x < sz. pte_of s d x AND PTE_P \<noteq> 0)"

lemma user_ka_ok:
  assumes "pte_of s d va AND PTE_P \<noteq> 0"
  shows "user_ka d va s = Ok (p2v (PTE_ADDR (pte_of s d va)) + (va AND 0xFFF)) s"
proof -
  have p: "present s d (PDX va)" using assms by (auto simp: pte_of_def split: if_splits)
  then have "walkpgdir d va False s = Ok (Some (pgtab s d (PDX va) + 4 * PTX va)) s"
    by (simp add: walkpgdir_def pte_load_def present_def pde_def pgtab_def Let_def)
  moreover have "load32 (mem s) (pgtab s d (PDX va) + 4 * PTX va) = pte_of s d va" using p by (simp add: pte_of_def)
  ultimately show ?thesis using assms by (simp add: user_ka_def pte_load_def)
qed

lemma user_bytes_Suc: "user_bytes s d va (Suc n) = user_byte s d va # user_bytes s d (va + 1) n"
proof -
  have "user_bytes s d va (Suc n) = map (\<lambda>i. user_byte s d (va + of_nat i)) (0 # map Suc [0..<n])"
    by (simp only: user_bytes_def upt_conv_Cons map_Suc_upt zero_less_Suc)
  then show ?thesis by (simp add: user_bytes_def comp_def add.assoc)
qed

lemma user_load_ok:
  assumes "user_mapped s d sz" "unat va + n \<le> unat sz"
  shows "user_load d va n s = Ok (user_bytes s d va n) s"
  using assms(2)
proof (induction n arbitrary: va)
  case 0
  then show ?case by (simp add: user_bytes_def)
next
  case (Suc n)
  have "va < sz" using Suc.prems by (simp add: word_less_nat_alt)
  then have k: "user_ka d va s = Ok (p2v (PTE_ADDR (pte_of s d va)) + (va AND 0xFFF)) s"
    using assms(1) by (intro user_ka_ok) (simp add: user_mapped_def)
  have "unat (va + 1) = unat va + 1" using Suc.prems unat_lt_2p32 [of sz] by (simp add: unat_word_ariths)
  then have "user_load d (va + 1) n s = Ok (user_bytes s d (va + 1) n) s" using Suc.prems by (intro Suc.IH) simp
  then show ?case using k by (simp add: user_bytes_Suc user_byte_def)
qed

section \<open>Arguments\<close>

definition arg_addr :: "proc \<Rightarrow> nat \<Rightarrow> uint32" where
  "arg_addr p n = tf_esp (p_tf p) + 4 + 4 * of_nat n"

definition arg_word :: "kernel \<Rightarrow> proc \<Rightarrow> nat \<Rightarrow> uint32" where
  "arg_word s p n = get32 (user_bytes s (p_pgdir p) (arg_addr p n) 4) 0"

lemma in_bounds:
  fixes a sz :: uint32
  assumes "sz \<le> KERNBASE" "unat l < 2147483648"
  shows "(a \<ge> sz \<or> a + l > sz) \<longleftrightarrow> \<not> (a < sz \<and> unat a + unat l \<le> unat sz)"
proof (cases "a < sz")
  case True
  have "unat sz \<le> 2 ^ 31" using assms(1) by (simp add: word_le_nat_alt KERNBASE_def)
  then have "unat (a + l) = unat a + unat l" using True assms(2) by (simp add: word_less_nat_alt unat_word_ariths)
  then show ?thesis using True by (auto simp: word_less_nat_alt word_le_nat_alt)
qed auto

lemma unat_bound: "unat (x :: uint32) < 4294967296"
  using unat_lt_2p32 [of x] by simp

lemma sint_unat: "sint (x :: uint32) = (if unat x < 2147483648 then int (unat x) else int (unat x) - 4294967296)"
proof -
  have u: "uint x = int (unat x)" by simp
  have "(if int k < 2 ^ 31 then int k else int k - 2 ^ 32) = (if k < 2147483648 then int k else int k - 4294967296)" for k by auto
  then show ?thesis unfolding sint_cases u .
qed

lemma sint_nonneg: "0 \<le> sint (x :: uint32) \<longleftrightarrow> unat x < 2147483648"
proof -
  have "0 \<le> (if k < 2147483648 then int k else int k - 4294967296) \<longleftrightarrow> k < 2147483648" if "k < 4294967296" for k using that by auto
  then show ?thesis unfolding sint_unat using unat_bound [of x] .
qed

lemma argint_ok:
  assumes "curproc s = Some i" "user_mapped s (p_pgdir (procs s ! i)) (p_sz (procs s ! i))"
  shows "argint n s = Ok (if unat (arg_addr (procs s ! i) n) + 4 \<le> unat (p_sz (procs s ! i)) then Some (arg_word s (procs s ! i) n) else None) s"
proof -
  let ?p = "procs s ! i" let ?a = "arg_addr ?p n"
  have sz: "p_sz ?p \<le> KERNBASE" using assms(2) by (simp add: user_mapped_def)
  have b: "(?a \<ge> p_sz ?p \<or> ?a + 4 > p_sz ?p) \<longleftrightarrow> \<not> unat ?a + 4 \<le> unat (p_sz ?p)"
    using in_bounds [OF sz, of 4 ?a] by (auto simp: word_less_nat_alt)
  have "argint n s = fetchint ?a s" using assms(1) by (simp add: argint_def with_proc_def arg_addr_def)
  moreover have "fetchint ?a s = Ok (if unat ?a + 4 \<le> unat (p_sz ?p) then Some (arg_word s ?p n) else None) s"
    using assms(1) b user_load_ok [OF assms(2), of ?a 4] by (auto simp: fetchint_def with_proc_def arg_word_def)
  ultimately show ?thesis by simp
qed

text \<open>
  C36. A pointer argument that \<open>argptr\<close> accepts with a size that is not negative lies with its
  whole block inside the memory of the process, so that the kernel can read every byte of
  it; the pointer is the word on the stack of the process, and it is refused exactly when that word
  or the block is not inside. Nothing is changed.
\<close>

theorem argptr_bounds:
  fixes n :: nat
  assumes "curproc s = Some i" "user_mapped s (p_pgdir (procs s ! i)) (p_sz (procs s ! i))" "0 \<le> sint len"
  defines "p \<equiv> procs s ! i" and "v \<equiv> arg_word s (procs s ! i) n"
  shows "argptr n len s = (if unat (arg_addr p n) + 4 \<le> unat (p_sz p) \<and> v < p_sz p \<and> unat v + unat len \<le> unat (p_sz p)
      then Ok (Some v) s else Ok None s)
    \<and> returns (argptr n len) s (\<lambda>r t. case r of None \<Rightarrow> True
        | Some q \<Rightarrow> user_load (p_pgdir p) q (unat len) t = Ok (user_bytes s (p_pgdir p) q (unat len)) t)"
proof -
  have sz: "p_sz p \<le> KERNBASE" using assms(2) by (simp add: user_mapped_def p_def)
  have "unat len < 2147483648" using assms(3) by (simp only: sint_nonneg)
  from in_bounds [OF sz this, of v]
  have "argptr n len s = (if unat (arg_addr p n) + 4 \<le> unat (p_sz p) \<and> v < p_sz p \<and> unat v + unat len \<le> unat (p_sz p)
      then Ok (Some v) s else Ok None s)"
    using argint_ok [OF assms(1,2), of n] assms(1) by (auto simp: argptr_def with_proc_def p_def v_def)
  moreover have "user_load (p_pgdir p) v (unat len) s = Ok (user_bytes s (p_pgdir p) v (unat len)) s"
    if "unat v + unat len \<le> unat (p_sz p)" using user_load_ok [OF assms(2)] that by (simp add: p_def)
  ultimately show ?thesis by (auto simp: returns_def)
qed

text \<open>A process of one page, whose stack pointer is \<open>0x100\<close> and whose first argument is \<open>0x200\<close>.\<close>

definition one_page :: kernel where
  "one_page = boot0\<lparr>
     mem := store32 (store32 (store32 (\<lambda>_. 0) 0x80300000 0x301007) 0x80301000 0x302007) 0x80302104 0x200,
     cpus := (cpus boot0)(0 := (cpus boot0 0)\<lparr>c_proc := Some 0\<rparr>),
     procs := (procs boot0)[0 := (procs boot0 ! 0)\<lparr>p_sz := 4096, p_pgdir := 0x80300000, p_tf := zero_trapframe\<lparr>tf_esp := 0x100\<rparr>\<rparr>]\<rparr>"

lemma one_page_facts:
  "curproc one_page = Some 0" "p_sz (procs one_page ! 0) = 4096" "p_pgdir (procs one_page ! 0) = 0x80300000"
  "arg_addr (procs one_page ! 0) 0 = 0x104"
  by (simp_all add: one_page_def boot0_def boot_kernel_def curproc_def mycpu_def arg_addr_def layout_simps del: replicate_Suc)

lemma one_page_pte:
  assumes "x < 4096"
  shows "pte_of one_page 0x80300000 x = 0x302007"
proof -
  have "unat x < 4096" using assms by (simp add: word_less_nat_alt)
  then have "unat x div 4096 * 4096 = 0" by simp
  then have "PGROUNDDOWN x = PGROUNDDOWN 0" by (simp add: word_unat_eq_iff unat_PGROUNDDOWN)
  then have "PDX x = PDX 0" "PTX x = PTX 0" using page_of [of x 0] by simp_all
  then have z: "PDX x = 0" "PTX x = 0" by (simp_all add: PDX_def PTX_def)
  have "load32 (mem one_page) 0x80300000 = 0x301007" "load32 (mem one_page) 0x80301000 = 0x302007"
    by (simp_all add: one_page_def load32_def store32_def byte_of_def)
  then show ?thesis by (simp add: pte_of_def present_def pgtab_def pde_def z PTE_P_def PTE_ADDR_def p2v_def KERNBASE_def)
qed

lemma one_page_mapped: "user_mapped one_page 0x80300000 4096"
  by (simp add: user_mapped_def one_page_pte PTE_P_def KERNBASE_def)

lemma one_page_arg: "arg_word one_page (procs one_page ! 0) 0 = 0x200"
proof -
  have "user_byte one_page 0x80300000 x = mem one_page (0x80302000 + (x AND 0xFFF))" if "x < 4096" for x
    using that by (simp add: user_byte_def one_page_pte PTE_ADDR_def p2v_def KERNBASE_def)
  then have "user_bytes one_page 0x80300000 0x104 4 = map (mem one_page) [0x80302104, 0x80302105, 0x80302106, 0x80302107]"
    by (simp add: user_bytes_def upt_rec)
  also have "\<dots> = [0, 2, 0, 0]" by (simp add: one_page_def store32_def byte_of_def)
  finally show ?thesis by (simp add: arg_word_def one_page_facts get32_def)
qed

theorem argptr_bounds_witness:
  "argptr 0 0xE00 one_page = Ok (Some 0x200) one_page \<and> argptr 0 0xE01 one_page = Ok None one_page"
proof -
  have s: "0 \<le> sint (0xE00 :: uint32)" "0 \<le> sint (0xE01 :: uint32)" by (simp_all add: sint_cases)
  note m = one_page_mapped [folded one_page_facts(2,3)]
  show ?thesis using argptr_bounds [OF one_page_facts(1) m s(1), of 0] argptr_bounds [OF one_page_facts(1) m s(2), of 0]
    by (simp add: one_page_facts one_page_arg)
qed

text \<open>
  C37. A negative size defeats the check: \<open>argptr\<close> adds the size to the pointer as an unsigned
  number, the sum wraps around, and the pointer is accepted although the block of that many
  bytes reaches far beyond the memory of the process.
\<close>

theorem argptr_accepts_negative_size:
  assumes "curproc s = Some i" "user_mapped s (p_pgdir (procs s ! i)) (p_sz (procs s ! i))"
    and "unat (arg_addr (procs s ! i) n) + 4 \<le> unat (p_sz (procs s ! i))"
    and "arg_word s (procs s ! i) n < p_sz (procs s ! i)" "sint len < 0" "- sint len \<le> int (unat (arg_word s (procs s ! i) n))"
  shows "argptr n len s = Ok (Some (arg_word s (procs s ! i) n)) s
    \<and> unat (arg_word s (procs s ! i) n) + unat len > unat (p_sz (procs s ! i))"
proof -
  let ?p = "procs s ! i" let ?v = "arg_word s ?p n"
  have sz: "unat (p_sz ?p) \<le> 2147483648" using assms(2) by (simp add: user_mapped_def word_le_nat_alt KERNBASE_def)
  have l: "2147483648 \<le> unat len" using assms(5) sint_nonneg [of len] by linarith
  then have "sint len = int (unat len) - 4294967296" by (simp add: sint_unat)
  then have ge: "4294967296 \<le> unat ?v + unat len" using assms(6) by linarith
  then have "unat (?v + len) = unat ?v + unat len - 4294967296"
    using unat_bound [of ?v] unat_bound [of len] by (simp add: unat_word_ariths mod_if)
  then have "?v + len \<le> p_sz ?p"
    using assms(4) unat_bound [of len] unfolding word_le_nat_alt word_less_nat_alt by linarith
  then have "argptr n len s = Ok (Some ?v) s"
    using argint_ok [OF assms(1,2), of n] assms(1,3,4) by (auto simp: argptr_def with_proc_def)
  moreover have "unat (p_sz ?p) < unat ?v + unat len" using sz ge by linarith
  ultimately show ?thesis by simp
qed

theorem argptr_accepts_negative_size_witness:
  "argptr 0 (- 1) one_page = Ok (Some 0x200) one_page \<and> unat (0x200 :: uint32) + unat (- 1 :: uint32) > 4096"
proof -
  have "argptr 0 (- 1) one_page = Ok (Some (arg_word one_page (procs one_page ! 0) 0)) one_page
    \<and> unat (arg_word one_page (procs one_page ! 0) 0) + unat (- 1 :: uint32) > unat (p_sz (procs one_page ! 0))"
    by (rule argptr_accepts_negative_size [OF one_page_facts(1)])
      (simp_all add: one_page_facts one_page_arg one_page_mapped)
  then show ?thesis by (simp add: one_page_facts one_page_arg)
qed

end
