(* ===== verification/User.thy ===== *)
theory User
  imports CString
begin

text \<open>
  The user programs and their library: \<^verbatim>\<open>ulib.c\<close>, \<^verbatim>\<open>printf.c\<close>, \<^verbatim>\<open>grep.c\<close>,
  \<^verbatim>\<open>wc.c\<close>, \<^verbatim>\<open>cat.c\<close>, \<^verbatim>\<open>echo.c\<close>, \<^verbatim>\<open>kill.c\<close>, \<^verbatim>\<open>ln.c\<close>, \<^verbatim>\<open>mkdir.c\<close>,
  \<^verbatim>\<open>rm.c\<close>, \<^verbatim>\<open>ls.c\<close>, \<^verbatim>\<open>init.c\<close>, \<^verbatim>\<open>zombie.c\<close> and \<^verbatim>\<open>test_getpcount.c\<close>.

  A program sees the kernel through its system calls. The state of a program here is the
  list of the calls it has made, oldest first, and what the kernel will answer to the next
  ones: the returned number and the bytes stored at the pointer the program passes. The
  programs never look at what \<open>write\<close> and \<open>close\<close> return. A program that waits for an
  answer that does not come spins; \<open>exit\<close> ends in the outcome \<open>Swtch\<close>, as it does in the
  kernel. A string argument is the list of the bytes before its NUL.
\<close>

unbundle bit_operations_syntax

section \<open>System calls\<close>

datatype ucall =
    Write int "byte list" | Read int nat | Open "byte list" uint32 | Close int | Fork | Exit | Wait | Pipe
  | Kill int | Exec "byte list" "byte list list" | Mknod "byte list" ushort ushort | Unlink "byte list"
  | Fstat int | Link "byte list" "byte list" | Mkdir "byte list" | Chdir "byte list" | Dup int
  | Getpid | Sbrk uint32 | Sleep int | Uptime | Getpcount

record user =
  calls :: "ucall list"
  answers :: "(int \<times> byte list) list"

type_synonym 'a program = "(user, 'a) routine"

definition call :: "ucall \<Rightarrow> unit program" where
  "call c = modify (\<lambda>u. u\<lparr>calls := calls u @ [c]\<rparr>)"

definition ask :: "ucall \<Rightarrow> (int \<times> byte list) program" where
  "ask c = andthen (call c)
    (bind (gets answers) (\<lambda>as.
     case as of [] \<Rightarrow> (\<lambda>u. Spin u) | a # as' \<Rightarrow> andthen (modify (\<lambda>u. u\<lparr>answers := as'\<rparr>)) (return a)))"

definition ask_int :: "ucall \<Rightarrow> int program" where
  "ask_int c = bind (ask c) (\<lambda>a. return (fst a))"

definition uexit :: "'a program" where
  "uexit = andthen (call Exit) (\<lambda>u. Swtch u)"

definition uwrite :: "int \<Rightarrow> byte list \<Rightarrow> unit program" where
  "uwrite fd bs = call (Write fd bs)"

text \<open>\<open>read\<close> into a buffer with room for \<open>n\<close> bytes: the result, and the bytes read.\<close>

definition uread :: "int \<Rightarrow> nat \<Rightarrow> (int \<times> byte list) program" where
  "uread fd n = bind (ask (Read fd n)) (\<lambda>(r, bs).
    return (if r < 0 then (r, []) else (int (min n (length bs)), take n bs)))"

section \<open>The library\<close>

fun ustrcpy :: "byte list \<Rightarrow> byte list \<Rightarrow> byte list option" where
  "ustrcpy (x # s) (y # t) = map_option (Cons y) (if y \<noteq> 0 then ustrcpy s t else Some s)"
| "ustrcpy s t = None"

fun ustrcmp :: "byte list \<Rightarrow> byte list \<Rightarrow> int option" where
  "ustrcmp (x # p) (y # q) = (if x \<noteq> 0 \<and> x = y then ustrcmp p q else Some (int (unat x) - int (unat y)))"
| "ustrcmp p q = None"

fun ustrlen :: "byte list \<Rightarrow> nat option" where
  "ustrlen [] = None"
| "ustrlen (x # s) = (if x = 0 then Some 0 else map_option Suc (ustrlen s))"

definition umemset :: "(uint32 \<Rightarrow> byte) \<Rightarrow> uint32 \<Rightarrow> byte \<Rightarrow> uint32 \<Rightarrow> (uint32 \<Rightarrow> byte)" where
  "umemset m dst c n = stosb m dst c (unat n)"

text \<open>\<open>strchr\<close>: the position of a character in a string, if it is there.\<close>

fun strchr :: "byte list \<Rightarrow> byte \<Rightarrow> nat option" where
  "strchr [] c = None"
| "strchr (x # s) c = (if x = 0 then None else if x = c then Some 0 else map_option Suc (strchr s c))"

text \<open>\<open>gets\<close> with room for \<open>k\<close> more characters.\<close>

fun ugets_loop :: "nat \<Rightarrow> byte list program" where
  "ugets_loop 0 = return []"
| "ugets_loop (Suc k) =
    bind (uread 0 1) (\<lambda>(cc, bs).
    if cc < 1 then return []
    else let c = hd bs in
      if c = 10 \<or> c = 13 then return [c]
      else bind (ugets_loop k) (\<lambda>cs. return (c # cs)))"

definition ugets :: "nat \<Rightarrow> byte list program" where
  "ugets n = ugets_loop (n - 1)"

definition ustat :: "byte list \<Rightarrow> (int \<times> byte list) program" where
  "ustat n =
    bind (ask_int (Open n 0)) (\<lambda>fd.
    if fd < 0 then return (- 1, [])
    else
      bind (ask (Fstat fd)) (\<lambda>r.
      andthen (call (Close fd))
      (return r)))"

text \<open>\<open>atoi\<close>: an \<open>int\<close> that overflows wraps around.\<close>

fun atoi_loop :: "uint32 \<Rightarrow> byte list \<Rightarrow> uint32" where
  "atoi_loop n [] = n"
| "atoi_loop n (c # s) = (if 0x30 \<le> c \<and> c \<le> 0x39 then atoi_loop (n * 10 + ucast c - 0x30) s else n)"

definition atoi :: "byte list \<Rightarrow> int" where
  "atoi s = sint (atoi_loop 0 s)"

text \<open>The library's \<open>memmove\<close> copies upwards only.\<close>

definition umemmove :: "(uint32 \<Rightarrow> byte) \<Rightarrow> uint32 \<Rightarrow> uint32 \<Rightarrow> int \<Rightarrow> (uint32 \<Rightarrow> byte)" where
  "umemmove m dst src n = copy_fwd m src dst (nat n)"

section \<open>Formatted output\<close>

definition putc :: "int \<Rightarrow> byte \<Rightarrow> unit program" where
  "putc fd c = uwrite fd [c]"

definition udigit :: "nat \<Rightarrow> byte" where
  "udigit d = of_char (''0123456789ABCDEF'' ! d)"

function udigits_rev :: "nat \<Rightarrow> nat \<Rightarrow> byte list" where
  "udigits_rev base x = udigit (x mod base) # (if x div base = 0 \<or> base < 2 then [] else udigits_rev base (x div base))"
  by pat_completeness auto

termination udigits_rev
  by (relation "measure snd") (auto simp: div_greater_zero_iff intro!: div_less_dividend)

declare udigits_rev.simps [simp del]

definition uint_digits :: "uint32 \<Rightarrow> nat \<Rightarrow> bool \<Rightarrow> byte list" where
  "uint_digits xx base sg =
    (let neg = (sg \<and> sint xx < 0); x = (if neg then - xx else xx) in
     rev (udigits_rev base (unat x) @ (if neg then [of_char (CHR ''-'')] else [])))"

definition uprintint :: "int \<Rightarrow> uint32 \<Rightarrow> nat \<Rightarrow> bool \<Rightarrow> unit program" where
  "uprintint fd xx base sg = foreach (uint_digits xx base sg) (putc fd)"

text \<open>An argument is a word or a string (\<open>None\<close> for the null pointer); a conversion that
  finds no argument of its kind is a fault. The flag is the variable \<open>state\<close>.\<close>

datatype uarg = AWord uint32 | AStr "byte list option"

fun printf_loop :: "int \<Rightarrow> bool \<Rightarrow> string \<Rightarrow> uarg list \<Rightarrow> unit program" where
  "printf_loop fd st [] args = return ()"
| "printf_loop fd False (c # fmt) args =
    (if c = CHR ''%'' then printf_loop fd True fmt args
     else andthen (putc fd (of_char c)) (printf_loop fd False fmt args))"
| "printf_loop fd True (c # fmt) args =
    (if c = CHR ''d'' then
       (case args of AWord w # as \<Rightarrow> andthen (uprintint fd w 10 True) (printf_loop fd False fmt as) | _ \<Rightarrow> fault ''printf'')
     else if c = CHR ''x'' \<or> c = CHR ''p'' then
       (case args of AWord w # as \<Rightarrow> andthen (uprintint fd w 16 False) (printf_loop fd False fmt as) | _ \<Rightarrow> fault ''printf'')
     else if c = CHR ''s'' then
       (case args of
          AStr r # as \<Rightarrow>
            andthen (foreach (case r of None \<Rightarrow> map of_char ''(null)'' | Some b \<Rightarrow> b) (putc fd))
            (printf_loop fd False fmt as)
        | _ \<Rightarrow> fault ''printf'')
     else if c = CHR ''c'' then
       (case args of AWord w # as \<Rightarrow> andthen (putc fd (ucast w)) (printf_loop fd False fmt as) | _ \<Rightarrow> fault ''printf'')
     else if c = CHR ''%'' then andthen (putc fd (of_char c)) (printf_loop fd False fmt args)
     else andthen (putc fd (of_char CHR ''%'')) (andthen (putc fd (of_char c)) (printf_loop fd False fmt args)))"

definition printf :: "int \<Rightarrow> string \<Rightarrow> uarg list \<Rightarrow> unit program" where
  "printf fd fmt args = printf_loop fd False fmt args"

section \<open>Patterns\<close>

text \<open>\<open>matchhere\<close> and \<open>matchstar\<close>; a pattern or a text that is used up is the empty list.\<close>

function (sequential) matchhere :: "byte list \<Rightarrow> byte list \<Rightarrow> bool"
  and matchstar :: "byte \<Rightarrow> byte list \<Rightarrow> byte list \<Rightarrow> bool" where
  "matchhere [] text = True"
| "matchhere (c # re) text =
    (if re \<noteq> [] \<and> hd re = 0x2A then matchstar c (tl re) text
     else if c = 0x24 \<and> re = [] then text = []
     else case text of
       [] \<Rightarrow> False
     | t # text' \<Rightarrow> (c = 0x2E \<or> c = t) \<and> matchhere re text')"
| "matchstar c re text =
    (matchhere re text \<or>
     (case text of [] \<Rightarrow> False | t # text' \<Rightarrow> (t = c \<or> c = 0x2E) \<and> matchstar c re text'))"
  by pat_completeness auto

termination
  by (relation "measures [\<lambda>x. case x of Inl (re, text) \<Rightarrow> 2 * length re | Inr (c, re, text) \<Rightarrow> 2 * length re + 1,
      \<lambda>x. case x of Inl (re, text) \<Rightarrow> length text | Inr (c, re, text) \<Rightarrow> length text]") auto

fun match_from :: "byte list \<Rightarrow> byte list \<Rightarrow> bool" where
  "match_from re [] = matchhere re []"
| "match_from re (t # text) = (matchhere re (t # text) \<or> match_from re text)"

definition match :: "byte list \<Rightarrow> byte list \<Rightarrow> bool" where
  "match re text = (if re \<noteq> [] \<and> hd re = 0x5E then matchhere (tl re) text else match_from re text)"

text \<open>
  The inner loop of \<open>grep\<close> on the buffer from \<open>p\<close> on: the lines that match are written; the
  result is the rest after the last line. \<open>strchr\<close> does not look past a NUL.
\<close>

function grep_lines :: "byte list \<Rightarrow> byte list \<Rightarrow> byte list program" where
  "grep_lines pattern p =
    (case strchr p 10 of
       None \<Rightarrow> return p
     | Some q \<Rightarrow>
         andthen (do_if (match pattern (take q p)) (uwrite 1 (take (Suc q) p)))
         (grep_lines pattern (drop (Suc q) p)))"
  by pat_completeness auto

lemma strchr_less: "strchr s c = Some q \<Longrightarrow> q < length s"
  by (induction s arbitrary: q) (auto split: if_splits)

termination grep_lines
  by (relation "measure (\<lambda>(_, p). length p)") (auto dest: strchr_less)

declare grep_lines.simps [simp del]

text \<open>The outer loop; \<open>m\<close> bytes are left in the buffer of 1024. Each turn takes an answer.\<close>

fun grep_loop :: "nat \<Rightarrow> byte list \<Rightarrow> int \<Rightarrow> byte list \<Rightarrow> unit program" where
  "grep_loop 0 pattern fd m = (\<lambda>u. Spin u)"
| "grep_loop (Suc k) pattern fd m =
    bind (uread fd (1024 - length m - 1)) (\<lambda>(n, bs).
    if n > 0 then
      let b = m @ bs in
      bind (grep_lines pattern b) (\<lambda>p.
      grep_loop k pattern fd (if length p = length b then [] else p))
    else return ())"

text \<open>As often as there are answers: one read more has to wait.\<close>

definition while_answers :: "(nat \<Rightarrow> 'a program) \<Rightarrow> 'a program" where
  "while_answers f = bind (gets (\<lambda>u. length (answers u))) (\<lambda>n. f (Suc n))"

definition grep :: "byte list \<Rightarrow> int \<Rightarrow> unit program" where
  "grep pattern fd = while_answers (\<lambda>k. grep_loop k pattern fd [])"

fun grep_files :: "byte list \<Rightarrow> byte list list \<Rightarrow> unit program" where
  "grep_files pattern [] = uexit"
| "grep_files pattern (f # fs) =
    bind (ask_int (Open f 0)) (\<lambda>fd.
    if fd < 0 then andthen (printf 1 ''grep: cannot open %s\<newline>'' [AStr (Some f)]) uexit
    else andthen (grep pattern fd) (andthen (call (Close fd)) (grep_files pattern fs)))"

definition grep_main :: "byte list list \<Rightarrow> unit program" where
  "grep_main argv =
    (if length argv \<le> 1 then andthen (printf 2 ''usage: grep pattern [file ...]\<newline>'' []) uexit
     else if length argv \<le> 2 then andthen (grep (argv ! 1) 0) uexit
     else grep_files (argv ! 1) (drop 2 argv))"

section \<open>Counting\<close>

text \<open>The counters of \<open>wc\<close> are C \<open>int\<close>s, kept at their width and printed with \<open>%d\<close>.\<close>

record counts =
  wc_l :: uint32
  wc_w :: uint32
  wc_c :: uint32
  wc_inword :: bool

definition wc_char :: "byte \<Rightarrow> counts \<Rightarrow> counts" where
  "wc_char b k =
    (let k1 = k\<lparr>wc_c := wc_c k + 1\<rparr>; k2 = (if b = 10 then k1\<lparr>wc_l := wc_l k1 + 1\<rparr> else k1) in
     if b \<in> {0x20, 13, 9, 10, 11} then k2\<lparr>wc_inword := False\<rparr>
     else if \<not> wc_inword k2 then k2\<lparr>wc_w := wc_w k2 + 1, wc_inword := True\<rparr>
     else k2)"

fun wc_loop :: "nat \<Rightarrow> int \<Rightarrow> counts \<Rightarrow> (int \<times> counts) program" where
  "wc_loop 0 fd k = (\<lambda>u. Spin u)"
| "wc_loop (Suc f) fd k =
    bind (uread fd 512) (\<lambda>(n, bs). if n > 0 then wc_loop f fd (fold wc_char bs k) else return (n, k))"

definition wc :: "int \<Rightarrow> byte list \<Rightarrow> unit program" where
  "wc fd name =
    bind (while_answers (\<lambda>f. wc_loop f fd \<lparr>wc_l = 0, wc_w = 0, wc_c = 0, wc_inword = False\<rparr>)) (\<lambda>(n, k).
    if n < 0 then andthen (printf 1 ''wc: read error\<newline>'' []) uexit
    else printf 1 ''%d %d %d %s\<newline>'' [AWord (wc_l k), AWord (wc_w k), AWord (wc_c k), AStr (Some name)])"

fun wc_files :: "byte list list \<Rightarrow> unit program" where
  "wc_files [] = uexit"
| "wc_files (f # fs) =
    bind (ask_int (Open f 0)) (\<lambda>fd.
    if fd < 0 then andthen (printf 1 ''wc: cannot open %s\<newline>'' [AStr (Some f)]) uexit
    else andthen (wc fd f) (andthen (call (Close fd)) (wc_files fs)))"

definition wc_main :: "byte list list \<Rightarrow> unit program" where
  "wc_main argv = (if length argv \<le> 1 then andthen (wc 0 []) uexit else wc_files (drop 1 argv))"

section \<open>Small programs\<close>

fun cat_loop :: "nat \<Rightarrow> int \<Rightarrow> int program" where
  "cat_loop 0 fd = (\<lambda>u. Spin u)"
| "cat_loop (Suc k) fd =
    bind (uread fd 512) (\<lambda>(n, bs). if n > 0 then andthen (uwrite 1 bs) (cat_loop k fd) else return n)"

definition cat :: "int \<Rightarrow> unit program" where
  "cat fd =
    bind (while_answers (\<lambda>k. cat_loop k fd)) (\<lambda>n.
    do_if (n < 0) (andthen (printf 1 ''cat: read error\<newline>'' []) uexit))"

fun cat_files :: "byte list list \<Rightarrow> unit program" where
  "cat_files [] = uexit"
| "cat_files (f # fs) =
    bind (ask_int (Open f 0)) (\<lambda>fd.
    if fd < 0 then andthen (printf 1 ''cat: cannot open %s\<newline>'' [AStr (Some f)]) uexit
    else andthen (cat fd) (andthen (call (Close fd)) (cat_files fs)))"

definition cat_main :: "byte list list \<Rightarrow> unit program" where
  "cat_main argv = (if length argv \<le> 1 then andthen (cat 0) uexit else cat_files (drop 1 argv))"

definition echo_main :: "byte list list \<Rightarrow> unit program" where
  "echo_main argv =
    andthen (foreach [1..<length argv] (\<lambda>i.
      printf 1 ''%s%s'' [AStr (Some (argv ! i)), AStr (Some (if i + 1 < length argv then [0x20] else [10]))]))
    uexit"

definition kill_main :: "byte list list \<Rightarrow> unit program" where
  "kill_main argv =
    (if length argv < 2 then andthen (printf 2 ''usage: kill pid...\<newline>'' []) uexit
     else andthen (foreach (drop 1 argv) (\<lambda>a. bind (ask_int (Kill (atoi a))) (\<lambda>_. return ()))) uexit)"

definition ln_main :: "byte list list \<Rightarrow> unit program" where
  "ln_main argv =
    (if length argv \<noteq> 3 then andthen (printf 2 ''Usage: ln old new\<newline>'' []) uexit
     else
       bind (ask_int (Link (argv ! 1) (argv ! 2))) (\<lambda>r.
       andthen (do_if (r < 0) (printf 2 ''link %s %s: failed\<newline>'' [AStr (Some (argv ! 1)), AStr (Some (argv ! 2))]))
       uexit))"

text \<open>The loop of \<open>mkdir\<close> and \<open>rm\<close> ends with the first failure.\<close>

fun mkdir_files :: "byte list list \<Rightarrow> unit program" where
  "mkdir_files [] = uexit"
| "mkdir_files (f # fs) =
    bind (ask_int (Mkdir f)) (\<lambda>r.
    if r < 0 then andthen (printf 2 ''mkdir: %s failed to create\<newline>'' [AStr (Some f)]) uexit
    else mkdir_files fs)"

definition mkdir_main :: "byte list list \<Rightarrow> unit program" where
  "mkdir_main argv =
    (if length argv < 2 then andthen (printf 2 ''Usage: mkdir files...\<newline>'' []) uexit else mkdir_files (drop 1 argv))"

fun rm_files :: "byte list list \<Rightarrow> unit program" where
  "rm_files [] = uexit"
| "rm_files (f # fs) =
    bind (ask_int (Unlink f)) (\<lambda>r.
    if r < 0 then andthen (printf 2 ''rm: %s failed to delete\<newline>'' [AStr (Some f)]) uexit
    else rm_files fs)"

definition rm_main :: "byte list list \<Rightarrow> unit program" where
  "rm_main argv =
    (if length argv < 2 then andthen (printf 2 ''Usage: rm files...\<newline>'' []) uexit else rm_files (drop 1 argv))"

definition zombie_main :: "unit program" where
  "zombie_main =
    bind (ask_int Fork) (\<lambda>pid.
    andthen (do_if (pid > 0) (bind (ask_int (Sleep 5)) (\<lambda>_. return ())))
    uexit)"

definition getpcount_main :: "unit program" where
  "getpcount_main =
    bind (ask_int Getpcount) (\<lambda>running_count.
    andthen (printf 1 ''Processes currently running: %d\<newline>'' [AWord (of_int running_count)])
    uexit)"

section \<open>Listing\<close>

text \<open>\<open>fmtname\<close>: the part after the last slash, padded with blanks to \<open>DIRSIZ\<close> characters.\<close>

definition fmtname :: "byte list \<Rightarrow> byte list" where
  "fmtname path = (let p = rev (takeWhile (\<lambda>c. c \<noteq> 0x2F) (rev path)) in
     if length p \<ge> DIRSIZ then p else p @ replicate (DIRSIZ - length p) 0x20)"

definition ls_line :: "byte list \<Rightarrow> byte list \<Rightarrow> unit program" where
  "ls_line path st =
    printf 1 ''%s %d %d %d\<newline>'' [AStr (Some (fmtname path)), AWord (scast (get16 st 0)), AWord (get32 st 8), AWord (get32 st 16)]"

fun ls_dir :: "nat \<Rightarrow> int \<Rightarrow> byte list \<Rightarrow> unit program" where
  "ls_dir 0 fd path = (\<lambda>u. Spin u)"
| "ls_dir (Suc k) fd path =
    bind (uread fd dirent_size) (\<lambda>(n, de).
    if n \<noteq> int dirent_size then return ()
    else if get16 de 0 = 0 then ls_dir k fd path
    else
      let b = path @ [0x2F] @ takeWhile (\<lambda>c. c \<noteq> 0) (slice 2 DIRSIZ de) in
      bind (ustat b) (\<lambda>(r, st).
      andthen (if r < 0 then printf 1 ''ls: cannot stat %s\<newline>'' [AStr (Some b)] else ls_line b st)
      (ls_dir k fd path)))"

definition ls :: "byte list \<Rightarrow> unit program" where
  "ls path =
    bind (ask_int (Open path 0)) (\<lambda>fd.
    if fd < 0 then printf 2 ''ls: cannot open %s\<newline>'' [AStr (Some path)]
    else
      bind (ask (Fstat fd)) (\<lambda>(r, st).
      if r < 0 then andthen (printf 2 ''ls: cannot stat %s\<newline>'' [AStr (Some path)]) (call (Close fd))
      else
        andthen
          (if get16 st 0 = 2 then ls_line path st
           else if get16 st 0 = 1 then
             (if length path + 1 + DIRSIZ + 1 > 512 then printf 1 ''ls: path too long\<newline>'' []
              else while_answers (\<lambda>k. ls_dir k fd path))
           else return ())
        (call (Close fd))))"

definition ls_main :: "byte list list \<Rightarrow> unit program" where
  "ls_main argv =
    (if length argv < 2 then andthen (ls [0x2E]) uexit
     else andthen (foreach (drop 1 argv) ls) uexit)"

section \<open>The first program\<close>

text \<open>\<open>init\<close>: the inner loop waits for the shell, the outer one starts it again.\<close>

fun init_wait :: "nat \<Rightarrow> int \<Rightarrow> unit program" where
  "init_wait 0 pid = (\<lambda>u. Spin u)"
| "init_wait (Suc k) pid =
    bind (ask_int Wait) (\<lambda>wpid.
    if wpid \<ge> 0 \<and> wpid \<noteq> pid then andthen (printf 1 ''zombie!\<newline>'' []) (init_wait k pid) else return ())"

fun init_loop :: "nat \<Rightarrow> unit program" where
  "init_loop 0 = (\<lambda>u. Spin u)"
| "init_loop (Suc k) =
    andthen (printf 1 ''init: starting sh\<newline>'' [])
    (bind (ask_int Fork) (\<lambda>pid.
    if pid < 0 then andthen (printf 1 ''init: fork failed\<newline>'' []) uexit
    else if pid = 0 then
      bind (ask_int (Exec (map of_char ''sh'') [map of_char ''sh''])) (\<lambda>_.
      andthen (printf 1 ''init: exec sh failed\<newline>'' []) uexit)
    else andthen (while_answers (\<lambda>f. init_wait f pid)) (init_loop k)))"

definition init_main :: "unit program" where
  "init_main =
    bind (ask_int (Open (map of_char ''console'') 2)) (\<lambda>fd.
    andthen (do_if (fd < 0)
      (bind (ask_int (Mknod (map of_char ''console'') 1 1)) (\<lambda>_.
      bind (ask_int (Open (map of_char ''console'') 2)) (\<lambda>_. return ()))))
    (bind (ask_int (Dup 0)) (\<lambda>_.
    bind (ask_int (Dup 0)) (\<lambda>_.
    while_answers init_loop))))"

end
