(* ===== verification/Shell.thy ===== *)
theory Shell
  imports User
begin

text \<open>
  \<^verbatim>\<open>sh.c\<close>: the parser of command lines and the interpreter of parsed commands.

  The parser works on the string \<open>b\<close> with positions for pointers into it: \<open>ps\<close> and \<open>es\<close> are
  \<open>i\<close> and \<open>length b\<close>. It ends with a command and the position behind it, or with the message of
  \<open>panic\<close>. The functions call each other recursively; they take the depth of recursion that is
  left, and \<open>shell_parser_total\<close> shows how much is enough. The constructors of commands need
  memory; \<open>malloc\<close> is taken to succeed.
\<close>

section \<open>Tokens\<close>

definition ch :: "byte list \<Rightarrow> nat \<Rightarrow> byte" where
  "ch b i = (if i < length b then b ! i else 0)"

definition whitespace :: "byte list" where
  "whitespace = [0x20, 9, 13, 10, 11]"

definition symbols :: "byte list" where
  "symbols = map of_char ''<|>&;()''"

text \<open>\<open>while(s < es && strchr(whitespace, *s)) s++\<close>\<close>

definition skip_ws :: "byte list \<Rightarrow> nat \<Rightarrow> nat" where
  "skip_ws b i = i + length (takeWhile (\<lambda>c. c \<in> set whitespace) (drop i b))"

definition is_word :: "byte \<Rightarrow> bool" where
  "is_word c \<longleftrightarrow> c \<notin> set whitespace \<and> c \<notin> set symbols"

text \<open>\<open>gettoken\<close>: the kind of the token, its first position, the position behind it, and where the
  next token starts.\<close>

definition gettoken :: "byte list \<Rightarrow> nat \<Rightarrow> byte \<times> nat \<times> nat \<times> nat" where
  "gettoken b i =
    (let q = skip_ws b i; c = ch b q;
       (ret, eq) =
         (if c = 0 then (0, q)
          else if c \<in> set (map of_char ''|();&<'') then (c, q + 1)
          else if c = of_char CHR ''>'' then
            (if ch b (q + 1) = of_char CHR ''>'' then (of_char CHR ''+'', q + 2) else (c, q + 1))
          else (of_char CHR ''a'', q + length (takeWhile is_word (drop q b))))
     in (ret, q, eq, skip_ws b eq))"

definition next_pos_of :: "byte list \<Rightarrow> nat \<Rightarrow> nat" where
  "next_pos_of b i = (case gettoken b i of (_, _, _, j) \<Rightarrow> j)"

definition peek :: "byte list \<Rightarrow> nat \<Rightarrow> string \<Rightarrow> nat \<times> bool" where
  "peek b i toks = (let s = skip_ws b i in (s, ch b s \<noteq> 0 \<and> ch b s \<in> set (map of_char toks)))"

section \<open>Commands\<close>

text \<open>The strings of a command are given by their first position and the one behind them.\<close>

datatype cmd =
    EXEC "(nat \<times> nat) list"
  | REDIR cmd nat nat uint32 int
  | PIPE cmd cmd
  | LIST cmd cmd
  | BACK cmd

datatype presult = Done cmd nat | Fail string | More

text \<open>\<open>parseredirs\<close> as the list of the redirections it finds; see \<open>redirs_on\<close>. \<open>O_WRONLY|O_CREATE\<close>
  is \<open>0x201\<close>, also for \<^verbatim>\<open>>>\<close>.\<close>

type_synonym redir = "nat \<times> nat \<times> uint32 \<times> int"

definition redirs_on :: "cmd \<Rightarrow> redir list \<Rightarrow> cmd" where
  "redirs_on c rs = foldl (\<lambda>c (q, eq, m, f). REDIR c q eq m f) c rs"

lemma skip_ws_ge: "i \<le> skip_ws b i"
  by (simp add: skip_ws_def)

lemma skip_ws_le: "i \<le> length b \<Longrightarrow> skip_ws b i \<le> length b"
  using length_takeWhile_le [of "\<lambda>c. c \<in> set whitespace" "drop i b"] by (simp add: skip_ws_def)

lemma ch_nonzero: "ch b i \<noteq> 0 \<Longrightarrow> i < length b"
  by (auto simp: ch_def split: if_splits)

lemma gettoken_moves:
  assumes "gettoken b i = (t, q, eq, j)" "t \<noteq> 0" "i \<le> length b"
  shows "i < j \<and> j \<le> length b \<and> i \<le> q \<and> q < eq \<and> eq \<le> j"
proof -
  let ?q = "skip_ws b i"
  let ?w = "length (takeWhile is_word (drop ?q b))"
  have q: "q = ?q" "j = skip_ws b eq" using assms(1) by (auto simp: gettoken_def Let_def split: prod.splits if_splits)
  have nz: "ch b ?q \<noteq> 0" using assms(1,2) by (auto simp: gettoken_def Let_def split: if_splits)
  have ql: "?q < length b" by (rule ch_nonzero [OF nz])
  have "0 < ?w" if "is_word (ch b ?q)"
    using ql that by (subst Cons_nth_drop_Suc [symmetric]) (simp_all add: ch_def)
  moreover have "is_word (ch b ?q)" if "ch b ?q \<notin> set (map of_char ''|();&<'')" "ch b ?q \<noteq> of_char CHR ''>''"
  proof -
    have "ch b ?q \<notin> set whitespace"
      using nth_length_takeWhile [of "\<lambda>c. c \<in> set whitespace" "drop (i) b"] ql assms(3) skip_ws_ge [of i b]
      by (auto simp: ch_def skip_ws_def)
    then show ?thesis using that by (auto simp: is_word_def symbols_def)
  qed
  moreover have "?w \<le> length b - ?q" using length_takeWhile_le [of is_word "drop ?q b"] by simp
  ultimately have "?q < eq \<and> eq \<le> length b"
    using assms(1) nz ql ch_nonzero [of b "?q + 1"] by (auto simp: gettoken_def Let_def split: if_splits)
  then show ?thesis using q skip_ws_ge [of i b] skip_ws_ge [of eq b] skip_ws_le [of eq b] by auto
qed


lemma peek_true:
  assumes "peek b i toks = (j, True)"
  shows "i \<le> j \<and> j < length b \<and> ch b j \<in> set (map of_char toks)"
  using assms skip_ws_ge [of i b] ch_nonzero [of b j] by (auto simp: peek_def Let_def)

lemma peek_pos: "peek b i toks = (j, p) \<Longrightarrow> j = skip_ws b i"
  by (simp add: peek_def Let_def)

lemma drop_skip: "drop (i + length (takeWhile P (drop i b))) b = dropWhile P (drop i b)"
  by (metis add.commute drop_drop dropWhile_eq_drop)

lemma takeWhile_dropWhile: "takeWhile P (dropWhile P xs) = []"
  by (induction xs) auto

lemma skip_ws_idem [simp]: "skip_ws b (skip_ws b i) = skip_ws b i"
  by (simp add: skip_ws_def drop_skip takeWhile_dropWhile)

lemma gettoken_peeked:
  assumes "peek b i toks = (j, True)" "gettoken b j = (t, q, eq, k)"
  shows "t \<noteq> 0"
proof -
  have "j = skip_ws b i" by (rule peek_pos [OF assms(1)])
  then have "skip_ws b j = j" by simp
  moreover have "ch b j \<noteq> 0" using assms(1) by (auto simp: peek_def Let_def)
  ultimately show ?thesis using assms(2) by (auto simp: gettoken_def Let_def split: if_splits)
qed

lemma peeked_moves:
  assumes "peek b i toks = (j, True)" "gettoken b j = (t, q, eq, k)"
  shows "i < k \<and> k \<le> length b"
  using gettoken_moves [OF assms(2) gettoken_peeked [OF assms]] peek_true [OF assms(1)] by auto

function parseredirs :: "byte list \<Rightarrow> nat \<Rightarrow> string + (redir list \<times> nat)" where
  "parseredirs b i =
    (let (i1, p) = peek b i ''<>'' in
     if \<not> p then Inr ([], i1)
     else
       let (tok, _, _, i2) = gettoken b i1; (t, q, eq, i3) = gettoken b i2 in
       if t \<noteq> of_char CHR ''a'' then Inl ''missing file for redirection''
       else
         case parseredirs b i3 of
           Inl e \<Rightarrow> Inl e
         | Inr (rs, j) \<Rightarrow> Inr ((if tok = of_char CHR ''<'' then (q, eq, 0, 0) else (q, eq, 0x201, 1)) # rs, j))"
  by pat_completeness auto

termination parseredirs
proof (relation "measure (\<lambda>(b, i). length b - i)", simp, goal_cases)
  case (1 b i x i1 p y tok a q0 a2 c i2 z t d q e eq i3)
  then have p: "peek b i ''<>'' = (i1, True)" "gettoken b i1 = (tok, q0, c, i2)" "gettoken b i2 = (t, q, eq, i3)" "t \<noteq> 0"
    by auto
  show ?case using peeked_moves [OF p(1,2)] gettoken_moves [OF p(3,4)] by auto
qed

declare parseredirs.simps [simp del]

lemma parseredirs_pos:
  "parseredirs b i = Inr (rs, j) \<Longrightarrow> i \<le> j \<and> (i \<le> length b \<longrightarrow> j \<le> length b)"
proof (induction b i arbitrary: rs j rule: parseredirs.induct)
  case (1 b i)
  obtain i1 p where pk: "peek b i ''<>'' = (i1, p)" by fastforce
  obtain tok q0 e0 i2 where g1: "gettoken b i1 = (tok, q0, e0, i2)" by (metis prod_cases4)
  obtain t q eq i3 where g2: "gettoken b i2 = (t, q, eq, i3)" by (metis prod_cases4)
  show ?case
  proof (cases p)
    case False
    then show ?thesis using 1 pk peek_pos [OF pk] skip_ws_ge [of i b] skip_ws_le [of i b]
      by (simp add: parseredirs.simps [of b i])
  next
    case True
    then have pk': "peek b i ''<>'' = (i1, True)" using pk by simp
    have t: "t = of_char CHR ''a''" using 1(2) pk' g1 g2
      by (simp add: parseredirs.simps [of b i] split: if_splits)
    then have tz: "t \<noteq> 0" by simp
    obtain rs' where r: "parseredirs b i3 = Inr (rs', j)"
      using 1(2) pk' g1 g2 t by (auto simp: parseredirs.simps [of b i] split: sum.splits)
    have "i3 \<le> j \<and> (i3 \<le> length b \<longrightarrow> j \<le> length b)"
      by (rule 1(1)) (use pk' g1 g2 t r in auto)
    then show ?thesis using peeked_moves [OF pk' g1] gettoken_moves [OF g2 tz] by auto
  qed
qed

definition MAXARGS :: nat where
  "MAXARGS = 10"

text \<open>The loop of \<open>parseexec\<close>: arguments and redirections from \<open>i\<close> on, with \<open>argc\<close> arguments so far.\<close>

function parse_args :: "byte list \<Rightarrow> nat \<Rightarrow> nat \<Rightarrow> string + ((nat \<times> nat) list \<times> redir list \<times> nat)" where
  "parse_args b i argc =
    (let (i1, p) = peek b i ''|)&;'' in
     if p then Inr ([], [], i1)
     else
       let (tok, q, eq, i2) = gettoken b i1 in
       if tok = 0 then Inr ([], [], i2)
       else if tok \<noteq> of_char CHR ''a'' then Inl ''syntax''
       else if argc + 1 \<ge> MAXARGS then Inl ''too many args''
       else
         case parseredirs b i2 of
           Inl e \<Rightarrow> Inl e
         | Inr (rs, i3) \<Rightarrow>
             (case parse_args b i3 (argc + 1) of
                Inl e \<Rightarrow> Inl e
              | Inr (as, rs', j) \<Rightarrow> Inr ((q, eq) # as, rs @ rs', j)))"
  by pat_completeness auto

termination parse_args
  by (relation "measure (\<lambda>(b, i, argc). MAXARGS - argc)") auto

declare parse_args.simps [simp del]

text \<open>The loop of \<open>parseline\<close> over \<open>&\<close>.\<close>

function parse_back :: "byte list \<Rightarrow> nat \<Rightarrow> cmd \<Rightarrow> cmd \<times> nat" where
  "parse_back b i c =
    (let (i1, p) = peek b i ''&'' in
     if \<not> p then (c, i1) else parse_back b (next_pos_of b i1) (BACK c))"
  by pat_completeness auto

termination parse_back
proof (relation "measure (\<lambda>(b, i, c). length b - i)", simp, goal_cases)
  case (1 b i c x i1 p)
  then have p: "peek b i ''&'' = (i1, True)" by simp
  obtain t q eq k where g: "gettoken b i1 = (t, q, eq, k)" by (metis prod_cases4)
  show ?case using peeked_moves [OF p g] by (auto simp: next_pos_of_def g)
qed

declare parse_back.simps [simp del]

fun parseline :: "nat \<Rightarrow> byte list \<Rightarrow> nat \<Rightarrow> presult"
  and parsepipe :: "nat \<Rightarrow> byte list \<Rightarrow> nat \<Rightarrow> presult"
  and parseexec :: "nat \<Rightarrow> byte list \<Rightarrow> nat \<Rightarrow> presult"
  and parseblock :: "nat \<Rightarrow> byte list \<Rightarrow> nat \<Rightarrow> presult" where
  "parseline 0 b i = More"
| "parseline (Suc n) b i =
    (case parsepipe n b i of
       Done c i1 \<Rightarrow>
         (case parse_back b i1 c of (c, i2) \<Rightarrow>
          let (i3, p) = peek b i2 '';'' in
          if \<not> p then Done c i3
          else
            (case parseline n b (next_pos_of b i3) of
               Done d j \<Rightarrow> Done (LIST c d) j
             | r \<Rightarrow> r))
     | r \<Rightarrow> r)"
| "parsepipe 0 b i = More"
| "parsepipe (Suc n) b i =
    (case parseexec n b i of
       Done c i1 \<Rightarrow>
         (let (i2, p) = peek b i1 ''|'' in
          if \<not> p then Done c i2
          else
            (case parsepipe n b (next_pos_of b i2) of
               Done d j \<Rightarrow> Done (PIPE c d) j
             | r \<Rightarrow> r))
     | r \<Rightarrow> r)"
| "parseexec 0 b i = More"
| "parseexec (Suc n) b i =
    (let (i1, p) = peek b i ''('' in
     if p then parseblock n b i1
     else
       case parseredirs b i1 of
         Inl e \<Rightarrow> Fail e
       | Inr (rs, i2) \<Rightarrow>
           (case parse_args b i2 0 of
              Inl e \<Rightarrow> Fail e
            | Inr (as, rs', j) \<Rightarrow> Done (redirs_on (EXEC as) (rs @ rs')) j))"
| "parseblock 0 b i = More"
| "parseblock (Suc n) b i =
    (let (i1, p) = peek b i ''('' in
     if \<not> p then Fail ''parseblock''
     else
       case parseline n b (next_pos_of b i1) of
         Done c i2 \<Rightarrow>
           (let (i3, p) = peek b i2 '')'' in
            if \<not> p then Fail ''syntax - missing )''
            else
              case parseredirs b (next_pos_of b i3) of
                Inl e \<Rightarrow> Fail e
              | Inr (rs, j) \<Rightarrow> Done (redirs_on c rs) j)
       | r \<Rightarrow> r)"

text \<open>\<open>nulterminate\<close> stores a NUL behind every string of a command.\<close>

fun nulterminate :: "cmd \<Rightarrow> byte list \<Rightarrow> byte list" where
  "nulterminate (EXEC as) b = fold (\<lambda>(q, eq) b. b[eq := 0]) as b"
| "nulterminate (REDIR c q eq m f) b = (nulterminate c b)[eq := 0]"
| "nulterminate (PIPE l r) b = nulterminate r (nulterminate l b)"
| "nulterminate (LIST l r) b = nulterminate r (nulterminate l b)"
| "nulterminate (BACK c) b = nulterminate c b"

section \<open>Running commands\<close>

definition upanic :: "string \<Rightarrow> 'a program" where
  "upanic m = andthen (printf 2 ''%s\<newline>'' [AStr (Some (map of_char m))]) uexit"

definition parse_fuel :: "byte list \<Rightarrow> nat" where
  "parse_fuel b = 4 * length b + 4"

text \<open>\<open>parsecmd\<close> returns the command and the buffer with its strings terminated.\<close>

definition parsecmd :: "byte list \<Rightarrow> (cmd \<times> byte list) program" where
  "parsecmd b =
    (case parseline (parse_fuel b) b 0 of
       Done c i \<Rightarrow>
         (let (i1, _) = peek b i [] in
          if i1 \<noteq> length b then andthen (printf 2 ''leftovers: %s\<newline>'' [AStr (Some (drop i1 b))]) (upanic ''syntax'')
          else return (c, nulterminate c b))
     | Fail e \<Rightarrow> upanic e
     | More \<Rightarrow> (\<lambda>u. Spin u))"

definition fork1 :: "int program" where
  "fork1 = bind (ask_int Fork) (\<lambda>pid. if pid = - 1 then upanic ''fork'' else return pid)"

definition str_at :: "byte list \<Rightarrow> nat \<Rightarrow> byte list" where
  "str_at b q = takeWhile (\<lambda>c. c \<noteq> 0) (drop q b)"

fun runcmd :: "byte list \<Rightarrow> cmd \<Rightarrow> unit program" where
  "runcmd b (EXEC as) =
    (case as of
       [] \<Rightarrow> uexit
     | (q, eq) # _ \<Rightarrow>
         bind (ask_int (Exec (str_at b q) (map (\<lambda>(q, eq). str_at b q) as))) (\<lambda>_.
         andthen (printf 2 ''exec %s failed\<newline>'' [AStr (Some (str_at b q))]) uexit))"
| "runcmd b (REDIR c q eq m fd) =
    andthen (call (Close fd))
    (bind (ask_int (Open (str_at b q) m)) (\<lambda>r.
    if r < 0 then andthen (printf 2 ''open %s failed\<newline>'' [AStr (Some (str_at b q))]) uexit
    else runcmd b c))"
| "runcmd b (LIST l r) =
    bind fork1 (\<lambda>pid.
    if pid = 0 then runcmd b l
    else bind (ask_int Wait) (\<lambda>_. runcmd b r))"
| "runcmd b (PIPE l r) =
    bind (ask Pipe) (\<lambda>(res, ps).
    if res < 0 then upanic ''pipe''
    else
      let p0 = sint (get32 ps 0); p1 = sint (get32 ps 4) in
      bind fork1 (\<lambda>pid.
      if pid = 0 then
        andthen (call (Close 1))
        (bind (ask_int (Dup p1)) (\<lambda>_.
        andthen (call (Close p0))
        (andthen (call (Close p1))
        (runcmd b l))))
      else
        bind fork1 (\<lambda>pid.
        if pid = 0 then
          andthen (call (Close 0))
          (bind (ask_int (Dup p0)) (\<lambda>_.
          andthen (call (Close p0))
          (andthen (call (Close p1))
          (runcmd b r))))
        else
          andthen (call (Close p0))
          (andthen (call (Close p1))
          (bind (ask_int Wait) (\<lambda>_.
          bind (ask_int Wait) (\<lambda>_.
          uexit)))))))"
| "runcmd b (BACK c) = bind fork1 (\<lambda>pid. if pid = 0 then runcmd b c else uexit)"

text \<open>\<open>getcmd\<close>: the line read into a cleared buffer of \<open>n\<close> bytes, \<open>None\<close> at the end of the input.\<close>

definition getcmd :: "nat \<Rightarrow> byte list option program" where
  "getcmd n =
    andthen (printf 2 ''$ '' [])
    (bind (ugets n) (\<lambda>b. return (if b = [] \<or> hd b = 0 then None else Some (takeWhile (\<lambda>c. c \<noteq> 0) b))))"

fun sh_open :: "nat \<Rightarrow> unit program" where
  "sh_open 0 = (\<lambda>u. Spin u)"
| "sh_open (Suc k) =
    bind (ask_int (Open (map of_char ''console'') 2)) (\<lambda>fd.
    if fd < 0 then return ()
    else if fd \<ge> 3 then call (Close fd)
    else sh_open k)"

fun sh_loop :: "nat \<Rightarrow> unit program" where
  "sh_loop 0 = (\<lambda>u. Spin u)"
| "sh_loop (Suc k) =
    bind (getcmd 100) (\<lambda>r.
    case r of
      None \<Rightarrow> uexit
    | Some b \<Rightarrow>
        if take 3 b = map of_char ''cd '' then
          let d = drop 3 (butlast b) in
          bind (ask_int (Chdir d)) (\<lambda>r.
          andthen (do_if (r < 0) (printf 2 ''cannot cd %s\<newline>'' [AStr (Some d)]))
          (sh_loop k))
        else
          bind fork1 (\<lambda>pid.
          if pid = 0 then bind (parsecmd b) (\<lambda>(c, b'). runcmd b' c)
          else bind (ask_int Wait) (\<lambda>_. sh_loop k)))"

definition sh_main :: "unit program" where
  "sh_main = andthen (while_answers sh_open) (while_answers sh_loop)"

end
