(* ===== verification/Shell_Parse.thy ===== *)
theory Shell_Parse
  imports Shell
begin

text \<open>
  The parser of the shell: it ends for every input within the recursion depth that \<open>parsecmd\<close>
  gives it, and it reads back every command line written in the shell's syntax.
\<close>

section \<open>The parser ends\<close>

lemma next_pos_peeked:
  assumes "peek b i toks = (j, True)"
  shows "i < next_pos_of b j \<and> next_pos_of b j \<le> length b"
proof -
  obtain t q eq k where g: "gettoken b j = (t, q, eq, k)" by (metis prod_cases4)
  show ?thesis using peeked_moves [OF assms g] by (simp add: next_pos_of_def g)
qed

lemma peek_bounds: "peek b i toks = (j, p) \<Longrightarrow> i \<le> length b \<Longrightarrow> i \<le> j \<and> j \<le> length b"
  using peek_pos [of b i toks j p] skip_ws_ge [of i b] skip_ws_le [of i b] by simp

lemma gettoken_end: "gettoken b i = (0, q, eq, j) \<Longrightarrow> i \<le> length b \<Longrightarrow> i \<le> j \<and> j \<le> length b"
  using skip_ws_ge [of i b] skip_ws_le [of i b] by (auto simp: gettoken_def Let_def split: if_splits)

lemma parse_args_pos:
  "parse_args b i argc = Inr (as, rs, j) \<Longrightarrow> i \<le> length b \<Longrightarrow> i \<le> j \<and> j \<le> length b"
proof (induction b i argc arbitrary: as rs j rule: parse_args.induct)
  case (1 b i argc)
  obtain i1 p where pk: "peek b i ''|)&;'' = (i1, p)" by fastforce
  obtain tok q eq i2 where g: "gettoken b i1 = (tok, q, eq, i2)" by (metis prod_cases4)
  note i1 = peek_bounds [OF pk 1(3)]
  show ?case
  proof (cases "p \<or> tok = 0")
    case True
    then show ?thesis using 1(2) pk g i1 gettoken_end [of b i1 q eq i2]
      by (auto simp: parse_args.simps [of b i] split: if_splits)
  next
    case False
    then have tz: "tok \<noteq> 0" and np: "\<not> p" by auto
    from 1(2) False obtain rs1 i3 as2 rs2 where r: "parseredirs b i2 = Inr (rs1, i3)" "parse_args b i3 (argc + 1) = Inr (as2, rs2, j)"
      "tok = of_char CHR ''a''" "\<not> argc + 1 \<ge> MAXARGS"
      by (auto simp: parse_args.simps [of b i] pk g split: if_splits sum.splits prod.splits)
    have i2: "i1 < i2" "i2 \<le> length b" using gettoken_moves [OF g tz] i1 by auto
    then have i3: "i2 \<le> i3" "i3 \<le> length b" using parseredirs_pos [OF r(1)] by auto
    have "i3 \<le> j \<and> j \<le> length b"
      by (rule 1(1)) (use pk g r False np i3 in auto)
    then show ?thesis using i1 i2 i3 by auto
  qed
qed

lemma parse_back_pos:
  "parse_back b i c = (d, j) \<Longrightarrow> i \<le> length b \<Longrightarrow> i \<le> j \<and> j \<le> length b"
proof (induction b i c arbitrary: d j rule: parse_back.induct)
  case (1 b i c)
  obtain i1 p where pk: "peek b i ''&'' = (i1, p)" by fastforce
  show ?case
  proof (cases p)
    case True
    with pk have pk': "peek b i ''&'' = (i1, True)" by simp
    note n = next_pos_peeked [OF pk']
    have "next_pos_of b i1 \<le> j \<and> j \<le> length b"
      by (rule 1(1)) (use 1(2) pk' n in \<open>auto simp: parse_back.simps [of b i]\<close>)
    then show ?thesis using n by auto
  next
    case False
    then show ?thesis using 1 pk peek_bounds [OF pk] by (simp add: parse_back.simps [of b i])
  qed
qed

definition ends_well :: "byte list \<Rightarrow> nat \<Rightarrow> presult \<Rightarrow> bool" where
  "ends_well b i r \<longleftrightarrow> (case r of Done c j \<Rightarrow> i \<le> j \<and> j \<le> length b | Fail e \<Rightarrow> True | More \<Rightarrow> False)"

lemma ends_wellE:
  assumes "ends_well b i r"
  obtains c j where "r = Done c j" "i \<le> j" "j \<le> length b" | e where "r = Fail e"
  using assms by (cases r) (auto simp: ends_well_def)

lemma ends_well_simps [simp]: "ends_well b i (Fail e)" "ends_well b i (Done c j) \<longleftrightarrow> i \<le> j \<and> j \<le> length b" "\<not> ends_well b i More"
  by (simp_all add: ends_well_def)

lemma line_ends:
  assumes "ends_well b i (parsepipe n b i)" "i \<le> length b"
    and "\<And>k. i < k \<Longrightarrow> k \<le> length b \<Longrightarrow> ends_well b k (parseline n b k)"
  shows "ends_well b i (parseline (Suc n) b i)"
  using assms(1)
proof (cases rule: ends_wellE)
  case (1 c i1)
  obtain d i2 where bk: "parse_back b i1 c = (d, i2)" by fastforce
  obtain i3 p where pk: "peek b i2 '';'' = (i3, p)" by fastforce
  note i2 = parse_back_pos [OF bk 1(3)]
  then have i3: "i2 \<le> i3" "i3 \<le> length b" using peek_bounds [OF pk] by auto
  show ?thesis
  proof (cases p)
    case True
    with pk have "peek b i2 '';'' = (i3, True)" by simp
    from next_pos_peeked [OF this] have k: "i < next_pos_of b i3" "next_pos_of b i3 \<le> length b" using 1 i2 by auto
    from assms(3) [OF this] show ?thesis
      by (cases rule: ends_wellE) (use 1 bk pk True k in auto)
  qed (use 1 bk pk i2 i3 in auto)
qed simp

lemma pipe_ends:
  assumes "ends_well b i (parseexec n b i)" "i \<le> length b"
    and "\<And>k. i < k \<Longrightarrow> k \<le> length b \<Longrightarrow> ends_well b k (parsepipe n b k)"
  shows "ends_well b i (parsepipe (Suc n) b i)"
  using assms(1)
proof (cases rule: ends_wellE)
  case (1 c i1)
  obtain i2 p where pk: "peek b i1 ''|'' = (i2, p)" by fastforce
  have i2: "i1 \<le> i2" "i2 \<le> length b" using peek_bounds [OF pk 1(3)] by auto
  show ?thesis
  proof (cases p)
    case True
    with pk have "peek b i1 ''|'' = (i2, True)" by simp
    from next_pos_peeked [OF this] have k: "i < next_pos_of b i2" "next_pos_of b i2 \<le> length b" using 1 by auto
    from assms(3) [OF this] show ?thesis
      by (cases rule: ends_wellE) (use 1 pk True k in auto)
  qed (use 1 pk i2 in auto)
qed simp

lemma exec_ends:
  assumes "i \<le> length b" "\<And>k. i \<le> k \<Longrightarrow> peek b k ''('' = (k, True) \<Longrightarrow> k \<le> length b \<Longrightarrow> ends_well b k (parseblock n b k)"
  shows "ends_well b i (parseexec (Suc n) b i)"
proof -
  obtain i1 p where pk: "peek b i ''('' = (i1, p)" by fastforce
  have i1: "i \<le> i1" "i1 \<le> length b" using peek_bounds [OF pk assms(1)] by auto
  show ?thesis
  proof (cases p)
    case True
    have "peek b i1 ''('' = (i1, True)" using pk True peek_pos [OF pk] by (auto simp: peek_def Let_def)
    from assms(2) [OF i1(1) this i1(2)] show ?thesis
      by (cases rule: ends_wellE) (use pk True i1 in auto)
  next
    case False
    show ?thesis
    proof (cases "parseredirs b i1")
      case (Inl e)
      then show ?thesis using pk False by simp
    next
      case (Inr r)
      obtain rs i2 where r: "r = (rs, i2)" by fastforce
      have i2: "i1 \<le> i2" "i2 \<le> length b" using parseredirs_pos [OF Inr [unfolded r]] i1 by auto
      show ?thesis
        using pk False Inr r i1 i2 parse_args_pos [of b i2 0] by (auto split: sum.splits prod.splits)
    qed
  qed
qed

lemma block_ends:
  assumes "peek b i ''('' = (i, True)" "\<And>k. i < k \<Longrightarrow> k \<le> length b \<Longrightarrow> ends_well b k (parseline n b k)"
  shows "ends_well b i (parseblock (Suc n) b i)"
proof -
  have k: "i < next_pos_of b i" "next_pos_of b i \<le> length b" using next_pos_peeked [OF assms(1)] by auto
  from assms(2) [OF this] show ?thesis
  proof (cases rule: ends_wellE)
    case (1 c i2)
    obtain i3 p where pk: "peek b i2 '')'' = (i3, p)" by fastforce
    show ?thesis
    proof (cases p)
      case True
      with pk have "peek b i2 '')'' = (i3, True)" by simp
      from next_pos_peeked [OF this] 1 k have j: "i < next_pos_of b i3" "next_pos_of b i3 \<le> length b" by auto
      then show ?thesis using assms(1) 1 pk True parseredirs_pos [of b "next_pos_of b i3"] by (auto split: sum.splits prod.splits)
    qed (use assms(1) 1 pk in auto)
  qed (use assms(1) in auto)
qed

lemma parser_ends:
  assumes "i \<le> length b"
  shows "4 * (length b - i) + 4 \<le> n \<Longrightarrow> ends_well b i (parseline n b i)"
    and "4 * (length b - i) + 3 \<le> n \<Longrightarrow> ends_well b i (parsepipe n b i)"
    and "4 * (length b - i) + 2 \<le> n \<Longrightarrow> ends_well b i (parseexec n b i)"
    and "4 * (length b - i) + 1 \<le> n \<Longrightarrow> peek b i ''('' = (i, True) \<Longrightarrow> ends_well b i (parseblock n b i)"
  using assms
proof (induction n arbitrary: i)
  case (Suc n)
  { case 1 then show ?case by (intro line_ends Suc.IH) auto
  next case 2 then show ?case by (intro pipe_ends Suc.IH) auto
  next case 3 then show ?case by (intro exec_ends Suc.IH) auto
  next case 4 then show ?case by (intro block_ends Suc.IH) auto }
qed simp_all

text \<open>
  C24. The parser of the shell ends on every command line: the recursion depth of \<open>parsecmd\<close>,
  which grows linearly with the line, is never used up, so that parsing either gives a command
  or an error message, and a command is never parsed beyond the end of the line.
\<close>

theorem shell_parser_total:
  "(\<exists>c j. parseline (parse_fuel b) b 0 = Done c j \<and> j \<le> length b) \<or> (\<exists>e. parseline (parse_fuel b) b 0 = Fail e)"
proof -
  have "ends_well b 0 (parseline (parse_fuel b) b 0)" by (rule parser_ends(1)) (simp_all add: parse_fuel_def)
  then show ?thesis by (cases rule: ends_wellE) auto
qed

section \<open>Command lines and their meaning\<close>

text \<open>The syntax of the shell: a line is a sequence of pipelines, each sent to the background \<open>n\<close>
  times; a pipeline is a sequence of simple commands; a simple command is a list of words and
  redirections, or a line in parentheses.\<close>

datatype redirn = RIn "byte list" | ROut "byte list" | RApp "byte list"

datatype line = Line pipeline nat | Seq pipeline nat line
  and pipeline = One simple | Bar simple pipeline
  and simple = Simple "redirn list" "(byte list \<times> redirn list) list" | Group line "redirn list"

datatype acmd =
    AExec "byte list list" | ARedir acmd "byte list" uint32 int | APipe acmd acmd | AList acmd acmd | ABack acmd

fun redir_file :: "redirn \<Rightarrow> byte list \<times> uint32 \<times> int" where
  "redir_file (RIn w) = (w, 0, 0)"
| "redir_file (ROut w) = (w, 0x201, 1)"
| "redir_file (RApp w) = (w, 0x201, 1)"

definition redirected :: "acmd \<Rightarrow> redirn list \<Rightarrow> acmd" where
  "redirected c rs = foldl (\<lambda>c r. case redir_file r of (w, m, f) \<Rightarrow> ARedir c w m f) c rs"

fun sem_line :: "line \<Rightarrow> acmd" and sem_pipe :: "pipeline \<Rightarrow> acmd" and sem_simple :: "simple \<Rightarrow> acmd" where
  "sem_line (Line p n) = (ABack ^^ n) (sem_pipe p)"
| "sem_line (Seq p n l) = AList ((ABack ^^ n) (sem_pipe p)) (sem_line l)"
| "sem_pipe (One s) = sem_simple s"
| "sem_pipe (Bar s p) = APipe (sem_simple s) (sem_pipe p)"
| "sem_simple (Simple rs ws) = redirected (AExec (map fst ws)) (rs @ concat (map snd ws))"
| "sem_simple (Group l rs) = redirected (sem_line l) rs"

text \<open>Writing a line: its tokens, each followed by a blank.\<close>

datatype tok = TSym string | TWord "byte list"

fun toks_redir :: "redirn \<Rightarrow> tok list" where
  "toks_redir (RIn w) = [TSym ''<'', TWord w]"
| "toks_redir (ROut w) = [TSym ''>'', TWord w]"
| "toks_redir (RApp w) = [TSym ''>>'', TWord w]"

fun toks_line :: "line \<Rightarrow> tok list" and toks_pipe :: "pipeline \<Rightarrow> tok list" and toks_simple :: "simple \<Rightarrow> tok list" where
  "toks_line (Line p n) = toks_pipe p @ replicate n (TSym ''&'')"
| "toks_line (Seq p n l) = toks_pipe p @ replicate n (TSym ''&'') @ TSym '';'' # toks_line l"
| "toks_pipe (One s) = toks_simple s"
| "toks_pipe (Bar s p) = toks_simple s @ TSym ''|'' # toks_pipe p"
| "toks_simple (Simple rs ws) = concat (map toks_redir rs) @ concat (map (\<lambda>(w, rs). TWord w # concat (map toks_redir rs)) ws)"
| "toks_simple (Group l rs) = TSym ''('' # toks_line l @ TSym '')'' # concat (map toks_redir rs)"

fun tok_text :: "tok \<Rightarrow> byte list" where
  "tok_text (TSym x) = map of_char x"
| "tok_text (TWord w) = w"

definition render :: "tok list \<Rightarrow> byte list" where
  "render ts = concat (map (\<lambda>t. tok_text t @ [0x20]) ts)"

definition print_line :: "line \<Rightarrow> byte list" where
  "print_line l = render (toks_line l)"

text \<open>What can be written: words of ordinary characters, and fewer than \<open>MAXARGS\<close> of them in a command.\<close>

definition good_word :: "byte list \<Rightarrow> bool" where
  "good_word w \<longleftrightarrow> w \<noteq> [] \<and> (\<forall>c \<in> set w. is_word c \<and> c \<noteq> 0)"

definition good_redir :: "redirn \<Rightarrow> bool" where
  "good_redir r \<longleftrightarrow> good_word (fst (redir_file r))"

fun good_line :: "line \<Rightarrow> bool" and good_pipe :: "pipeline \<Rightarrow> bool" and good_simple :: "simple \<Rightarrow> bool" where
  "good_line (Line p n) \<longleftrightarrow> good_pipe p"
| "good_line (Seq p n l) \<longleftrightarrow> good_pipe p \<and> good_line l"
| "good_pipe (One s) \<longleftrightarrow> good_simple s"
| "good_pipe (Bar s p) \<longleftrightarrow> good_simple s \<and> good_pipe p"
| "good_simple (Simple rs ws) \<longleftrightarrow> list_all good_redir rs \<and> list_all (\<lambda>(w, rs). good_word w \<and> list_all good_redir rs) ws
     \<and> length ws < MAXARGS"
| "good_simple (Group l rs) \<longleftrightarrow> good_line l \<and> list_all good_redir rs"

section \<open>Tokens of a written line\<close>

definition good_tok :: "tok \<Rightarrow> bool" where
  "good_tok t \<longleftrightarrow> (case t of TSym x \<Rightarrow> x \<in> {''<'', ''>'', ''>>'', ''|'', ''&'', '';'', ''('', '')''} | TWord w \<Rightarrow> good_word w)"

definition tok_kind :: "tok \<Rightarrow> byte" where
  "tok_kind t = (case t of TSym x \<Rightarrow> if x = ''>>'' then of_char CHR ''+'' else of_char (hd x) | TWord w \<Rightarrow> of_char CHR ''a'')"

definition at :: "byte list \<Rightarrow> nat \<Rightarrow> tok list \<Rightarrow> bool" where
  "at b i ts \<longleftrightarrow> drop i b = render ts \<and> i \<le> length b \<and> list_all good_tok ts"

lemma render_simps [simp]: "render [] = []" "render (t # ts) = tok_text t @ 0x20 # render ts"
  by (simp_all add: render_def)

lemma good_tok_text: "good_tok t \<Longrightarrow> tok_text t \<noteq> [] \<and> hd (tok_text t) \<notin> set whitespace \<and> hd (tok_text t) \<noteq> 0"
  by (cases t) (auto simp: good_tok_def good_word_def is_word_def whitespace_def split: if_splits)

lemma at_start:
  assumes "at b i ts"
  shows "skip_ws b i = i"
proof (cases ts)
  case Nil
  then show ?thesis using assms by (simp add: at_def skip_ws_def)
next
  case (Cons t ts')
  then have "tok_text t \<noteq> []" "hd (tok_text t) \<notin> set whitespace" using assms good_tok_text [of t] by (simp_all add: at_def)
  then show ?thesis using assms Cons by (cases "tok_text t") (auto simp: at_def skip_ws_def)
qed

lemma at_next:
  assumes "at b i (t # ts)"
  shows "at b (i + length (tok_text t) + 1) ts" "skip_ws b (i + length (tok_text t)) = i + length (tok_text t) + 1"
    "i + length (tok_text t) < length b" "b ! (i + length (tok_text t)) = 0x20" "take (length (tok_text t)) (drop i b) = tok_text t"
proof -
  let ?e = "i + length (tok_text t)"
  have d: "drop i b = tok_text t @ 0x20 # render ts" "list_all good_tok ts" using assms by (simp_all add: at_def)
  have "drop (length (tok_text t)) (drop i b) = 0x20 # render ts" unfolding d(1) by simp
  then have e: "drop ?e b = 0x20 # render ts" by (simp add: add.commute)
  then show le: "?e < length b" by (metis drop_all linorder_not_less list.distinct(1))
  show "b ! ?e = 0x20" using e le by (metis Cons_nth_drop_Suc list.inject)
  have "drop (?e + 1) b = drop 1 (drop ?e b)" by (simp add: add.commute)
  then show n: "at b (?e + 1) ts" using e le d(2) by (simp add: at_def)
  have "takeWhile (\<lambda>c. c \<in> set whitespace) (drop ?e b) = 0x20 # takeWhile (\<lambda>c. c \<in> set whitespace) (drop (?e + 1) b)"
    using e \<open>drop (?e + 1) b = drop 1 (drop ?e b)\<close> by (simp add: whitespace_def)
  then show "skip_ws b ?e = ?e + 1" using at_start [OF n] by (simp add: skip_ws_def)
  show "take (length (tok_text t)) (drop i b) = tok_text t" using d(1) by simp
qed

lemma ch_at: "at b i (t # ts) \<Longrightarrow> ch b i = hd (tok_text t)"
proof -
  assume a: "at b i (t # ts)"
  have "tok_text t \<noteq> []" using a good_tok_text [of t] by (simp add: at_def)
  moreover have "i < length b" using at_next(3) [OF a] by simp
  ultimately show ?thesis using at_next(5) [OF a] by (metis ch_def hd_drop_conv_nth hd_take length_greater_0_conv)
qed

lemma ch_drop: "ch b (i + k) = (if k < length (drop i b) then drop i b ! k else 0)"
  by (auto simp: ch_def)

lemma gettoken_at:
  assumes "at b i (t # ts)"
  shows "gettoken b i = (tok_kind t, i, i + length (tok_text t), i + length (tok_text t) + 1)"
proof (cases t)
  case (TSym x)
  have x: "x \<in> {''<'', ''>'', ''>>'', ''|'', ''&'', '';'', ''('', '')''}" using assms TSym by (simp add: at_def good_tok_def)
  have c: "ch b i = of_char (hd x)" using ch_at [OF assms] x TSym by auto
  have d: "drop i b = map of_char x @ 0x20 # render ts" using assms TSym by (simp add: at_def)
  have "ch b (i + 1) = (if x = ''>>'' then of_char CHR ''>'' else 0x20)"
    unfolding ch_drop d using x by auto
  moreover note at_start [OF assms] at_next(2) [OF assms, unfolded TSym]
  ultimately show ?thesis using x c TSym by (auto simp: gettoken_def Let_def tok_kind_def)
next
  case (TWord w)
  have w: "good_word w" using assms TWord by (simp add: at_def good_tok_def)
  have d: "drop i b = w @ 0x20 # render ts" using assms TWord by (simp add: at_def)
  have c: "is_word (ch b i)" "ch b i \<noteq> 0" using ch_at [OF assms] w TWord by (auto simp: good_word_def)
  have "takeWhile is_word (drop i b) = w"
    unfolding d using w by (simp add: good_word_def takeWhile_append2 is_word_def whitespace_def)
  moreover have "ch b i \<notin> set symbols" using c by (simp add: is_word_def)
  moreover note at_start [OF assms] at_next(2) [OF assms, unfolded TWord]
  ultimately show ?thesis using c TWord by (auto simp: gettoken_def Let_def tok_kind_def symbols_def)
qed

lemma gettoken_at_end: "at b i [] \<Longrightarrow> gettoken b i = (0, i, i, i)"
  using at_start [of b i "[]"] by (simp add: gettoken_def Let_def at_def ch_def)

lemma next_at: "at b i (t # ts) \<Longrightarrow> at b (next_pos_of b i) ts"
  using gettoken_at [of b i t ts] at_next(1) [of b i t ts] by (simp add: next_pos_of_def)

definition starts_with :: "string \<Rightarrow> tok list \<Rightarrow> bool" where
  "starts_with s ts \<longleftrightarrow> (\<exists>x ts'. ts = TSym x # ts' \<and> hd x \<in> set s)"

lemma sym_inj: "inj_on (of_char :: char \<Rightarrow> byte) (set ''<|>&;()'')"
  by (simp add: inj_on_def)

lemma peek_at:
  assumes "at b i ts" "set s \<subseteq> set ''<|>&;()''"
  shows "peek b i s = (i, starts_with s ts)"
proof (cases ts)
  case Nil
  then have "ch b i = 0" using assms by (simp add: at_def ch_def)
  then show ?thesis using at_start [OF assms(1)] Nil by (simp add: peek_def starts_with_def)
next
  case (Cons t ts')
  have c: "ch b i = hd (tok_text t)" by (rule ch_at) (use assms Cons in simp)
  have g: "good_tok t" using assms Cons by (simp add: at_def)
  show ?thesis
  proof (cases t)
    case (TSym x)
    have x: "x \<noteq> []" "of_char (hd x) \<noteq> (0 :: byte)" "hd x \<in> set ''<|>&;()''" using g TSym by (auto simp: good_tok_def)
    have "of_char (hd x) \<in> (of_char :: char \<Rightarrow> byte) ` set s \<longleftrightarrow> hd x \<in> set s"
      using x(3) assms(2) sym_inj by (auto simp: subset_iff inj_on_def)
    then show ?thesis
      using at_start [OF assms(1)] Cons TSym c x by (auto simp: peek_def Let_def starts_with_def hd_map)
  next
    case (TWord w)
    then have "is_word (ch b i)" using g c by (auto simp: good_tok_def good_word_def)
    then have "ch b i \<notin> set (map of_char s)" using assms(2) by (auto simp: is_word_def symbols_def)
    then show ?thesis using at_start [OF assms(1)] Cons TWord by (auto simp: peek_def Let_def starts_with_def)
  qed
qed

section \<open>Reading back\<close>

text \<open>The positions \<open>q\<close> and \<open>eq\<close> delimit the word \<open>w\<close> of the line, with a blank behind it.\<close>

definition word_at :: "byte list \<Rightarrow> nat \<Rightarrow> nat \<Rightarrow> byte list \<Rightarrow> bool" where
  "word_at b q eq w \<longleftrightarrow> eq = q + length w \<and> take (length w) (drop q b) = w \<and> good_word w \<and> eq < length b \<and> b ! eq = 0x20"

fun means :: "byte list \<Rightarrow> cmd \<Rightarrow> acmd \<Rightarrow> bool" where
  "means b (EXEC as) (AExec ws) \<longleftrightarrow> list_all2 (\<lambda>(q, eq) w. word_at b q eq w) as ws"
| "means b (REDIR c q eq m f) (ARedir a w m' f') \<longleftrightarrow> means b c a \<and> word_at b q eq w \<and> m' = m \<and> f' = f"
| "means b (PIPE c d) (APipe a e) \<longleftrightarrow> means b c a \<and> means b d e"
| "means b (LIST c d) (AList a e) \<longleftrightarrow> means b c a \<and> means b d e"
| "means b (BACK c) (ABack a) \<longleftrightarrow> means b c a"
| "means b c a \<longleftrightarrow> False"

definition redir_means :: "byte list \<Rightarrow> redir \<Rightarrow> redirn \<Rightarrow> bool" where
  "redir_means b x r \<longleftrightarrow> (case x of (q, eq, m, f) \<Rightarrow> case redir_file r of (w, m', f') \<Rightarrow> word_at b q eq w \<and> m = m' \<and> f = f')"

lemma means_redirs:
  "means b c a \<Longrightarrow> list_all2 (redir_means b) xs rs \<Longrightarrow> means b (redirs_on c xs) (redirected a rs)"
proof (induction xs arbitrary: c a rs)
  case (Cons x xs)
  then obtain r rs' where r: "rs = r # rs'" "redir_means b x r" "list_all2 (redir_means b) xs rs'" by (auto simp: list_all2_Cons1)
  then show ?case using Cons by (cases x; cases "redir_file r") (auto simp: redirs_on_def redirected_def redir_means_def)
qed (simp add: redirs_on_def redirected_def)

lemma means_back: "means b c a \<Longrightarrow> means b ((BACK ^^ n) c) ((ABack ^^ n) a)"
  by (induction n) auto

lemma word_at_tok: "at b i (TWord w # ts) \<Longrightarrow> word_at b i (i + length w) w"
  using at_next [of b i "TWord w" ts] by (simp add: word_at_def at_def good_tok_def)

lemma good_tok_redir: "good_redir r \<Longrightarrow> list_all good_tok (toks_redir r)"
  by (cases r) (auto simp: good_redir_def good_tok_def)

lemma parseredirs_at:
  assumes "at b i (concat (map toks_redir rs) @ ts)" "\<not> starts_with ''<>'' ts"
  shows "\<exists>xs j. parseredirs b i = Inr (xs, j) \<and> at b j ts \<and> list_all2 (redir_means b) xs rs"
  using assms(1)
proof (induction rs arbitrary: i)
  case Nil
  then show ?case using peek_at [of b i ts "''<>''"] assms(2) by (simp add: parseredirs.simps [of b i])
next
  case (Cons r rs)
  let ?ts = "concat (map toks_redir rs) @ ts"
  obtain x w where r: "toks_redir r = [TSym x, TWord w]" "redir_file r = (if x = ''<'' then (w, 0, 0) else (w, 0x201, 1))" "x \<in> {''<'', ''>'', ''>>''}"
    by (cases r) auto
  have a1: "at b i (TSym x # TWord w # ?ts)" using Cons.prems r(1) by simp
  have p: "peek b i ''<>'' = (i, True)" using peek_at [OF a1, of "''<>''"] r(3) by (auto simp: starts_with_def)
  obtain i2 where g1: "gettoken b i = (tok_kind (TSym x), i, i + length x, i2)" and a2: "at b i2 (TWord w # ?ts)"
    using gettoken_at [OF a1] at_next(1) [OF a1] by auto
  obtain i3 where g2: "gettoken b i2 = (of_char CHR ''a'', i2, i2 + length w, i3)" and a3: "at b i3 ?ts"
    using gettoken_at [OF a2] at_next(1) [OF a2] by (auto simp: tok_kind_def)
  from Cons.IH [OF a3] obtain xs j where ih: "parseredirs b i3 = Inr (xs, j)" "at b j ts" "list_all2 (redir_means b) xs rs" by blast
  have k: "tok_kind (TSym x) = of_char CHR ''<'' \<longleftrightarrow> x = ''<''" using r(3) by (auto simp: tok_kind_def)
  have "redir_means b (if x = ''<'' then (i2, i2 + length w, 0, 0) else (i2, i2 + length w, 0x201, 1)) r"
    using r(2) word_at_tok [OF a2] by (simp add: redir_means_def)
  then show ?case
    using p g1 g2 ih k by (simp add: parseredirs.simps [of b i])
qed

definition follow :: "tok list \<Rightarrow> bool" where
  "follow ts \<longleftrightarrow> ts = [] \<or> starts_with ''|)&;'' ts"

lemma follow_not: "follow ts \<Longrightarrow> \<not> starts_with ''<>'' ts" "follow ts \<Longrightarrow> \<not> starts_with ''('' ts"
  by (auto simp: follow_def starts_with_def)

lemma words_not_redir:
  assumes "follow ts"
  shows "\<not> starts_with ''<>'' (concat (map (\<lambda>(w, rs). TWord w # concat (map toks_redir rs)) ws) @ ts)"
  using follow_not [OF assms] by (cases ws) (auto simp: starts_with_def)

lemma parse_args_at:
  assumes "at b i (concat (map (\<lambda>(w, rs). TWord w # concat (map toks_redir rs)) ws) @ ts)" "follow ts" "argc + length ws < MAXARGS"
  shows "\<exists>as xs j. parse_args b i argc = Inr (as, xs, j) \<and> at b j ts \<and> list_all2 (\<lambda>(q, eq) w. word_at b q eq w) as (map fst ws)
     \<and> list_all2 (redir_means b) xs (concat (map snd ws))"
  using assms(1,3)
proof (induction ws arbitrary: i argc)
  case Nil
  then have a: "at b i ts" by simp
  show ?case
  proof (cases "ts = []")
    case True
    then show ?thesis using a peek_at [OF a, of "''|)&;''"] gettoken_at_end [of b i]
      by (simp add: parse_args.simps [of b i] starts_with_def)
  next
    case False
    then have "starts_with ''|)&;'' ts" using assms(2) by (simp add: follow_def)
    then show ?thesis using a peek_at [OF a, of "''|)&;''"] by (simp add: parse_args.simps [of b i])
  qed
next
  case (Cons x ws)
  obtain w rs where x: "x = (w, rs)" by fastforce
  let ?ws = "concat (map (\<lambda>(w, rs). TWord w # concat (map toks_redir rs)) ws) @ ts"
  have a1: "at b i (TWord w # concat (map toks_redir rs) @ ?ws)" using Cons.prems x by simp
  have p: "peek b i ''|)&;'' = (i, False)" using peek_at [OF a1, of "''|)&;''"] by (auto simp: starts_with_def)
  obtain i2 where g: "gettoken b i = (of_char CHR ''a'', i, i + length w, i2)" and a2: "at b i2 (concat (map toks_redir rs) @ ?ws)"
    using gettoken_at [OF a1] at_next(1) [OF a1] by (auto simp: tok_kind_def)
  from parseredirs_at [OF a2 words_not_redir [OF assms(2)]] obtain xs i3 where
    r: "parseredirs b i2 = Inr (xs, i3)" "at b i3 ?ws" "list_all2 (redir_means b) xs rs" by blast
  from Cons.IH [OF r(2), of "argc + 1"] Cons.prems(2) obtain as ys j where ih: "parse_args b i3 (argc + 1) = Inr (as, ys, j)" "at b j ts"
    "list_all2 (\<lambda>(q, eq) w. word_at b q eq w) as (map fst ws)" "list_all2 (redir_means b) ys (concat (map snd ws))" by auto
  show ?case
    using p g r ih word_at_tok [OF a1] Cons.prems(2) x
    by (simp add: parse_args.simps [of b i] list_all2_appendI)
qed

lemma parse_back_at:
  assumes "at b i (replicate n (TSym ''&'') @ ts)" "\<not> starts_with ''&'' ts"
  shows "\<exists>j. parse_back b i c = ((BACK ^^ n) c, j) \<and> at b j ts"
  using assms(1)
proof (induction n arbitrary: i c)
  case 0
  then show ?case using peek_at [of b i ts "''&''"] assms(2) by (simp add: parse_back.simps [of b i])
next
  case (Suc n)
  have a: "at b i (TSym ''&'' # replicate n (TSym ''&'') @ ts)" using Suc.prems by simp
  have p: "peek b i ''&'' = (i, True)" using peek_at [OF a, of "''&''"] by (simp add: starts_with_def)
  from Suc.IH [OF next_at [OF a], of "BACK c"] show ?case
    using p by (simp add: parse_back.simps [of b i] funpow_swap1)
qed

fun depth_line :: "line \<Rightarrow> nat" and depth_pipe :: "pipeline \<Rightarrow> nat" and depth_simple :: "simple \<Rightarrow> nat" where
  "depth_line (Line p n) = Suc (depth_pipe p)"
| "depth_line (Seq p n l) = Suc (max (depth_pipe p) (depth_line l))"
| "depth_pipe (One s) = Suc (depth_simple s)"
| "depth_pipe (Bar s p) = Suc (max (depth_simple s) (depth_pipe p))"
| "depth_simple (Simple rs ws) = 1"
| "depth_simple (Group l rs) = Suc (Suc (depth_line l))"

lemma depth_tokens:
  "depth_line l \<le> 4 * length (toks_line l) + 4"
  "depth_pipe p \<le> 4 * length (toks_pipe p) + 3"
  "depth_simple s \<le> 4 * length (toks_simple s) + 2"
  by (induction l and p and s) auto

lemma length_render: "list_all good_tok ts \<Longrightarrow> length ts \<le> length (render ts)"
  by (induction ts) (auto simp: Suc_le_eq trans_less_add2)

lemma good_toks:
  "good_line l \<Longrightarrow> list_all good_tok (toks_line l)"
  "good_pipe p \<Longrightarrow> list_all good_tok (toks_pipe p)"
  "good_simple s \<Longrightarrow> list_all good_tok (toks_simple s)"
proof (induction l and p and s)
  case (Simple rs ws)
  then show ?case using good_tok_redir
    by (fastforce simp: list_all_iff good_tok_def split: prod.splits)
next
  case (Group l rs)
  then show ?case using good_tok_redir
    by (fastforce simp: list_all_iff good_tok_def)
qed (auto simp: good_tok_def list_all_iff)

lemma line_at:
  assumes ih: "\<And>ts. ts = [] \<or> starts_with '')&;'' ts \<Longrightarrow> at b i (toks_pipe p @ ts) \<Longrightarrow>
      \<exists>c j. parsepipe m b i = Done c j \<and> at b j ts \<and> means b c (sem_pipe p)"
    and a: "at b i (toks_pipe p @ replicate n (TSym ''&'') @ ts)" and ts: "ts = [] \<or> starts_with '');'' ts"
  shows "\<exists>c j. parsepipe m b i = Done c j \<and> (\<exists>k. parse_back b j c = ((BACK ^^ n) c, k) \<and> at b k ts) \<and> means b c (sem_pipe p)"
proof -
  have "replicate n (TSym ''&'') @ ts = [] \<or> starts_with '')&;'' (replicate n (TSym ''&'') @ ts)"
    using ts by (cases n) (auto simp: starts_with_def)
  from ih [OF this a] obtain c j where c: "parsepipe m b i = Done c j" "at b j (replicate n (TSym ''&'') @ ts)" "means b c (sem_pipe p)"
    by blast
  have "\<not> starts_with ''&'' ts" using ts by (auto simp: starts_with_def)
  from parse_back_at [OF c(2) this] show ?thesis using c by blast
qed

lemma parse_at:
  shows "good_line l \<Longrightarrow> depth_line l \<le> n \<Longrightarrow> at b i (toks_line l @ ts) \<Longrightarrow> ts = [] \<or> starts_with '')'' ts \<Longrightarrow>
      \<exists>c j. parseline n b i = Done c j \<and> at b j ts \<and> means b c (sem_line l)"
    and "good_pipe p \<Longrightarrow> depth_pipe p \<le> n \<Longrightarrow> at b i (toks_pipe p @ ts) \<Longrightarrow> ts = [] \<or> starts_with '')&;'' ts \<Longrightarrow>
      \<exists>c j. parsepipe n b i = Done c j \<and> at b j ts \<and> means b c (sem_pipe p)"
    and "good_simple s \<Longrightarrow> depth_simple s \<le> n \<Longrightarrow> at b i (toks_simple s @ ts) \<Longrightarrow> follow ts \<Longrightarrow>
      \<exists>c j. parseexec n b i = Done c j \<and> at b j ts \<and> means b c (sem_simple s)"
proof (induction l and p and s arbitrary: n i ts and n i ts and n i ts)
  case (Line p k)
  then obtain m where m: "n = Suc m" "depth_pipe p \<le> m" by (cases n) auto
  have ts: "ts = [] \<or> starts_with '');'' ts" "\<not> starts_with '';'' ts" using Line.prems(4) by (auto simp: starts_with_def)
  have "at b i (toks_pipe p @ replicate k (TSym ''&'') @ ts)" using Line.prems(3) by simp
  from line_at [where m = m, OF _ this ts(1)] Line.IH [where n = m] Line.prems(1) m(2) obtain c j k' where
    c: "parsepipe m b i = Done c j" "parse_back b j c = ((BACK ^^ k) c, k')" "at b k' ts" "means b c (sem_pipe p)" by (metis good_line.simps(1))
  show ?case using c m peek_at [OF c(3), of "'';''"] ts means_back [OF c(4), of k] by simp
next
  case (Seq p k l)
  then obtain m where m: "n = Suc m" "depth_pipe p \<le> m" "depth_line l \<le> m" by (cases n) auto
  have ts: "TSym '';'' # toks_line l @ ts = [] \<or> starts_with '');'' (TSym '';'' # toks_line l @ ts)" by (simp add: starts_with_def)
  have "at b i (toks_pipe p @ replicate k (TSym ''&'') @ TSym '';'' # toks_line l @ ts)" using Seq.prems(3) by simp
  from line_at [where m = m, OF _ this ts] Seq.IH(1) [where n = m] Seq.prems(1) m(2) obtain c j k' where
    c: "parsepipe m b i = Done c j" "parse_back b j c = ((BACK ^^ k) c, k')" "at b k' (TSym '';'' # toks_line l @ ts)" "means b c (sem_pipe p)" by (metis good_line.simps(2))
  from Seq.IH(2) [OF _ m(3) next_at [OF c(3)] Seq.prems(4)] Seq.prems(1) obtain d j' where
    d: "parseline m b (next_pos_of b k') = Done d j'" "at b j' ts" "means b d (sem_line l)" by auto
  show ?case using c d m peek_at [OF c(3), of "'';''"] means_back [OF c(4), of k] by (simp add: starts_with_def)
next
  case (One s)
  then obtain m where m: "n = Suc m" "depth_simple s \<le> m" by (cases n) auto
  have ts: "follow ts" "\<not> starts_with ''|'' ts" using One.prems(4) by (auto simp: follow_def starts_with_def)
  have "good_simple s" "at b i (toks_simple s @ ts)" using One.prems by simp_all
  from One.IH [OF this(1) m(2) this(2) ts(1)] obtain c j where c: "parseexec m b i = Done c j" "at b j ts" "means b c (sem_simple s)" by blast
  show ?case using c m peek_at [OF c(2), of "''|''"] ts by simp
next
  case (Bar s p)
  then obtain m where m: "n = Suc m" "depth_simple s \<le> m" "depth_pipe p \<le> m" by (cases n) auto
  have ts: "follow (TSym ''|'' # toks_pipe p @ ts)" by (simp add: follow_def starts_with_def)
  have "good_simple s" "at b i (toks_simple s @ TSym ''|'' # toks_pipe p @ ts)" using Bar.prems by simp_all
  from Bar.IH(1) [OF this(1) m(2) this(2) ts] obtain c j where
    c: "parseexec m b i = Done c j" "at b j (TSym ''|'' # toks_pipe p @ ts)" "means b c (sem_simple s)" by blast
  from Bar.IH(2) [OF _ m(3) next_at [OF c(2)] Bar.prems(4)] Bar.prems(1) obtain d j' where
    d: "parsepipe m b (next_pos_of b j) = Done d j'" "at b j' ts" "means b d (sem_pipe p)" by auto
  show ?case using c d m peek_at [OF c(2), of "''|''"] by (simp add: starts_with_def)
next
  case (Simple rs ws)
  then obtain m where m: "n = Suc m" by (cases n) auto
  let ?ws = "concat (map (\<lambda>(w, rs). TWord w # concat (map toks_redir rs)) ws) @ ts"
  have a: "at b i (concat (map toks_redir rs) @ ?ws)" using Simple.prems(3) by simp
  have "\<not> starts_with ''('' (concat (map toks_redir rs) @ ?ws)"
  proof (cases rs)
    case Nil
    then show ?thesis using follow_not(2) [OF Simple.prems(4)] by (cases ws) (auto simp: starts_with_def)
  next
    case (Cons r rs')
    then show ?thesis by (cases r) (auto simp: starts_with_def)
  qed
  then have p: "peek b i ''('' = (i, False)" using peek_at [OF a, of "''(''"] by simp
  from parseredirs_at [OF a words_not_redir [OF Simple.prems(4)]] obtain xs i2 where
    r: "parseredirs b i = Inr (xs, i2)" "at b i2 ?ws" "list_all2 (redir_means b) xs rs" by blast
  from parse_args_at [OF r(2) Simple.prems(4), of 0] Simple.prems(1) obtain as ys j where
    g: "parse_args b i2 0 = Inr (as, ys, j)" "at b j ts" "list_all2 (\<lambda>(q, eq) w. word_at b q eq w) as (map fst ws)"
      "list_all2 (redir_means b) ys (concat (map snd ws))" by auto
  have "means b (redirs_on (EXEC as) (xs @ ys)) (redirected (AExec (map fst ws)) (rs @ concat (map snd ws)))"
    by (intro means_redirs) (use g r in \<open>simp_all add: list_all2_appendI\<close>)
  then show ?case using p r g m by simp
next
  case (Group l rs)
  then obtain m where m: "n = Suc (Suc m)" "depth_line l \<le> m" by (cases n; cases "n - 1") auto
  let ?ts = "TSym '')'' # concat (map toks_redir rs) @ ts"
  have a: "at b i (TSym ''('' # toks_line l @ ?ts)" using Group.prems(3) by simp
  have p: "peek b i ''('' = (i, True)" using peek_at [OF a, of "''(''"] by (simp add: starts_with_def)
  from Group.IH [OF _ m(2) next_at [OF a]] Group.prems(1) obtain c j where
    c: "parseline m b (next_pos_of b i) = Done c j" "at b j ?ts" "means b c (sem_line l)" by (auto simp: starts_with_def)
  have p2: "peek b j '')'' = (j, True)" using peek_at [OF c(2), of "'')''"] by (simp add: starts_with_def)
  from parseredirs_at [OF next_at [OF c(2)] follow_not(1) [OF Group.prems(4)]] obtain xs k where
    r: "parseredirs b (next_pos_of b j) = Inr (xs, k)" "at b k ts" "list_all2 (redir_means b) xs rs" by blast
  show ?case using p c p2 r m means_redirs [OF c(3) r(3)] by simp
qed

section \<open>Terminating the strings\<close>

fun cmd_ends :: "cmd \<Rightarrow> nat list" where
  "cmd_ends (EXEC as) = map snd as"
| "cmd_ends (REDIR c q eq m f) = cmd_ends c @ [eq]"
| "cmd_ends (PIPE c d) = cmd_ends c @ cmd_ends d"
| "cmd_ends (LIST c d) = cmd_ends c @ cmd_ends d"
| "cmd_ends (BACK c) = cmd_ends c"

lemma nulterminate_fold: "nulterminate c b = fold (\<lambda>e b. b[e := 0]) (cmd_ends c) b"
  by (induction c arbitrary: b) (simp_all add: fold_map comp_def case_prod_beta')

lemma nth_fold_zero: "j < length b \<Longrightarrow> fold (\<lambda>e b. b[e := (0 :: byte)]) es b ! j = (if j \<in> set es then 0 else b ! j)"
  by (induction es arbitrary: b) (auto simp: nth_list_update)

lemma length_fold_zero [simp]: "length (fold (\<lambda>e b. b[e := (0 :: byte)]) es b) = length b"
  by (induction es arbitrary: b) auto

lemma nulterminate_nth: "j < length b \<Longrightarrow> nulterminate c b ! j = (if j \<in> set (cmd_ends c) then 0 else b ! j)"
    "length (nulterminate c b) = length b"
  by (simp_all add: nulterminate_fold nth_fold_zero)

lemma means_ends: "means b c a \<Longrightarrow> \<forall>e \<in> set (cmd_ends c). e < length b \<and> b ! e = 0x20"
proof (induction b c a rule: means.induct)
  case (1 b as ws)
  then show ?case by (auto simp: list_all2_conv_all_nth in_set_conv_nth word_at_def split: prod.splits) fastforce+
qed (auto simp: word_at_def)

lemma str_at_word:
  assumes w: "word_at b q eq w" and len: "length b' = length b"
    and nth: "\<And>j. j < length b \<Longrightarrow> b' ! j = (if j \<in> E then 0 else b ! j)"
    and E: "\<forall>e \<in> E. b ! e = 0x20" "eq \<in> E"
  shows "str_at b' q = w"
proof -
  have e: "eq = q + length w" "take (length w) (drop q b) = w" "good_word w" "eq < length b" using w by (simp_all add: word_at_def)
  have b: "b ! (q + k) = w ! k" if "k < length w" for k using e that by (metis add_lessD1 less_imp_le_nat nth_drop nth_take linorder_not_less nat_less_le trans_less_add1)
  have same: "b' ! (q + k) = w ! k" if "k < length w" for k
  proof -
    have "is_word (w ! k)" using e(3) that by (simp add: good_word_def)
    then have "b ! (q + k) \<noteq> 0x20" using b [OF that] by (auto simp: is_word_def whitespace_def)
    then have "q + k \<notin> E" using E(1) by auto
    then show ?thesis using nth [of "q + k"] that e b by simp
  qed
  have "take (length w) (drop q b') = w"
    by (rule nth_equalityI) (use e len same in auto)
  moreover have "b' ! eq = 0" using nth [OF e(4)] E(2) by simp
  ultimately have "drop q b' = w @ 0 # drop (Suc eq) b'"
    using e len by (metis Cons_nth_drop_Suc append_take_drop_id drop_drop add.commute)
  then show ?thesis using e(3) by (simp add: str_at_def good_word_def takeWhile_append2)
qed

fun strings :: "byte list \<Rightarrow> cmd \<Rightarrow> acmd" where
  "strings b (EXEC as) = AExec (map (\<lambda>(q, eq). str_at b q) as)"
| "strings b (REDIR c q eq m f) = ARedir (strings b c) (str_at b q) m f"
| "strings b (PIPE c d) = APipe (strings b c) (strings b d)"
| "strings b (LIST c d) = AList (strings b c) (strings b d)"
| "strings b (BACK c) = ABack (strings b c)"

lemma strings_means:
  assumes "means b c a" "length b' = length b" "\<And>j. j < length b \<Longrightarrow> b' ! j = (if j \<in> E then 0 else b ! j)"
    and "\<forall>e \<in> E. b ! e = 0x20" "set (cmd_ends c) \<subseteq> E"
  shows "strings b' c = a"
  using assms(1,5)
proof (induction c arbitrary: a)
  case (EXEC as)
  then obtain ws where ws: "a = AExec ws" "list_all2 (\<lambda>(q, eq) w. word_at b q eq w) as ws" by (cases a) auto
  have "str_at b' (fst (as ! k)) = ws ! k" if k: "k < length as" for k
  proof (rule str_at_word [OF _ assms(2,3,4)])
    show "word_at b (fst (as ! k)) (snd (as ! k)) (ws ! k)"
      using ws(2) k by (auto simp: list_all2_conv_all_nth split: prod.splits)
    show "snd (as ! k) \<in> E" using EXEC.prems(2) k by auto
  qed
  moreover have "length as = length ws" using ws(2) by (simp add: list_all2_lengthD)
  ultimately have "map (\<lambda>(q, eq). str_at b' q) as = ws" by (intro nth_equalityI) (auto simp: case_prod_beta)
  then show ?case using ws(1) by simp
next
  case (REDIR c q eq m f)
  then obtain d w where d: "a = ARedir d w m f" "means b c d" "word_at b q eq w" by (cases a) auto
  have "str_at b' q = w" by (rule str_at_word [OF d(3) assms(2,3,4)]) (use REDIR.prems(2) in auto)
  then show ?case using REDIR.IH [OF d(2)] REDIR.prems(2) d(1) by simp
next
  case (PIPE c d)
  then show ?case by (cases a) auto
next
  case (LIST c d)
  then show ?case by (cases a) auto
next
  case (BACK c)
  then show ?case by (cases a) auto
qed

text \<open>
  C23. The shell understands its syntax: every command line of the grammar, written as its
  tokens with blanks between them, is parsed by \<open>parsecmd\<close> without an error into a command
  that has, once \<open>nulterminate\<close> has run, exactly the strings, redirections, pipes, sequences
  and background commands of the line.
\<close>

theorem shell_roundtrip:
  assumes "good_line l"
  shows "returns (parsecmd (print_line l)) u (\<lambda>(c, b) v. strings b c = sem_line l \<and> v = u)"
proof -
  let ?b = "print_line l"
  have good: "list_all good_tok (toks_line l)" by (rule good_toks(1) [OF assms])
  have a: "at ?b 0 (toks_line l @ [])" using good by (simp add: at_def print_line_def)
  have "depth_line l \<le> parse_fuel ?b"
    using depth_tokens(1) [of l] length_render [OF good] by (simp add: parse_fuel_def print_line_def)
  from parse_at(1) [OF assms this a] obtain c j where c: "parseline (parse_fuel ?b) ?b 0 = Done c j" "at ?b j []" "means ?b c (sem_line l)"
    by blast
  have "peek ?b j [] = (j, False)" using peek_at [OF c(2), of "[]"] by (simp add: starts_with_def)
  moreover have "j = length ?b" using c(2) by (simp add: at_def)
  moreover have "strings (nulterminate c ?b) c = sem_line l"
  proof (rule strings_means [OF c(3)])
    show "length (nulterminate c ?b) = length ?b" by (rule nulterminate_nth(2))
    show "nulterminate c ?b ! k = (if k \<in> set (cmd_ends c) then 0 else ?b ! k)" if "k < length ?b" for k
      by (rule nulterminate_nth(1) [OF that])
    show "\<forall>e \<in> set (cmd_ends c). ?b ! e = 0x20" using means_ends [OF c(3)] by blast
  qed simp
  ultimately show ?thesis using c(1) by (simp add: parsecmd_def returns_def)
qed

text \<open>The line \<^verbatim>\<open>( a > f ; b < f & ) | w\<close>.\<close>

definition sample_line :: line where
  "sample_line = Line (Bar (Group (Seq (One (Simple [] [([0x61], [ROut [0x66]])])) 0
     (Line (One (Simple [] [([0x62], [RIn [0x66]])])) 1)) []) (One (Simple [] [([0x77], [])]))) 0"

definition fresh_user :: user where
  "fresh_user = \<lparr>calls = [], answers = []\<rparr>"

lemma shell_roundtrip_witness:
  "returns (parsecmd (print_line sample_line)) fresh_user (\<lambda>(c, b) v. strings b c
     = APipe (AList (ARedir (AExec [[0x61]]) [0x66] 0x201 1) (ABack (ARedir (AExec [[0x62]]) [0x66] 0 0))) (AExec [[0x77]])
     \<and> v = fresh_user)"
proof -
  have "good_line sample_line"
    by (simp add: sample_line_def good_word_def good_redir_def is_word_def whitespace_def symbols_def MAXARGS_def)
  from shell_roundtrip [OF this, of fresh_user] show ?thesis
    by (simp add: sample_line_def redirected_def)
qed

end
