(* ===== verification/Grep_Match.thy ===== *)
theory Grep_Match
  imports User
begin

text \<open>
  \<open>grep\<close> finds the lines that its patterns describe. A pattern denotes a language; the matcher
  of \<^verbatim>\<open>grep.c\<close> searches a line for a member of that language, at the start of the line
  after \<^verbatim>\<open>^\<close> and up to its end before \<^verbatim>\<open>$\<close>.
\<close>

section \<open>Patterns and their languages\<close>

definition char_class :: "byte \<Rightarrow> byte set" where
  "char_class c = (if c = 0x2E then UNIV else {c})"

definition conc :: "byte list set \<Rightarrow> byte list set \<Rightarrow> byte list set" where
  "conc A B = {u @ v | u v. u \<in> A \<and> v \<in> B}"

fun pat_lang :: "byte list \<Rightarrow> byte list set" where
  "pat_lang [] = {[]}"
| "pat_lang [c] = (if c = 0x24 then {[]} else (\<lambda>x. [x]) ` char_class c)"
| "pat_lang (c # d # re) =
    (if d = 0x2A then conc (lists (char_class c)) (pat_lang re)
     else conc ((\<lambda>x. [x]) ` char_class c) (pat_lang (d # re)))"

text \<open>Does the pattern end with \<^verbatim>\<open>$\<close> (that is not repeated)?\<close>

fun at_end :: "byte list \<Rightarrow> bool" where
  "at_end [] = False"
| "at_end [c] = (c = 0x24)"
| "at_end (c # d # re) = (if d = 0x2A then at_end re else at_end (d # re))"

definition end_ok :: "byte list \<Rightarrow> byte list \<Rightarrow> bool" where
  "end_ok re v = (at_end re \<longrightarrow> v = [])"

definition matches_prefix :: "byte list \<Rightarrow> byte list \<Rightarrow> bool" where
  "matches_prefix re ln \<longleftrightarrow> (\<exists>u v. ln = u @ v \<and> u \<in> pat_lang re \<and> (at_end re \<longrightarrow> v = []))"

lemma prefix_nil: "matches_prefix [] ln"
  by (simp add: matches_prefix_def)

lemma prefix_end: "matches_prefix [0x24] ln \<longleftrightarrow> ln = []"
  by (auto simp: matches_prefix_def)

lemma conc_char: "conc ((\<lambda>x. [x]) ` A) B = {x # w | x w. x \<in> A \<and> w \<in> B}"
  unfolding conc_def by (auto; metis append_Cons append_Nil imageI)

lemma prefix_char:
  assumes "re = [] \<Longrightarrow> c \<noteq> 0x24" "re \<noteq> [] \<Longrightarrow> hd re \<noteq> 0x2A"
  shows "matches_prefix (c # re) ln \<longleftrightarrow> (\<exists>t rest. ln = t # rest \<and> t \<in> char_class c \<and> matches_prefix re rest)"
proof -
  have lang: "pat_lang (c # re) = {x # w | x w. x \<in> char_class c \<and> w \<in> pat_lang re}"
  proof (cases re)
    case Nil
    then show ?thesis using assms(1) by auto
  next
    case (Cons d re')
    then have "d \<noteq> 0x2A" using assms(2) by simp
    then show ?thesis unfolding Cons by (simp only: pat_lang.simps if_False conc_char)
  qed
  have at: "at_end (c # re) = at_end re" using assms by (cases re) auto
  show ?thesis
  proof
    assume "matches_prefix (c # re) ln"
    then obtain t w v where "ln = t # w @ v" "t \<in> char_class c" "w \<in> pat_lang re" "at_end re \<longrightarrow> v = []"
      unfolding matches_prefix_def lang at by (elim exE conjE CollectE) simp
    then show "\<exists>t rest. ln = t # rest \<and> t \<in> char_class c \<and> matches_prefix re rest"
      unfolding matches_prefix_def by blast
  next
    assume "\<exists>t rest. ln = t # rest \<and> t \<in> char_class c \<and> matches_prefix re rest"
    then obtain t u v where "ln = (t # u) @ v" "t \<in> char_class c" "u \<in> pat_lang re" "at_end re \<longrightarrow> v = []"
      by (auto simp: matches_prefix_def)
    then show "matches_prefix (c # re) ln" unfolding matches_prefix_def lang at by blast
  qed
qed

lemma prefix_star:
  "matches_prefix (c # 0x2A # re) ln \<longleftrightarrow> (\<exists>u v. ln = u @ v \<and> set u \<subseteq> char_class c \<and> matches_prefix re v)"
proof
  assume "matches_prefix (c # 0x2A # re) ln"
  then obtain u v where uv: "ln = u @ v" "u \<in> conc (lists (char_class c)) (pat_lang re)" "at_end re \<longrightarrow> v = []"
    by (auto simp: matches_prefix_def)
  then obtain a b where "u = a @ b" "set a \<subseteq> char_class c" "b \<in> pat_lang re"
    by (auto simp: conc_def lists_eq_set)
  with uv have "ln = a @ b @ v" "set a \<subseteq> char_class c" "b \<in> pat_lang re" "at_end re \<longrightarrow> v = []"
    by simp_all
  then show "\<exists>u v. ln = u @ v \<and> set u \<subseteq> char_class c \<and> matches_prefix re v"
    unfolding matches_prefix_def by blast
next
  assume "\<exists>u v. ln = u @ v \<and> set u \<subseteq> char_class c \<and> matches_prefix re v"
  then obtain a b v where ln: "ln = (a @ b) @ v" and a: "set a \<subseteq> char_class c"
    and b: "b \<in> pat_lang re" and v: "at_end re \<longrightarrow> v = []"
    by (auto simp: matches_prefix_def)
  have "a @ b \<in> pat_lang (c # 0x2A # re)"
    using a b by (auto simp: conc_def lists_eq_set)
  then show "matches_prefix (c # 0x2A # re) ln"
    unfolding matches_prefix_def using ln v by (intro exI [of _ "a @ b"] exI [of _ v]) simp
qed

lemma star_unfold:
  "(\<exists>u v. ln = u @ v \<and> set u \<subseteq> A \<and> P v) \<longleftrightarrow> P ln \<or> (\<exists>t rest. ln = t # rest \<and> t \<in> A \<and> (\<exists>u v. rest = u @ v \<and> set u \<subseteq> A \<and> P v))"
proof
  assume "\<exists>u v. ln = u @ v \<and> set u \<subseteq> A \<and> P v"
  then obtain u v where "ln = u @ v" "set u \<subseteq> A" "P v" by blast
  then show "P ln \<or> (\<exists>t rest. ln = t # rest \<and> t \<in> A \<and> (\<exists>u v. rest = u @ v \<and> set u \<subseteq> A \<and> P v))"
    by (cases u) auto
next
  assume "P ln \<or> (\<exists>t rest. ln = t # rest \<and> t \<in> A \<and> (\<exists>u v. rest = u @ v \<and> set u \<subseteq> A \<and> P v))"
  then show "\<exists>u v. ln = u @ v \<and> set u \<subseteq> A \<and> P v"
  proof
    assume "P ln"
    then show ?thesis by (intro exI [of _ "[]"] exI [of _ ln]) simp
  next
    assume "\<exists>t rest. ln = t # rest \<and> t \<in> A \<and> (\<exists>u v. rest = u @ v \<and> set u \<subseteq> A \<and> P v)"
    then obtain t u v where "ln = t # u @ v" "t \<in> A" "set u \<subseteq> A" "P v" by blast
    then show ?thesis by (intro exI [of _ "t # u"] exI [of _ v]) simp
  qed
qed

section \<open>The matcher\<close>

lemma char_class_iff: "t \<in> char_class c \<longleftrightarrow> c = 0x2E \<or> c = t"
  by (auto simp: char_class_def)

lemma matcher_spec:
  "matchhere re ln \<longleftrightarrow> matches_prefix re ln"
  "matchstar c re ln \<longleftrightarrow> (\<exists>u v. ln = u @ v \<and> set u \<subseteq> char_class c \<and> matches_prefix re v)"
  supply matchstar.simps [simp del]
proof (induction re ln and c re ln rule: matchhere_matchstar.induct)
  case (1 ln)
  then show ?case by (simp add: prefix_nil)
next
  case (2 c re ln)
  show ?case
  proof (cases "re \<noteq> [] \<and> hd re = 0x2A")
    case True
    then obtain re' where re: "re = 0x2A # re'" by (cases re) auto
    then show ?thesis using 2(1) True by (simp add: prefix_star)
  next
    case False
    show ?thesis
    proof (cases "c = 0x24 \<and> re = []")
      case True
      then show ?thesis by (simp add: prefix_end)
    next
      case nd: False
      have "matches_prefix (c # re) ln \<longleftrightarrow> (\<exists>t rest. ln = t # rest \<and> t \<in> char_class c \<and> matches_prefix re rest)"
        by (rule prefix_char) (use False nd in auto)
      then show ?thesis using False nd 2(2) by (cases ln) (auto simp: char_class_iff)
    qed
  qed
next
  case (3 c re ln)
  show ?case
    unfolding star_unfold [of ln] matchstar.simps [of c re ln]
    using 3 by (cases ln) (auto simp: char_class_iff)
qed

lemma match_from_spec: "match_from re ln \<longleftrightarrow> (\<exists>w v. ln = w @ v \<and> matches_prefix re v)"
  by (induction ln) (auto simp: matcher_spec Cons_eq_append_conv)

text \<open>
  C25. The matcher of \<open>grep\<close> is right: a pattern matches a line exactly if some part of the
  line belongs to the language of the pattern, where the part must start with the line if
  the pattern starts with \<^verbatim>\<open>^\<close> and must end with it if the pattern ends with \<^verbatim>\<open>$\<close>.
\<close>

theorem grep_match_language:
  "match re ln \<longleftrightarrow>
    (if re \<noteq> [] \<and> hd re = 0x5E
     then \<exists>u v. ln = u @ v \<and> u \<in> pat_lang (tl re) \<and> end_ok (tl re) v
     else \<exists>w u v. ln = w @ u @ v \<and> u \<in> pat_lang re \<and> end_ok re v)"
proof -
  have "(\<exists>w v. ln = w @ v \<and> matches_prefix re v)
      \<longleftrightarrow> (\<exists>w u v. ln = w @ u @ v \<and> u \<in> pat_lang re \<and> end_ok re v)"
    unfolding matches_prefix_def end_ok_def by blast
  then show ?thesis
    unfolding match_def matcher_spec match_from_spec by (simp add: matches_prefix_def end_ok_def)
qed


section \<open>Lines of a stream\<close>

text \<open>The complete lines of a stream that comes after \<open>m\<close>, and what is left after the last newline.\<close>

fun full_lines :: "byte list \<Rightarrow> byte list \<Rightarrow> byte list list" where
  "full_lines m [] = []"
| "full_lines m (c # s) = (if c = 10 then m # full_lines [] s else full_lines (m @ [c]) s)"

fun last_part :: "byte list \<Rightarrow> byte list \<Rightarrow> byte list" where
  "last_part m [] = m"
| "last_part m (c # s) = (if c = 10 then last_part [] s else last_part (m @ [c]) s)"

lemma full_lines_append: "full_lines m (s @ t) = full_lines m s @ full_lines (last_part m s) t"
  by (induction s arbitrary: m) auto

lemma last_part_append: "last_part m (s @ t) = last_part (last_part m s) t"
  by (induction s arbitrary: m) auto

lemma no_newline:
  "10 \<notin> set s \<Longrightarrow> full_lines m s = []"
  "10 \<notin> set s \<Longrightarrow> last_part m s = m @ s"
  by (induction s arbitrary: m) auto

lemma last_part_clean: "10 \<notin> set m \<Longrightarrow> 10 \<notin> set (last_part m s)"
  by (induction s arbitrary: m) auto

lemma last_part_subset: "set (last_part m s) \<subseteq> set m \<union> set s"
  by (induction s arbitrary: m) (auto, force+)

lemma last_part_length: "length (last_part m s) \<le> length m + length s"
proof (induction s arbitrary: m)
  case (Cons c s)
  show ?case using Cons [of "[]"] Cons [of "m @ [c]"] by simp
qed simp

lemma last_part_shorter: "10 \<in> set s \<Longrightarrow> length (last_part m s) < length m + length s"
proof (induction s arbitrary: m)
  case (Cons c s)
  show ?case using Cons(1) [of "m @ [c]"] last_part_length [of "[]" s] Cons(2) by auto
qed simp

lemma first_newline: "0 \<notin> set p \<Longrightarrow> strchr p 10 = (if 10 \<in> set p then Some (length (takeWhile (\<lambda>c. c \<noteq> 10) p)) else None)"
  by (induction p) auto

lemma split_newline:
  assumes "10 \<in> set (p::byte list)"
  shows "p = takeWhile (\<lambda>c. c \<noteq> 10) p @ [10] @ drop (Suc (length (takeWhile (\<lambda>c. c \<noteq> 10) p))) p"
  using assms by (induction p) auto

section \<open>The output of grep\<close>

definition is_write :: "ucall \<Rightarrow> bool" where
  "is_write c = (case c of Write fd bs \<Rightarrow> True | _ \<Rightarrow> False)"

definition written :: "user \<Rightarrow> ucall list" where
  "written u = filter is_write (calls u)"

definition hits :: "byte list \<Rightarrow> byte list list \<Rightarrow> ucall list" where
  "hits re lns = map (\<lambda>l. Write 1 (l @ [10])) (filter (match re) lns)"

lemma hits_append [simp]: "hits re (a @ b) = hits re a @ hits re b"
  by (simp add: hits_def)

lemma hits_Nil [simp]: "hits re [] = []"
  by (simp add: hits_def)

lemma grep_lines_out:
  "0 \<notin> set p \<Longrightarrow> grep_lines re p u = Ok (last_part [] p) (u\<lparr>calls := calls u @ hits re (full_lines [] p)\<rparr>)"
proof (induction p arbitrary: u rule: length_induct)
  case (1 p)
  show ?case
  proof (cases "10 \<in> set p")
    case False
    then show ?thesis using 1(2) by (simp add: grep_lines.simps [of re p] first_newline no_newline hits_def return_def)
  next
    case True
    define l where "l = takeWhile (\<lambda>c. c \<noteq> 10) p"
    define r where "r = drop (Suc (length l)) p"
    have p: "p = l @ [10] @ r" unfolding r_def l_def by (rule split_newline [OF True])
    have l: "10 \<notin> set l" unfolding l_def by (metis (mono_tags, lifting) set_takeWhileD)
    have chr: "strchr p 10 = Some (length l)" using 1(2) True by (simp add: first_newline l_def)
    have t: "take (length l) p = l" "take (Suc (length l)) p = l @ [10]" "drop (Suc (length l)) p = r"
      by (simp_all add: p)
    have "grep_lines re r v = Ok (last_part [] r) (v\<lparr>calls := calls v @ hits re (full_lines [] r)\<rparr>)" for v
      by (rule 1(1) [rule_format]) (use 1(2) in \<open>simp_all add: p\<close>)
    moreover have "full_lines [] p = l # full_lines [] r" "last_part [] p = last_part [] r"
      using l by (simp_all add: p full_lines_append last_part_append no_newline)
    ultimately show ?thesis
      by (simp add: grep_lines.simps [of re p] chr t andthen_def bind_def do_if_def uwrite_def call_def modify_def return_def hits_def)
  qed
qed

text \<open>The reads of a stream: each fits into the buffer and brings a newline.\<close>

fun feeds :: "byte list \<Rightarrow> byte list list \<Rightarrow> bool" where
  "feeds m [] = True"
| "feeds m (c # cs) = (length m + length c \<le> 1023 \<and> 10 \<in> set c \<and> 0 \<notin> set c \<and> feeds (last_part m c) cs)"

definition reply :: "byte list \<Rightarrow> int \<times> byte list" where
  "reply c = (int (length c), c)"

lemma uread_reply:
  "answers u = reply c # as \<Longrightarrow> length c \<le> n \<Longrightarrow>
    uread fd n u = Ok (int (length c), c) (u\<lparr>calls := calls u @ [Read fd n], answers := as\<rparr>)"
  by (simp add: uread_def ask_def call_def reply_def andthen_def bind_def modify_def gets_def return_def)

lemma grep_loop_out:
  assumes "feeds m cs" "answers u = map reply cs @ [reply []]" "10 \<notin> set m" "0 \<notin> set m" "length cs < k" "length m \<le> 1023"
  shows "returns (grep_loop k re fd m) u
    (\<lambda>_ v. written v = written u @ hits re (full_lines m (concat cs)) \<and> answers v = [])"
  using assms
proof (induction cs arbitrary: m u k)
  case Nil
  then show ?case
    by (cases k) (auto simp: returns_iff bind_def uread_reply return_def written_def is_write_def)
next
  case (Cons c cs)
  obtain k' where k: "k = Suc k'" using Cons.prems(5) by (cases k) auto
  let ?u = "u\<lparr>calls := calls u @ [Read fd (1024 - length m - 1)], answers := map reply cs @ [reply []]\<rparr>"
  let ?v = "?u\<lparr>calls := calls ?u @ hits re (full_lines [] (m @ c))\<rparr>"
  let ?p = "last_part m c"
  have c: "length c \<le> 1024 - length m - 1" "10 \<in> set c" "0 \<notin> set (m @ c)" "feeds ?p cs"
    using Cons.prems by auto
  have part: "last_part [] (m @ c) = ?p" "full_lines [] (m @ c) = full_lines m c"
    using Cons.prems(3) by (simp_all add: last_part_append full_lines_append no_newline)
  have short: "length ?p < length m + length c" by (rule last_part_shorter [OF c(2)])
  have pos: "c \<noteq> []" using c(2) by auto
  have step: "grep_loop k re fd m u = grep_loop k' re fd ?p ?v"
    using uread_reply [of u c "map reply cs @ [reply []]" _ fd, OF _ c(1)] Cons.prems(2) c(3) pos short
    by (simp add: k bind_def grep_lines_out part Let_def)
  have "returns (grep_loop k' re fd ?p) ?v
    (\<lambda>_ v. written v = written ?v @ hits re (full_lines ?p (concat cs)) \<and> answers v = [])"
  proof (rule Cons.IH)
    show "10 \<notin> set ?p" by (rule last_part_clean [OF Cons.prems(3)])
    show "0 \<notin> set ?p" using last_part_subset [of m c] c(3) by auto
    show "length ?p \<le> 1023" using short Cons.prems(1) by simp
  qed (use c(4) Cons.prems(5) k in auto)
  moreover have "written ?v = written u @ hits re (full_lines m c)"
    by (auto simp: written_def part hits_def is_write_def filter_map comp_def)
  ultimately show ?case
    unfolding returns_iff step by (simp add: full_lines_append)
qed


text \<open>
  C26. \<open>grep\<close> on a stream: when each read brings a newline (and no NUL) and fits the buffer,
  \<open>grep\<close> returns at the end of the stream and has written exactly those complete lines of
  the whole stream that the pattern matches, in order, each in one \<open>write\<close>, also the lines
  that were split between two reads.
\<close>

theorem grep_writes_matching_lines:
  assumes "feeds [] cs" "answers u = map reply cs @ [reply []]"
  shows "returns (grep re fd) u
    (\<lambda>_ v. written v = written u @ map (\<lambda>l. Write 1 (l @ [10])) (filter (match re) (full_lines [] (concat cs))))"
proof -
  have "returns (grep_loop (Suc (length (answers u))) re fd []) u
    (\<lambda>_ v. written v = written u @ hits re (full_lines [] (concat cs)) \<and> answers v = [])"
    by (rule grep_loop_out) (use assms in simp_all)
  then show ?thesis
    by (auto simp: grep_def while_answers_def bind_def gets_def returns_iff hits_def)
qed

definition sample_chunks :: "byte list list" where
  "sample_chunks = [[0x61, 0x62, 10, 0x63], [0x61, 0x64, 10]]"

theorem grep_writes_matching_lines_witness:
  "returns (grep [0x63, 0x2E] 0) \<lparr>calls = [], answers = map reply sample_chunks @ [reply []]\<rparr>
    (\<lambda>_ v. written v = [Write 1 [0x63, 0x61, 0x64, 10]])"
proof -
  have "feeds [] sample_chunks" by (simp add: sample_chunks_def)
  moreover have "filter (match [0x63, 0x2E]) (full_lines [] (concat sample_chunks)) = [[0x63, 0x61, 0x64]]"
    by (simp add: sample_chunks_def match_def)
  ultimately show ?thesis
    using grep_writes_matching_lines [of sample_chunks "\<lparr>calls = [], answers = map reply sample_chunks @ [reply []]\<rparr>" "[0x63, 0x2E]" 0]
    by (simp add: written_def)
qed

text \<open>
  C27. \<open>grep\<close> forgets a line that a read only begins: when a first read brings \<open>a\<close> and no
  newline, and the next one brings the rest \<open>b\<close> of the line, only \<open>b\<close> is matched and written,
  because \<open>m\<close> is set to 0 whenever no line of the buffer was complete.
\<close>

theorem grep_forgets_line_start:
  assumes "a \<noteq> []" "length a \<le> 1023" "10 \<notin> set a" "0 \<notin> set a" "length b \<le> 1022" "10 \<notin> set b" "0 \<notin> set b"
    "answers u = [reply a, reply (b @ [10]), reply []]"
  shows "returns (grep re fd) u
    (\<lambda>_ v. written v = written u @ (if match re b then [Write 1 (b @ [10])] else []))"
proof -
  let ?u = "u\<lparr>calls := calls u @ [Read fd 1023], answers := [reply (b @ [10]), reply []]\<rparr>"
  have "length (answers u) = 3" by (simp add: assms(8))
  then have "grep re fd u = grep_loop (Suc 3) re fd [] u"
    by (simp only: grep_def while_answers_def bind_def gets_def outcome.case)
  also have "\<dots> = grep_loop 3 re fd [] ?u"
    using uread_reply [OF assms(8), of 1023 fd] assms(1-4) unfolding grep_loop.simps
    by (simp add: bind_def grep_lines_out no_newline Let_def)
  finally have "grep re fd u = grep_loop 3 re fd [] ?u" .
  moreover have "returns (grep_loop 3 re fd []) ?u
    (\<lambda>_ v. written v = written ?u @ hits re (full_lines [] (concat [b @ [10]])) \<and> answers v = [])"
    by (rule grep_loop_out) (use assms in simp_all)
  ultimately show ?thesis
    using assms(6)
    by (auto simp: returns_iff full_lines_append no_newline hits_def written_def is_write_def)
qed

theorem grep_forgets_line_start_witness:
  "returns (grep [0x5E, 0x62] 0) \<lparr>calls = [], answers = [reply [0x61], reply ([0x62] @ [10]), reply []]\<rparr>
    (\<lambda>_ v. written v = [Write 1 [0x62, 10]])"
  using grep_forgets_line_start [of "[0x61]" "[0x62]" "\<lparr>calls = [], answers = [reply [0x61], reply ([0x62] @ [10]), reply []]\<rparr>" "[0x5E, 0x62]" 0]
  by (simp add: match_def written_def)

end
