(* ===== verification/User_Lib.thy ===== *)
theory User_Lib
  imports Grep_Match
begin

text \<open>
  Numbers as the user library prints and reads them, and what \<open>wc\<close> counts.
\<close>

section \<open>Decimal numbers\<close>

lemma atoi_loop_append:
  "\<forall>c\<in>set s. 0x30 \<le> c \<and> c \<le> 0x39 \<Longrightarrow> atoi_loop n (s @ t) = atoi_loop (atoi_loop n s) t"
  by (induction s arbitrary: n) auto

lemma decimal_cases: "d < 10 \<Longrightarrow> d \<in> {0, 1, 2, 3, 4, 5, 6, 7, 8, 9 :: nat}"
  by auto

lemma udigit_decimal:
  assumes "d < 10"
  shows "udigit d = 0x30 + of_nat d" "0x30 \<le> udigit d" "udigit d \<le> 0x39"
  using decimal_cases [OF assms] by (elim insertE emptyE; simp add: udigit_def)+

lemma udigits_decimal: "\<forall>c\<in>set (udigits_rev 10 x). 0x30 \<le> c \<and> c \<le> 0x39"
proof (induction x rule: less_induct)
  case (less x)
  have "x div 10 \<noteq> 0 \<Longrightarrow> x div 10 < x" by simp
  then show ?case
    using less [of "x div 10"] udigit_decimal [of "x mod 10"]
    by (subst udigits_rev.simps) auto
qed

lemma digit_value: "d < 10 \<Longrightarrow> n * 10 + ucast (udigit d) - 0x30 = n * 10 + (of_nat d :: uint32)"
proof -
  assume d: "d < 10"
  have "ucast (udigit d) = (0x30 + of_nat d :: uint32)"
    using decimal_cases [OF d] by (elim insertE emptyE; simp add: udigit_def)
  then show ?thesis by simp
qed

lemma atoi_udigits: "atoi_loop 0 (rev (udigits_rev 10 x)) = of_nat x"
proof (induction x rule: less_induct)
  case (less x)
  let ?d = "x mod 10"
  have digit: "0x30 \<le> udigit ?d" "udigit ?d \<le> 0x39" using udigit_decimal [of ?d] by simp_all
  show ?case
  proof (cases "x div 10 = 0")
    case True
    then have "x < 10" by simp
    then show ?thesis
      using digit digit_value [of x 0] by (subst udigits_rev.simps) simp
  next
    case False
    have "atoi_loop 0 (rev (udigits_rev 10 x)) = atoi_loop (of_nat (x div 10)) [udigit ?d]"
      using False less [of "x div 10"] udigits_decimal [of "x div 10"]
      by (subst udigits_rev.simps) (simp add: atoi_loop_append)
    also have "\<dots> = of_nat (x div 10) * 10 + of_nat ?d"
      using digit digit_value [of ?d "of_nat (x div 10)"] by simp
    also have "\<dots> = of_nat (x div 10 * 10 + ?d)" by (simp only: of_nat_add of_nat_mult of_nat_numeral)
    finally show ?thesis by (simp only: div_mult_mod_eq)
  qed
qed

text \<open>
  C29. What \<open>printf\<close> writes for \<^verbatim>\<open>%d\<close> and a number that is not negative, \<open>atoi\<close> reads
  back as that number.
\<close>

theorem atoi_printint:
  assumes "0 \<le> sint n"
  shows "atoi (uint_digits n 10 True) = sint n"
  using assms by (simp add: atoi_def uint_digits_def Let_def atoi_udigits)

theorem atoi_printint_witness: "atoi (uint_digits 4096 10 True) = 4096"
  using atoi_printint [of 4096] by simp

section \<open>Counting lines, words and characters\<close>

abbreviation is_space :: "byte \<Rightarrow> bool" where
  "is_space b \<equiv> b \<in> {0x20, 13, 9, 10, 11}"

text \<open>The places where a word starts, in a text that comes after a space or (\<open>w\<close>) inside a word.\<close>

fun word_starts :: "bool \<Rightarrow> byte list \<Rightarrow> nat" where
  "word_starts w [] = 0"
| "word_starts w (b # bs) = (if \<not> w \<and> \<not> is_space b then 1 else 0) + word_starts (\<not> is_space b) bs"

lemma wc_fold:
  "wc_l (fold wc_char bs k) = wc_l k + of_nat (length (filter (\<lambda>b. b = 10) bs))"
  "wc_c (fold wc_char bs k) = wc_c k + of_nat (length bs)"
  "wc_w (fold wc_char bs k) = wc_w k + of_nat (word_starts (wc_inword k) bs)"
  by (induction bs arbitrary: k) (auto simp: wc_char_def Let_def)

lemma word_starts_card:
  "word_starts w bs = card {i. i < length bs \<and> \<not> is_space (bs ! i) \<and> (if i = 0 then \<not> w else is_space (bs ! (i - 1)))}"
    (is "_ = card (?S w bs)")
proof (induction bs arbitrary: w)
  case (Cons b bs)
  have "?S w (b # bs) = (if \<not> w \<and> \<not> is_space b then {0} else {}) \<union> Suc ` ?S (\<not> is_space b) bs"
  proof (rule set_eqI)
    fix i show "i \<in> ?S w (b # bs) \<longleftrightarrow> i \<in> (if \<not> w \<and> \<not> is_space b then {0} else {}) \<union> Suc ` ?S (\<not> is_space b) bs"
    proof (cases i)
      case (Suc j)
      show ?thesis unfolding Suc by (cases j) (auto simp: image_iff)
    qed auto
  qed
  moreover have "card ({0::nat} \<union> Suc ` A) = Suc (card A)" if "finite A" for A
    using that by (simp add: card_image)
  moreover have "finite (?S w' bs)" for w' by simp
  ultimately show ?case using Cons [of "\<not> is_space b"] by (simp add: card_image)
qed simp

lemma word_count:
  "word_starts False bs = card {i. i < length bs \<and> \<not> is_space (bs ! i) \<and> (i = 0 \<or> is_space (bs ! (i - 1)))}"
  unfolding word_starts_card by (rule arg_cong [where f = card], rule Collect_cong) simp

lemma while_answers_returns: "returns (while_answers f) u Q \<longleftrightarrow> returns (f (Suc (length (answers u)))) u Q"
  by (simp add: while_answers_def bind_def gets_def returns_def)

lemma wc_loop_out:
  assumes "\<forall>c\<in>set cs. c \<noteq> [] \<and> length c \<le> 512" "answers u = map reply cs @ [reply []]" "length cs < f"
  shows "returns (wc_loop f fd k) u (\<lambda>(n, k') _. n = 0 \<and> k' = fold wc_char (concat cs) k)"
  using assms
proof (induction cs arbitrary: u f k)
  case Nil
  then show ?case by (cases f) (auto simp: returns_iff bind_def uread_reply return_def)
next
  case (Cons c cs)
  obtain f' where f: "f = Suc f'" using Cons.prems(3) by (cases f) auto
  let ?u = "u\<lparr>calls := calls u @ [Read fd 512], answers := map reply cs @ [reply []]\<rparr>"
  have "wc_loop f fd k u = wc_loop f' fd (fold wc_char c k) ?u"
    using uread_reply [of u c "map reply cs @ [reply []]" 512 fd] Cons.prems by (simp add: f bind_def)
  moreover have "returns (wc_loop f' fd (fold wc_char c k)) ?u
    (\<lambda>(n, k') _. n = 0 \<and> k' = fold wc_char (concat cs) (fold wc_char c k))"
    by (rule Cons.IH) (use Cons.prems f in auto)
  ultimately show ?case by (simp add: returns_iff)
qed

lemma word_starts_le: "word_starts w bs \<le> length bs"
  by (induction bs arbitrary: w) (auto intro: le_SucI)

lemma sint_of_nat32:
  assumes "n < 2147483648"
  shows "sint (of_nat n :: uint32) = int n"
proof -
  have "uint (of_nat n :: uint32) = int n" using unat_of_nat32 [of n] assms by (simp add: uint_nat)
  then show ?thesis using assms by (simp add: sint_cases)
qed

text \<open>
  C28. \<open>wc\<close> counts right, however the text is divided into reads: the lines are the newlines,
  the words are the places where a character that is no space comes first or after a
  space, and the characters are all bytes. The counters are C \<open>int\<close>s: they count modulo
  \<open>2\<^sup>3\<^sup>2\<close>, and exactly for every text shorter than \<open>2\<^sup>3\<^sup>1\<close> bytes.
\<close>

theorem wc_counts:
  assumes "\<forall>c\<in>set cs. c \<noteq> [] \<and> length c \<le> 512" "answers u = map reply cs @ [reply []]"
  defines "bs \<equiv> concat cs"
  defines "lines \<equiv> length (filter (\<lambda>b. b = 10) bs)"
    and "words \<equiv> card {i. i < length bs \<and> \<not> is_space (bs ! i) \<and> (i = 0 \<or> is_space (bs ! (i - 1)))}"
  shows "returns (while_answers (\<lambda>f. wc_loop f fd \<lparr>wc_l = 0, wc_w = 0, wc_c = 0, wc_inword = False\<rparr>)) u
    (\<lambda>(n, k) _. n = 0 \<and> wc_l k = of_nat lines \<and> wc_w k = of_nat words \<and> wc_c k = of_nat (length bs)
      \<and> (length bs < 2147483648 \<longrightarrow>
          sint (wc_l k) = int lines \<and> sint (wc_w k) = int words \<and> sint (wc_c k) = int (length bs)))"
proof -
  let ?k = "fold wc_char bs \<lparr>wc_l = 0, wc_w = 0, wc_c = 0, wc_inword = False\<rparr>"
  have words: "words = word_starts False bs" unfolding words_def word_count [symmetric] ..
  have k: "wc_l ?k = of_nat lines" "wc_w ?k = of_nat words" "wc_c ?k = of_nat (length bs)"
    by (simp_all add: wc_fold lines_def words)
  have "lines \<le> length bs" "words \<le> length bs"
    unfolding lines_def words by (rule length_filter_le, rule word_starts_le)
  then have small: "sint (wc_l ?k) = int lines" "sint (wc_w ?k) = int words" "sint (wc_c ?k) = int (length bs)"
    if "length bs < 2147483648" using that unfolding k by (simp_all add: sint_of_nat32)
  have "returns (wc_loop (Suc (length (answers u))) fd \<lparr>wc_l = 0, wc_w = 0, wc_c = 0, wc_inword = False\<rparr>) u
    (\<lambda>(n, k') _. n = 0 \<and> k' = fold wc_char bs \<lparr>wc_l = 0, wc_w = 0, wc_c = 0, wc_inword = False\<rparr>)"
    unfolding bs_def by (rule wc_loop_out) (use assms(1,2) in simp_all)
  then show ?thesis
    unfolding while_answers_returns
    by (rule returns_mono) (use k small in auto)
qed

definition sample_reads :: "byte list list" where
  "sample_reads = [[0x61, 0x20, 0x62], [0x63, 10]]"

theorem wc_counts_witness:
  "returns (while_answers (\<lambda>f. wc_loop f 0 \<lparr>wc_l = 0, wc_w = 0, wc_c = 0, wc_inword = False\<rparr>))
    \<lparr>calls = [], answers = map reply sample_reads @ [reply []]\<rparr>
    (\<lambda>(n, k) _. n = 0 \<and> sint (wc_l k) = 1 \<and> sint (wc_w k) = 2 \<and> sint (wc_c k) = 5)"
proof -
  have "\<forall>c\<in>set sample_reads. c \<noteq> [] \<and> length c \<le> 512"
    and counts: "length (filter (\<lambda>b. b = 10) (concat sample_reads)) = 1" "length (concat sample_reads) = 5"
      "word_starts False (concat sample_reads) = 2"
    by (simp_all add: sample_reads_def)
  then show ?thesis
    using wc_counts [of sample_reads "\<lparr>calls = [], answers = map reply sample_reads @ [reply []]\<rparr>" 0]
    unfolding word_count [symmetric] unfolding counts by (auto elim!: returns_mono)
qed

end
