(* ===== verification/Umalloc.thy ===== *)
theory Umalloc
  imports Prelude
begin

text \<open>
  The allocator of the user programs (\<^verbatim>\<open>umalloc.c\<close>): a circular list of free blocks in the order
  of their addresses. A block is counted in units of a header, which has 8 bytes.
\<close>

section \<open>The allocator\<close>

text \<open>
  The state is the headers in memory, by address, the variable \<open>freep\<close>, the address of the
  variable \<open>base\<close>, and what the kernel will answer to the next calls of \<open>sbrk\<close>.
\<close>

record arena =
  h_ptr :: "uint32 \<Rightarrow> uint32"
  h_size :: "uint32 \<Rightarrow> uint32"
  freep :: uint32
  base_addr :: uint32
  brks :: "uint32 list"

definition set_ptr :: "uint32 \<Rightarrow> uint32 \<Rightarrow> (arena, unit) routine" where
  "set_ptr p q = modify (\<lambda>s. s\<lparr>h_ptr := (h_ptr s)(p := q)\<rparr>)"

definition set_size :: "uint32 \<Rightarrow> uint32 \<Rightarrow> (arena, unit) routine" where
  "set_size p n = modify (\<lambda>s. s\<lparr>h_size := (h_size s)(p := n)\<rparr>)"

definition set_freep :: "uint32 \<Rightarrow> (arena, unit) routine" where
  "set_freep p = modify (\<lambda>s. s\<lparr>freep := p\<rparr>)"

text \<open>The search of \<open>free\<close> for the block after which \<open>bp\<close> belongs; the count bounds the turns.\<close>

fun free_search :: "nat \<Rightarrow> uint32 \<Rightarrow> uint32 \<Rightarrow> (arena, uint32) routine" where
  "free_search 0 bp p = (\<lambda>s. Spin s)"
| "free_search (Suc k) bp p =
    bind (gets (\<lambda>s. h_ptr s p)) (\<lambda>q.
    if bp > p \<and> bp < q then return p
    else if p \<ge> q \<and> (bp > p \<or> bp < q) then return p
    else free_search k bp q)"

definition ufree :: "nat \<Rightarrow> uint32 \<Rightarrow> (arena, unit) routine" where
  "ufree fuel ap =
    (let bp = ap - 8 in
     bind (gets freep) (\<lambda>p0.
     bind (free_search fuel bp p0) (\<lambda>p.
     bind (gets (\<lambda>s. h_ptr s p)) (\<lambda>q.
     andthen
       (bind (gets (\<lambda>s. h_size s bp)) (\<lambda>n.
        if bp + 8 * n = q then
          bind (gets (\<lambda>s. h_size s q)) (\<lambda>m.
          andthen (set_size bp (n + m))
          (bind (gets (\<lambda>s. h_ptr s q)) (set_ptr bp)))
        else set_ptr bp q))
     (andthen
       (bind (gets (\<lambda>s. h_size s p)) (\<lambda>n.
        if p + 8 * n = bp then
          bind (gets (\<lambda>s. h_size s bp)) (\<lambda>m.
          andthen (set_size p (n + m))
          (bind (gets (\<lambda>s. h_ptr s bp)) (set_ptr p)))
        else set_ptr p bp))
     (set_freep p))))))"

definition usbrk :: "uint32 \<Rightarrow> (arena, uint32) routine" where
  "usbrk n = bind (gets brks) (\<lambda>bs.
     case bs of [] \<Rightarrow> (\<lambda>s. Spin s) | b # bs' \<Rightarrow> andthen (modify (\<lambda>s. s\<lparr>brks := bs'\<rparr>)) (return b))"

definition morecore :: "nat \<Rightarrow> uint32 \<Rightarrow> (arena, uint32) routine" where
  "morecore fuel nu0 =
    (let nu = (if nu0 < 4096 then 4096 else nu0) in
     bind (usbrk (nu * 8)) (\<lambda>p.
     if p = - 1 then return 0
     else
       andthen (set_size p nu)
       (andthen (ufree fuel (p + 8))
       (gets freep))))"

fun malloc_loop :: "nat \<Rightarrow> nat \<Rightarrow> uint32 \<Rightarrow> uint32 \<Rightarrow> uint32 \<Rightarrow> (arena, uint32) routine" where
  "malloc_loop 0 fuel nunits prevp p = (\<lambda>s. Spin s)"
| "malloc_loop (Suc k) fuel nunits prevp p =
    bind (gets (\<lambda>s. h_size s p)) (\<lambda>n.
    if n \<ge> nunits then
      bind (if n = nunits then
              bind (gets (\<lambda>s. h_ptr s p)) (\<lambda>q.
              andthen (set_ptr prevp q)
              (return p))
            else
              andthen (set_size p (n - nunits))
              (andthen (set_size (p + 8 * (n - nunits)) nunits)
              (return (p + 8 * (n - nunits))))) (\<lambda>p.
      andthen (set_freep prevp)
      (return (p + 8)))
    else
      bind (gets freep) (\<lambda>f.
      if p = f then
        bind (morecore fuel nunits) (\<lambda>p.
        if p = 0 then return 0
        else bind (gets (\<lambda>s. h_ptr s p)) (malloc_loop k fuel nunits p))
      else bind (gets (\<lambda>s. h_ptr s p)) (malloc_loop k fuel nunits p)))"

definition umalloc :: "nat \<Rightarrow> uint32 \<Rightarrow> (arena, uint32) routine" where
  "umalloc fuel nbytes =
    (let nunits = (nbytes + 8 - 1) div 8 + 1 in
     andthen
       (bind (gets freep) (\<lambda>f.
        do_if (f = 0)
          (bind (gets base_addr) (\<lambda>b.
           andthen (set_freep b)
           (andthen (set_ptr b b)
           (set_size b 0))))))
     (bind (gets freep) (\<lambda>prevp.
      bind (gets (\<lambda>s. h_ptr s prevp)) (malloc_loop fuel fuel nunits prevp))))"


section \<open>The free list\<close>

text \<open>\<open>links s xs e\<close>: the list runs through \<open>xs\<close> and on to \<open>e\<close>.\<close>

fun links :: "arena \<Rightarrow> uint32 list \<Rightarrow> uint32 \<Rightarrow> bool" where
  "links s [] e \<longleftrightarrow> True"
| "links s (x # xs) e \<longleftrightarrow> h_ptr s x = hd (xs @ [e]) \<and> links s xs e"

definition stop :: "arena \<Rightarrow> uint32 \<Rightarrow> nat" where
  "stop s x = unat x + 8 * unat (h_size s x)"

text \<open>The bytes of a block.\<close>

definition iv :: "arena \<Rightarrow> uint32 \<Rightarrow> nat set" where
  "iv s x = {unat x..<stop s x}"

text \<open>A block above the variable \<open>base\<close>.\<close>

definition block :: "arena \<Rightarrow> uint32 \<Rightarrow> bool" where
  "block s x \<longleftrightarrow> 0 < h_size s x \<and> stop s x < 2 ^ 32 \<and> unat (base_addr s) + 8 \<le> unat x"

text \<open>
  The free list is circular, starts at \<open>base\<close>, and is in the order of the addresses with a
  gap after every block; the blocks in use, with headers \<open>A\<close>, are apart from each other and
  from the free ones.
\<close>

definition heap_inv :: "arena \<Rightarrow> uint32 set \<Rightarrow> uint32 list \<Rightarrow> bool" where
  "heap_inv s A ns \<longleftrightarrow> base_addr s \<noteq> 0 \<and> h_size s (base_addr s) = 0
     \<and> links s (base_addr s # ns) (base_addr s) \<and> sorted_wrt (\<lambda>x y. stop s x < unat y) (base_addr s # ns)
     \<and> freep s \<in> set (base_addr s # ns)
     \<and> (\<forall>x \<in> set ns \<union> A. block s x)
     \<and> (\<forall>x \<in> A. \<forall>y \<in> set ns \<union> A. x \<noteq> y \<longrightarrow> iv s x \<inter> iv s y = {})
     \<and> A \<inter> set ns = {}"

lemma links_append: "links s (xs @ ys) e \<longleftrightarrow> links s xs (hd (ys @ [e])) \<and> links s ys e"
  by (induction xs) (auto simp: hd_append)

lemma links_nth: "links s xs e \<Longrightarrow> i < length xs \<Longrightarrow> h_ptr s (xs ! i) = (if Suc i < length xs then xs ! Suc i else e)"
proof (induction xs arbitrary: i)
  case (Cons x xs)
  then show ?case by (cases i; cases xs) auto
qed simp

lemma links_cong: "(\<And>x. x \<in> set xs \<Longrightarrow> h_ptr t x = h_ptr s x) \<Longrightarrow> links t xs e = links s xs e"
  by (induction xs) auto

lemma block_pos: "block s x \<Longrightarrow> unat x \<in> iv s x" "block s x \<Longrightarrow> unat x < stop s x"
  by (simp_all add: block_def iv_def stop_def word_less_nat_alt)

lemma not_base: "block s x \<Longrightarrow> x \<noteq> base_addr s"
  by (auto simp: block_def)

text \<open>Two blocks that are apart lie one after the other.\<close>

lemma apart_cases:
  assumes "iv s x \<inter> iv s y = {}" "unat x < stop s x" "unat y < stop s y"
  shows "stop s x \<le> unat y \<or> stop s y \<le> unat x"
proof (rule ccontr)
  assume "\<not> ?thesis"
  then have "max (unat x) (unat y) \<in> iv s x \<inter> iv s y" using assms(2,3) by (auto simp: iv_def)
  then show False using assms(1) by blast
qed

lemma apart_before: "stop s x \<le> unat y \<Longrightarrow> iv s x \<inter> iv s y = {}"
  by (auto simp: iv_def)

lemma sorted_distinct: "sorted_wrt (\<lambda>x y. stop s x < unat y) xs \<Longrightarrow> distinct xs"
  by (induction xs) (auto simp: stop_def)

lemma sorted_apart:
  assumes "sorted_wrt (\<lambda>x y. stop s x < unat y) xs" "x \<in> set xs" "y \<in> set xs" "x \<noteq> y"
  shows "iv s x \<inter> iv s y = {}"
  using assms by (induction xs) (auto simp: iv_def)

section \<open>Searching\<close>

lemma free_search_next:
  assumes "\<not> (bp > p \<and> bp < h_ptr s p)" "\<not> (p \<ge> h_ptr s p \<and> (bp > p \<or> bp < h_ptr s p))"
  shows "free_search (Suc m) bp p s = free_search m bp (h_ptr s p) s"
  using assms by auto

lemma free_search_turn:
  assumes L: "links s L b" "sorted_wrt (\<lambda>x y. stop s x < unat y) L" "L \<noteq> []" "hd L = b"
    and split: "\<forall>i < length L. L ! i < bp \<longleftrightarrow> i \<le> t" "\<forall>i < length L. L ! i \<noteq> bp" "t < length L" and d: "d < length L"
  shows "free_search (Suc d + k) bp (L ! ((t + length L - d) mod length L)) s = Ok (L ! t) s"
  using d
proof (induction d)
  case 0
  have p: "L ! t < bp" using split by simp
  have mono: "L ! i < L ! j" if "i < j" "j < length L" for i j
    using sorted_wrt_nth_less [OF L(2) that] by (simp add: stop_def word_less_nat_alt)
  show ?case
  proof (cases "Suc t < length L")
    case True
    have "\<not> L ! Suc t < bp" "L ! Suc t \<noteq> bp" using split(1,2) True by simp_all
    then have "bp < L ! Suc t" by simp
    then show ?thesis using p True split(3) links_nth [OF L(1) split(3)] by simp
  next
    case False
    have b: "b \<le> L ! t" "L ! 0 = b"
    proof -
      show z: "L ! 0 = b" using L(3,4) by (simp add: hd_conv_nth)
      show "b \<le> L ! t" using mono [of 0 t] split(3) z by (cases t) auto
    qed
    then show ?thesis using p False split(3) links_nth [OF L(1) split(3)] by simp
  qed
next
  case (Suc d)
  let ?n = "length L" let ?i = "(t + ?n - Suc d) mod ?n"
  have i: "?i < ?n" using L(3) by simp
  have nt: "?i \<noteq> t"
  proof (cases "Suc d \<le> t")
    case True
    then have "?i = t - Suc d" using split(3) Suc.prems by (simp add: mod_if)
    then show ?thesis using True by simp
  next
    case False
    then have "?i = t + ?n - Suc d" using Suc.prems split(3) by simp
    then show ?thesis using Suc.prems False by simp
  qed
  have nx: "Suc ?i mod ?n = (t + ?n - d) mod ?n"
  proof -
    have "Suc (t + ?n - Suc d) = t + ?n - d" using Suc.prems by simp
    then show ?thesis by (metis mod_Suc_eq)
  qed
  have mono: "L ! i < L ! j" if "i < j" "j < length L" for i j
    using sorted_wrt_nth_less [OF L(2) that] by (simp add: stop_def word_less_nat_alt)
  have z: "L ! 0 = b" using L(3,4) by (simp add: hd_conv_nth)
  have step: "\<not> (bp > L ! j \<and> bp < h_ptr s (L ! j)) \<and> \<not> (L ! j \<ge> h_ptr s (L ! j) \<and> (bp > L ! j \<or> bp < h_ptr s (L ! j)))
    \<and> h_ptr s (L ! j) = L ! (Suc j mod ?n)" if j: "j < ?n" "j \<noteq> t" for j
  proof (cases "Suc j < ?n")
    case True
    have lt: "L ! j < L ! Suc j" using mono True by simp
    have q: "h_ptr s (L ! j) = L ! Suc j" "Suc j mod ?n = Suc j" using links_nth [OF L(1) j(1)] True by simp_all
    show ?thesis
    proof (cases "j < t")
      case jt: True
      then have "L ! Suc j < bp" using split(1) True by simp
      then show ?thesis unfolding q using lt by (simp add: not_less less_imp_le)
    next
      case False
      then have "\<not> L ! j < bp" using split(1) j by simp
      then show ?thesis unfolding q using lt by (simp add: not_le)
    qed
  next
    case False
    then have l: "Suc j = ?n" using j by simp
    then have "t < j" using j(2) split(3) by linarith
    then have a: "\<not> L ! j < bp" using split(1) j by simp
    have "L ! 0 < bp" using split(1) L(3) by simp
    moreover have q: "h_ptr s (L ! j) = b" "Suc j mod ?n = 0" using links_nth [OF L(1) j(1)] l by simp_all
    ultimately show ?thesis unfolding q using a z by (simp add: not_less less_imp_le)
  qed
  have go: "free_search (Suc (Suc d) + k) bp (L ! ?i) s = free_search (Suc d + k) bp (L ! (Suc ?i mod ?n)) s"
    using free_search_next [OF step [OF i nt, THEN conjunct1] step [OF i nt, THEN conjunct2, THEN conjunct1], of "Suc d + k"]
      step [OF i nt, THEN conjunct2, THEN conjunct2] by (simp only: add_Suc)
  show ?case unfolding go nx by (rule Suc.IH) (use Suc.prems in simp)
qed


lemma cyclic_index:
  assumes "f < n" "t < (n :: nat)"
  shows "\<exists>d < n. (t + n - d) mod n = f"
proof (cases "f \<le> t")
  case True
  then have "(t + n - (t - f)) mod n = f" using assms by simp
  then show ?thesis using assms True by (intro exI [of _ "t - f"]) simp
next
  case False
  then have "(t + n - (t + n - f)) mod n = f" using assms by simp
  then show ?thesis using assms False by (intro exI [of _ "t + n - f"]) simp
qed

lemma search_split:
  assumes inv: "heap_inv s A ns" and bp: "block s bp" "\<forall>x \<in> set ns. iv s bp \<inter> iv s x = {}" and fuel: "length ns < fuel"
  shows "\<exists>xs p ys. base_addr s # ns = xs @ p # ys \<and> free_search fuel bp (freep s) s = Ok p s \<and> stop s p \<le> unat bp
    \<and> (\<forall>y \<in> set ys. stop s bp \<le> unat y)"
proof -
  let ?b = "base_addr s"
  define L where "L = base_addr s # ns"
  define T where "T = length (takeWhile (\<lambda>x. x < bp) L)"
  have L: "set L = insert ?b (set ns)" "L \<noteq> []" "hd L = ?b" "L ! 0 = ?b" "length L = Suc (length ns)" by (simp_all add: L_def)
  have i: "links s L ?b" "sorted_wrt (\<lambda>x y. stop s x < unat y) L" "freep s \<in> set L" "\<forall>x \<in> set ns. block s x" "h_size s ?b = 0"
    using inv unfolding L_def by (auto simp: heap_inv_def)
  have mono: "L ! i < L ! j" if "i < j" "j < length L" for i j
    using sorted_wrt_nth_less [OF i(2) that] by (simp only: stop_def word_less_nat_alt)
  have b: "?b < bp" using bp(1) by (simp add: block_def word_less_nat_alt)
  then have T: "0 < T" by (simp add: T_def L_def)
  have T': "T \<le> length L" unfolding T_def by (rule length_takeWhile_le)
  have side: "stop s x \<le> unat bp \<or> stop s bp \<le> unat x" if "x \<in> set ns" for x
    using apart_cases [of s x bp] bp that i(4) block_pos(2) by (metis inf_commute)
  have ne: "L ! j \<noteq> bp" if "j < length L" for j
  proof
    assume "L ! j = bp"
    then have "bp \<in> set L" using that nth_mem by metis
    then have "bp \<in> set ns" using b L(1) by auto
    then show False using bp block_pos(1) [OF bp(1)] by blast
  qed
  have lt: "L ! j < bp \<longleftrightarrow> j \<le> T - 1" if j: "j < length L" for j
  proof (cases "j < T")
    case True
    then have "takeWhile (\<lambda>x. x < bp) L ! j = L ! j" "takeWhile (\<lambda>x. x < bp) L ! j \<in> set (takeWhile (\<lambda>x. x < bp) L)"
      unfolding T_def by (rule takeWhile_nth, rule nth_mem)
    then have "L ! j < bp" using set_takeWhileD by fastforce
    then show ?thesis using True by simp
  next
    case False
    then have "T < length L" using j by simp
    then have "\<not> L ! T < bp" unfolding T_def by (rule nth_length_takeWhile)
    moreover have "L ! T \<le> L ! j" using mono [of T j] False j by (cases "T = j") auto
    ultimately have "\<not> L ! j < bp" by simp
    then show ?thesis using False T by simp
  qed
  define t where "t = T - 1"
  have t: "t < length L" "\<forall>j < length L. L ! j < bp \<longleftrightarrow> j \<le> t" using T T' lt unfolding t_def by (linarith, blast)
  obtain f where f: "f < length L" "L ! f = freep s" using i(3) by (metis in_set_conv_nth)
  obtain d where d: "d < length L" "(t + length L - d) mod length L = f" using cyclic_index [OF f(1) t(1)] by blast
  have "free_search (Suc d + (fuel - Suc d)) bp (L ! ((t + length L - d) mod length L)) s = Ok (L ! t) s"
    by (rule free_search_turn [OF i(1,2) _ _ t(2) _ t(1) d(1)]) (use ne L in auto)
  moreover have "Suc d + (fuel - Suc d) = fuel" using d(1) fuel L(5) by simp
  ultimately have "free_search fuel bp (freep s) s = Ok (L ! t) s" unfolding d(2) f(2) by simp
  moreover have "L = take t L @ L ! t # drop (Suc t) L" using t(1) by (rule id_take_nth_drop)
  moreover have "stop s (L ! t) \<le> unat bp"
  proof (cases t)
    case 0
    then show ?thesis using bp(1) i(5) L(4) by (simp add: stop_def block_def)
  next
    case (Suc j)
    then have "L ! t \<in> set ns" using t(1) by (simp add: L_def)
    moreover have "L ! t < bp" using t by simp
    ultimately show ?thesis using side [of "L ! t"] block_pos(2) [OF bp(1)] by (auto simp: word_less_nat_alt)
  qed
  moreover have "stop s bp \<le> unat y" if "y \<in> set (drop (Suc t) L)" for y
  proof -
    obtain j where j: "j < length (drop (Suc t) L)" "y = drop (Suc t) L ! j" using \<open>y \<in> set (drop (Suc t) L)\<close> by (metis in_set_conv_nth)
    then have y: "y = L ! (Suc t + j)" "Suc t + j < length L" by simp_all
    then have "\<not> y < bp" using t(2) by (metis add.commute not_less_eq_eq le_add2)
    moreover have "y \<in> set ns" using y by (simp add: L_def)
    ultimately show ?thesis using side [of y] block_pos(2) [of s y] i(4) by (auto simp: word_less_nat_alt)
  qed
  ultimately show ?thesis unfolding L_def by blast
qed


section \<open>Freeing\<close>

text \<open>Block \<open>x\<close> gets the successor \<open>y\<close>, or takes it in when it follows at once.\<close>

definition join :: "arena \<Rightarrow> uint32 \<Rightarrow> uint32 \<Rightarrow> arena" where
  "join s x y = (if x + 8 * h_size s x = y
     then s\<lparr>h_size := (h_size s)(x := h_size s x + h_size s y), h_ptr := (h_ptr s)(x := h_ptr s y)\<rparr>
     else s\<lparr>h_ptr := (h_ptr s)(x := y)\<rparr>)"

lemma ufree_run:
  assumes "free_search fuel bp (freep s) s = Ok p s"
  shows "ufree fuel (bp + 8) s = Ok () ((join (join s bp (h_ptr s p)) p bp)\<lparr>freep := p\<rparr>)"
  using assms by (simp add: ufree_def join_def set_size_def set_ptr_def set_freep_def Let_def)

lemma join_frame [simp]: "base_addr (join s x y) = base_addr s" "brks (join s x y) = brks s" "freep (join s x y) = freep s"
  "z \<noteq> x \<Longrightarrow> h_ptr (join s x y) z = h_ptr s z" "z \<noteq> x \<Longrightarrow> h_size (join s x y) z = h_size s z"
  "z \<noteq> x \<Longrightarrow> stop (join s x y) z = stop s z" "z \<noteq> x \<Longrightarrow> iv (join s x y) z = iv s z"
  by (simp_all add: join_def stop_def iv_def)

lemma word_stop:
  assumes "stop s x < 2 ^ 32"
  shows "unat (x + 8 * h_size s x) = stop s x mod 2 ^ 32" "stop s x = 2 ^ 32 \<Longrightarrow> x + 8 * h_size s x = 0"
proof -
  show u: "unat (x + 8 * h_size s x) = stop s x mod 2 ^ 32" by (simp add: stop_def unat_word_ariths mod_add_right_eq)
  show "x + 8 * h_size s x = 0" if "stop s x = 2 ^ 32" using u that by (simp add: word_unat_eq_iff)
qed

lemma sorted_stop_cong:
  "(\<And>z. z \<in> set zs \<Longrightarrow> stop t z = stop s z) \<Longrightarrow> sorted_wrt (\<lambda>x y. stop t x < unat y) zs = sorted_wrt (\<lambda>x y. stop s x < unat y) zs"
  by (induction zs) auto

lemma join_list:
  assumes zs: "links s zs e" "sorted_wrt (\<lambda>x y. stop s x < unat y) zs" "\<forall>z \<in> set zs. stop s x \<le> unat z" "x \<notin> set zs"
    and e: "zs = [] \<Longrightarrow> x + 8 * h_size s x \<noteq> e" and b: "stop s x < 2 ^ 32" "\<forall>z \<in> set zs. stop s z < 2 ^ 32"
  defines "y \<equiv> hd (zs @ [e])"
  defines "t \<equiv> join s x y" and "ys \<equiv> (if x + 8 * h_size s x = y then tl zs else zs)"
  shows "links t (x # ys) e" "sorted_wrt (\<lambda>x y. stop t x < unat y) (x # ys)" "set ys \<subseteq> set zs"
    "iv t x \<union> (\<Union>z \<in> set ys. iv t z) = iv s x \<union> (\<Union>z \<in> set zs. iv s z)" "stop t x < 2 ^ 32" "h_size s x \<le> h_size t x"
    "length ys \<le> length zs" "ys \<noteq> zs \<Longrightarrow> h_size s (hd zs) \<le> h_size t x"
proof -
  have "links t (x # ys) e \<and> sorted_wrt (\<lambda>x y. stop t x < unat y) (x # ys) \<and> set ys \<subseteq> set zs
    \<and> iv t x \<union> (\<Union>z \<in> set ys. iv t z) = iv s x \<union> (\<Union>z \<in> set zs. iv s z) \<and> stop t x < 2 ^ 32 \<and> h_size s x \<le> h_size t x
    \<and> length ys \<le> length zs \<and> (ys \<noteq> zs \<longrightarrow> h_size s (hd zs) \<le> h_size t x)"
  proof (cases zs)
    case Nil
    then have "x + 8 * h_size s x \<noteq> y" using e by (simp add: y_def)
    then show ?thesis using Nil b(1) by (simp add: t_def ys_def join_def stop_def iv_def y_def)
  next
    case (Cons q qs)
    have y: "y = q" by (simp add: y_def Cons)
    have le: "stop s x \<le> unat q" using zs(3) Cons by simp
    have "unat (x + 8 * h_size s x) = stop s x" using word_stop(1) [OF b(1)] le unat_lt_2p32 [of q] by simp
    then have eq: "x + 8 * h_size s x = q \<longleftrightarrow> stop s x = unat q" by (simp add: word_unat_eq_iff)
    have xq: "x \<noteq> q" "x \<notin> set qs" using zs(4) Cons by auto
    show ?thesis
    proof (cases "stop s x = unat q")
      case True
      have ys: "ys = qs" using True eq by (simp add: ys_def y Cons)
      have t: "t = s\<lparr>h_size := (h_size s)(x := h_size s x + h_size s q), h_ptr := (h_ptr s)(x := h_ptr s q)\<rparr>"
        using True eq by (simp add: t_def join_def y)
      have "8 * (unat (h_size s x) + unat (h_size s q)) < 2 ^ 32" using True b(2) Cons by (simp add: stop_def)
      then have u: "unat (h_size s x + h_size s q) = unat (h_size s x) + unat (h_size s q)" by (simp add: unat_word_ariths)
      then have st: "stop t x = stop s q" using True by (simp add: t stop_def)
      have o: "stop t z = stop s z" "iv t z = iv s z" if "z \<in> set qs" for z using that xq(2) by (auto simp: t stop_def iv_def)
      have "iv t x = iv s x \<union> iv s q" using st True by (auto simp: iv_def stop_def)
      moreover have "links t qs e = links s qs e" by (rule links_cong) (use xq(2) in \<open>auto simp: t\<close>)
      moreover have "sorted_wrt (\<lambda>x y. stop t x < unat y) qs = sorted_wrt (\<lambda>x y. stop s x < unat y) qs"
        by (rule sorted_stop_cong) (use o in auto)
      ultimately show ?thesis using zs b Cons st u o unfolding ys by (auto simp: t word_le_nat_alt)
    next
      case False
      have ys: "ys = zs" using False eq by (simp add: ys_def y)
      have t: "t = s\<lparr>h_ptr := (h_ptr s)(x := q)\<rparr>" using False eq by (simp add: t_def join_def y)
      have o: "stop t z = stop s z" "iv t z = iv s z" for z by (simp_all add: t stop_def iv_def)
      have "links t zs e = links s zs e" by (rule links_cong) (use zs(4) in \<open>auto simp: t\<close>)
      moreover have "\<forall>z \<in> set zs. stop s x < unat z"
      proof
        fix z assume "z \<in> set zs"
        then consider "z = q" | "stop s q < unat z" using zs(2) Cons by auto
        then show "stop s x < unat z" using le False by cases (simp_all add: stop_def)
      qed
      ultimately show ?thesis using zs b Cons unfolding ys by (simp add: o) (simp add: t)
    qed
  qed
  then show "links t (x # ys) e" "sorted_wrt (\<lambda>x y. stop t x < unat y) (x # ys)" "set ys \<subseteq> set zs"
    "iv t x \<union> (\<Union>z \<in> set ys. iv t z) = iv s x \<union> (\<Union>z \<in> set zs. iv s z)" "stop t x < 2 ^ 32" "h_size s x \<le> h_size t x"
    "length ys \<le> length zs" "ys \<noteq> zs \<Longrightarrow> h_size s (hd zs) \<le> h_size t x"
    by blast+
qed


lemma heap_invD:
  assumes "heap_inv s A ns"
  shows "base_addr s \<noteq> 0" "h_size s (base_addr s) = 0" "links s (base_addr s # ns) (base_addr s)"
    "sorted_wrt (\<lambda>x y. stop s x < unat y) (base_addr s # ns)" "freep s \<in> set (base_addr s # ns)"
    "\<And>x. x \<in> set ns \<Longrightarrow> block s x" "\<And>x. x \<in> A \<Longrightarrow> block s x"
    "\<And>x y. x \<in> A \<Longrightarrow> y \<in> set ns \<Longrightarrow> iv s x \<inter> iv s y = {}" "\<And>x y. x \<in> A \<Longrightarrow> y \<in> A \<Longrightarrow> x \<noteq> y \<Longrightarrow> iv s x \<inter> iv s y = {}" "A \<inter> set ns = {}"
proof -
  have k: "base_addr s \<noteq> 0" "h_size s (base_addr s) = 0" "links s (base_addr s # ns) (base_addr s)"
    "sorted_wrt (\<lambda>x y. stop s x < unat y) (base_addr s # ns)" "freep s \<in> set (base_addr s # ns)" "\<forall>x \<in> set ns \<union> A. block s x"
    "\<forall>x \<in> A. \<forall>y \<in> set ns \<union> A. x \<noteq> y \<longrightarrow> iv s x \<inter> iv s y = {}" "A \<inter> set ns = {}"
    using assms unfolding heap_inv_def by - (elim conjE, assumption)+
  show "base_addr s \<noteq> 0" "h_size s (base_addr s) = 0" "links s (base_addr s # ns) (base_addr s)"
    "sorted_wrt (\<lambda>x y. stop s x < unat y) (base_addr s # ns)" "freep s \<in> set (base_addr s # ns)" "A \<inter> set ns = {}"
    by (rule k)+
  show "block s x" if "x \<in> set ns" for x using k(6) that by simp
  show "block s x" if "x \<in> A" for x using k(6) that by simp
  show "iv s x \<inter> iv s y = {}" if "x \<in> A" "y \<in> set ns" for x y
  proof -
    have "x \<noteq> y" using k(8) that by blast
    then show ?thesis using k(7) that by simp
  qed
  show "iv s x \<inter> iv s y = {}" if "x \<in> A" "y \<in> A" "x \<noteq> y" for x y using k(7) that by simp
qed

text \<open>The free memory.\<close>

definition area :: "arena \<Rightarrow> uint32 list \<Rightarrow> nat set" where
  "area s ns = (\<Union>x \<in> set ns. iv s x)"

definition insert_block :: "arena \<Rightarrow> uint32 \<Rightarrow> uint32 \<Rightarrow> arena" where
  "insert_block s p bp = join (join s bp (h_ptr s p)) p bp"

lemma insert_list:
  assumes L: "links s (xs @ p # ys) b" "sorted_wrt (\<lambda>x y. stop s x < unat y) (xs @ p # ys)" "\<forall>x \<in> set (xs @ p # ys). stop s x < 2 ^ 32"
    and bp: "stop s p \<le> unat bp" "\<forall>y \<in> set ys. stop s bp \<le> unat y" "bp \<notin> set (xs @ p # ys)" "stop s bp < 2 ^ 32" "b \<noteq> 0" "unat b < stop s bp"
      "unat bp \<le> stop s bp"
  defines "t \<equiv> insert_block s p bp"
  shows "\<exists>zs. links t (xs @ p # zs) b \<and> sorted_wrt (\<lambda>x y. stop t x < unat y) (xs @ p # zs) \<and> set zs \<subseteq> insert bp (set ys)
    \<and> area t (xs @ p # zs) = area s (xs @ p # ys) \<union> iv s bp \<and> length zs \<le> Suc (length ys) \<and> (\<forall>x \<in> set (p # zs). stop t x < 2 ^ 32)
    \<and> h_size s p \<le> h_size t p \<and> h_size s bp \<le> h_size t bp \<and> (\<exists>x \<in> set (p # zs). h_size s bp \<le> h_size t x)
    \<and> (p + 8 * h_size s p \<noteq> bp \<longrightarrow> h_size t p = h_size s p \<and> bp \<in> set zs)
    \<and> (\<forall>z. z \<noteq> p \<longrightarrow> z \<noteq> bp \<longrightarrow> h_ptr t z = h_ptr s z \<and> h_size t z = h_size s z)"
proof -
  have q: "h_ptr s p = hd (ys @ [b])" and ly: "links s ys b" and lx: "links s xs p" using L(1) by (simp_all add: links_append)
  have sy: "sorted_wrt (\<lambda>x y. stop s x < unat y) ys" "\<forall>z \<in> set ys. stop s p < unat z"
    and sx: "sorted_wrt (\<lambda>x y. stop s x < unat y) xs" "\<forall>x \<in> set xs. stop s x < unat p" "\<forall>x \<in> set xs. \<forall>y \<in> set ys. stop s x < unat y"
    using L(2) by (simp_all add: sorted_wrt_append)
  have pn: "p \<notin> set ys" "p \<noteq> bp" "p \<notin> set xs" using sy(2) sx(2) bp(3) by (auto simp: stop_def)
  define s1 where "s1 = join s bp (h_ptr s p)"
  define ys1 where "ys1 = (if bp + 8 * h_size s bp = h_ptr s p then tl ys else ys)"
  have e: "bp + 8 * h_size s bp \<noteq> b"
  proof (cases "stop s bp = 2 ^ 32")
    case True
    then show ?thesis using word_stop(2) [OF bp(4)] bp(5) by simp
  next
    case False
    then have "unat (bp + 8 * h_size s bp) = stop s bp" using word_stop(1) [OF bp(4)] bp(4) by simp
    then show ?thesis using bp(6) by auto
  qed
  have bn: "bp \<notin> set ys" "\<forall>z \<in> set ys. stop s z < 2 ^ 32" using bp(3) L(3) by simp_all
  note j1 = join_list [OF ly sy(1) bp(2) bn(1) e bp(4) bn(2), folded q, folded s1_def ys1_def]
  define zs where "zs = (if p + 8 * h_size s1 p = bp then ys1 else bp # ys1)"
  have t: "t = join s1 p bp" by (simp add: t_def insert_block_def s1_def)
  have f1: "h_ptr s1 z = h_ptr s z" "h_size s1 z = h_size s z" "stop s1 z = stop s z" "iv s1 z = iv s z" if "z \<noteq> bp" for z
    using that by (simp_all add: s1_def)
  have o1: "z \<noteq> bp" if "z \<in> set ys1" for z using j1(3) that bn(1) by auto
  have c2: "\<forall>z \<in> set (bp # ys1). stop s1 p \<le> unat z" using bp(1) sy(2) j1(3) f1(3) [OF pn(2)] by (auto simp: less_imp_le)
  have d2: "p \<notin> set (bp # ys1)" "stop s1 p < 2 ^ 32" using pn j1(3) f1(3) [OF pn(2)] L(3) by auto
  have b2: "\<forall>z \<in> set (bp # ys1). stop s1 z < 2 ^ 32"
  proof
    fix z assume "z \<in> set (bp # ys1)"
    then show "stop s1 z < 2 ^ 32" using j1(3,5) bn(2) f1(3) o1 by (cases "z = bp") auto
  qed
  have h: "hd ((bp # ys1) @ [b]) = bp" "tl (bp # ys1) = ys1" by simp_all
  note j2 = join_list [OF j1(1,2) c2 d2(1) _ d2(2) b2, simplified h list.simps, folded t, folded zs_def]
  have k: "links t (p # zs) b" "sorted_wrt (\<lambda>x y. stop t x < unat y) (p # zs)" "set zs \<subseteq> set (bp # ys1)"
    "iv t p \<union> (\<Union>z \<in> set zs. iv t z) = iv s1 p \<union> (\<Union>z \<in> set (bp # ys1). iv s1 z)" "stop t p < 2 ^ 32" "h_size s1 p \<le> h_size t p"
    "length zs \<le> length (bp # ys1)" "zs \<noteq> bp # ys1 \<Longrightarrow> h_size s1 bp \<le> h_size t p"
    using j2 by simp_all
  have ft: "h_ptr t z = h_ptr s1 z" "h_size t z = h_size s1 z" "stop t z = stop s1 z" "iv t z = iv s1 z" if "z \<noteq> p" for z
    using that by (simp_all add: t)
  have same: "h_ptr t z = h_ptr s z" "h_size t z = h_size s z" "stop t z = stop s z" "iv t z = iv s z" if "z \<noteq> p" "z \<noteq> bp" for z
    using ft [OF that(1)] f1 [OF that(2)] by simp_all
  have xs: "x \<noteq> p" "x \<noteq> bp" if "x \<in> set xs" for x using that pn(3) bp(3) by auto
  have "links t xs p" using lx links_cong [of xs t s p] same xs by auto
  then have links: "links t (xs @ p # zs) b" using k(1) by (simp add: links_append)
  have "stop t x < unat z" if "x \<in> set xs" "z \<in> set (p # zs)" for x z
  proof -
    have "z = p \<or> z = bp \<or> z \<in> set ys" using that(2) k(3) j1(3) by auto
    moreover have "stop s x < unat p" "unat p \<le> unat bp" using sx(2) that(1) bp(1) by (auto simp: stop_def)
    ultimately show ?thesis using sx(3) that(1) same(3) [OF xs [OF that(1)]] by auto
  qed
  moreover have "sorted_wrt (\<lambda>x y. stop t x < unat y) xs" using sx(1) sorted_stop_cong [of xs t s] same xs by auto
  ultimately have sorted: "sorted_wrt (\<lambda>x y. stop t x < unat y) (xs @ p # zs)" using k(2) by (simp add: sorted_wrt_append)
  have ar: "area t (xs @ p # zs) = area s (xs @ p # ys) \<union> iv s bp"
  proof -
    have "(\<Union>x \<in> set xs. iv t x) = (\<Union>x \<in> set xs. iv s x)" using same(4) xs by simp
    then have "area t (xs @ p # zs) = (\<Union>x \<in> set xs. iv s x) \<union> (iv t p \<union> (\<Union>z \<in> set zs. iv t z))" by (auto simp: area_def)
    also have "\<dots> = (\<Union>x \<in> set xs. iv s x) \<union> (iv s p \<union> (iv s1 bp \<union> (\<Union>z \<in> set ys1. iv s1 z)))" using k(4) f1(4) [OF pn(2)] by simp
    finally show ?thesis unfolding j1(4) by (auto simp: area_def)
  qed
  have fit: "\<exists>x \<in> set (p # zs). h_size s bp \<le> h_size t x"
  proof (cases "zs = bp # ys1")
    case True
    then show ?thesis using j1(6) ft(2) [of bp] pn(2) by auto
  next
    case False
    then show ?thesis using k(8) j1(6) by auto
  qed
  have zs: "set zs \<subseteq> insert bp (set ys)" using k(3) j1(3) by auto
  have len: "length zs \<le> Suc (length ys)" using k(7) j1(7) by simp
  have st: "\<forall>x \<in> set (p # zs). stop t x < 2 ^ 32"
  proof
    fix x assume x: "x \<in> set (p # zs)"
    show "stop t x < 2 ^ 32"
    proof (cases "x = p")
      case False
      then have "x \<in> set (bp # ys1)" using x k(3) by auto
      then show ?thesis using b2 ft(3) [OF False] by auto
    qed (use k(5) in simp)
  qed
  have sz: "h_size s p \<le> h_size t p" "h_size s bp \<le> h_size t bp" using k(6) f1(2) [OF pn(2)] j1(6) ft(2) [of bp] pn(2) by simp_all
  have nj: "p + 8 * h_size s p \<noteq> bp \<longrightarrow> h_size t p = h_size s p \<and> bp \<in> set zs"
    using f1(2) [OF pn(2)] by (simp add: zs_def t join_def)
  show ?thesis
    by (intro exI [of _ zs] conjI links sorted zs ar len st sz fit nj allI impI same) assumption+
qed


lemma freep_frame [simp]:
  "links (s\<lparr>freep := p\<rparr>) xs e = links s xs e" "stop (s\<lparr>freep := p\<rparr>) x = stop s x" "iv (s\<lparr>freep := p\<rparr>) x = iv s x"
  "block (s\<lparr>freep := p\<rparr>) x = block s x" "area (s\<lparr>freep := p\<rparr>) ns = area s ns"
  by (simp_all add: stop_def iv_def block_def area_def links_cong [of xs "s\<lparr>freep := p\<rparr>" s])

lemma insert_frame [simp]: "base_addr (insert_block s p bp) = base_addr s" "brks (insert_block s p bp) = brks s"
  by (simp_all add: insert_block_def)

lemma ufree_returns:
  assumes inv: "heap_inv s A ns" and bp: "block s bp" "\<forall>x \<in> set ns \<union> A. iv s bp \<inter> iv s x = {}" and fuel: "length ns < fuel"
  shows "returns (ufree fuel (bp + 8)) s (\<lambda>_ t. base_addr t = base_addr s \<and> brks t = brks s \<and> (\<forall>h \<in> A. h_size t h = h_size s h)
    \<and> (\<exists>ns'. heap_inv t A ns' \<and> area t ns' = area s ns \<union> iv s bp \<and> length ns' \<le> Suc (length ns) \<and> (\<exists>x \<in> set ns'. h_size s bp \<le> h_size t x)))"
proof -
  let ?b = "base_addr s"
  note h = heap_invD [OF inv]
  have "\<forall>x \<in> set ns. iv s bp \<inter> iv s x = {}" using bp(2) by simp
  from search_split [OF inv bp(1) this fuel] obtain xs p ys where L: "?b # ns = xs @ p # ys" "free_search fuel bp (freep s) s = Ok p s"
    "stop s p \<le> unat bp" "\<forall>y \<in> set ys. stop s bp \<le> unat y" by blast
  define t where "t = (insert_block s p bp)\<lparr>freep := p\<rparr>"
  have run: "ufree fuel (bp + 8) s = Ok () t" using ufree_run [OF L(2)] by (simp add: t_def insert_block_def)
  have bn: "bp \<notin> set ns \<union> A" using bp block_pos(1) [OF bp(1)] by blast
  have nb: "bp \<noteq> ?b" by (rule not_base [OF bp(1)])
  have sb: "stop s ?b = unat ?b" using h(2) by (simp add: stop_def)
  have st: "\<forall>x \<in> set (xs @ p # ys). stop s x < 2 ^ 32"
    unfolding L(1) [symmetric] using h(6) sb unat_lt_2p32 [of ?b] by (auto simp: block_def)
  have bb: "bp \<notin> set (xs @ p # ys)" "stop s bp < 2 ^ 32" "unat ?b < stop s bp" "unat bp \<le> stop s bp"
    using bn nb bp(1) unfolding L(1) [symmetric] by (auto simp: block_def stop_def)
  let ?u = "insert_block s p bp"
  from insert_list [OF h(3,4) [unfolded L(1)] st L(3,4) bb(1,2) h(1) bb(3,4)] obtain zs where z: "links ?u (xs @ p # zs) ?b"
    "sorted_wrt (\<lambda>x y. stop ?u x < unat y) (xs @ p # zs)" "set zs \<subseteq> insert bp (set ys)"
    "area ?u (xs @ p # zs) = area s (xs @ p # ys) \<union> iv s bp" "length zs \<le> Suc (length ys)" "\<forall>x \<in> set (p # zs). stop ?u x < 2 ^ 32"
    "h_size s p \<le> h_size ?u p" "h_size s bp \<le> h_size ?u bp" "\<exists>x \<in> set (p # zs). h_size s bp \<le> h_size ?u x"
    "p + 8 * h_size s p \<noteq> bp \<longrightarrow> h_size ?u p = h_size s p \<and> bp \<in> set zs"
    "\<forall>z. z \<noteq> p \<longrightarrow> z \<noteq> bp \<longrightarrow> h_ptr ?u z = h_ptr s z \<and> h_size ?u z = h_size s z"
    by blast
  define ns' where "ns' = tl (xs @ p # zs)"
  have L': "xs @ p # zs = ?b # ns'" using L(1) unfolding ns'_def by (cases xs) auto
  have same: "h_size ?u x = h_size s x" "stop ?u x = stop s x" "iv ?u x = iv s x" if "x \<noteq> p" "x \<noteq> bp" for x
    using z(11) that by (simp_all add: stop_def iv_def)
  have size0: "h_size ?u ?b = 0"
  proof (cases "p = ?b")
    case True
    then have "p + 8 * h_size s p \<noteq> bp" using h(2) nb by simp
    then show ?thesis using z(10) True h(2) by simp
  next
    case False
    then show ?thesis using same(1) [of ?b] nb h(2) by simp
  qed
  have sub: "set ns' \<subseteq> insert bp (set ns)"
  proof -
    have "set (?b # ns') \<subseteq> insert bp (set (?b # ns))" unfolding L' [symmetric] L(1) using z(3) by auto
    moreover have "?b \<notin> set ns'" using z(2) unfolding L' by (auto simp: stop_def)
    ultimately show ?thesis by auto
  qed
  have pin: "p \<in> set (?b # ns)" unfolding L(1) by simp
  have nb': "?b \<notin> set ns'" using z(2) unfolding L' by (auto simp: stop_def)
  have blk: "block ?u x" if x: "x \<in> set ns'" for x
  proof -
    have s: "block s x" using x sub h(6) bp(1) by auto
    show ?thesis
    proof (cases "x = p \<or> x = bp")
      case True
      have "x \<in> set (xs @ p # zs)" using x unfolding L' by simp
      then have "x \<in> set (p # zs)" using True bb(1) by auto
      then have "stop ?u x < 2 ^ 32" using z(6) by blast
      moreover have "h_size s x \<le> h_size ?u x" using True z(7,8) by auto
      ultimately show ?thesis using s by (auto simp: block_def)
    next
      case False
      then show ?thesis using same [of x] s by (simp add: block_def)
    qed
  qed
  have A: "x \<noteq> p" "x \<noteq> bp" if "x \<in> A" for x
  proof -
    show "x \<noteq> bp" using bn that by auto
    show "x \<noteq> p" using pin that h(10) not_base [OF h(7) [OF that]] by auto
  qed
  have ar: "area ?u ns' = area s ns \<union> iv s bp"
  proof -
    have "iv ?u ?b = {}" "iv s ?b = {}" using size0 h(2) by (simp_all add: iv_def stop_def)
    then show ?thesis using z(4) unfolding L' L(1) [symmetric] by (simp add: area_def)
  qed
  have dis: "iv ?u x \<inter> iv ?u y = {}" if x: "x \<in> A" and y: "y \<in> set ns' \<union> A" "x \<noteq> y" for x y
  proof (cases "y \<in> A")
    case True
    then show ?thesis using same(3) A x y(2) h(9) by simp
  next
    case False
    then have "iv ?u y \<subseteq> area s ns \<union> iv s bp" using y(1) unfolding ar [symmetric] by (auto simp: area_def)
    moreover have "iv s x \<inter> area s ns = {}" using h(8) [OF x] unfolding area_def by blast
    moreover have "iv s x \<inter> iv s bp = {}" using bp(2) x by blast
    ultimately show ?thesis using same(3) [OF A [OF x]] by blast
  qed
  have bA: "\<forall>x \<in> set ns' \<union> A. block ?u x"
  proof
    fix x assume "x \<in> set ns' \<union> A"
    then show "block ?u x" using blk same A h(7) by (cases "x \<in> A") (auto simp: block_def)
  qed
  have "p \<in> set (?b # ns')" unfolding L' [symmetric] by simp
  moreover have "A \<inter> set ns' = {}" using sub bn h(10) by blast
  ultimately have "heap_inv t A ns'"
    unfolding heap_inv_def t_def using h(1) size0 z(1,2) [unfolded L'] bA dis by simp
  moreover have "length ns' \<le> Suc (length ns)"
  proof -
    have "length (xs @ p # zs) \<le> Suc (length (xs @ p # ys))" using z(5) by simp
    then show ?thesis unfolding L' L(1) [symmetric] by simp
  qed
  moreover have "\<exists>x \<in> set ns'. h_size s bp \<le> h_size ?u x"
  proof -
    obtain x where x: "x \<in> set (p # zs)" "h_size s bp \<le> h_size ?u x" using z(9) by blast
    then have "x \<in> set (?b # ns')" unfolding L' [symmetric] by auto
    moreover have "x \<noteq> ?b" using x(2) size0 bp(1) by (auto simp: block_def)
    ultimately show ?thesis using x(2) by auto
  qed
  ultimately show ?thesis using run ar same(1) A by (auto simp: returns_def t_def intro!: exI [of _ ns'])
qed


section \<open>Allocating\<close>

text \<open>The outcome of an allocation: block \<open>h\<close> has left the free memory.\<close>

definition taken :: "arena \<Rightarrow> uint32 set \<Rightarrow> uint32 list \<Rightarrow> uint32 \<Rightarrow> uint32 \<Rightarrow> arena \<Rightarrow> bool" where
  "taken s A ns n h t \<longleftrightarrow> h \<notin> A \<and> h_size t h = n \<and> base_addr t = base_addr s \<and> brks t = brks s \<and> (\<forall>g \<in> A. h_size t g = h_size s g)
     \<and> (\<exists>ns'. heap_inv t (insert h A) ns' \<and> area t ns' \<union> iv t h = area s ns)"

lemma take_exact:
  assumes inv: "heap_inv s A ns" and L: "base_addr s # ns = xs @ prevp # p # ys"
  shows "taken s A ns (h_size s p) p (s\<lparr>h_ptr := (h_ptr s)(prevp := h_ptr s p), freep := prevp\<rparr>)"
proof -
  let ?b = "base_addr s"
  note h = heap_invD [OF inv]
  define t where "t = s\<lparr>h_ptr := (h_ptr s)(prevp := h_ptr s p), freep := prevp\<rparr>"
  have f: "stop t x = stop s x" "iv t x = iv s x" "block t x = block s x" for x by (simp_all add: t_def stop_def iv_def block_def)
  have f': "(\<lambda>x y. stop t x < unat y) = (\<lambda>x y. stop s x < unat y)" by (simp add: f)
  have bt: "base_addr t = ?b" by (simp add: t_def)
  define ns' where "ns' = tl (xs @ prevp # ys)"
  have L': "xs @ prevp # ys = ?b # ns'" using L unfolding ns'_def by (cases xs) auto
  have dist: "distinct (?b # ns)" using h(4) by (rule sorted_distinct)
  have set: "set (?b # ns) = insert p (set (?b # ns'))" "p \<notin> set (?b # ns')" using dist unfolding L L' [symmetric] by auto
  have ns: "set ns = insert p (set ns')" "p \<in> set ns" "p \<noteq> ?b"
  proof -
    have d: "distinct (?b # ns')" using dist unfolding L L' [symmetric] by simp
    show pb: "p \<noteq> ?b" using L dist by (cases xs) auto
    have "set ns = set (?b # ns) - {?b}" using dist by simp
    also have "\<dots> = insert p (set ns')" unfolding set(1) using d pb by auto
    finally show "set ns = insert p (set ns')" .
    then show "p \<in> set ns" by simp
  qed
  have lk: "links s (xs @ [prevp]) p" "links s ys ?b" "h_ptr s p = hd (ys @ [?b])" using h(3) unfolding L by (simp_all add: links_append)
  have "links t xs prevp = links s xs prevp" by (rule links_cong) (use dist in \<open>auto simp: L t_def\<close>)
  moreover have "links t ys ?b = links s ys ?b" by (rule links_cong) (use dist in \<open>auto simp: L t_def\<close>)
  ultimately have "links t (xs @ prevp # ys) ?b" using lk by (simp add: links_append t_def)
  then have l: "links t (?b # ns') ?b" unfolding L' .
  have "sorted_wrt (\<lambda>x y. stop s x < unat y) (xs @ prevp # ys)" using h(4) unfolding L by (simp add: sorted_wrt_append)
  then have so: "sorted_wrt (\<lambda>x y. stop t x < unat y) (?b # ns')" unfolding L' f' .
  have fp: "prevp \<in> set (?b # ns')" unfolding L' [symmetric] by simp
  have apart: "iv s x \<inter> iv s y = {}" if x: "x \<in> insert p A" and y: "y \<in> set ns' \<union> insert p A" "x \<noteq> y" for x y
  proof (cases "x \<in> A")
    case True
    then show ?thesis using y h(8) [OF True] h(9) [OF True] ns by auto
  next
    case False
    then have "x = p" using x by simp
    then show ?thesis using y h(8) [of y p] sorted_apart [OF h(4), of p y] ns by auto
  qed
  have "heap_inv t (insert p A) ns'"
    unfolding heap_inv_def f
  proof (intro conjI)
    show "links t (base_addr t # ns') (base_addr t)" "sorted_wrt (\<lambda>x y. stop s x < unat y) (base_addr t # ns')"
      using l so [unfolded f'] unfolding bt by blast+
    show "\<forall>x \<in> set ns' \<union> insert p A. block s x" using h(6,7) ns by auto
    show "\<forall>x \<in> insert p A. \<forall>y \<in> set ns' \<union> insert p A. x \<noteq> y \<longrightarrow> iv s x \<inter> iv s y = {}" using apart by blast
    show "insert p A \<inter> set ns' = {}" using set(2) h(10) ns(1) by auto
  qed (use h(1,2) fp in \<open>simp_all add: t_def\<close>)
  moreover have "area t ns' \<union> iv t p = area s ns" unfolding area_def f ns(1) by auto
  moreover have "p \<notin> A" using ns(2) h(10) by auto
  ultimately show ?thesis unfolding taken_def t_def [symmetric] by (auto simp: t_def)
qed


lemma unat_units: "unat p + 8 * unat k < 2 ^ 32 \<Longrightarrow> unat (p + 8 * k :: uint32) = unat p + 8 * unat k"
  by (simp add: unat_word_ariths)

lemma take_split:
  assumes inv: "heap_inv s A ns" and p: "p \<in> set ns" "prevp \<in> set (base_addr s # ns)" and n: "0 < n" "n < h_size s p"
  shows "taken s A ns n (p + 8 * (h_size s p - n))
    (s\<lparr>h_size := (h_size s)(p := h_size s p - n, p + 8 * (h_size s p - n) := n), freep := prevp\<rparr>)"
proof -
  let ?b = "base_addr s" let ?m = "h_size s p - n" let ?h = "p + 8 * (h_size s p - n)"
  note h = heap_invD [OF inv]
  define t where "t = s\<lparr>h_size := (h_size s)(p := ?m, ?h := n), freep := prevp\<rparr>"
  have bp: "block s p" by (rule h(6) [OF p(1)])
  have m: "unat ?m = unat (h_size s p) - unat n" "0 < unat ?m" "0 < unat n" using n by (simp_all add: unat_sub word_less_nat_alt word_le_nat_alt)
  have sp: "unat p + 8 * unat (h_size s p) < 2 ^ 32" using bp by (simp add: block_def stop_def)
  have uh: "unat ?h = unat p + 8 * unat ?m"
  proof -
    have "unat p + 8 * unat ?m < 2 ^ 32" using sp m n by (simp add: word_less_nat_alt)
    then show ?thesis by (rule unat_units)
  qed
  have hp: "?h \<noteq> p" using uh m(2) by (auto simp: word_unat_eq_iff)
  have "unat (h_size s p) = unat ?m + unat n" using m n by (simp add: word_less_nat_alt)
  then have st: "stop t p = unat ?h" "stop t ?h = stop s p" using hp uh by (simp_all add: t_def stop_def)
  have ip: "iv s p = iv t p \<union> iv t ?h" "iv t p \<inter> iv t ?h = {}" using st uh by (auto simp: iv_def stop_def)
  have inp: "unat ?h \<in> iv s p" using uh m(3) st by (auto simp: iv_def stop_def t_def)
  have hn: "?h \<noteq> x" if "x \<in> set ns \<union> A" "x \<noteq> p" for x
  proof
    assume "?h = x"
    moreover have "unat x \<in> iv s x" using that(1) h(6,7) block_pos(1) by blast
    moreover have "iv s p \<inter> iv s x = {}"
      using that h(8) [of x p] p(1) sorted_apart [OF h(4), of p x] by auto
    ultimately show False using inp by auto
  qed
  have same: "h_size t x = h_size s x" "stop t x = stop s x" "iv t x = iv s x" "block t x = block s x" if "x \<in> set ns \<union> A" "x \<noteq> p" for x
    using hn [OF that] that(2) by (auto simp: t_def stop_def iv_def block_def)
  have bb: "?h \<noteq> ?b" "p \<noteq> ?b" "stop t ?b = stop s ?b" "h_size t ?b = h_size s ?b"
  proof -
    have "unat ?b < unat p" using bp by (simp add: block_def)
    then show "?h \<noteq> ?b" "p \<noteq> ?b" using uh by auto
    then show "stop t ?b = stop s ?b" "h_size t ?b = h_size s ?b" by (simp_all add: t_def stop_def)
  qed
  have less: "stop t x \<le> stop s x" if "x \<in> set (?b # ns)" for x
    using that same(2) [of x] bb(3) st uh m by (cases "x = p") (auto simp: stop_def)
  have so: "sorted_wrt (\<lambda>x y. stop t x < unat y) (?b # ns)"
    by (rule sorted_wrt_mono_rel [OF _ h(4)]) (use less in \<open>auto intro: le_less_trans\<close>)
  have A: "?h \<notin> A" "?h \<notin> set ns" using hn hp p(1) by blast+
  have bt: "block t p" "block t ?h" using bp st m uh hp sp by (auto simp: block_def t_def stop_def word_less_nat_alt)
  have sub: "iv t x \<subseteq> iv s x" if "x \<in> set ns \<union> A" for x using that same(3) [of x] ip(1) by (cases "x = p") auto
  have apart: "iv t x \<inter> iv t y = {}" if x: "x \<in> insert ?h A" and y: "y \<in> set ns \<union> insert ?h A" "x \<noteq> y" for x y
  proof (cases "x \<in> A")
    case xA: True
    show ?thesis
    proof (cases "y = ?h")
      case True
      then show ?thesis using h(8) [OF xA p(1)] ip(1) sub [of x] xA by blast
    next
      case False
      then have "y \<in> set ns \<union> A" using y(1) by blast
      then show ?thesis using h(8,9) [OF xA] sub [of x] sub [of y] xA y(2) by blast
    qed
  next
    case False
    then have xh: "x = ?h" using x by simp
    show ?thesis
    proof (cases "y = p")
      case True
      then show ?thesis using ip(2) xh by blast
    next
      case False
      then have y': "y \<in> set ns \<union> A" using y xh by blast
      then have "iv s p \<inter> iv s y = {}" using h(8) [of y p] p(1) sorted_apart [OF h(4), of p y] False by auto
      then show ?thesis using ip(1) sub [OF y'] xh by blast
    qed
  qed
  have "heap_inv t (insert ?h A) ns"
    unfolding heap_inv_def
  proof (intro conjI)
    show "links t (base_addr t # ns) (base_addr t)" using h(3) links_cong [of "?b # ns" t s ?b] by (simp add: t_def)
    show "sorted_wrt (\<lambda>x y. stop t x < unat y) (base_addr t # ns)" using so by (simp add: t_def)
    show "\<forall>x \<in> set ns \<union> insert ?h A. block t x"
    proof
      fix x assume "x \<in> set ns \<union> insert ?h A"
      then show "block t x" using bt same(4) [of x] h(6,7) by (cases "x = p \<or> x = ?h") auto
    qed
    show "\<forall>x \<in> insert ?h A. \<forall>y \<in> set ns \<union> insert ?h A. x \<noteq> y \<longrightarrow> iv t x \<inter> iv t y = {}" using apart by blast
    show "insert ?h A \<inter> set ns = {}" using A(2) h(10) by auto
    show "base_addr t \<noteq> 0" "h_size t (base_addr t) = 0" "freep t \<in> set (base_addr t # ns)"
      using h(1,2) bb(4) p(2) by (simp_all add: t_def)
  qed
  moreover have "area t ns \<union> iv t ?h = area s ns"
  proof -
    have "area s ns = iv s p \<union> (\<Union>x \<in> set ns - {p}. iv s x)" "area t ns = iv t p \<union> (\<Union>x \<in> set ns - {p}. iv t x)"
      using p(1) unfolding area_def by blast+
    moreover have "(\<Union>x \<in> set ns - {p}. iv t x) = (\<Union>x \<in> set ns - {p}. iv s x)" using same(3) by simp
    ultimately show ?thesis unfolding ip(1) by blast
  qed
  moreover have "\<forall>g \<in> A. h_size t g = h_size s g" using same(1) h(10) p(1) by auto
  moreover have "h_size t ?h = n" "base_addr t = ?b" "brks t = brks s" by (simp_all add: t_def)
  ultimately show ?thesis unfolding taken_def t_def [symmetric] using A(1) by blast
qed


lemma malloc_fit:
  assumes inv: "heap_inv s A ns" and i: "i < Suc (length ns)" and n: "0 < n" "n \<le> h_size s ((base_addr s # ns) ! (Suc i mod Suc (length ns)))"
  shows "\<exists>h t. malloc_loop (Suc k) fuel n ((base_addr s # ns) ! i) ((base_addr s # ns) ! (Suc i mod Suc (length ns))) s = Ok (h + 8) t
    \<and> taken s A ns n h t"
proof -
  let ?L = "base_addr s # ns" let ?p = "(base_addr s # ns) ! (Suc i mod Suc (length ns))"
  note h = heap_invD [OF inv]
  have "Suc i < length ?L"
  proof (rule ccontr)
    assume "\<not> Suc i < length ?L"
    then have "i = length ns" using i by simp
    then have "Suc i mod Suc (length ns) = 0" by simp
    then show False using n h(2) by simp
  qed
  then have lt: "Suc i < length ?L" and p: "?p = ?L ! Suc i" by simp_all
  have L: "?L = take i ?L @ ?L ! i # ?L ! Suc i # drop (Suc (Suc i)) ?L"
    using lt by (metis Cons_nth_drop_Suc Suc_lessD append_take_drop_id)
  show ?thesis
  proof (cases "h_size s ?p = n")
    case True
    have "malloc_loop (Suc k) fuel n (?L ! i) ?p s = Ok (?p + 8) (s\<lparr>h_ptr := (h_ptr s)(?L ! i := h_ptr s ?p), freep := ?L ! i\<rparr>)"
      using True by (simp add: set_ptr_def set_freep_def del: nth_Cons_Suc)
    moreover have "taken s A ns n ?p (s\<lparr>h_ptr := (h_ptr s)(?L ! i := h_ptr s ?p), freep := ?L ! i\<rparr>)"
      using take_exact [OF inv L] True unfolding p by simp
    ultimately show ?thesis by blast
  next
    case False
    then have lt': "n < h_size s ?p" using n(2) by simp
    have "malloc_loop (Suc k) fuel n (?L ! i) ?p s = Ok (?p + 8 * (h_size s ?p - n) + 8)
        (s\<lparr>h_size := (h_size s)(?p := h_size s ?p - n, ?p + 8 * (h_size s ?p - n) := n), freep := ?L ! i\<rparr>)"
      using False n(2) by (simp add: set_size_def set_freep_def del: nth_Cons_Suc)
    moreover have "?p \<in> set ns" using lt unfolding p by simp
    moreover have "?L ! i \<in> set ?L" using i by (intro nth_mem) simp
    ultimately show ?thesis using take_split [OF inv _ _ n(1) lt'] by blast
  qed
qed

lemma malloc_next:
  assumes "\<not> n \<le> h_size s p" "p \<noteq> freep s"
  shows "malloc_loop (Suc k) fuel n prevp p s = malloc_loop k fuel n p (h_ptr s p) s"
  using assms by simp

lemma malloc_more:
  assumes "\<not> n \<le> h_size s p" "p = freep s"
  shows "malloc_loop (Suc k) fuel n prevp p s =
    bind (morecore fuel n) (\<lambda>p. if p = 0 then return 0 else bind (gets (\<lambda>s. h_ptr s p)) (malloc_loop k fuel n p)) s"
  using assms by simp


text \<open>The blocks from a position up to \<open>freep\<close>.\<close>

lemma malloc_scan:
  assumes inv: "heap_inv s A ns" and f: "f < Suc (length ns)" "(base_addr s # ns) ! f = freep s" and d: "d < Suc (length ns)" and n: "0 < n"
  defines "L \<equiv> base_addr s # ns" and "N \<equiv> Suc (length ns)"
  shows "if \<exists>e \<le> d. n \<le> h_size s (L ! ((f + N - e) mod N))
    then \<exists>h t. malloc_loop (Suc d + k) fuel n (L ! ((f + N - Suc d) mod N)) (L ! ((f + N - d) mod N)) s = Ok (h + 8) t \<and> taken s A ns n h t
    else malloc_loop (Suc d + k) fuel n (L ! ((f + N - Suc d) mod N)) (L ! ((f + N - d) mod N)) s
      = bind (morecore fuel n) (\<lambda>p. if p = 0 then return 0 else bind (gets (\<lambda>s. h_ptr s p)) (malloc_loop k fuel n p)) s"
  using d
proof (induction d)
  case 0
  have fN: "f < N" using f(1) by (simp add: N_def)
  have N: "0 < N" "(f + N - 0) mod N = f" "Suc ((f + N - Suc 0) mod N) mod N = f"
  proof -
    show N0: "0 < N" "(f + N - 0) mod N = f" using fN by simp_all
    have "Suc ((f + N - Suc 0) mod N) mod N = Suc (f + N - Suc 0) mod N" by (simp only: mod_Suc_eq)
    also have "Suc (f + N - Suc 0) = f + N" using N0(1) by simp
    finally show "Suc ((f + N - Suc 0) mod N) mod N = f" using fN by simp
  qed
  show ?case
  proof (cases "n \<le> h_size s (L ! f)")
    case True
    have i: "(f + N - Suc 0) mod N < Suc (length ns)" by (simp add: N_def)
    have "\<exists>h t. malloc_loop (Suc k) fuel n (L ! ((f + N - Suc 0) mod N)) (L ! f) s = Ok (h + 8) t \<and> taken s A ns n h t"
      using malloc_fit [OF inv i n, of k fuel, folded L_def N_def, unfolded N(3)] True by blast
    moreover have "\<exists>e \<le> 0. n \<le> h_size s (L ! ((f + N - e) mod N))" by (intro exI [of _ 0]) (simp only: N(2) True le0 simp_thms)
    ultimately show ?thesis unfolding N(2) by (simp only: if_True add_Suc add_0)
  next
    case False
    then have "\<not> (\<exists>e \<le> 0. n \<le> h_size s (L ! ((f + N - e) mod N)))" using N(2) by simp
    moreover have "L ! f = freep s" using f(2) by (simp add: L_def)
    ultimately show ?thesis unfolding N(2) add_Suc add_0 using malloc_more [OF False] by (simp only: if_False)
  qed
next
  case (Suc d)
  have N: "Suc ((f + N - Suc (Suc d)) mod N) mod N = (f + N - Suc d) mod N" "Suc ((f + N - Suc d) mod N) mod N = (f + N - d) mod N"
  proof -
    have "Suc (f + N - Suc (Suc d)) = f + N - Suc d" "Suc (f + N - Suc d) = f + N - d" using Suc.prems by (simp_all add: N_def)
    then show "Suc ((f + N - Suc (Suc d)) mod N) mod N = (f + N - Suc d) mod N" "Suc ((f + N - Suc d) mod N) mod N = (f + N - d) mod N"
      by (simp_all only: mod_Suc_eq)
  qed
  define i where "i = (f + N - Suc d) mod N"
  have i: "i < Suc (length ns)" "i \<noteq> f"
  proof -
    show "i < Suc (length ns)" by (simp add: i_def N_def)
    show "i \<noteq> f"
    proof (cases "Suc d \<le> f")
      case True
      then have "i = (f - Suc d + N) mod N" unfolding i_def by simp
      also have "\<dots> = f - Suc d" using f(1) by (simp only: mod_add_self2) (simp add: N_def)
      finally have "i = f - Suc d" .
      then show ?thesis using True by simp
    next
      case False
      then have "i = f + N - Suc d" using Suc.prems f(1) by (simp add: i_def N_def)
      then show ?thesis using Suc.prems by (simp add: N_def)
    qed
  qed
  have nx: "h_ptr s (L ! i) = L ! (Suc i mod N)"
  proof -
    have "h_ptr s (L ! i) = (if Suc i < length L then L ! Suc i else base_addr s)"
      by (rule links_nth) (use heap_invD(3) [OF inv] i(1) in \<open>simp_all add: L_def\<close>)
    moreover have "Suc i = N" if "\<not> Suc i < length L" using i(1) that by (simp add: L_def N_def)
    ultimately show ?thesis by (cases "Suc i < length L") (simp_all add: L_def N_def)
  qed
  have nf: "L ! i \<noteq> freep s"
  proof -
    have "distinct L" unfolding L_def by (rule sorted_distinct [OF heap_invD(4) [OF inv]])
    moreover have "length L = Suc (length ns)" by (simp add: L_def)
    ultimately have "L ! i \<noteq> L ! f" using f(1) i nth_eq_iff_index_eq by metis
    then show ?thesis using f(2) by (simp add: L_def)
  qed
  let ?P = "\<lambda>d. \<exists>e \<le> d. n \<le> h_size s (L ! ((f + N - e) mod N))"
  show ?case
  proof (cases "n \<le> h_size s (L ! i)")
    case True
    have j: "(f + N - Suc (Suc d)) mod N < Suc (length ns)" by (simp add: N_def)
    have "\<exists>h t. malloc_loop (Suc (Suc d + k)) fuel n (L ! ((f + N - Suc (Suc d)) mod N)) (L ! i) s = Ok (h + 8) t \<and> taken s A ns n h t"
      using malloc_fit [OF inv j n, of "Suc d + k" fuel, folded L_def N_def, unfolded N(1), folded i_def] True by blast
    moreover have "?P (Suc d)" using True unfolding i_def by blast
    ultimately show ?thesis unfolding i_def [symmetric] add_Suc by (simp only: if_True)
  next
    case False
    have "?P (Suc d) \<longleftrightarrow> ?P d" using False unfolding i_def by (auto simp: le_Suc_eq)
    moreover have "malloc_loop (Suc (Suc d) + k) fuel n (L ! ((f + N - Suc (Suc d)) mod N)) (L ! i) s
        = malloc_loop (Suc d + k) fuel n (L ! i) (L ! ((f + N - d) mod N)) s"
      unfolding add_Suc malloc_next [OF False nf] nx using N(2) by (simp add: i_def)
    ultimately show ?thesis using Suc.IH [OF Suc_lessD [OF Suc.prems]] unfolding i_def [symmetric] by (simp only:)
  qed
qed


text \<open>A whole turn, which begins after \<open>freep\<close> and ends with it.\<close>

lemma malloc_turn:
  assumes inv: "heap_inv s A ns" and n: "0 < n"
  shows "if \<exists>x \<in> set ns. n \<le> h_size s x
    then \<exists>h t. malloc_loop (Suc (length ns) + k) fuel n (freep s) (h_ptr s (freep s)) s = Ok (h + 8) t \<and> taken s A ns n h t
    else malloc_loop (Suc (length ns) + k) fuel n (freep s) (h_ptr s (freep s)) s
      = bind (morecore fuel n) (\<lambda>p. if p = 0 then return 0 else bind (gets (\<lambda>s. h_ptr s p)) (malloc_loop k fuel n p)) s"
proof -
  define L where "L = base_addr s # ns"
  define N where "N = Suc (length ns)"
  note h = heap_invD [OF inv]
  obtain f where f: "f < N" "L ! f = freep s" using h(5) in_set_conv_nth [of "freep s" L] by (auto simp: L_def N_def)
  have ix: "(f + N - N) mod N = f" "(f + N - length ns) mod N = Suc f mod N" using f(1) by (simp_all add: N_def)
  have nx: "h_ptr s (freep s) = L ! (Suc f mod N)"
    using links_nth [OF h(3), of f] f by (auto simp: L_def N_def less_Suc_eq)
  have ex: "(\<exists>e \<le> length ns. n \<le> h_size s (L ! ((f + N - e) mod N))) \<longleftrightarrow> (\<exists>x \<in> set ns. n \<le> h_size s x)"
  proof
    assume "\<exists>e \<le> length ns. n \<le> h_size s (L ! ((f + N - e) mod N))"
    then obtain e where e: "n \<le> h_size s (L ! ((f + N - e) mod N))" by blast
    have "L ! ((f + N - e) mod N) \<in> set L" by (rule nth_mem) (simp add: L_def N_def)
    moreover have "L ! ((f + N - e) mod N) \<noteq> base_addr s" using e h(2) n by auto
    ultimately show "\<exists>x \<in> set ns. n \<le> h_size s x" using e by (auto simp: L_def)
  next
    assume "\<exists>x \<in> set ns. n \<le> h_size s x"
    then obtain x where x: "x \<in> set L" "n \<le> h_size s x" by (auto simp: L_def)
    have "length L = N" by (simp add: L_def N_def)
    then obtain j where j: "j < N" "L ! j = x" using x(1) unfolding in_set_conv_nth by auto
    obtain e where "e < N" "(f + N - e) mod N = j" using cyclic_index [OF j(1) f(1)] by blast
    then show "\<exists>e \<le> length ns. n \<le> h_size s (L ! ((f + N - e) mod N))" using j(2) x(2) by (intro exI [of _ e]) (simp add: N_def)
  qed
  show ?thesis
    using malloc_scan [OF inv f(1,2) [unfolded L_def N_def] lessI n, of k fuel, folded L_def N_def, unfolded ix ex]
    unfolding f(2) nx N_def .
qed


section \<open>More memory\<close>

lemma freep_nonzero:
  assumes "heap_inv s A ns"
  shows "freep s \<noteq> 0"
proof
  note h = heap_invD [OF assms]
  assume "freep s = 0"
  then have "0 \<in> set ns" using h(1,5) by auto
  from h(6) [OF this] show False by (simp add: block_def)
qed

definition units :: "uint32 \<Rightarrow> uint32" where
  "units nu = (if nu < 4096 then 4096 else nu)"

text \<open>Memory that the kernel hands out is new: above \<open>base\<close>, and apart from all blocks.\<close>

definition granted :: "arena \<Rightarrow> uint32 set \<Rightarrow> uint32 list \<Rightarrow> uint32 \<Rightarrow> nat \<Rightarrow> bool" where
  "granted s A ns b n \<longleftrightarrow> b \<noteq> - 1 \<and> unat (base_addr s) + 8 \<le> unat b \<and> unat b + 8 * n < 2 ^ 32
     \<and> (\<forall>x \<in> set ns \<union> A. {unat b..<unat b + 8 * n} \<inter> iv s x = {})"

lemma morecore_returns:
  assumes inv: "heap_inv s A ns" and brk: "brks s = b # bs" "granted s A ns b (unat (units n))" and fuel: "length ns < fuel"
  shows "returns (morecore fuel n) s (\<lambda>r t. r = freep t \<and> r \<noteq> 0 \<and> base_addr t = base_addr s \<and> brks t = bs \<and> (\<forall>h \<in> A. h_size t h = h_size s h)
    \<and> (\<exists>ns'. heap_inv t A ns' \<and> area t ns' = area s ns \<union> {unat b..<unat b + 8 * unat (units n)} \<and> length ns' \<le> Suc (length ns)
         \<and> (\<exists>x \<in> set ns'. n \<le> h_size t x)))"
proof -
  let ?u = "s\<lparr>brks := bs, h_size := (h_size s)(b := units n)\<rparr>"
  note h = heap_invD [OF inv]
  have u: "0 < units n" "n \<le> units n" by (auto simp: units_def word_less_nat_alt word_le_nat_alt)
  have g: "b \<noteq> - 1" "unat (base_addr s) + 8 \<le> unat b" "unat b + 8 * unat (units n) < 2 ^ 32"
    "\<And>x. x \<in> set ns \<union> A \<Longrightarrow> {unat b..<unat b + 8 * unat (units n)} \<inter> iv s x = {}"
    using brk(2) by (simp_all add: granted_def)
  have ib: "iv ?u b = {unat b..<unat b + 8 * unat (units n)}" "stop ?u b = unat b + 8 * unat (units n)" by (simp_all add: iv_def stop_def)
  have pos: "unat b \<in> iv ?u b" using u(1) unfolding ib by (simp add: word_less_nat_alt)
  have nb: "x \<noteq> b" if "x \<in> set (base_addr s # ns) \<union> A" for x
  proof
    assume x: "x = b"
    then have "x \<in> set ns \<union> A" using that g(2) by auto
    moreover from this have "unat x \<in> iv s x" using h(6,7) block_pos(1) by blast
    ultimately show False using g(4) [of x] pos x ib(1) by blast
  qed
  have same: "h_size ?u x = h_size s x" "stop ?u x = stop s x" "iv ?u x = iv s x" "block ?u x = block s x" if "x \<in> set (base_addr s # ns) \<union> A" for x
    using nb [OF that] by (auto simp: stop_def iv_def block_def)
  have inv': "heap_inv ?u A ns"
    unfolding heap_inv_def
  proof (intro conjI)
    show "links ?u (base_addr ?u # ns) (base_addr ?u)" using h(3) links_cong [of "base_addr s # ns" ?u s "base_addr s"] by simp
    show "sorted_wrt (\<lambda>x y. stop ?u x < unat y) (base_addr ?u # ns)"
      using h(4) sorted_stop_cong [of "base_addr s # ns" ?u s, OF same(2) [OF UnI1]] by simp
    show "\<forall>x \<in> set ns \<union> A. block ?u x" using same(4) h(6,7) by auto
    show "\<forall>x \<in> A. \<forall>y \<in> set ns \<union> A. x \<noteq> y \<longrightarrow> iv ?u x \<inter> iv ?u y = {}"
    proof (intro ballI impI)
      fix x y assume xy: "x \<in> A" "y \<in> set ns \<union> A" "x \<noteq> y"
      then have "iv s x \<inter> iv s y = {}" using h(8) [of x y] h(9) [of x y] by blast
      then show "iv ?u x \<inter> iv ?u y = {}" using same(3) [of x] same(3) [of y] xy by simp
    qed
  qed (use h(1,2,5,10) same(1) [of "base_addr s"] in simp_all)
  have blk: "block ?u b" using g(2,3) u(1) ib(2) by (simp add: block_def)
  have ap: "\<forall>x \<in> set ns \<union> A. iv ?u b \<inter> iv ?u x = {}" using g(4) same(3) unfolding ib by auto
  from ufree_returns [OF inv' blk ap fuel] obtain t ns' where t: "ufree fuel (b + 8) ?u = Ok () t" "base_addr t = base_addr s" "brks t = bs"
    "\<forall>h \<in> A. h_size t h = h_size ?u h" "heap_inv t A ns'" "area t ns' = area ?u ns \<union> iv ?u b" "length ns' \<le> Suc (length ns)"
    "\<exists>x \<in> set ns'. units n \<le> h_size t x"
    unfolding returns_iff by auto
  have "freep t \<noteq> 0" by (rule freep_nonzero [OF t(5)])
  moreover have "morecore fuel n s = Ok (freep t) t"
    using brk(1) g(1) t(1) unfolding morecore_def units_def [symmetric] usbrk_def set_size_def by (simp add: Let_def)
  moreover have "area ?u ns = area s ns" using same(3) by (simp add: area_def)
  moreover have "\<forall>h \<in> A. h_size t h = h_size s h" using t(4) same(1) by auto
  moreover have "\<exists>x \<in> set ns'. n \<le> h_size t x" using t(8) u(2) by (meson order_trans)
  ultimately show ?thesis using t unfolding returns_def ib by auto
qed


section \<open>The allocator is correct\<close>

definition nunits :: "uint32 \<Rightarrow> uint32" where
  "nunits nbytes = (nbytes + 8 - 1) div 8 + 1"



lemma nunits_wraps:
  assumes "0xFFFFFFF9 \<le> nbytes"
  shows "nunits nbytes = 1"
proof -
  have n: "0xFFFFFFF9 \<le> unat nbytes" using assms by (simp add: word_le_nat_alt)
  have "unat (nbytes + 7) = (unat nbytes + 7) mod 2 ^ 32" by (simp add: unat_word_ariths)
  also have "\<dots> = unat nbytes + 7 - 2 ^ 32" using n unat_lt_2p32 [of nbytes] by (simp add: mod_if)
  finally have "unat (nbytes + 7) < 8" using unat_lt_2p32 [of nbytes] by simp
  then have "unat ((nbytes + 7) div 8) = 0" unfolding unat_div by simp
  then have "(nbytes + 7) div 8 = 0" by (simp only: unat_eq_zero)
  moreover have e: "nbytes + 8 - 1 = nbytes + 7" by simp
  ultimately show ?thesis unfolding nunits_def e by (simp only: add_0)
qed

lemma umalloc_run: "freep s \<noteq> 0 \<Longrightarrow> umalloc fuel nbytes s = malloc_loop fuel fuel (nunits nbytes) (freep s) (h_ptr s (freep s)) s"
  by (simp add: umalloc_def nunits_def Let_def)

lemma heap_inv_brks: "heap_inv s A ns \<Longrightarrow> heap_inv (s\<lparr>brks := bs\<rparr>) A ns"
proof -
  assume inv: "heap_inv s A ns"
  have f: "stop (s\<lparr>brks := bs\<rparr>) = stop s" "iv (s\<lparr>brks := bs\<rparr>) = iv s" "block (s\<lparr>brks := bs\<rparr>) = block s"
    by (auto simp: stop_def iv_def block_def fun_eq_iff)
  have l: "links (s\<lparr>brks := bs\<rparr>) xs e = links s xs e" for xs e by (rule links_cong) simp
  show ?thesis using inv unfolding heap_inv_def f by (simp add: l)
qed

text \<open>What an allocation of \<open>n\<close> units that ends with the result \<open>r\<close> has done.\<close>

definition allocated :: "arena \<Rightarrow> uint32 set \<Rightarrow> uint32 \<Rightarrow> uint32 \<Rightarrow> arena \<Rightarrow> bool" where
  "allocated s A n r t \<longleftrightarrow> r \<noteq> 0 \<and> r - 8 \<notin> A \<and> h_size t (r - 8) = n \<and> (\<forall>g \<in> A. h_size t g = h_size s g)
     \<and> (\<exists>ns'. heap_inv t (insert (r - 8) A) ns')"

lemma taken_allocated:
  assumes "taken u A ns n h t" "\<forall>g \<in> A. h_size u g = h_size s g"
  shows "allocated s A n (h + 8) t"
proof -
  have t: "h \<notin> A" "h_size t h = n" "\<forall>g \<in> A. h_size t g = h_size u g" and "\<exists>ns'. heap_inv t (insert h A) ns'"
    using assms(1) unfolding taken_def by blast+
  then obtain ns' where inv: "heap_inv t (insert h A) ns'" by blast
  have "block t h" by (rule heap_invD(7) [OF inv]) simp
  then have "unat h + 8 < 2 ^ 32" by (simp add: block_def stop_def word_less_nat_alt)
  then have "unat (h + 8) = unat h + 8" by (simp add: unat_word_ariths)
  then have "h + 8 \<noteq> 0" by (metis add_is_0 unat_0 zero_neq_numeral)
  then show ?thesis using t inv assms(2) unfolding allocated_def by auto
qed

lemma malloc_loop_returns:
  assumes inv: "heap_inv s A ns" and fuel: "2 * length ns + 3 \<le> fuel" and n: "0 < n"
    and brk: "brks s = b # bs" "b = - 1 \<or> granted s A ns b (unat (units n))"
  shows "returns (malloc_loop fuel fuel n (freep s) (h_ptr s (freep s))) s (\<lambda>r t.
    if r = 0 then b = - 1 \<and> (\<forall>x \<in> set ns. h_size s x < n) \<and> heap_inv t A ns \<and> h_size t = h_size s
    else allocated s A n r t)"
proof -
  obtain k where k: "fuel = Suc (length ns) + k" "length ns + 2 \<le> k"
    using fuel by (intro that [of "fuel - Suc (length ns)"]) simp_all
  let ?m = "malloc_loop fuel fuel n (freep s) (h_ptr s (freep s)) s"
  note turn = malloc_turn [OF inv n, of k fuel, folded k(1)]
  show ?thesis
  proof (cases "\<exists>x \<in> set ns. n \<le> h_size s x")
    case True
    then obtain h t where t: "?m = Ok (h + 8) t" "taken s A ns n h t" using turn by auto
    have "allocated s A n (h + 8) t" by (rule taken_allocated [OF t(2)]) simp
    then show ?thesis using t(1) unfolding returns_def by (simp add: allocated_def)
  next
    case False
    then have m: "?m = bind (morecore fuel n) (\<lambda>p. if p = 0 then return 0 else bind (gets (\<lambda>s. h_ptr s p)) (malloc_loop k fuel n p)) s"
      using turn by simp
    have small: "\<forall>x \<in> set ns. h_size s x < n" using False by auto
    show ?thesis
    proof (cases "b = - 1")
      case True
      have "morecore fuel n s = Ok 0 (s\<lparr>brks := bs\<rparr>)" using brk(1) True by (simp add: morecore_def usbrk_def Let_def)
      then have "?m = Ok 0 (s\<lparr>brks := bs\<rparr>)" unfolding m by (simp add: bind_app return_def)
      moreover have "heap_inv (s\<lparr>brks := bs\<rparr>) A ns" by (rule heap_inv_brks [OF inv])
      ultimately show ?thesis using True small by (simp add: returns_def)
    next
      case b: False
      have "length ns < fuel" using fuel by simp
      from morecore_returns [OF inv brk(1) _ this, of n] brk(2) b obtain t ns' where
        t: "morecore fuel n s = Ok (freep t) t" "freep t \<noteq> 0" "\<forall>g \<in> A. h_size t g = h_size s g" "heap_inv t A ns'"
          "length ns' \<le> Suc (length ns)" "\<exists>x \<in> set ns'. n \<le> h_size t x"
        unfolding returns_iff by auto
      obtain k' where k': "k = Suc (length ns') + k'" using k(2) t(5) by (intro that [of "k - Suc (length ns')"]) simp
      have "?m = malloc_loop k fuel n (freep t) (h_ptr t (freep t)) t" unfolding m using t(1,2) by (simp add: bind_app)
      moreover obtain h u where u: "malloc_loop k fuel n (freep t) (h_ptr t (freep t)) t = Ok (h + 8) u" "taken t A ns' n h u"
        using malloc_turn [OF t(4) n, of k' fuel, folded k'] t(6) by auto
      moreover have "allocated s A n (h + 8) u" by (rule taken_allocated [OF u(2) t(3)])
      ultimately show ?thesis by (simp add: returns_def allocated_def)
    qed
  qed
qed

text \<open>The state before the first allocation, and any later one.\<close>

definition heap_ok :: "arena \<Rightarrow> uint32 set \<Rightarrow> uint32 list \<Rightarrow> bool" where
  "heap_ok s A ns \<longleftrightarrow> (if freep s = 0 then base_addr s \<noteq> 0 \<and> A = {} \<and> ns = [] else heap_inv s A ns)"

definition first_use :: "arena \<Rightarrow> arena" where
  "first_use s = (if freep s = 0 then s\<lparr>freep := base_addr s, h_ptr := (h_ptr s)(base_addr s := base_addr s),
     h_size := (h_size s)(base_addr s := 0)\<rparr> else s)"

lemma first_use_inv: "heap_ok s A ns \<Longrightarrow> heap_inv (first_use s) A ns"
  by (auto simp: heap_ok_def first_use_def heap_inv_def split: if_splits)

lemma first_use_frame: "heap_ok s A ns \<Longrightarrow> x \<in> set ns \<union> A \<Longrightarrow> h_size (first_use s) x = h_size s x"
    "base_addr (first_use s) = base_addr s" "brks (first_use s) = brks s"
  by (auto simp: heap_ok_def first_use_def split: if_splits)

lemma umalloc_first_use:
  assumes "heap_ok s A ns"
  shows "umalloc fuel nbytes s = malloc_loop fuel fuel (nunits nbytes) (freep (first_use s))
    (h_ptr (first_use s) (freep (first_use s))) (first_use s)"
  by (simp add: umalloc_def nunits_def Let_def first_use_def do_if_def set_freep_def set_ptr_def set_size_def)

lemma umalloc_returns:
  assumes ok: "heap_ok s A ns" and fuel: "2 * length ns + 3 \<le> fuel" and n: "0 < nunits nbytes"
    and brk: "brks s = b # bs" "b = - 1 \<or> granted s A ns b (unat (units (nunits nbytes)))"
  shows "returns (umalloc fuel nbytes) s (\<lambda>r t.
    if r = 0 then b = - 1 \<and> (\<forall>x \<in> set ns. h_size s x < nunits nbytes) \<and> heap_inv t A ns \<and> (\<forall>g \<in> A. h_size t g = h_size s g)
    else allocated s A (nunits nbytes) r t)"
proof -
  let ?s = "first_use s"
  note f = first_use_frame(1) [OF ok]
  have "iv ?s x = iv s x" if "x \<in> set ns \<union> A" for x using f [OF that] by (simp add: iv_def stop_def)
  then have b: "b = - 1 \<or> granted ?s A ns b (unat (units (nunits nbytes)))"
    using brk(2) by (simp add: granted_def first_use_frame(2))
  have "brks ?s = b # bs" using brk(1) by (simp add: first_use_frame(3))
  from malloc_loop_returns [OF first_use_inv [OF ok] fuel n this b]
  have "returns (umalloc fuel nbytes) s (\<lambda>r t.
    if r = 0 then b = - 1 \<and> (\<forall>x \<in> set ns. h_size ?s x < nunits nbytes) \<and> heap_inv t A ns \<and> h_size t = h_size ?s
    else allocated ?s A (nunits nbytes) r t)"
    unfolding returns_def umalloc_first_use [OF ok] .
  then show ?thesis
  proof (rule returns_mono, goal_cases)
    case (1 r t)
    have "allocated ?s A (nunits nbytes) r t \<Longrightarrow> allocated s A (nunits nbytes) r t"
      using f unfolding allocated_def by simp
    then show ?case using 1 f by (auto split: if_splits)
  qed
qed




text \<open>
  C40. The size wraps around: a call of \<open>malloc\<close> for one of the seven largest sizes does not
  fail but returns a block of a single unit, its header, without room for any byte.
\<close>

theorem malloc_size_wraps:
  assumes "heap_ok s A ns" "2 * length ns + 3 \<le> fuel" "0xFFFFFFF9 \<le> nbytes"
    and "brks s = b # bs" "granted s A ns b 4096"
  shows "returns (umalloc fuel nbytes) s (\<lambda>r t. r \<noteq> 0 \<and> h_size t (r - 8) = 1)"
proof -
  have n: "nunits nbytes = 1" by (rule nunits_wraps [OF assms(3)])
  have "units 1 = 4096" by (simp add: units_def)
  then have b: "b = - 1 \<or> granted s A ns b (unat (units (nunits nbytes)))" using assms(5) by (simp add: n)
  have "0 < nunits nbytes" "b \<noteq> - 1" using n assms(5) by (simp_all add: granted_def)
  from umalloc_returns [OF assms(1,2) this(1) assms(4) b] show ?thesis
    by (rule returns_mono) (use \<open>b \<noteq> - 1\<close> n in \<open>auto simp: allocated_def split: if_splits\<close>)
qed

section \<open>Concrete instances\<close>

text \<open>A program that has not called \<open>malloc\<close> yet, and one with a block of 80 bytes in use.\<close>

definition fresh_arena :: arena where
  "fresh_arena = \<lparr>h_ptr = (\<lambda>_. 0), h_size = (\<lambda>_. 0), freep = 0, base_addr = 0x1000, brks = [0x4000]\<rparr>"


lemma fresh_facts: "heap_ok fresh_arena {} []" "brks fresh_arena = [0x4000]" "granted fresh_arena {} [] 0x4000 4096"
  by (simp_all add: heap_ok_def fresh_arena_def granted_def)



lemma malloc_size_wraps_witness: "returns (umalloc 3 0xFFFFFFFF) fresh_arena (\<lambda>r t. r \<noteq> 0 \<and> h_size t (r - 8) = 1)"
  by (rule malloc_size_wraps [OF fresh_facts(1) _ _ fresh_facts(2,3)]) simp_all

end
