(* ===== verification/Spec2Isabelle.thy ===== *)
theory Spec2Isabelle
  imports Smp Boot Ide Pipe_Queue Console_Lines Icache Process_Count Fs_Files Sys_Args Shell_Parse User_Lib Umalloc
begin

text \<open>
  A verification of xv6, the teaching kernel under \<^verbatim>\<open>src/xv6-public\<close>, and of the user
  programs that come with it.

  \<^bold>\<open>The program.\<close> The kernel is one program that all processors run. Spin locks
  (\<^verbatim>\<open>spinlock.c\<close>) protect its tables. Processes (\<^verbatim>\<open>proc.c\<close>) sleep and are woken under
  such a lock. The page allocator (\<^verbatim>\<open>kalloc.c\<close>) hands out physical memory, of which
  \<^verbatim>\<open>vm.c\<close> makes address spaces. The file system is a tower: the disk driver
  (\<^verbatim>\<open>memide.c\<close>, or \<^verbatim>\<open>ide.c\<close>), the buffer cache (\<^verbatim>\<open>bio.c\<close>), the log that makes
  updates atomic (\<^verbatim>\<open>log.c\<close>), inodes, directories and paths (\<^verbatim>\<open>fs.c\<close>), open files and
  pipes (\<^verbatim>\<open>file.c\<close>, \<^verbatim>\<open>pipe.c\<close>). System calls (\<^verbatim>\<open>syscall.c\<close>, \<^verbatim>\<open>sysproc.c\<close>,
  \<^verbatim>\<open>sysfile.c\<close>, \<^verbatim>\<open>exec.c\<close>) are reached through traps (\<^verbatim>\<open>trap.c\<close>). User programs,
  the shell among them, see only the system calls.

  \<^bold>\<open>The model.\<close> Every routine of the kernel is a function on the record \<open>kernel\<close> of the
  kernel's global variables (theory \<open>Kernel_State\<close>). It ends in an \<open>outcome\<close> (theory
  \<open>Prelude\<close>): \<open>Ok\<close> with a result; \<open>Panic\<close> with the message of \<^verbatim>\<open>panic\<close>; \<open>Swtch\<close> when it
  has called the scheduler; \<open>Spin\<close> when it waits for another processor or a device that the
  model does not let act; \<open>Fault\<close> where the C program would leave an array. A routine that
  sleeps is cut at the switch, and goes on as the routine with suffix \<open>_resume\<close> or at the
  head of the loop that called \<open>sleep\<close>. The predicate \<open>returns m s Q\<close> is total: the routine
  returns, and its result and state satisfy \<open>Q\<close>.

  \<^item> \<open>Prelude\<close>, \<open>Mmu\<close>, \<open>CString\<close>, \<open>Ring\<close>: the combinators of routines, byte encodings,
    the constants and macros of \<^verbatim>\<open>param.h\<close>, \<^verbatim>\<open>fs.h\<close>, \<^verbatim>\<open>memlayout.h\<close>, \<^verbatim>\<open>mmu.h\<close>; the
    routines of \<^verbatim>\<open>string.c\<close>; circular buffers.
  \<^item> \<open>Kernel_State\<close>: the structs of \<^verbatim>\<open>proc.h\<close>, \<^verbatim>\<open>spinlock.h\<close>, \<^verbatim>\<open>buf.h\<close>, \<^verbatim>\<open>file.h\<close>,
    \<^verbatim>\<open>x86.h\<close>, and the record \<open>kernel\<close>.
  \<^item> \<open>Spinlock\<close>: \<^verbatim>\<open>spinlock.c\<close>, and the calculus of critical sections that the other
    theories use: what an \<open>acquire\<close>, a \<open>release\<close> and a matched pair do to the state.
  \<^item> \<open>Smp\<close>: \<open>acquire\<close> and \<open>release\<close> statement by statement (\<open>acquire_at\<close>, \<open>release_at\<close>).
    The relation \<open>lock_step\<close> lets any number of processors call them and interleaves their
    statements, with \<open>xchg\<close> as the only atomic access to a lock; at most one processor is
    inside a critical section, and the holder runs with interrupts off. A processor that
    is not disturbed goes through the states of the routines of \<open>Spinlock\<close>
    (\<open>acquire_runs\<close>, \<open>release_runs\<close>).
  \<^item> \<open>Kalloc\<close>: \<^verbatim>\<open>kalloc.c\<close>, with the free list in the free pages. Initialisation frees every
    page of its range once, allocated pages are distinct, freeing puts a page back.
  \<^item> \<open>Sched\<close>: \<open>allocproc\<close>, \<open>sched\<close>, \<open>yield\<close>, \<open>sleep\<close>, \<open>wakeup\<close> and \<open>kill\<close> of \<^verbatim>\<open>proc.c\<close>. No
    interleaving of the statements of a sleeper and a waker loses a wakeup; \<open>sleep\<close> hands
    the processor over with the right locks and gets its lock back when it is resumed;
    new processes have fresh identifiers until \<open>nextpid\<close>, a 32-bit \<open>int\<close>, is used up;
    what \<open>kill\<close> changes and what it leaves alone.
  \<^item> \<open>Bio\<close>, \<open>Bio_Cache\<close>: \<^verbatim>\<open>bio.c\<close> over \<^verbatim>\<open>memide.c\<close>. The invariant \<open>bio_ok\<close> of the linked list
    of buffers; \<open>view\<close>, the content of a block as the kernel sees it, does not depend on
    which buffers are recycled; replacement is least recently used. The locale of the
    cache is what the log relies on.
  \<^item> \<open>Log\<close>, \<open>Recovery\<close>: \<^verbatim>\<open>log.c\<close>. Between any two disk writes a crash leaves a transaction
    done or not done, and recovery may itself be interrupted.
  \<^item> \<open>Uart\<close>, \<open>Console\<close>, \<open>Console_Lines\<close>: \<^verbatim>\<open>uart.c\<close>, \<^verbatim>\<open>picirq.c\<close>, \<^verbatim>\<open>timer.c\<close>,
    \<^verbatim>\<open>console.c\<close>, \<^verbatim>\<open>kbd.c\<close>. The input buffer refines an abstract line editor; a typed
    line is the line read; the cursor stays on the screen; numbers print right.
  \<^item> \<open>Inode\<close>, \<open>File\<close>, \<open>Pipe_Queue\<close>: \<^verbatim>\<open>fs.c\<close>, \<^verbatim>\<open>file.c\<close>, \<^verbatim>\<open>pipe.c\<close>. A pipe delivers what was
    written, in order, whatever turns its reader and its writer take, and each side wakes
    the other.
  \<^item> \<open>Fs_Blocks\<close>, \<open>Fs_Inodes\<close>, \<open>Fs_Files\<close>: the layers of \<^verbatim>\<open>fs.c\<close> over the log and the
    cache. \<open>balloc\<close> and \<open>bfree\<close> change one bit of the free map; inodes survive on disk;
    \<open>writei\<close> and \<open>readi\<close> store and return the bytes of a file without touching other
    blocks, where \<open>file_state\<close> says which blocks a file has and how they are reached.
  \<^item> \<open>Maintains\<close>, \<open>Icache\<close>: a calculus for what a routine keeps in every outcome, and with it
    that the inode cache never has two entries for one inode.
  \<^item> \<open>Vm\<close>, \<open>Process\<close>, \<open>Sysfile\<close>: \<^verbatim>\<open>vm.c\<close>, the rest of \<^verbatim>\<open>proc.c\<close>, \<^verbatim>\<open>syscall.c\<close>,
    \<^verbatim>\<open>sysproc.c\<close>, \<^verbatim>\<open>sysfile.c\<close>, \<^verbatim>\<open>exec.c\<close>.
  \<^item> \<open>Process_Count\<close>, \<open>Page_Tables\<close>, \<open>Sys_Args\<close>: properties of these. \<open>sys_getpcount\<close>
    counts the processes in use; \<open>walkpgdir\<close> and \<open>mappages\<close> extend the map from virtual
    to physical pages, represented by \<open>vm_ok\<close>, and keep the rest of it; system call
    arguments are checked against the size of the process before they are used.
  \<^item> \<open>Apic\<close>, \<open>Ide\<close>, \<open>Boot\<close>: \<^verbatim>\<open>mp.c\<close>, \<^verbatim>\<open>lapic.c\<close>, \<^verbatim>\<open>ioapic.c\<close>, \<^verbatim>\<open>ide.c\<close>, \<^verbatim>\<open>trap.c\<close>,
    \<^verbatim>\<open>main.c\<close>, \<^verbatim>\<open>bootmain.c\<close>.
  \<^item> \<open>User\<close>, \<open>Shell\<close>: \<^verbatim>\<open>ulib.c\<close>, \<^verbatim>\<open>printf.c\<close>, the small programs, and \<^verbatim>\<open>sh.c\<close>. The state of
    a program is the list of its system calls and of the answers still to come.
  \<^item> \<open>Shell_Parse\<close>, \<open>Grep_Match\<close>, \<open>User_Lib\<close>: the shell's parser ends and inverts printing;
    \<open>grep\<close> matches the language of its pattern; \<open>wc\<close> counts, with counters of 32 bits;
    \<open>atoi\<close> reads what \<open>printf\<close> prints.
  \<^item> \<open>Umalloc\<close>: \<^verbatim>\<open>umalloc.c\<close>, on the headers of the blocks by address. The invariant
    \<open>heap_inv\<close> has the circular free list in the order of the addresses and all blocks
    apart; \<open>malloc\<close> and \<open>free\<close> end and keep it, \<open>malloc\<close> returns a block that is large
    enough, and the number of units it computes wraps around for the largest sizes.

  \<^bold>\<open>Bounds and fuel.\<close> A loop over a static table is a \<open>foreach\<close> over its indices. A loop that
  waits for a device takes as much fuel as there is device input (\<open>poll\<close>), a user loop
  as there are answers (\<open>while_answers\<close>), and ends in \<open>Spin\<close> without. The shell's
  parser gets the recursion depth \<open>parse_fuel\<close>, which is proved enough; the searches of
  \<open>malloc\<close> and \<open>free\<close> get a number of turns, and one that is linear in the length of the
  free list is proved enough. The loops that
  sleep turn once and end in \<open>Swtch\<close>. Words are 32 or 8 bits wide and wrap around.

  \<^bold>\<open>Not modelled.\<close> The assembly files and the tables in them, whose work is the outcome
  \<open>Swtch\<close> and the call of \<open>trap\<close>; the output of \<^verbatim>\<open>panic\<close>; memory ordering between
  processors (memory is sequentially consistent, and outside of \<open>Smp\<close>, \<open>Sched\<close> and
  \<open>Pipe_Queue\<close> a routine is not interrupted); the test programs \<^verbatim>\<open>usertests.c\<close>,
  \<^verbatim>\<open>forktest.c\<close> and \<^verbatim>\<open>stressfs.c\<close>. Interrupts happen where a routine is called, not between
  two statements, except in the interleavings of \<open>Smp\<close>, \<open>Sched\<close> and \<open>Pipe_Queue\<close>, which
  are explicit.
\<close>

end
